(* ===== verification/Prelude.thy ===== *)
theory Prelude
  imports Main "HOL-Library.Word"
begin

text \<open>
  Shared vocabulary of the development.

  \<^item> Pointers: an address is a natural number, a pointer is an address option, and
    \<open>None\<close> is \<open>nullptr\<close>. \<open>path\<close> says which objects a chain of links visits.
  \<^item> C arithmetic: \<open>cdiv\<close> and \<open>cmod\<close> are the truncating division and remainder of C++.
  \<^item> C strings: a \<open>cstr\<close> is the list of the characters in front of the terminating NUL;
    \<open>cchar s i\<close> is what \<open>s[i]\<close> reads up to and including the terminator.
  \<^item> Two interfaces, each a locale: \<open>fifo\<close> for containers that give objects back in the
    order they were put in, and \<open>invariant_system\<close> for transition systems with an
    inductive invariant.
\<close>

section \<open>Collections of rewrite rules\<close>

named_theorems path_simps \<open>rewriting of link chains\<close>
named_theorems cpp_simps \<open>C arithmetic and C strings\<close>

section \<open>Pointers and link chains\<close>

type_synonym addr = nat
type_synonym ptr = "addr option"

fun path :: "(addr \<Rightarrow> ptr) \<Rightarrow> ptr \<Rightarrow> addr list \<Rightarrow> ptr \<Rightarrow> bool" where
  "path link p [] q \<longleftrightarrow> p = q"
| "path link p (x # xs) q \<longleftrightarrow> p = Some x \<and> path link (link x) xs q"

abbreviation chain :: "(addr \<Rightarrow> ptr) \<Rightarrow> ptr \<Rightarrow> addr list \<Rightarrow> bool" where
  "chain link p xs \<equiv> path link p xs None"

lemma path_append [path_simps]:
  "path link p (xs @ ys) q \<longleftrightarrow> (\<exists>r. path link p xs r \<and> path link r ys q)"
  by (induction xs arbitrary: p) auto

lemma path_upd_fresh [simp]:
  "a \<notin> set xs \<Longrightarrow> path (link(a := v)) p xs q = path link p xs q"
  by (induction xs arbitrary: p) auto

lemma path_cong_links:
  "(\<And>a. a \<in> set xs \<Longrightarrow> link' a = link a) \<Longrightarrow> path link' p xs q = path link p xs q"
  by (induction xs arbitrary: p) auto

lemma path_snoc [path_simps]:
  "path link p (xs @ [x]) q \<longleftrightarrow> path link p xs (Some x) \<and> link x = q"
  by (auto simp: path_append)

lemma chain_Some: "chain link (Some x) ys \<longleftrightarrow> (\<exists>zs. ys = x # zs \<and> chain link (link x) zs)"
  by (cases ys) auto

lemma chain_None [simp]: "chain link None xs \<longleftrightarrow> xs = []"
  by (cases xs) auto

lemma chain_det: "chain link p xs \<Longrightarrow> chain link p ys \<Longrightarrow> xs = ys"
  by (induction xs arbitrary: p ys) (auto simp: chain_Some)

lemma chain_not_cyclic: "chain link (link x) xs \<Longrightarrow> x \<notin> set xs"
proof
  assume c: "chain link (link x) xs" and "x \<in> set xs"
  then obtain us vs where xs: "xs = us @ x # vs"
    by (auto simp: in_set_conv_decomp)
  then have "chain link (link x) vs"
    using c by (auto simp: path_append)
  with c have "xs = vs" by (rule chain_det)
  with xs show False by simp
qed

lemma chain_distinct: "chain link p xs \<Longrightarrow> distinct xs"
  by (induction xs arbitrary: p) (auto dest: chain_not_cyclic)

lemma path_snoc_upd:
  "path link p xs (Some x) \<Longrightarrow> x \<notin> set xs \<Longrightarrow> path (link(x := q)) p (xs @ [x]) q"
  by (simp add: path_snoc)

text \<open>Linking the last object of a chain to a new object extends the chain.\<close>

lemma chain_extend:
  assumes "chain link p xs" and "xs \<noteq> []" and "y \<notin> set xs" and "link y = None"
  shows "chain (link(last xs := Some y)) p (xs @ [y])"
proof -
  obtain us x where xs: "xs = us @ [x]"
    using assms(2) by (meson rev_exhaust)
  with assms chain_distinct [OF assms(1)] show ?thesis
    by (auto simp: path_append)
qed

text \<open>Bypassing an object in the middle of a chain removes exactly that object.\<close>

lemma chain_bypass:
  assumes "chain link p (us @ u # x # vs)"
  shows "chain (link(u := link x)) p (us @ u # vs)"
  using chain_distinct [OF assms] assms by (auto simp: path_append)

section \<open>Options and lists of lists\<close>

lemma option_eqI: "(\<And>x. a = Some x \<longleftrightarrow> b = Some x) \<Longrightarrow> a = b"
  by (metis not_None_eq)

lemma in_concat_iff: "a \<in> set (concat l) \<longleftrightarrow> (\<exists>j < length l. a \<in> set (l ! j))"
  by (metis UN_iff in_set_conv_nth set_concat)

text \<open>Program counters of a list of threads: counting and updating them.\<close>

lemma count_update:
  "t < length xs \<Longrightarrow>
     count_list (xs[t := v]) x = count_list xs x + of_bool (v = x) - of_bool (xs ! t = x)"
proof (induction xs arbitrary: t)
  case (Cons y ys)
  then show ?case
  proof (cases t)
    case (Suc k)
    then have "count_list ys x \<ge> of_bool (ys ! k = x)"
      using Cons.prems by (auto simp: Suc_le_eq count_list_0_iff neq0_conv [symmetric] simp del: neq0_conv)
    with Suc Cons show ?thesis by auto
  qed auto
qed simp

lemma in_update: "t < length xs \<Longrightarrow> xs ! t \<noteq> p \<Longrightarrow> p \<in> set xs \<Longrightarrow> p \<in> set (xs[t := v])"
  by (auto simp: in_set_conv_nth) (metis nth_list_update_neq)

lemma notin_update: "p \<notin> set xs \<Longrightarrow> v \<noteq> p \<Longrightarrow> p \<notin> set (xs[t := v])"
  using set_update_subset_insert [of xs t v] by auto

lemma list_all_update: "list_all P xs \<Longrightarrow> P q \<Longrightarrow> list_all P (xs[t := q])"
  using set_update_subset_insert [of xs t q] by (auto simp: list_all_iff)

definition count_if :: "('a \<Rightarrow> bool) \<Rightarrow> 'a list \<Rightarrow> nat" where
  "count_if P xs = length (filter P xs)"

lemma count_if_pos: "t < length xs \<Longrightarrow> P (xs ! t) \<Longrightarrow> 0 < count_if P xs"
  unfolding count_if_def by (metis filter_empty_conv length_greater_0_conv nth_mem)

lemma count_if_0: "count_if P xs = 0 \<longleftrightarrow> (\<forall>x \<in> set xs. \<not> P x)"
  by (simp add: count_if_def filter_empty_conv)

lemma count_if_update:
  "t < length xs \<Longrightarrow> count_if P (xs[t := v]) + of_bool (P (xs ! t)) = count_if P xs + of_bool (P v)"
proof (induction xs arbitrary: t)
  case (Cons y ys)
  then show ?case by (cases t) (auto simp: count_if_def)
qed simp

lemma count_if_cong:
  "list_all2 (\<lambda>x y. P y \<longleftrightarrow> P x) xs ys \<Longrightarrow> count_if P ys = count_if P xs"
  by (induction rule: list_all2_induct) (auto simp: count_if_def)

text \<open>
  \<open>pthread_cond_signal\<close> on a condition variable: the possible outcomes for the program
  counters of the threads, when those with \<open>sleeping\<close> wait on it.
\<close>

definition wake_one :: "('p \<Rightarrow> bool) \<Rightarrow> ('p \<Rightarrow> 'p) \<Rightarrow> 'p list \<Rightarrow> 'p list list" where
  "wake_one sleeping wake ps =
     (let ws = filter (\<lambda>t. sleeping (ps ! t)) [0..<length ps]
      in if ws = [] then [ps] else map (\<lambda>t. ps[t := wake (ps ! t)]) ws)"

lemma wake_one_cases:
  assumes "qs \<in> set (wake_one sleeping wake ps)"
  obtains "\<forall>p \<in> set ps. \<not> sleeping p" "qs = ps"
  | u where "u < length ps" "sleeping (ps ! u)" "qs = ps[u := wake (ps ! u)]"
proof (cases "filter (\<lambda>t. sleeping (ps ! t)) [0..<length ps] = []")
  case True
  then have "\<forall>p \<in> set ps. \<not> sleeping p" by (auto simp: filter_empty_conv in_set_conv_nth)
  then show thesis using True assms that(1) by (simp add: wake_one_def)
next
  case False
  then have "qs \<in> set (map (\<lambda>t. ps[t := wake (ps ! t)]) (filter (\<lambda>t. sleeping (ps ! t)) [0..<length ps]))"
    using assms by (simp only: wake_one_def Let_def if_False)
  then show thesis using that(2) by auto
qed

section \<open>C arithmetic\<close>

definition cdiv :: "int \<Rightarrow> int \<Rightarrow> int" where
  "cdiv a b = sgn a * sgn b * (\<bar>a\<bar> div \<bar>b\<bar>)"

definition cmod :: "int \<Rightarrow> int \<Rightarrow> int" where
  "cmod a b = a - cdiv a b * b"

lemma cdiv_nonneg [cpp_simps]: "0 \<le> a \<Longrightarrow> 0 < b \<Longrightarrow> cdiv a b = a div b"
  by (cases "a = 0") (simp_all add: cdiv_def)

lemma cmod_nonneg [cpp_simps]: "0 \<le> a \<Longrightarrow> 0 < b \<Longrightarrow> cmod a b = a mod b"
  by (simp add: cmod_def cdiv_nonneg minus_div_mult_eq_mod)

lemma cdiv_neg [cpp_simps]: "a < 0 \<Longrightarrow> 0 < b \<Longrightarrow> cdiv a b = - ((- a) div b)"
  by (simp add: cdiv_def)

lemma cmod_neg [cpp_simps]:
  assumes "a < 0" and "0 < b"
  shows "cmod a b = - ((- a) mod b)"
proof -
  have "cmod a b = a + b * ((- a) div b)"
    using assms by (simp add: cmod_def cdiv_neg)
  moreover have "b * ((- a) div b) + (- a) mod b = - a"
    by (rule mult_div_mod_eq)
  ultimately show ?thesis by linarith
qed

lemma unat_bound_32: "unat (w :: 32 word) < 4294967296"
proof -
  have "unat w < 2 ^ LENGTH(32)" by (rule unsigned_less)
  then show ?thesis by simp
qed

section \<open>C strings\<close>

type_synonym byte = "8 word"
type_synonym cstr = "char list"

text \<open>Reading \<open>s[i]\<close> for \<open>i\<close> at most the length: the terminator is at the length.\<close>

definition cchar :: "cstr \<Rightarrow> nat \<Rightarrow> char" where
  "cchar s i = (if i < length s then s ! i else CHR 0x00)"

text \<open>\<open>strchr(clist, c) != NULL\<close>: the terminator counts as a character of the list.\<close>

definition strchr_in :: "cstr \<Rightarrow> char \<Rightarrow> bool" where
  "strchr_in clist c \<longleftrightarrow> c \<in> set clist \<or> c = CHR 0x00"

section \<open>The interface of first-in first-out containers\<close>

text \<open>
  \<open>repr s xs\<close> says that the concrete state \<open>s\<close> holds the objects \<open>xs\<close>, oldest first;
  \<open>ok x xs\<close> is what the container asks of an object before it takes it.
\<close>

fun enq_all :: "('a \<Rightarrow> 's \<Rightarrow> 's) \<Rightarrow> 'a list \<Rightarrow> 's \<Rightarrow> 's" where
  "enq_all enq [] s = s"
| "enq_all enq (x # xs) s = enq_all enq xs (enq x s)"

fun deq_n :: "('s \<Rightarrow> 'a option \<times> 's) \<Rightarrow> nat \<Rightarrow> 's \<Rightarrow> 'a option list \<times> 's" where
  "deq_n deq 0 s = ([], s)"
| "deq_n deq (Suc n) s =
     (let (x, s') = deq s; (xs, s'') = deq_n deq n s' in (x # xs, s''))"

fun all_ok :: "('a \<Rightarrow> 'a list \<Rightarrow> bool) \<Rightarrow> 'a list \<Rightarrow> 'a list \<Rightarrow> bool" where
  "all_ok ok [] ys = True"
| "all_ok ok (x # xs) ys = (ok x ys \<and> all_ok ok xs (ys @ [x]))"

locale fifo =
  fixes repr :: "'s \<Rightarrow> 'a list \<Rightarrow> bool"
    and ok :: "'a \<Rightarrow> 'a list \<Rightarrow> bool"
    and enq :: "'a \<Rightarrow> 's \<Rightarrow> 's"
    and deq :: "'s \<Rightarrow> 'a option \<times> 's"
  assumes enq_repr: "repr s xs \<Longrightarrow> ok x xs \<Longrightarrow> repr (enq x s) (xs @ [x])"
    and deq_Cons: "repr s (x # xs) \<Longrightarrow> fst (deq s) = Some x \<and> repr (snd (deq s)) xs"
    and deq_Nil: "repr s [] \<Longrightarrow> fst (deq s) = None \<and> repr (snd (deq s)) []"
begin

lemma enq_all_repr: "repr s ys \<Longrightarrow> all_ok ok xs ys \<Longrightarrow> repr (enq_all enq xs s) (ys @ xs)"
  by (induction xs arbitrary: s ys) (force dest: enq_repr)+

lemma deq_n_repr:
  "repr s (xs @ ys) \<Longrightarrow>
     fst (deq_n deq (length xs) s) = map Some xs \<and> repr (snd (deq_n deq (length xs) s)) ys"
proof (induction xs arbitrary: s)
  case (Cons x xs)
  then show ?case
    using deq_Cons [of s x "xs @ ys"] by (simp add: Let_def case_prod_unfold)
qed simp

lemma fifo_order:
  assumes "repr s []" and "all_ok ok xs []"
  shows "fst (deq_n deq (length xs) (enq_all enq xs s)) = map Some xs"
    and "fst (deq (snd (deq_n deq (length xs) (enq_all enq xs s)))) = None"
proof -
  have "repr (enq_all enq xs s) (xs @ [])"
    using enq_all_repr [OF assms] by simp
  from deq_n_repr [OF this] deq_Nil
  show "fst (deq_n deq (length xs) (enq_all enq xs s)) = map Some xs"
    and "fst (deq (snd (deq_n deq (length xs) (enq_all enq xs s)))) = None"
    by auto
qed

end

section \<open>The interface of transition systems with an inductive invariant\<close>

inductive reach :: "('s \<Rightarrow> bool) \<Rightarrow> ('s \<Rightarrow> 's \<Rightarrow> bool) \<Rightarrow> 's \<Rightarrow> bool"
  for init :: "'s \<Rightarrow> bool" and step :: "'s \<Rightarrow> 's \<Rightarrow> bool" where
  reach_init: "init s \<Longrightarrow> reach init step s"
| reach_step: "reach init step s \<Longrightarrow> step s t \<Longrightarrow> reach init step t"

locale invariant_system =
  fixes init :: "'s \<Rightarrow> bool"
    and step :: "'s \<Rightarrow> 's \<Rightarrow> bool"
    and inv :: "'s \<Rightarrow> bool"
  assumes inv_init: "init s \<Longrightarrow> inv s"
    and inv_step: "inv s \<Longrightarrow> step s t \<Longrightarrow> inv t"
begin

lemma reach_inv: "reach init step s \<Longrightarrow> inv s"
  by (induction rule: reach.induct) (auto intro: inv_init inv_step)

end

end
