(* ===== verification/Linked.thy ===== *)
theory Linked
  imports Prelude
begin

text \<open>
  The single linked lists of \<open>corelib/linked.cpp\<close>: \<open>LinkedObject\<close>, \<open>ReusableObject\<close>,
  \<open>OrderedObject\<close> and \<open>OrderedIndex\<close>.

  Objects and indexes live in an explicit store, one field of the record per C++ member, so
  that aliasing is visible. A \<open>LinkedObject **root\<close> argument is the content of the variable
  it points to: it is passed in and its new content is returned. A loop over links is a
  partial function into \<open>option\<close>; \<open>None\<close> means that the loop does not end (a cyclic
  chain). \<open>delete this\<close> appends the object to \<open>deleted\<close>. The assertions of the source are
  compiled out (\<open>platform.h\<close> defines \<open>NDEBUG\<close> unless \<open>DEBUG\<close> is set).
\<close>

section \<open>The store\<close>

record heap =
  Next :: "addr \<Rightarrow> ptr"
  Prev :: "addr \<Rightarrow> ptr"
  Root :: "addr \<Rightarrow> ptr"
  head :: "addr \<Rightarrow> ptr"
  tail :: "addr \<Rightarrow> ptr"
  deleted :: "addr list"

definition empty_heap :: heap where
  "empty_heap = \<lparr>Next = \<lambda>_. None, Prev = \<lambda>_. None, Root = \<lambda>_. None,
     head = \<lambda>_. None, tail = \<lambda>_. None, deleted = []\<rparr>"

section \<open>LinkedObject\<close>

definition LinkedObject_new :: "'a heap_scheme \<Rightarrow> addr \<Rightarrow> 'a heap_scheme" where
  "LinkedObject_new h this = h\<lparr>Next := (Next h)(this := None)\<rparr>"

definition LinkedObject_enlist :: "'a heap_scheme \<Rightarrow> addr \<Rightarrow> ptr \<Rightarrow> 'a heap_scheme \<times> ptr" where
  "LinkedObject_enlist h this root = (h\<lparr>Next := (Next h)(this := root)\<rparr>, Some this)"

definition LinkedObject_new_root :: "'a heap_scheme \<Rightarrow> addr \<Rightarrow> ptr \<Rightarrow> 'a heap_scheme \<times> ptr" where
  "LinkedObject_new_root h this root = LinkedObject_enlist h this root"

definition LinkedObject_retain :: "'a heap_scheme \<Rightarrow> addr \<Rightarrow> 'a heap_scheme" where
  "LinkedObject_retain h this = h\<lparr>Next := (Next h)(this := Some this)\<rparr>"

definition LinkedObject_release :: "'a heap_scheme \<Rightarrow> addr \<Rightarrow> 'a heap_scheme" where
  "LinkedObject_release h this =
     (if Next h this \<noteq> Some this
      then h\<lparr>Next := (Next h)(this := Some this), deleted := deleted h @ [this]\<rparr>
      else h)"

definition ReusableObject_release :: "'a heap_scheme \<Rightarrow> addr \<Rightarrow> 'a heap_scheme" where
  "ReusableObject_release h this = h\<lparr>Next := (Next h)(this := None)\<rparr>"

partial_function (option) LinkedObject_purge ::
    "'a heap_scheme \<Rightarrow> ptr \<Rightarrow> 'a heap_scheme option" where
  "LinkedObject_purge h root =
     (case root of
        None \<Rightarrow> Some h
      | Some r \<Rightarrow> (let after = Next h r in LinkedObject_purge (LinkedObject_release h r) after))"

partial_function (option) LinkedObject_is_member ::
    "'a heap_scheme \<Rightarrow> addr \<Rightarrow> ptr \<Rightarrow> bool option" where
  "LinkedObject_is_member h this list =
     (case list of
        None \<Rightarrow> Some False
      | Some l \<Rightarrow> if l = this then Some True else LinkedObject_is_member h this (Next h l))"

partial_function (option) delist_scan ::
    "'a heap_scheme \<Rightarrow> addr \<Rightarrow> ptr \<Rightarrow> ptr \<Rightarrow> (ptr \<times> ptr) option" where
  "delist_scan h this prior node =
     (case node of
        None \<Rightarrow> Some (prior, None)
      | Some n \<Rightarrow> if n \<noteq> this then delist_scan h this (Some n) (Next h n)
                  else Some (prior, Some n))"

definition LinkedObject_delist ::
    "'a heap_scheme \<Rightarrow> addr \<Rightarrow> ptr \<Rightarrow> ('a heap_scheme \<times> ptr) option" where
  "LinkedObject_delist h this root =
     (case delist_scan h this None root of
        None \<Rightarrow> None
      | Some (prior, node) \<Rightarrow>
          Some (if node = None then (h, root)
                else case prior of
                       None \<Rightarrow> (h, Next h this)
                     | Some p \<Rightarrow> (h\<lparr>Next := (Next h)(p := Next h this)\<rparr>, root)))"

fun LinkedObject_getIndexed :: "'a heap_scheme \<Rightarrow> ptr \<Rightarrow> nat \<Rightarrow> ptr" where
  "LinkedObject_getIndexed h root 0 = root"
| "LinkedObject_getIndexed h None (Suc index) = None"
| "LinkedObject_getIndexed h (Some r) (Suc index) = LinkedObject_getIndexed h (Next h r) index"

partial_function (option) count_loop ::
    "'a heap_scheme \<Rightarrow> 32 word \<Rightarrow> ptr \<Rightarrow> 32 word option" where
  "count_loop h c root =
     (case root of None \<Rightarrow> Some c | Some r \<Rightarrow> count_loop h (c + 1) (Next h r))"

definition LinkedObject_count :: "'a heap_scheme \<Rightarrow> ptr \<Rightarrow> 32 word option" where
  "LinkedObject_count h root = count_loop h 0 root"

section \<open>OrderedObject\<close>

definition OrderedObject_enlistTail :: "'a heap_scheme \<Rightarrow> addr \<Rightarrow> addr \<Rightarrow> 'a heap_scheme" where
  "OrderedObject_enlistTail h this root =
     (let h1 = (case head h root of
                  None \<Rightarrow> h\<lparr>head := (head h)(root := Some this)\<rparr>
                | Some _ \<Rightarrow>
                    (case tail h root of
                       Some t \<Rightarrow> h\<lparr>Next := (Next h)(t := Some this)\<rparr>
                     | None \<Rightarrow> h))
      in h1\<lparr>tail := (tail h1)(root := Some this)\<rparr>)"

definition OrderedObject_enlist :: "'a heap_scheme \<Rightarrow> addr \<Rightarrow> addr \<Rightarrow> 'a heap_scheme" where
  "OrderedObject_enlist h this root =
     OrderedObject_enlistTail (h\<lparr>Next := (Next h)(this := None)\<rparr>) this root"

definition OrderedObject_new_root :: "'a heap_scheme \<Rightarrow> addr \<Rightarrow> addr \<Rightarrow> 'a heap_scheme" where
  "OrderedObject_new_root h this root =
     (let h1 = LinkedObject_new h this
      in OrderedObject_enlistTail (h1\<lparr>Next := (Next h1)(this := None)\<rparr>) this root)"

definition OrderedObject_enlistHead :: "'a heap_scheme \<Rightarrow> addr \<Rightarrow> addr \<Rightarrow> 'a heap_scheme" where
  "OrderedObject_enlistHead h this root =
     (let h1 = h\<lparr>Next := (Next h)(this := None)\<rparr>;
          h2 = (case tail h1 root of
                  None \<Rightarrow> h1\<lparr>tail := (tail h1)(root := Some this)\<rparr>
                | Some _ \<Rightarrow>
                    (case head h1 root of
                       Some x \<Rightarrow> h1\<lparr>Next := (Next h1)(this := Some x)\<rparr>
                     | None \<Rightarrow> h1))
      in h2\<lparr>head := (head h2)(root := Some this)\<rparr>)"

definition OrderedObject_delist :: "'a heap_scheme \<Rightarrow> addr \<Rightarrow> addr \<Rightarrow> 'a heap_scheme option" where
  "OrderedObject_delist h this root =
     (case delist_scan h this None (head h root) of
        None \<Rightarrow> None
      | Some (prior, None) \<Rightarrow> Some h
      | Some (prior, Some _) \<Rightarrow>
          (let h1 = (case prior of
                       None \<Rightarrow> h\<lparr>head := (head h)(root := Next h this)\<rparr>
                     | Some p \<Rightarrow> h\<lparr>Next := (Next h)(p := Next h this)\<rparr>)
           in Some (if tail h1 root = Some this
                    then h1\<lparr>tail := (tail h1)(root := prior)\<rparr> else h1)))"

section \<open>OrderedIndex\<close>

definition OrderedIndex_reset :: "'a heap_scheme \<Rightarrow> addr \<Rightarrow> 'a heap_scheme" where
  "OrderedIndex_reset h this = h\<lparr>head := (head h)(this := None), tail := (tail h)(this := None)\<rparr>"

definition OrderedIndex_new :: "'a heap_scheme \<Rightarrow> addr \<Rightarrow> 'a heap_scheme" where
  "OrderedIndex_new h this = h\<lparr>head := (head h)(this := None), tail := (tail h)(this := None)\<rparr>"

definition OrderedIndex_copy :: "'a heap_scheme \<Rightarrow> addr \<Rightarrow> addr \<Rightarrow> 'a heap_scheme" where
  "OrderedIndex_copy h this source =
     h\<lparr>head := (head h)(this := head h source), tail := (tail h)(this := tail h source)\<rparr>"

definition OrderedIndex_add :: "'a heap_scheme \<Rightarrow> addr \<Rightarrow> addr \<Rightarrow> 'a heap_scheme" where
  "OrderedIndex_add h this object = OrderedObject_enlist h object this"

definition OrderedIndex_get :: "'a heap_scheme \<Rightarrow> addr \<Rightarrow> ptr \<times> 'a heap_scheme" where
  "OrderedIndex_get h this =
     (case head h this of
        None \<Rightarrow> (None, h)
      | Some node \<Rightarrow>
          (let h1 = h\<lparr>head := (head h)(this := Next h node)\<rparr>
           in (Some node,
               if head h1 this = None then h1\<lparr>tail := (tail h1)(this := None)\<rparr> else h1)))"

definition OrderedIndex_purge :: "'a heap_scheme \<Rightarrow> addr \<Rightarrow> 'a heap_scheme option" where
  "OrderedIndex_purge h this =
     (case head h this of
        None \<Rightarrow> Some h
      | Some x \<Rightarrow>
          (case LinkedObject_purge h (Some x) of
             None \<Rightarrow> None
           | Some h1 \<Rightarrow>
               Some (h1\<lparr>head := (head h1)(this := None), tail := (tail h1)(this := None)\<rparr>)))"

definition OrderedIndex_count :: "'a heap_scheme \<Rightarrow> addr \<Rightarrow> 32 word option" where
  "OrderedIndex_count h this = count_loop h 0 (head h this)"

text \<open>The array \<open>op\<close> of \<open>index()\<close>, filled from slot 0 and closed with a null pointer.\<close>

partial_function (option) index_loop :: "'a heap_scheme \<Rightarrow> ptr list \<Rightarrow> ptr \<Rightarrow> ptr list option" where
  "index_loop h op node =
     (case node of
        None \<Rightarrow> Some (op @ [None])
      | Some n \<Rightarrow> index_loop h (op @ [Some n]) (Next h n))"

definition OrderedIndex_index :: "'a heap_scheme \<Rightarrow> addr \<Rightarrow> ptr list option" where
  "OrderedIndex_index h this = index_loop h [] (head h this)"

partial_function (option) find_loop ::
    "'a heap_scheme \<Rightarrow> 32 word \<Rightarrow> 32 word \<Rightarrow> ptr \<Rightarrow> ptr option" where
  "find_loop h count index node =
     (case node of
        None \<Rightarrow> Some None
      | Some n \<Rightarrow> if count + 1 < index then find_loop h (count + 1) index (Next h n)
                  else Some (Some n))"

definition OrderedIndex_find :: "'a heap_scheme \<Rightarrow> addr \<Rightarrow> 32 word \<Rightarrow> ptr option" where
  "OrderedIndex_find h this index = find_loop h 0 index (head h this)"

section \<open>Chains under the operations of LinkedObject\<close>

text \<open>One unfolding of each loop, on a null and on a non-null pointer.\<close>

lemmas linked_loops =
  LinkedObject_purge.simps [of _ None] LinkedObject_purge.simps [of _ "Some _"]
  LinkedObject_is_member.simps [of _ _ None] LinkedObject_is_member.simps [of _ _ "Some _"]
  delist_scan.simps [of _ _ _ None] delist_scan.simps [of _ _ _ "Some _"]
  count_loop.simps [of _ _ None] count_loop.simps [of _ _ "Some _"]
  index_loop.simps [of _ _ None] index_loop.simps [of _ _ "Some _"]
  find_loop.simps [of _ _ _ None] find_loop.simps [of _ _ _ "Some _"]

lemma release_deletes:
  "Next h x \<noteq> Some x \<Longrightarrow>
     LinkedObject_release h x = h\<lparr>Next := (Next h)(x := Some x), deleted := deleted h @ [x]\<rparr>"
  by (simp add: LinkedObject_release_def)

lemma chain_no_self: "chain link (link x) xs \<Longrightarrow> link x \<noteq> Some x"
  by (metis chain_Some chain_not_cyclic list.set_intros(1))

lemma purge_chain:
  assumes "chain (Next h) p xs"
  shows "\<exists>h'. LinkedObject_purge h p = Some h' \<and> deleted h' = deleted h @ xs \<and>
    (\<forall>a. Next h' a = (if a \<in> set xs then Some a else Next h a)) \<and>
    head h' = head h \<and> tail h' = tail h"
  using assms
proof (induction xs arbitrary: h p)
  case Nil
  then show ?case by (simp add: linked_loops)
next
  case (Cons x xs)
  then have c: "chain (Next h) (Next h x) xs" and p: "p = Some x" by auto
  let ?h = "LinkedObject_release h x"
  have r: "?h = h\<lparr>Next := (Next h)(x := Some x), deleted := deleted h @ [x]\<rparr>"
    using chain_no_self [OF c] by (rule release_deletes)
  have "chain (Next ?h) (Next h x) xs"
    using c chain_not_cyclic [OF c] by (simp add: r)
  from Cons.IH [OF this] r p show ?case
    by (auto simp: linked_loops Let_def)
qed

lemma is_member_chain:
  "chain (Next h) p xs \<Longrightarrow> LinkedObject_is_member h this p = Some (this \<in> set xs)"
  by (induction xs arbitrary: p) (auto simp: linked_loops)

lemma count_loop_chain:
  "chain (Next h) p xs \<Longrightarrow> count_loop h c p = Some (c + of_nat (length xs))"
  by (induction xs arbitrary: c p) (auto simp: linked_loops algebra_simps)

lemma getIndexed_chain:
  "chain (Next h) p xs \<Longrightarrow>
     LinkedObject_getIndexed h p n = (if n < length xs then Some (xs ! n) else None)"
proof (induction xs arbitrary: p n)
  case Nil
  then show ?case by (cases n) auto
next
  case (Cons x xs)
  then show ?case by (cases n) auto
qed

lemma index_loop_chain:
  "chain (Next h) p xs \<Longrightarrow> index_loop h op p = Some (op @ map Some xs @ [None])"
  by (induction xs arbitrary: p op) (auto simp: linked_loops)

text \<open>The scan of \<open>delist\<close> stops at the object, with the object in front of it as \<open>prior\<close>.\<close>

lemma delist_scan_found:
  "path (Next h) p us (Some x) \<Longrightarrow> x \<notin> set us \<Longrightarrow>
     delist_scan h x prior p = Some (if us = [] then prior else Some (last us), Some x)"
  by (induction us arbitrary: p prior) (auto simp: linked_loops)

lemma delist_scan_absent:
  "chain (Next h) p xs \<Longrightarrow> x \<notin> set xs \<Longrightarrow> \<exists>q. delist_scan h x prior p = Some (q, None)"
  by (induction xs arbitrary: p prior) (auto simp: linked_loops)

lemma delist_chain:
  assumes "chain (Next h) root xs"
  shows "\<exists>h' root'. LinkedObject_delist h this root = Some (h', root') \<and>
    chain (Next h') root' (remove1 this xs)"
proof (cases "this \<in> set xs")
  case False
  with delist_scan_absent [OF assms, of this None] assms show ?thesis
    by (auto simp: LinkedObject_delist_def remove1_idem)
next
  case True
  then obtain us vs where xs: "xs = us @ this # vs" and us: "this \<notin> set us"
    by (meson split_list_first)
  have s: "delist_scan h this None root = Some (if us = [] then None else Some (last us), Some this)"
    using assms us by (intro delist_scan_found) (auto simp: xs path_append)
  show ?thesis
  proof (cases us rule: rev_cases)
    case Nil
    with s assms xs show ?thesis
      by (auto simp: LinkedObject_delist_def)
  next
    case (snoc ws w)
    from chain_bypass [of "Next h" root ws w this vs] assms xs snoc us s show ?thesis
      by (auto simp: LinkedObject_delist_def remove1_append)
  qed
qed

section \<open>The ordered index as a queue\<close>

definition wf_index :: "'a heap_scheme \<Rightarrow> addr \<Rightarrow> addr list \<Rightarrow> bool" where
  "wf_index h i xs \<longleftrightarrow>
     chain (Next h) (head h i) xs \<and> tail h i = (if xs = [] then None else Some (last xs))"

lemma wf_index_distinct: "wf_index h i xs \<Longrightarrow> distinct xs"
  by (auto simp: wf_index_def dest: chain_distinct)

lemma wf_index_head: "wf_index h i xs \<Longrightarrow> head h i = (if xs = [] then None else Some (hd xs))"
  by (cases xs) (auto simp: wf_index_def)

lemma wf_index_new [simp]: "wf_index (OrderedIndex_new h i) i []"
  by (simp add: wf_index_def OrderedIndex_new_def)

lemma wf_index_enlistTail:
  assumes w: "wf_index h i xs" and x: "x \<notin> set xs" "Next h x = None"
  shows "wf_index (OrderedObject_enlistTail h x i) i (xs @ [x])"
proof (cases "xs = []")
  case True
  with w x show ?thesis
    by (simp add: wf_index_def OrderedObject_enlistTail_def)
next
  case False
  then have "head h i = Some (hd xs)" and "tail h i = Some (last xs)"
    using w wf_index_head [OF w] by (auto simp: wf_index_def)
  moreover have "chain ((Next h)(last xs := Some x)) (head h i) (xs @ [x])"
    using w x False by (intro chain_extend) (auto simp: wf_index_def)
  ultimately show ?thesis
    by (simp add: wf_index_def OrderedObject_enlistTail_def)
qed

lemma wf_index_add:
  "wf_index h i xs \<Longrightarrow> x \<notin> set xs \<Longrightarrow> wf_index (OrderedIndex_add h i x) i (xs @ [x])"
  unfolding OrderedIndex_add_def OrderedObject_enlist_def
  by (rule wf_index_enlistTail) (auto simp: wf_index_def)

lemma wf_index_enlistHead:
  "wf_index h i xs \<Longrightarrow> x \<notin> set xs \<Longrightarrow> wf_index (OrderedObject_enlistHead h x i) i (x # xs)"
  by (cases xs) (auto simp: wf_index_def OrderedObject_enlistHead_def Let_def)

lemma wf_index_get_Cons:
  "wf_index h i (x # xs) \<Longrightarrow>
     fst (OrderedIndex_get h i) = Some x \<and> wf_index (snd (OrderedIndex_get h i)) i xs"
  by (cases xs) (auto simp: wf_index_def OrderedIndex_get_def Let_def)

lemma wf_index_get_Nil: "wf_index h i [] \<Longrightarrow> OrderedIndex_get h i = (None, h)"
  by (simp add: wf_index_def OrderedIndex_get_def)

lemma wf_index_delist:
  assumes "wf_index h i xs"
  shows "\<exists>h'. OrderedObject_delist h x i = Some h' \<and> wf_index h' i (remove1 x xs)"
proof (cases "x \<in> set xs")
  case False
  with assms delist_scan_absent [of h "head h i" xs x None] show ?thesis
    by (auto simp: OrderedObject_delist_def wf_index_def remove1_idem)
next
  case True
  then obtain us vs where xs: "xs = us @ x # vs" and us: "x \<notin> set us"
    by (meson split_list_first)
  have c: "chain (Next h) (head h i) (us @ x # vs)" and t: "tail h i = Some (last xs)"
    using assms xs by (auto simp: wf_index_def)
  have d: "distinct (us @ x # vs)" using c by (rule chain_distinct)
  have s: "delist_scan h x None (head h i)
      = Some (if us = [] then None else Some (last us), Some x)"
    using c us by (intro delist_scan_found) (auto simp: path_append)
  have l: "tail h i = Some x \<longleftrightarrow> vs = []"
    using t d by (auto simp: xs)
  show ?thesis
  proof (cases us rule: rev_cases)
    case Nil
    with s c t l xs show ?thesis
      by (auto simp: OrderedObject_delist_def wf_index_def Let_def)
  next
    case (snoc ws w)
    with chain_bypass [of "Next h" "head h i" ws w x vs] c s t l us xs show ?thesis
      by (auto simp: OrderedObject_delist_def wf_index_def Let_def remove1_append)
  qed
qed

lemma wf_index_purge:
  assumes "wf_index h i xs"
  shows "\<exists>h'. OrderedIndex_purge h i = Some h' \<and> deleted h' = deleted h @ xs \<and> wf_index h' i []"
proof (cases xs)
  case Nil
  with assms show ?thesis by (simp add: OrderedIndex_purge_def wf_index_def)
next
  case (Cons x ys)
  with assms have "chain (Next h) (Some x) xs" and "head h i = Some x"
    by (auto simp: wf_index_def)
  with purge_chain [of h "Some x" xs] show ?thesis
    by (auto simp: OrderedIndex_purge_def wf_index_def)
qed

text \<open>
  The index keeps the promise of a first-in first-out container: \<open>add\<close> takes any object
  that is not enlisted yet, \<open>get\<close> gives the oldest one back.
\<close>

interpretation oix: fifo
  "\<lambda>h. wf_index h i" "\<lambda>x xs. x \<notin> set xs" "\<lambda>x h. OrderedIndex_add h i x" "\<lambda>h. OrderedIndex_get h i"
  for i :: addr
proof unfold_locales
  fix h :: "'b heap_scheme" and xs :: "addr list" and x :: addr
  show "wf_index h i xs \<Longrightarrow> x \<notin> set xs \<Longrightarrow> wf_index (OrderedIndex_add h i x) i (xs @ [x])"
    by (rule wf_index_add)
  show "wf_index h i (x # xs) \<Longrightarrow>
      fst (OrderedIndex_get h i) = Some x \<and> wf_index (snd (OrderedIndex_get h i)) i xs"
    by (rule wf_index_get_Cons)
  show "wf_index h i [] \<Longrightarrow>
      fst (OrderedIndex_get h i) = None \<and> wf_index (snd (OrderedIndex_get h i)) i []"
    by (simp add: wf_index_get_Nil)
qed

lemma all_ok_distinct:
  "all_ok (\<lambda>x xs. x \<notin> set xs) xs ys \<longleftrightarrow> distinct xs \<and> set xs \<inter> set ys = {}"
  by (induction xs arbitrary: ys) auto

lemma find_loop_chain:
  assumes "chain (Next h) p xs" and "unat c + length xs < 2 ^ 32"
  shows "find_loop h c index p =
    Some (let k = unat index - unat c - 1 in if k < length xs then Some (xs ! k) else None)"
  using assms
proof (induction xs arbitrary: p c)
  case Nil
  then show ?case by (simp add: linked_loops)
next
  case (Cons x xs)
  have c: "unat (c + 1) = unat c + 1"
    using Cons.prems(2) by (simp add: unat_word_ariths)
  have lt: "c + 1 < index \<longleftrightarrow> unat c + 1 < unat index"
    by (simp add: word_less_nat_alt c)
  have ih: "find_loop h (c + 1) index (Next h x) =
      Some (let k = unat index - (unat c + 1) - 1 in if k < length xs then Some (xs ! k) else None)"
    using Cons c by simp
  show ?case
  proof (cases "unat c + 1 < unat index")
    case True
    then have "unat index - unat c - 1 = Suc (unat index - (unat c + 1) - 1)" by simp
    with True ih lt Cons.prems(1) show ?thesis by (simp add: linked_loops Let_def)
  next
    case False
    with lt Cons.prems(1) show ?thesis by (simp add: linked_loops)
  qed
qed

section \<open>Any sequence of index operations against its specification\<close>

datatype index_op = Add addr | EnlistHead addr | Get | Delist addr | Purge

fun index_exec :: "'a heap_scheme \<Rightarrow> addr \<Rightarrow> index_op \<Rightarrow> 'a heap_scheme option" where
  "index_exec h i (Add x) = Some (OrderedIndex_add h i x)"
| "index_exec h i (EnlistHead x) = Some (OrderedObject_enlistHead h x i)"
| "index_exec h i Get = Some (snd (OrderedIndex_get h i))"
| "index_exec h i (Delist x) = OrderedObject_delist h x i"
| "index_exec h i Purge = OrderedIndex_purge h i"

fun index_spec :: "addr list \<Rightarrow> index_op \<Rightarrow> addr list" where
  "index_spec xs (Add x) = xs @ [x]"
| "index_spec xs (EnlistHead x) = x # xs"
| "index_spec xs Get = tl xs"
| "index_spec xs (Delist x) = remove1 x xs"
| "index_spec xs Purge = []"

fun index_pre :: "addr list \<Rightarrow> index_op \<Rightarrow> bool" where
  "index_pre xs (Add x) = (x \<notin> set xs)"
| "index_pre xs (EnlistHead x) = (x \<notin> set xs)"
| "index_pre xs _ = True"

fun index_run :: "'a heap_scheme \<Rightarrow> addr \<Rightarrow> index_op list \<Rightarrow> 'a heap_scheme option" where
  "index_run h i [] = Some h"
| "index_run h i (c # cs) =
     (case index_exec h i c of None \<Rightarrow> None | Some h' \<Rightarrow> index_run h' i cs)"

fun spec_run :: "addr list \<Rightarrow> index_op list \<Rightarrow> addr list" where
  "spec_run xs [] = xs"
| "spec_run xs (c # cs) = spec_run (index_spec xs c) cs"

fun pre_run :: "addr list \<Rightarrow> index_op list \<Rightarrow> bool" where
  "pre_run xs [] = True"
| "pre_run xs (c # cs) = (index_pre xs c \<and> pre_run (index_spec xs c) cs)"

lemma index_exec_simulates:
  assumes "wf_index h i xs" and "index_pre xs c"
  shows "\<exists>h'. index_exec h i c = Some h' \<and> wf_index h' i (index_spec xs c)"
proof (cases c)
  case Get
  with assms show ?thesis
    using wf_index_get_Cons [of h i "hd xs" "tl xs"] wf_index_get_Nil [of h i] by (cases xs) auto
next
  case Purge
  with assms show ?thesis using wf_index_purge by fastforce
qed (use assms in \<open>simp_all add: wf_index_add wf_index_enlistHead wf_index_delist\<close>)

section \<open>Properties\<close>

text \<open>
  C1: Any sequence of index operations (append, prepend, take the head, delist an
  object wherever it is, purge) on a well-formed index terminates and leaves a well-formed
  index that holds exactly the list the same operations give on plain lists, provided no
  object is enlisted twice.
\<close>

theorem OrderedIndex_refines_list:
  assumes "wf_index h i xs" and "pre_run xs ops"
  shows "\<exists>h'. index_run h i ops = Some h' \<and> wf_index h' i (spec_run xs ops)"
  using assms
proof (induction ops arbitrary: h xs)
  case (Cons c cs)
  then show ?case using index_exec_simulates [of h i xs c] by auto
qed simp

theorem OrderedIndex_refines_list_witness:
  "\<exists>h'. index_run empty_heap 0 [Add 1, Add 2, Add 3, Delist 2, EnlistHead 4, Get] = Some h' \<and>
     wf_index h' 0 [1, 3]"
  using OrderedIndex_refines_list [of empty_heap 0 "[]" "[Add 1, Add 2, Add 3, Delist 2, EnlistHead 4, Get]"]
  by (simp add: wf_index_def empty_heap_def)

text \<open>
  An \<open>OrderedIndex\<close> is a first-in first-out queue: objects added one after
  another to an empty index come out of \<open>get\<close> in the order they were added, and then
  \<open>get\<close> returns null.
\<close>

theorem OrderedIndex_fifo:
  assumes "wf_index h i []" and "distinct xs"
  shows "fst (deq_n (\<lambda>h. OrderedIndex_get h i) (length xs)
           (enq_all (\<lambda>x h. OrderedIndex_add h i x) xs h)) = map Some xs \<and>
         fst (OrderedIndex_get (snd (deq_n (\<lambda>h. OrderedIndex_get h i) (length xs)
           (enq_all (\<lambda>x h. OrderedIndex_add h i x) xs h))) i) = None"
  using assms by (auto intro: oix.fifo_order simp: all_ok_distinct)

theorem OrderedIndex_fifo_witness:
  "fst (deq_n (\<lambda>h. OrderedIndex_get h 0) 3
     (enq_all (\<lambda>x h. OrderedIndex_add h 0 x) [7, 5, 6] empty_heap)) = [Some 7, Some 5, Some 6]"
  using OrderedIndex_fifo [of empty_heap 0 "[7, 5, 6]"]
  by (simp add: wf_index_def empty_heap_def eval_nat_numeral)

text \<open>
  Purging a chain terminates and deletes every object of the chain exactly
  once, in list order, and touches the links of no other object.
\<close>

theorem LinkedObject_purge_once:
  assumes "chain (Next h) p xs"
  shows "\<exists>h'. LinkedObject_purge h p = Some h' \<and> deleted h' = deleted h @ xs \<and> distinct xs \<and>
    (\<forall>a. a \<notin> set xs \<longrightarrow> Next h' a = Next h a)"
  using purge_chain [OF assms] chain_distinct [OF assms] by auto

theorem LinkedObject_purge_once_witness:
  "\<exists>h'. LinkedObject_purge (empty_heap\<lparr>Next := (\<lambda>_. None)(1 := Some 2)\<rparr>) (Some 1) = Some h' \<and>
     deleted h' = [1, 2]"
  using LinkedObject_purge_once
    [of "empty_heap\<lparr>Next := (\<lambda>_. None)(1 := Some 2)\<rparr>" "Some 1" "[1, 2]"]
  by (auto simp: empty_heap_def)

text \<open>
  \<open>count\<close>, \<open>index\<close>, \<open>find\<close> and \<open>getIndexed\<close> agree with the list an index
  holds: the count is its length, the array lists it and ends with a null pointer in slot
  \<open>count\<close>, \<open>find\<close> is indexed from one (zero also gives the head) and \<open>getIndexed\<close> from
  zero, each null past the end.
\<close>

theorem OrderedIndex_views:
  assumes w: "wf_index h i xs" and "length xs < 2 ^ 32"
  shows "OrderedIndex_count h i = Some (of_nat (length xs)) \<and>
    OrderedIndex_index h i = Some (map Some xs @ [None]) \<and>
    OrderedIndex_find h i k =
      Some (if unat k - 1 < length xs then Some (xs ! (unat k - 1)) else None) \<and>
    LinkedObject_getIndexed h (head h i) n = (if n < length xs then Some (xs ! n) else None)"
proof -
  have c: "chain (Next h) (head h i) xs" using w by (simp add: wf_index_def)
  show ?thesis
    using count_loop_chain [OF c] index_loop_chain [OF c] find_loop_chain [OF c, of 0 k]
      getIndexed_chain [OF c] assms(2)
    by (simp add: OrderedIndex_count_def OrderedIndex_index_def OrderedIndex_find_def Let_def)
qed

theorem OrderedIndex_views_witness:
  "OrderedIndex_find (OrderedIndex_add (OrderedIndex_add empty_heap 0 4) 0 9) 0 2 = Some (Some 9)"
proof -
  have "wf_index (OrderedIndex_add (OrderedIndex_add empty_heap 0 4) 0 9) 0 ([4] @ [9])"
    using wf_index_add [of empty_heap 0 "[]" 4]
    by (intro wf_index_add) (simp_all add: wf_index_def empty_heap_def)
  from OrderedIndex_views [OF this, of 2 0] show ?thesis by simp
qed

end
