(* ===== verification/DLinked.thy ===== *)
theory DLinked
  imports Linked
begin

text \<open>
  The double linked lists of \<open>corelib/linked.cpp\<close> (\<open>DLinkedObject\<close>), on the same store.
  An object also knows the index it is enlisted on (\<open>Root\<close>) and its predecessor
  (\<open>Prev\<close>). A result \<open>None\<close> stands for a dereferenced null pointer.
\<close>

section \<open>Operations\<close>

definition DLinkedObject_new :: "'a heap_scheme \<Rightarrow> addr \<Rightarrow> 'a heap_scheme" where
  "DLinkedObject_new h this =
     h\<lparr>Root := (Root h)(this := None), Prev := (Prev h)(this := None), Next := (Next h)(this := None)\<rparr>"

definition DLinkedObject_delist :: "'a heap_scheme \<Rightarrow> addr \<Rightarrow> 'a heap_scheme" where
  "DLinkedObject_delist h this =
     (case Root h this of
        None \<Rightarrow> h
      | Some r \<Rightarrow>
          (let h1 = (case Prev h this of
                       Some p \<Rightarrow> h\<lparr>Next := (Next h)(p := Next h this)\<rparr>
                     | None \<Rightarrow> if head h r = Some this
                               then h\<lparr>head := (head h)(r := Next h this)\<rparr> else h);
               h2 = (case Next h1 this of
                       Some n \<Rightarrow> h1\<lparr>Prev := (Prev h1)(n := Prev h1 this)\<rparr>
                     | None \<Rightarrow> if tail h1 r = Some this
                               then h1\<lparr>tail := (tail h1)(r := Prev h1 this)\<rparr> else h1)
           in h2\<lparr>Root := (Root h2)(this := None), Next := (Next h2)(this := None),
                 Prev := (Prev h2)(this := None)\<rparr>))"

definition DLinkedObject_enlistTail ::
    "'a heap_scheme \<Rightarrow> addr \<Rightarrow> addr \<Rightarrow> 'a heap_scheme option" where
  "DLinkedObject_enlistTail h this r =
     (let h1 = (if Root h this \<noteq> None then DLinkedObject_delist h this else h);
          h2 = h1\<lparr>Root := (Root h1)(this := Some r), Next := (Next h1)(this := None),
                  Prev := (Prev h1)(this := None)\<rparr>
      in case head h2 r of
           None \<Rightarrow> Some (h2\<lparr>head := (head h2)(r := Some this), tail := (tail h2)(r := Some this)\<rparr>)
         | Some _ \<Rightarrow>
             (let h3 = h2\<lparr>Prev := (Prev h2)(this := tail h2 r)\<rparr>
              in case Prev h3 this of
                   None \<Rightarrow> None
                 | Some p \<Rightarrow>
                     (let h4 = h3\<lparr>Next := (Next h3)(p := Some this)\<rparr>
                      in Some (h4\<lparr>tail := (tail h4)(r := Some this)\<rparr>))))"

definition DLinkedObject_enlistHead ::
    "'a heap_scheme \<Rightarrow> addr \<Rightarrow> addr \<Rightarrow> 'a heap_scheme option" where
  "DLinkedObject_enlistHead h this r =
     (let h1 = (if Root h this \<noteq> None then DLinkedObject_delist h this else h);
          h2 = h1\<lparr>Root := (Root h1)(this := Some r), Prev := (Prev h1)(this := None),
                  Next := (Next h1)(this := None)\<rparr>
      in case tail h2 r of
           None \<Rightarrow> Some (h2\<lparr>tail := (tail h2)(r := Some this), head := (head h2)(r := Some this)\<rparr>)
         | Some _ \<Rightarrow>
             (let h3 = h2\<lparr>Next := (Next h2)(this := head h2 r)\<rparr>
              in case Next h3 this of
                   None \<Rightarrow> None
                 | Some n \<Rightarrow>
                     (let h4 = h3\<lparr>Prev := (Prev h3)(n := Some this)\<rparr>
                      in Some (h4\<lparr>head := (head h4)(r := Some this)\<rparr>))))"

definition DLinkedObject_enlist :: "'a heap_scheme \<Rightarrow> addr \<Rightarrow> addr \<Rightarrow> 'a heap_scheme option" where
  "DLinkedObject_enlist h this r = DLinkedObject_enlistTail h this r"

definition DLinkedObject_new_index ::
    "'a heap_scheme \<Rightarrow> addr \<Rightarrow> ptr \<Rightarrow> 'a heap_scheme option" where
  "DLinkedObject_new_index h this r =
     (let h1 = h\<lparr>Root := (Root h)(this := None), Next := (Next h)(this := None),
                 Prev := (Prev h)(this := None)\<rparr>
      in case r of None \<Rightarrow> Some h1 | Some i \<Rightarrow> DLinkedObject_enlist h1 this i)"

definition DLinkedObject_insertHead ::
    "'a heap_scheme \<Rightarrow> addr \<Rightarrow> addr \<Rightarrow> 'a heap_scheme option" where
  "DLinkedObject_insertHead h this obj =
     (let h1 = (if Root h obj \<noteq> None then DLinkedObject_delist h obj else h);
          h2 = (case Prev h1 this of
                  Some p \<Rightarrow> Some (h1\<lparr>Next := (Next h1)(obj := Some this), Prev := (Prev h1)(obj := Some p)\<rparr>)
                | None \<Rightarrow>
                    (case Root h1 this of
                       None \<Rightarrow> None
                     | Some r \<Rightarrow> Some (h1\<lparr>head := (head h1)(r := Some obj), Prev := (Prev h1)(obj := None)\<rparr>)))
      in case h2 of
           None \<Rightarrow> None
         | Some g \<Rightarrow>
             Some (g\<lparr>Root := (Root g)(obj := Root g this), Next := (Next g)(obj := Some this),
                    Prev := (Prev g)(this := Some obj)\<rparr>))"

definition DLinkedObject_insertTail ::
    "'a heap_scheme \<Rightarrow> addr \<Rightarrow> addr \<Rightarrow> 'a heap_scheme option" where
  "DLinkedObject_insertTail h this obj =
     (let h1 = (if Root h obj \<noteq> None then DLinkedObject_delist h obj else h);
          h2 = (case Next h1 this of
                  Some n \<Rightarrow> Some (h1\<lparr>Prev := (Prev h1)(obj := Some this), Next := (Next h1)(obj := Some n)\<rparr>)
                | None \<Rightarrow>
                    (case Root h1 this of
                       None \<Rightarrow> None
                     | Some r \<Rightarrow> Some (h1\<lparr>tail := (tail h1)(r := Some obj), Next := (Next h1)(obj := None)\<rparr>)))
      in case h2 of
           None \<Rightarrow> None
         | Some g \<Rightarrow>
             Some (g\<lparr>Root := (Root g)(obj := Root g this), Prev := (Prev g)(obj := Some this),
                    Next := (Next g)(this := Some obj)\<rparr>))"

definition DLinkedObject_insert :: "'a heap_scheme \<Rightarrow> addr \<Rightarrow> addr \<Rightarrow> 'a heap_scheme option" where
  "DLinkedObject_insert h this obj = DLinkedObject_insertTail h this obj"

definition DLinkedObject_destroy :: "'a heap_scheme \<Rightarrow> addr \<Rightarrow> 'a heap_scheme" where
  "DLinkedObject_destroy h this = DLinkedObject_delist h this"

section \<open>Well-formed double linked indexes\<close>

text \<open>
  \<open>backs pv rt i q xs\<close>: along \<open>xs\<close> the predecessor links lead back to \<open>q\<close>, and every
  object says it is on index \<open>i\<close>.
\<close>

fun backs :: "(addr \<Rightarrow> ptr) \<Rightarrow> (addr \<Rightarrow> ptr) \<Rightarrow> addr \<Rightarrow> ptr \<Rightarrow> addr list \<Rightarrow> bool" where
  "backs pv rt i q [] = True"
| "backs pv rt i q (x # xs) = (pv x = q \<and> rt x = Some i \<and> backs pv rt i (Some x) xs)"

definition wf_dindex :: "'a heap_scheme \<Rightarrow> addr \<Rightarrow> addr list \<Rightarrow> bool" where
  "wf_dindex h i xs \<longleftrightarrow> wf_index h i xs \<and> backs (Prev h) (Root h) i None xs"

text \<open>Objects that are on no index, with both links null, as a constructor leaves them.\<close>

definition unlinked :: "'a heap_scheme \<Rightarrow> addr \<Rightarrow> bool" where
  "unlinked h x \<longleftrightarrow> Root h x = None \<and> Next h x = None \<and> Prev h x = None"

lemma backs_append:
  "backs pv rt i q (xs @ ys) \<longleftrightarrow>
     backs pv rt i q xs \<and> backs pv rt i (if xs = [] then q else Some (last xs)) ys"
  by (induction xs arbitrary: q) auto

lemma backs_upd_fresh [simp]:
  "x \<notin> set xs \<Longrightarrow> backs (pv(x := v)) rt i q xs = backs pv rt i q xs"
  "x \<notin> set xs \<Longrightarrow> backs pv (rt(x := v)) i q xs = backs pv rt i q xs"
  by (induction xs arbitrary: q) auto

lemma backs_root: "backs pv rt i q xs \<Longrightarrow> x \<in> set xs \<Longrightarrow> rt x = Some i"
  by (induction xs arbitrary: q) auto

lemma wf_dindex_root: "wf_dindex h i xs \<Longrightarrow> x \<in> set xs \<Longrightarrow> Root h x = Some i"
  by (auto simp: wf_dindex_def dest: backs_root)

lemma wf_dindex_distinct: "wf_dindex h i xs \<Longrightarrow> distinct xs"
  by (auto simp: wf_dindex_def dest: wf_index_distinct)

lemma unlinked_fresh: "wf_dindex h i xs \<Longrightarrow> unlinked h x \<Longrightarrow> x \<notin> set xs"
  by (auto simp: unlinked_def dest: wf_dindex_root)

section \<open>Delisting from any position\<close>

lemma wf_dindex_delist:
  assumes "wf_dindex h i (us @ x # vs)"
  shows "wf_dindex (DLinkedObject_delist h x) i (us @ vs) \<and> unlinked (DLinkedObject_delist h x) x"
proof -
  have c: "chain (Next h) (head h i) (us @ x # vs)" and b: "backs (Prev h) (Root h) i None (us @ x # vs)"
    and t: "tail h i = Some (last (us @ x # vs))" and d: "distinct (us @ x # vs)"
    using assms wf_dindex_distinct [OF assms] by (auto simp: wf_dindex_def wf_index_def)
  have r: "Root h x = Some i" and pv: "Prev h x = (if us = [] then None else Some (last us))"
    using b by (auto simp: backs_append)
  have nx: "Next h x = (case vs of [] \<Rightarrow> None | v # _ \<Rightarrow> Some v)"
    using c by (cases vs) (auto simp: path_append)
  note defs = DLinkedObject_delist_def wf_dindex_def wf_index_def unlinked_def Let_def
  show ?thesis
  proof (cases us rule: rev_cases)
    case Nil
    with c b t d r pv nx show ?thesis by (cases vs) (auto simp: defs)
  next
    case (snoc ws w)
    have "chain ((Next h)(w := Next h x)) (head h i) (ws @ w # vs)"
      using c snoc by (intro chain_bypass) simp
    then show ?thesis
      using b t d r pv nx snoc by (cases vs) (auto simp: defs backs_append)
  qed
qed

lemma delist_none: "Root h x = None \<Longrightarrow> DLinkedObject_delist h x = h"
  by (simp add: DLinkedObject_delist_def)

lemma wf_dindex_delist_remove1:
  assumes "wf_dindex h i xs" and "x \<in> set xs \<or> Root h x = None"
  shows "wf_dindex (DLinkedObject_delist h x) i (remove1 x xs) \<and> Root (DLinkedObject_delist h x) x = None"
proof (cases "x \<in> set xs")
  case True
  then obtain us vs where "xs = us @ x # vs" "x \<notin> set us"
    by (meson split_list_first)
  with wf_dindex_delist [of h i us x vs] assms(1) show ?thesis
    by (simp add: remove1_append unlinked_def)
next
  case False
  with assms show ?thesis by (simp add: delist_none remove1_idem)
qed

text \<open>An index that does not hold the object is not touched when the object leaves another one.\<close>

lemma wf_dindex_cong:
  assumes "\<And>a. a \<in> set xs \<Longrightarrow> Next g a = Next h a \<and> Prev g a = Prev h a \<and> Root g a = Root h a"
    and "head g i = head h i" and "tail g i = tail h i"
  shows "wf_dindex g i xs = wf_dindex h i xs"
proof -
  have "path (Next g) p xs q = path (Next h) p xs q" for p q
    by (rule path_cong_links) (simp add: assms(1))
  moreover have "backs (Prev g) (Root g) i q xs = backs (Prev h) (Root h) i q xs" for q
    using assms(1) by (induction xs arbitrary: q) auto
  ultimately show ?thesis
    using assms(2,3) by (simp add: wf_dindex_def wf_index_def)
qed

lemma delist_frame:
  assumes j: "wf_dindex h j ys" and i: "wf_dindex h i xs" and "i \<noteq> j" and x: "x \<in> set ys"
  shows "wf_dindex (DLinkedObject_delist h x) i xs"
proof -
  obtain us vs where ys: "ys = us @ x # vs" using x by (meson split_list)
  have dis: "set ys \<inter> set xs = {}"
    using wf_dindex_root [OF j] wf_dindex_root [OF i] \<open>i \<noteq> j\<close> by fastforce
  have pv: "Prev h x = (if us = [] then None else Some (last us))" and r: "Root h x = Some j"
    using j by (auto simp: ys wf_dindex_def backs_append)
  have nx: "Next h x = (case vs of [] \<Rightarrow> None | v # _ \<Rightarrow> Some v)"
    using j by (cases vs) (auto simp: ys wf_dindex_def wf_index_def path_append)
  have near: "us \<noteq> [] \<Longrightarrow> last us \<notin> set xs" "vs \<noteq> [] \<Longrightarrow> hd vs \<notin> set xs" "x \<notin> set xs"
    using dis ys by (auto dest: last_in_set hd_in_set)
  show ?thesis
    by (subst wf_dindex_cong [where h = h])
      (use near pv r nx i \<open>i \<noteq> j\<close> in \<open>auto simp: DLinkedObject_delist_def Let_def split: list.splits\<close>)
qed

section \<open>Enlisting\<close>

lemma enlistTail_fresh:
  assumes w: "wf_dindex h i xs" and x: "Root h x = None"
  shows "\<exists>h'. DLinkedObject_enlistTail h x i = Some h' \<and> wf_dindex h' i (xs @ [x])"
proof -
  have fresh: "x \<notin> set xs" using w x by (auto dest: wf_dindex_root)
  note defs = DLinkedObject_enlistTail_def wf_dindex_def wf_index_def Let_def
  show ?thesis
  proof (cases xs rule: rev_cases)
    case Nil
    with w x fresh show ?thesis by (auto simp: defs)
  next
    case (snoc ws l)
    then have hd: "head h i \<noteq> None" and d: "distinct xs"
      using w wf_index_head [of h i xs] wf_dindex_distinct [OF w] by (auto simp: wf_dindex_def)
    with w x fresh snoc show ?thesis
      by (auto simp: defs path_append backs_append)
  qed
qed

lemma enlistTail_frame:
  assumes "DLinkedObject_enlistTail h x i = Some h'" and "Root h x = None"
  shows "a \<noteq> x \<Longrightarrow> tail h i \<noteq> Some a \<Longrightarrow>
      Next h' a = Next h a \<and> Prev h' a = Prev h a \<and> Root h' a = Root h a"
    and "j \<noteq> i \<Longrightarrow> head h' j = head h j \<and> tail h' j = tail h j"
  using assms
  by (auto simp: DLinkedObject_enlistTail_def Let_def split: option.splits)

lemma enlistHead_fresh:
  assumes w: "wf_dindex h i xs" and x: "Root h x = None"
  shows "\<exists>h'. DLinkedObject_enlistHead h x i = Some h' \<and> wf_dindex h' i (x # xs)"
proof -
  have "x \<notin> set xs" "distinct xs"
    using w x wf_dindex_distinct [OF w] by (auto dest: wf_dindex_root)
  with w x show ?thesis
    by (cases xs) (auto simp: DLinkedObject_enlistHead_def wf_dindex_def wf_index_def Let_def)
qed

lemma enlistTail_delist:
  "DLinkedObject_enlistTail h x i = DLinkedObject_enlistTail (DLinkedObject_delist h x) x i"
  if "Root (DLinkedObject_delist h x) x = None"
  using that by (simp add: DLinkedObject_enlistTail_def delist_none)

lemma enlistHead_delist:
  "DLinkedObject_enlistHead h x i = DLinkedObject_enlistHead (DLinkedObject_delist h x) x i"
  if "Root (DLinkedObject_delist h x) x = None"
  using that by (simp add: DLinkedObject_enlistHead_def delist_none)

section \<open>Any sequence of operations against its specification\<close>

datatype dlist_op = EnlistTail addr | EnlistFront addr | Leave addr

fun dlist_exec :: "'a heap_scheme \<Rightarrow> addr \<Rightarrow> dlist_op \<Rightarrow> 'a heap_scheme option" where
  "dlist_exec h i (EnlistTail x) = DLinkedObject_enlistTail h x i"
| "dlist_exec h i (EnlistFront x) = DLinkedObject_enlistHead h x i"
| "dlist_exec h i (Leave x) = Some (DLinkedObject_delist h x)"

fun dlist_spec :: "addr list \<Rightarrow> dlist_op \<Rightarrow> addr list" where
  "dlist_spec xs (EnlistTail x) = remove1 x xs @ [x]"
| "dlist_spec xs (EnlistFront x) = x # remove1 x xs"
| "dlist_spec xs (Leave x) = remove1 x xs"

fun dlist_run :: "'a heap_scheme \<Rightarrow> addr \<Rightarrow> dlist_op list \<Rightarrow> 'a heap_scheme option" where
  "dlist_run h i [] = Some h"
| "dlist_run h i (c # cs) =
     (case dlist_exec h i c of None \<Rightarrow> None | Some h' \<Rightarrow> dlist_run h' i cs)"

fun dlist_spec_run :: "addr list \<Rightarrow> dlist_op list \<Rightarrow> addr list" where
  "dlist_spec_run xs [] = xs"
| "dlist_spec_run xs (c # cs) = dlist_spec_run (dlist_spec xs c) cs"

text \<open>Every object is either on this index or on none.\<close>

definition closed_on :: "'a heap_scheme \<Rightarrow> addr list \<Rightarrow> bool" where
  "closed_on h xs \<longleftrightarrow> (\<forall>a. a \<in> set xs \<or> Root h a = None)"

lemma delist_other_roots: "a \<noteq> x \<Longrightarrow> Root (DLinkedObject_delist h x) a = Root h a"
  by (simp add: DLinkedObject_delist_def Let_def split: option.splits)

lemma enlist_other_roots:
  "DLinkedObject_enlistTail h x i = Some h' \<Longrightarrow> a \<noteq> x \<Longrightarrow> Root h' a = Root h a"
  "DLinkedObject_enlistHead h x i = Some h' \<Longrightarrow> a \<noteq> x \<Longrightarrow> Root h' a = Root h a"
  by (auto simp: DLinkedObject_enlistTail_def DLinkedObject_enlistHead_def Let_def
      delist_other_roots split: option.splits if_splits)

lemma dlist_exec_simulates:
  assumes w: "wf_dindex h i xs" and cl: "closed_on h xs"
  shows "\<exists>h'. dlist_exec h i c = Some h' \<and> wf_dindex h' i (dlist_spec xs c) \<and>
    closed_on h' (dlist_spec xs c)"
proof -
  have d: "wf_dindex (DLinkedObject_delist h x) i (remove1 x xs)"
    "Root (DLinkedObject_delist h x) x = None" for x
    using wf_dindex_delist_remove1 [OF w, of x] cl by (auto simp: closed_on_def)
  have o: "a \<in> set (remove1 x xs) \<or> a = x \<or> Root h a = None" for a x
    using cl by (metis closed_on_def in_set_remove1)
  show ?thesis
  proof (cases c)
    case (EnlistTail x)
    obtain h' where e: "DLinkedObject_enlistTail h x i = Some h'" and "wf_dindex h' i (remove1 x xs @ [x])"
      using enlistTail_fresh [OF d, of x] enlistTail_delist [OF d(2), of x] by auto
    moreover have "closed_on h' (remove1 x xs @ [x])"
      unfolding closed_on_def using enlist_other_roots(1) [OF e] o [of _ x] by (metis Un_iff list.set_intros(1) set_append)
    ultimately show ?thesis using EnlistTail by simp
  next
    case (EnlistFront x)
    obtain h' where e: "DLinkedObject_enlistHead h x i = Some h'" and "wf_dindex h' i (x # remove1 x xs)"
      using enlistHead_fresh [OF d, of x] enlistHead_delist [OF d(2), of x] by auto
    moreover have "closed_on h' (x # remove1 x xs)"
      unfolding closed_on_def using enlist_other_roots(2) [OF e] o [of _ x] by (metis list.set_intros)
    ultimately show ?thesis using EnlistFront by simp
  next
    case (Leave x)
    have "closed_on (DLinkedObject_delist h x) (remove1 x xs)"
      unfolding closed_on_def using delist_other_roots [of _ x h] d(2) [of x] o [of _ x] by metis
    with d(1) [of x] Leave show ?thesis by simp
  qed
qed

section \<open>Properties\<close>

text \<open>
  C8: Any sequence of \<open>enlistTail\<close>, \<open>enlistHead\<close> and \<open>delist\<close> calls on a double
  linked index runs without a null dereference and keeps the forward links, the backward
  links, the head, the tail and the owner of every object consistent with the list the
  calls describe; enlisting an object again moves it.
\<close>

theorem DLinkedObject_refines_list:
  assumes "wf_dindex h i xs" and "closed_on h xs"
  shows "\<exists>h'. dlist_run h i ops = Some h' \<and> wf_dindex h' i (dlist_spec_run xs ops)"
  using assms
proof (induction ops arbitrary: h xs)
  case (Cons c cs)
  then show ?case using dlist_exec_simulates [of h i xs c] by auto
qed simp

theorem DLinkedObject_refines_list_witness:
  "\<exists>h'. dlist_run empty_heap 0 [EnlistTail 1, EnlistTail 2, EnlistFront 3, EnlistTail 1, Leave 2] = Some h' \<and>
     wf_dindex h' 0 [3, 1]"
  using DLinkedObject_refines_list
    [of empty_heap 0 "[]" "[EnlistTail 1, EnlistTail 2, EnlistFront 3, EnlistTail 1, Leave 2]"]
  by (simp add: wf_dindex_def wf_index_def closed_on_def empty_heap_def)

text \<open>
  Enlisting an object that is on another index moves it: it leaves the old
  index, which stays consistent, and becomes the tail of the new one.
\<close>

theorem DLinkedObject_enlistTail_moves:
  assumes j: "wf_dindex h j (us @ x # vs)" and i: "wf_dindex h i xs" and ij: "i \<noteq> j"
  shows "\<exists>h'. DLinkedObject_enlistTail h x i = Some h' \<and> wf_dindex h' i (xs @ [x]) \<and>
    wf_dindex h' j (us @ vs)"
proof -
  let ?g = "DLinkedObject_delist h x"
  have gj: "wf_dindex ?g j (us @ vs)" and un: "Root ?g x = None"
    using wf_dindex_delist [OF j] by (auto simp: unlinked_def)
  have gi: "wf_dindex ?g i xs" using delist_frame [OF j i ij] by simp
  obtain h' where h': "DLinkedObject_enlistTail h x i = Some h'" "wf_dindex h' i (xs @ [x])"
    using enlistTail_fresh [OF gi un] enlistTail_delist [OF un] by auto
  have x: "x \<notin> set (us @ vs)" using wf_dindex_distinct [OF j] by auto
  have dis: "a \<in> set (us @ vs) \<Longrightarrow> a \<notin> set xs" for a
    using wf_dindex_root [OF gj, of a] wf_dindex_root [OF gi, of a] ij by auto
  have e: "DLinkedObject_enlistTail ?g x i = Some h'"
    using h'(1) enlistTail_delist [OF un] by simp
  have tl: "tail ?g i = (if xs = [] then None else Some (last xs))"
    using gi by (simp add: wf_dindex_def wf_index_def)
  have "wf_dindex h' j (us @ vs) = wf_dindex ?g j (us @ vs)"
  proof (rule wf_dindex_cong)
    fix a assume "a \<in> set (us @ vs)"
    with x dis tl have "a \<noteq> x" "tail ?g i \<noteq> Some a" 
      by (auto split: if_splits dest: last_in_set)
    then show "Next h' a = Next ?g a \<and> Prev h' a = Prev ?g a \<and> Root h' a = Root ?g a"
      by (rule enlistTail_frame(1) [OF e un])
  qed (use enlistTail_frame [OF e un] ij in auto)
  with gj h' show ?thesis by blast
qed

text \<open>Two indexes, 100 with the objects 1 and 2, and 200 with the object 3.\<close>

definition two_lists :: heap where
  "two_lists = empty_heap\<lparr>Next := (\<lambda>_. None)(1 := Some 2), Prev := (\<lambda>_. None)(2 := Some 1),
     Root := (\<lambda>_. None)(1 := Some 100, 2 := Some 100, 3 := Some 200),
     head := (\<lambda>_. None)(100 := Some 1, 200 := Some 3),
     tail := (\<lambda>_. None)(100 := Some 2, 200 := Some 3)\<rparr>"

lemma two_lists_wf: "wf_dindex two_lists 100 [1, 2]" "wf_dindex two_lists 200 [3]"
  by (simp_all add: two_lists_def wf_dindex_def wf_index_def empty_heap_def)

theorem DLinkedObject_enlistTail_moves_witness:
  "\<exists>h'. DLinkedObject_enlistTail two_lists 1 200 = Some h' \<and> wf_dindex h' 200 [3, 1] \<and>
     wf_dindex h' 100 [2]"
  using DLinkedObject_enlistTail_moves [of two_lists 100 "[]" 1 "[2]" 200 "[3]"] two_lists_wf by simp

text \<open>
  \<open>insertTail\<close> behind the last object and \<open>insertHead\<close> in front of the first
  object are correct. In the middle of a list they are not: \<open>insertHead\<close> never links the
  predecessor to the new object, so a walk from the head does not meet it, and
  \<open>insertTail\<close> never updates the back link of the successor, which keeps pointing past
  the new object.
\<close>

theorem DLinkedObject_insert_cases:
  assumes o: "Root h obj = None"
  shows "(wf_dindex h i (us @ [x]) \<longrightarrow>
      (\<exists>h'. DLinkedObject_insertTail h x obj = Some h' \<and> wf_dindex h' i (us @ [x, obj]))) \<and>
    (wf_dindex h i (x # vs) \<longrightarrow>
      (\<exists>h'. DLinkedObject_insertHead h x obj = Some h' \<and> wf_dindex h' i (obj # x # vs))) \<and>
    (wf_dindex h i (us @ p # x # vs) \<longrightarrow>
      (\<exists>h'. DLinkedObject_insertHead h x obj = Some h' \<and>
         chain (Next h') (head h' i) (us @ p # x # vs))) \<and>
    (wf_dindex h i (us @ x # v # vs) \<longrightarrow>
      (\<exists>h'. DLinkedObject_insertTail h x obj = Some h' \<and>
         chain (Next h') (head h' i) (us @ x # obj # v # vs) \<and> Prev h' v = Some x))"
proof (intro conjI impI)
  note defs = DLinkedObject_insertTail_def DLinkedObject_insertHead_def wf_dindex_def wf_index_def
    Let_def path_append backs_append
  have fresh: "wf_dindex h i ys \<Longrightarrow> obj \<notin> set ys \<and> distinct ys" for ys
    using o wf_dindex_distinct by (auto dest: wf_dindex_root)
  show "\<exists>h'. DLinkedObject_insertTail h x obj = Some h' \<and> wf_dindex h' i (us @ [x, obj])"
    if "wf_dindex h i (us @ [x])"
    using that o fresh [OF that] by (auto simp: defs)
  show "\<exists>h'. DLinkedObject_insertHead h x obj = Some h' \<and> wf_dindex h' i (obj # x # vs)"
    if "wf_dindex h i (x # vs)"
    using that o fresh [OF that] by (auto simp: defs)
  show "\<exists>h'. DLinkedObject_insertHead h x obj = Some h' \<and> chain (Next h') (head h' i) (us @ p # x # vs)"
    if "wf_dindex h i (us @ p # x # vs)"
    using that o fresh [OF that] by (auto simp: defs)
  show "\<exists>h'. DLinkedObject_insertTail h x obj = Some h' \<and>
      chain (Next h') (head h' i) (us @ x # obj # v # vs) \<and> Prev h' v = Some x"
    if "wf_dindex h i (us @ x # v # vs)"
    using that o fresh [OF that] by (auto simp: defs)
qed

theorem DLinkedObject_insert_cases_witness:
  "\<exists>h'. DLinkedObject_insertHead two_lists 2 9 = Some h' \<and> chain (Next h') (head h' 100) [1, 2]"
  using DLinkedObject_insert_cases [of two_lists 9 100 "[]" 2 "[]" 1] two_lists_wf(1)
  by (simp add: two_lists_def empty_heap_def)

end
