(* ===== verification/Named.thy ===== *)
theory Named
  imports Linked
begin

unbundle bit_operations_syntax

text \<open>
  Named objects and hash indexes of \<open>corelib/linked.cpp\<close> (\<open>NamedObject\<close>). A hash index
  \<open>NamedObject **idx\<close> of \<open>mx\<close> slots (the parameter \<open>max\<close> of the source) is a list of pointers; an operation that stores into
  a slot returns the new list. \<open>unsigned\<close> values are 32 bit words. Names are compared by
  \<open>strcoll\<close> in the default C locale, where it is zero exactly on equal strings; comparing a
  null \<open>Id\<close> is outside the model's invariant \<open>named_table\<close>.
\<close>

section \<open>Operations\<close>

record named_heap = heap +
  ObjId :: "addr \<Rightarrow> cstr option"

fun keyhash :: "32 word \<Rightarrow> cstr \<Rightarrow> 32 word" where
  "keyhash val [] = val"
| "keyhash val (c # name) = keyhash (push_bit 1 val XOR (of_char c AND 0x1f)) name"

definition keyindex :: "cstr \<Rightarrow> 32 word \<Rightarrow> 32 word" where
  "keyindex name mx = keyhash 0 name mod mx"

definition key_slot :: "cstr \<Rightarrow> 32 word \<Rightarrow> nat" where
  "key_slot name mx = (if mx < 2 then 0 else unat (keyindex name mx))"

definition name_equal :: "'a named_heap_scheme \<Rightarrow> addr \<Rightarrow> cstr \<Rightarrow> bool" where
  "name_equal h n name \<longleftrightarrow> ObjId h n = Some name"

definition NamedObject_clearId :: "'a named_heap_scheme \<Rightarrow> addr \<Rightarrow> 'a named_heap_scheme" where
  "NamedObject_clearId h this =
     (if ObjId h this \<noteq> None then h\<lparr>ObjId := (ObjId h)(this := None)\<rparr> else h)"

partial_function (option) name_scan ::
    "'a named_heap_scheme \<Rightarrow> cstr \<Rightarrow> ptr \<Rightarrow> ptr \<Rightarrow> (ptr \<times> ptr) option" where
  "name_scan h name prior node =
     (case node of
        None \<Rightarrow> Some (prior, None)
      | Some n \<Rightarrow> if name_equal h n name then Some (prior, Some n)
                  else name_scan h name (Some n) (Next h n))"

definition NamedObject_add ::
    "'a named_heap_scheme \<Rightarrow> addr \<Rightarrow> ptr list \<Rightarrow> cstr \<Rightarrow> 32 word \<Rightarrow>
     ('a named_heap_scheme \<times> ptr list) option" where
  "NamedObject_add h this root nid mx =
     (let h0 = NamedObject_clearId h this; k = key_slot nid mx
      in case name_scan h0 nid None (root ! k) of
           None \<Rightarrow> None
         | Some (prior, Some node) \<Rightarrow>
             (let (h1, root1) =
                    (case prior of
                       Some p \<Rightarrow>
                         (let g = h0\<lparr>Next := (Next h0)(p := Some this)\<rparr>
                          in (g\<lparr>Next := (Next g)(this := Next g node)\<rparr>, root))
                     | None \<Rightarrow> (h0, root[k := Next h0 node]));
                  h2 = LinkedObject_release h1 node
              in Some (h2\<lparr>ObjId := (ObjId h2)(this := Some nid)\<rparr>, root1))
         | Some (prior, None) \<Rightarrow>
             Some (h0\<lparr>Next := (Next h0)(this := root ! k), ObjId := (ObjId h0)(this := Some nid)\<rparr>,
                   root[k := Some this]))"

definition NamedObject_new_index ::
    "'a named_heap_scheme \<Rightarrow> addr \<Rightarrow> addr \<Rightarrow> cstr \<Rightarrow> 'a named_heap_scheme option" where
  "NamedObject_new_index h this root nid =
     (case name_scan h nid None (head h root) of
        None \<Rightarrow> None
      | Some (prior, node) \<Rightarrow>
          (let h1 = (case node of
                       None \<Rightarrow> h
                     | Some n \<Rightarrow>
                         LinkedObject_release
                           (case prior of
                              Some p \<Rightarrow> h\<lparr>Next := (Next h)(p := Next h n)\<rparr>
                            | None \<Rightarrow> h\<lparr>head := (head h)(root := Next h n)\<rparr>) n);
               h2 = h1\<lparr>Next := (Next h1)(this := None), ObjId := (ObjId h1)(this := Some nid)\<rparr>;
               h3 = (if head h2 root = None then h2\<lparr>head := (head h2)(root := Some this)\<rparr> else h2)
           in Some (case tail h3 root of
                      None \<Rightarrow> h3\<lparr>tail := (tail h3)(root := Some this)\<rparr>
                    | Some t \<Rightarrow> h3\<lparr>Next := (Next h3)(t := Some this)\<rparr>)))"

partial_function (option) NamedObject_find ::
    "'a named_heap_scheme \<Rightarrow> ptr \<Rightarrow> cstr \<Rightarrow> ptr option" where
  "NamedObject_find h root name =
     (case root of
        None \<Rightarrow> Some None
      | Some r \<Rightarrow> if name_equal h r name then Some (Some r) else NamedObject_find h (Next h r) name)"

definition NamedObject_map :: "'a named_heap_scheme \<Rightarrow> ptr list \<Rightarrow> cstr \<Rightarrow> 32 word \<Rightarrow> ptr option" where
  "NamedObject_map h idx name mx =
     (if mx < 2 then NamedObject_find h (idx ! 0) name
      else NamedObject_find h (idx ! unat (keyindex name mx)) name)"

definition NamedObject_remove_list ::
    "'a named_heap_scheme \<Rightarrow> ptr \<Rightarrow> cstr \<Rightarrow> (ptr \<times> 'a named_heap_scheme \<times> ptr) option" where
  "NamedObject_remove_list h root name =
     (case name_scan h name None root of
        None \<Rightarrow> None
      | Some (prior, None) \<Rightarrow> Some (None, h, root)
      | Some (None, Some n) \<Rightarrow> Some (Some n, h, Next h n)
      | Some (Some p, Some n) \<Rightarrow> Some (Some n, h\<lparr>Next := (Next h)(p := Next h n)\<rparr>, root))"

definition NamedObject_remove ::
    "'a named_heap_scheme \<Rightarrow> ptr list \<Rightarrow> cstr \<Rightarrow> 32 word \<Rightarrow>
     (ptr \<times> 'a named_heap_scheme \<times> ptr list) option" where
  "NamedObject_remove h idx name mx =
     (let k = (if mx < 2 then 0 else unat (keyindex name mx))
      in case NamedObject_remove_list h (idx ! k) name of
           None \<Rightarrow> None
         | Some (r, h', root) \<Rightarrow> Some (r, h', idx[k := root]))"

fun count_slots :: "'a heap_scheme \<Rightarrow> ptr list \<Rightarrow> nat \<Rightarrow> 32 word \<Rightarrow> 32 word option" where
  "count_slots h idx 0 c = Some c"
| "count_slots h idx (Suc k) c =
     (case count_loop h c (idx ! k) of None \<Rightarrow> None | Some c' \<Rightarrow> count_slots h idx k c')"

definition NamedObject_count :: "'a heap_scheme \<Rightarrow> ptr list \<Rightarrow> 32 word \<Rightarrow> 32 word option" where
  "NamedObject_count h idx mx = count_slots h idx (if mx < 2 then 1 else unat mx) 0"

fun purge_slots :: "'a heap_scheme \<Rightarrow> ptr list \<Rightarrow> nat \<Rightarrow> 'a heap_scheme option" where
  "purge_slots h idx 0 = Some h"
| "purge_slots h idx (Suc k) =
     (case LinkedObject_purge h (idx ! k) of None \<Rightarrow> None | Some h' \<Rightarrow> purge_slots h' idx k)"

definition NamedObject_purge :: "'a heap_scheme \<Rightarrow> ptr list \<Rightarrow> 32 word \<Rightarrow> 'a heap_scheme option" where
  "NamedObject_purge h idx mx = purge_slots h idx (if mx < 2 then 0 else unat mx)"

function skip_slot :: "ptr list \<Rightarrow> nat \<Rightarrow> nat \<Rightarrow> ptr" where
  "skip_slot idx key mx =
     (if key < mx \<and> idx ! key = None then skip_slot idx (Suc key) mx
      else if key \<ge> mx then None
      else idx ! key)"
  by pat_completeness auto
termination by (relation "measure (\<lambda>(idx, key, mx). mx - key)") auto

declare skip_slot.simps [simp del]

text \<open>The outer \<open>None\<close> is the hash of a null \<open>Id\<close>.\<close>

definition NamedObject_skip ::
    "'a named_heap_scheme \<Rightarrow> ptr list \<Rightarrow> ptr \<Rightarrow> 32 word \<Rightarrow> ptr option" where
  "NamedObject_skip h idx rec mx =
     (case rec of
        None \<Rightarrow> Some (skip_slot idx 0 (unat mx))
      | Some r \<Rightarrow>
          (case Next h r of
             Some n \<Rightarrow> Some (Some n)
           | None \<Rightarrow>
               (case ObjId h r of
                  None \<Rightarrow> None
                | Some name \<Rightarrow> Some (skip_slot idx (unat (keyindex name mx + 1)) (unat mx)))))"

partial_function (option) named_index_loop ::
    "'a named_heap_scheme \<Rightarrow> ptr list \<Rightarrow> 32 word \<Rightarrow> ptr list \<Rightarrow> ptr \<Rightarrow> ptr list option" where
  "named_index_loop h idx mx op node =
     (case node of
        None \<Rightarrow> Some (op @ [None])
      | Some n \<Rightarrow>
          (case NamedObject_skip h idx (Some n) mx of
             None \<Rightarrow> None
           | Some next \<Rightarrow> named_index_loop h idx mx (op @ [Some n]) next))"

definition NamedObject_index :: "'a named_heap_scheme \<Rightarrow> ptr list \<Rightarrow> 32 word \<Rightarrow> ptr list option" where
  "NamedObject_index h idx mx =
     (case NamedObject_skip h idx None mx of
        None \<Rightarrow> None
      | Some node \<Rightarrow> named_index_loop h idx mx [] node)"

section \<open>Well-formed hash indexes\<close>

definition named_table ::
    "'a named_heap_scheme \<Rightarrow> ptr list \<Rightarrow> 32 word \<Rightarrow> addr list list \<Rightarrow> bool" where
  "named_table h idx mx tbl \<longleftrightarrow>
     0 < mx \<and> length idx = unat mx \<and> length tbl = unat mx \<and>
     (\<forall>k < unat mx. chain (Next h) (idx ! k) (tbl ! k)) \<and>
     (\<forall>k < unat mx. \<forall>a \<in> set (tbl ! k). \<exists>name. ObjId h a = Some name \<and> key_slot name mx = k) \<and>
     (\<forall>k < unat mx. inj_on (ObjId h) (set (tbl ! k)))"

text \<open>The object a name stands for.\<close>

definition lookup_name :: "'a named_heap_scheme \<Rightarrow> addr list \<Rightarrow> cstr \<Rightarrow> ptr" where
  "lookup_name h xs name = find (\<lambda>a. ObjId h a = Some name) xs"

lemma key_slot_less: "0 < mx \<Longrightarrow> key_slot name mx < unat mx"
proof (cases "mx < 2")
  case True
  then show "0 < mx \<Longrightarrow> key_slot name mx < unat mx"
    by (simp add: key_slot_def word_less_nat_alt)
next
  case False
  then show "0 < mx \<Longrightarrow> key_slot name mx < unat mx"
    by (simp add: key_slot_def keyindex_def unat_mod word_less_nat_alt)
qed

lemma named_table_slot:
  assumes "named_table h idx mx tbl" and "a \<in> set (concat tbl)"
  shows "\<exists>name. ObjId h a = Some name \<and> key_slot name mx < unat mx \<and> a \<in> set (tbl ! key_slot name mx)"
proof -
  obtain xs where "xs \<in> set tbl" and "a \<in> set xs" using assms(2) by auto
  then obtain j where "j < unat mx" "a \<in> set (tbl ! j)"
    using assms(1) by (metis in_set_conv_nth named_table_def)
  then show ?thesis using assms(1) unfolding named_table_def by metis
qed

lemma named_table_disjoint:
  "named_table h idx mx tbl \<Longrightarrow> j < unat mx \<Longrightarrow> k < unat mx \<Longrightarrow> j \<noteq> k \<Longrightarrow>
     a \<in> set (tbl ! j) \<Longrightarrow> a \<notin> set (tbl ! k)"
  unfolding named_table_def by (metis option.inject)

lemma named_table_inj: "named_table h idx mx tbl \<Longrightarrow> inj_on (ObjId h) (set (concat tbl))"
proof (rule inj_onI)
  fix a b assume t: "named_table h idx mx tbl" and ab: "a \<in> set (concat tbl)" "b \<in> set (concat tbl)"
    and e: "ObjId h a = ObjId h b"
  from named_table_slot [OF t ab(1)] named_table_slot [OF t ab(2)] e obtain k
    where "k < unat mx" "a \<in> set (tbl ! k)" "b \<in> set (tbl ! k)" by auto
  with t e show "a = b" by (auto simp: named_table_def dest: inj_onD)
qed

lemma in_concat_slot: "k < length tbl \<Longrightarrow> a \<in> set (tbl ! k) \<Longrightarrow> a \<in> set (concat tbl)"
  using nth_mem by fastforce

lemma lookup_name_Some:
  assumes "inj_on (ObjId h) (set xs)"
  shows "lookup_name h xs name = Some a \<longleftrightarrow> a \<in> set xs \<and> ObjId h a = Some name"
proof
  assume "lookup_name h xs name = Some a"
  then show "a \<in> set xs \<and> ObjId h a = Some name"
    by (auto simp: lookup_name_def find_Some_iff)
next
  assume a: "a \<in> set xs \<and> ObjId h a = Some name"
  then obtain b where b: "lookup_name h xs name = Some b"
    by (cases "lookup_name h xs name") (auto simp: lookup_name_def find_None_iff)
  then have "b \<in> set xs \<and> ObjId h b = Some name"
    by (auto simp: lookup_name_def find_Some_iff)
  with a assms have "b = a" by (metis inj_onD)
  with b show "lookup_name h xs name = Some a" by simp
qed

lemma lookup_name_None:
  "lookup_name h xs name = None \<longleftrightarrow> (\<forall>a \<in> set xs. ObjId h a \<noteq> Some name)"
  by (auto simp: lookup_name_def find_None_iff)

text \<open>Replacing the content of one slot.\<close>

lemma named_table_upd:
  assumes t: "named_table h idx mx tbl" and k: "k < unat mx"
    and "chain (Next h') q ys"
    and "\<And>a. a \<in> set ys \<Longrightarrow> \<exists>name. ObjId h' a = Some name \<and> key_slot name mx = k"
    and "inj_on (ObjId h') (set ys)"
    and f: "\<And>a. a \<in> set (concat tbl) \<Longrightarrow> a \<notin> set (tbl ! k) \<Longrightarrow>
      Next h' a = Next h a \<and> ObjId h' a = ObjId h a"
  shows "named_table h' (idx[k := q]) mx (tbl[k := ys])"
proof -
  have other: "Next h' a = Next h a \<and> ObjId h' a = ObjId h a"
    if "j < unat mx" "j \<noteq> k" "a \<in> set (tbl ! j)" for a j
  proof (rule f)
    show "a \<in> set (concat tbl)"
      using t that by (auto simp: named_table_def intro!: in_concat_slot)
    show "a \<notin> set (tbl ! k)" using named_table_disjoint [OF t that(1) k that(2,3)] .
  qed
  have "chain (Next h') (idx ! j) (tbl ! j)" if "j < unat mx" "j \<noteq> k" for j
    using t that other path_cong_links [of "tbl ! j" "Next h'" "Next h"] by (simp add: named_table_def)
  moreover have "inj_on (ObjId h') (set (tbl ! j))" if "j < unat mx" "j \<noteq> k" for j
    using t that other inj_on_cong [of "set (tbl ! j)" "ObjId h'" "ObjId h"]
    by (simp add: named_table_def)
  ultimately show ?thesis
    using assms other by (auto simp: named_table_def nth_list_update)
qed

section \<open>The loops on a chain\<close>

lemmas named_loops =
  name_scan.simps [of _ _ _ None] name_scan.simps [of _ _ _ "Some _"]
  NamedObject_find.simps [of _ None] NamedObject_find.simps [of _ "Some _"]
  named_index_loop.simps [of _ _ _ _ None] named_index_loop.simps [of _ _ _ _ "Some _"]

lemma name_scan_found:
  "path (Next h) p us (Some x) \<Longrightarrow> \<forall>u \<in> set us. ObjId h u \<noteq> Some name \<Longrightarrow> ObjId h x = Some name \<Longrightarrow>
     name_scan h name prior p = Some (if us = [] then prior else Some (last us), Some x)"
  by (induction us arbitrary: p prior) (auto simp: named_loops name_equal_def)

lemma name_scan_absent:
  "chain (Next h) p xs \<Longrightarrow> \<forall>u \<in> set xs. ObjId h u \<noteq> Some name \<Longrightarrow>
     name_scan h name prior p = Some (if xs = [] then prior else Some (last xs), None)"
  by (induction xs arbitrary: p prior) (auto simp: named_loops name_equal_def)

lemma find_chain: "chain (Next h) p xs \<Longrightarrow> NamedObject_find h p name = Some (lookup_name h xs name)"
  by (induction xs arbitrary: p) (auto simp: named_loops name_equal_def lookup_name_def)

lemma NamedObject_map_slot: "NamedObject_map h idx name mx = NamedObject_find h (idx ! key_slot name mx) name"
  by (simp add: NamedObject_map_def key_slot_def)

lemma lookup_name_slot:
  assumes t: "named_table h idx mx tbl"
  shows "lookup_name h (tbl ! key_slot name mx) name = lookup_name h (concat tbl) name"
proof (rule option_eqI)
  fix a
  let ?k = "key_slot name mx"
  have k: "?k < unat mx" "?k < length tbl"
    using t by (auto simp: named_table_def key_slot_less)
  have i: "inj_on (ObjId h) (set (tbl ! ?k))" "inj_on (ObjId h) (set (concat tbl))"
    using t k named_table_inj by (auto simp: named_table_def)
  show "lookup_name h (tbl ! ?k) name = Some a \<longleftrightarrow> lookup_name h (concat tbl) name = Some a"
    using named_table_slot [OF t, of a] in_concat_slot [of ?k tbl a] k
    unfolding lookup_name_Some [OF i(1)] lookup_name_Some [OF i(2)] by (metis option.inject)
qed

lemma map_table:
  assumes t: "named_table h idx mx tbl"
  shows "NamedObject_map h idx name mx = Some (lookup_name h (concat tbl) name)"
proof -
  have "chain (Next h) (idx ! key_slot name mx) (tbl ! key_slot name mx)"
    using t by (simp add: named_table_def key_slot_less)
  then show ?thesis
    by (simp add: NamedObject_map_slot find_chain lookup_name_slot [OF t])
qed

section \<open>Adding and removing\<close>

lemma clearId_fields [simp]:
  "Next (NamedObject_clearId h a) = Next h" "deleted (NamedObject_clearId h a) = deleted h"
  "b \<noteq> a \<Longrightarrow> ObjId (NamedObject_clearId h a) b = ObjId h b"
  by (auto simp: NamedObject_clearId_def)

lemma clearId_name: "ObjId (NamedObject_clearId h this) u = Some name \<Longrightarrow> ObjId h u = Some name"
  by (auto simp: NamedObject_clearId_def split: if_splits)

lemma inj_on_new:
  assumes "inj_on f A" and "\<And>a. a \<in> A \<Longrightarrow> g a = f a" and "\<And>a. a \<in> A \<Longrightarrow> f a \<noteq> g t"
  shows "inj_on g (insert t A)"
  using assms unfolding inj_on_def by (metis insert_iff)

lemma named_table_chain:
  "named_table h idx mx tbl \<Longrightarrow> k < unat mx \<Longrightarrow>
     chain (Next h) (idx ! k) (tbl ! k) \<and> k < length idx \<and> k < length tbl"
  by (simp add: named_table_def)

lemma slot_names:
  "named_table h idx mx tbl \<Longrightarrow> k < unat mx \<Longrightarrow> a \<in> set (tbl ! k) \<Longrightarrow>
     \<exists>name. ObjId h a = Some name \<and> key_slot name mx = k"
  by (simp add: named_table_def)

lemma slot_inj: "named_table h idx mx tbl \<Longrightarrow> k < unat mx \<Longrightarrow> inj_on (ObjId h) (set (tbl ! k))"
  by (simp add: named_table_def)

lemma slot_distinct: "named_table h idx mx tbl \<Longrightarrow> k < unat mx \<Longrightarrow> distinct (tbl ! k)"
  using named_table_chain chain_distinct by blast

text \<open>A new name goes to the front of its slot.\<close>

lemma add_new_table:
  assumes t: "named_table h idx mx tbl" and fr: "this \<notin> set (concat tbl)"
    and new: "lookup_name h (concat tbl) name = None"
  defines "k \<equiv> key_slot name mx"
  shows "\<exists>h' idx'. NamedObject_add h this idx name mx = Some (h', idx') \<and>
    named_table h' idx' mx (tbl[k := this # tbl ! k]) \<and> ObjId h' this = Some name \<and>
    (\<forall>a. a \<noteq> this \<longrightarrow> ObjId h' a = ObjId h a) \<and> deleted h' = deleted h"
proof -
  have k: "k < unat mx" using t by (simp add: k_def named_table_def key_slot_less)
  note ch = named_table_chain [OF t k]
  have tk: "this \<notin> set (tbl ! k)" using fr ch in_concat_slot by metis
  have no: "\<forall>u \<in> set (tbl ! k). ObjId h u \<noteq> Some name"
    using lookup_name_slot [OF t, of name] new by (simp add: k_def lookup_name_None)
  let ?h0 = "NamedObject_clearId h this"
  let ?h' = "?h0\<lparr>Next := (Next h)(this := idx ! k), ObjId := (ObjId ?h0)(this := Some name)\<rparr>"
  have "name_scan ?h0 name None (idx ! k) = Some (if tbl ! k = [] then None else Some (last (tbl ! k)), None)"
    using ch no tk by (intro name_scan_absent) (auto dest: clearId_name)
  then have add: "NamedObject_add h this idx name mx = Some (?h', idx[k := Some this])"
    by (simp add: NamedObject_add_def k_def Let_def)
  moreover have "named_table ?h' (idx[k := Some this]) mx (tbl[k := this # tbl ! k])"
  proof (rule named_table_upd [OF t k])
    show "chain (Next ?h') (Some this) (this # tbl ! k)" using ch tk by simp
    show "\<exists>n. ObjId ?h' a = Some n \<and> key_slot n mx = k" if "a \<in> set (this # tbl ! k)" for a
      using that slot_names [OF t k] by (auto simp: k_def)
    have "inj_on (ObjId ?h') (insert this (set (tbl ! k)))"
      using tk no by (intro inj_on_new [OF slot_inj [OF t k]]) auto
    then show "inj_on (ObjId ?h') (set (this # tbl ! k))" by simp
    show "Next ?h' a = Next h a \<and> ObjId ?h' a = ObjId h a" if "a \<in> set (concat tbl)" for a
      using that fr by auto
  qed
  ultimately show ?thesis by auto
qed

text \<open>
  A known name: the object that had it is deleted. When another object is in front of it in
  its slot, the new object takes its place; when it was the first of its slot, the slot
  only loses it.
\<close>

lemma add_replace_table:
  assumes t: "named_table h idx mx tbl" and fr: "this \<notin> set (concat tbl)"
    and old: "ObjId h x = Some name"
  defines "k \<equiv> key_slot name mx"
  assumes sp: "tbl ! k = us @ x # vs"
  shows "\<exists>h' idx'. NamedObject_add h this idx name mx = Some (h', idx') \<and>
    named_table h' idx' mx (tbl[k := (if us = [] then vs else us @ this # vs)]) \<and>
    deleted h' = deleted h @ [x]"
proof -
  have k: "k < unat mx" using t by (simp add: k_def named_table_def key_slot_less)
  note ch = named_table_chain [OF t k]
  have c: "chain (Next h) (idx ! k) (us @ x # vs)" using ch sp by simp
  have d: "distinct (us @ x # vs)" using c by (rule chain_distinct)
  have tk: "this \<notin> set (us @ x # vs)" using fr ch in_concat_slot sp by metis
  have i: "inj_on (ObjId h) (set (us @ x # vs))" using slot_inj [OF t k] sp by simp
  have no: "\<forall>u \<in> set us. ObjId h u \<noteq> Some name"
    using inj_onD [OF i, of _ x] old d by fastforce
  have nself: "Next h x \<noteq> Some x" using c by (auto simp: path_append dest: chain_no_self)
  let ?h0 = "NamedObject_clearId h this"
  have s: "name_scan ?h0 name None (idx ! k) = Some (if us = [] then None else Some (last us), Some x)"
    using c no tk old by (intro name_scan_found) (auto simp: path_append dest: clearId_name)
  show ?thesis
  proof (cases us rule: rev_cases)
    case Nil
    let ?h' = "(LinkedObject_release ?h0 x)\<lparr>ObjId := (ObjId (LinkedObject_release ?h0 x))(this := Some name)\<rparr>"
    have add: "NamedObject_add h this idx name mx = Some (?h', idx[k := Next h x])"
      using s Nil by (simp add: NamedObject_add_def k_def Let_def)
    have r: "Next ?h' = (Next h)(x := Some x)" "deleted ?h' = deleted h @ [x]"
        "\<And>a. a \<noteq> this \<Longrightarrow> ObjId ?h' a = ObjId h a"
      using nself by (auto simp: LinkedObject_release_def)
    have "named_table ?h' (idx[k := Next h x]) mx (tbl[k := vs])"
    proof (rule named_table_upd [OF t k])
      show "chain (Next ?h') (Next h x) vs" using c d Nil by (simp add: r)
      show "\<exists>n. ObjId ?h' a = Some n \<and> key_slot n mx = k" if "a \<in> set vs" for a
        using that slot_names [OF t k, of a] sp tk r(3) by auto
      show "inj_on (ObjId ?h') (set vs)"
        using i tk inj_on_cong [of "set vs" "ObjId ?h'" "ObjId h"] r(3) Nil by (auto simp: inj_on_def)
      show "Next ?h' a = Next h a \<and> ObjId ?h' a = ObjId h a"
        if "a \<in> set (concat tbl)" "a \<notin> set (tbl ! k)" for a
        using that fr sp r by auto
    qed
    with add r Nil show ?thesis by auto
  next
    case (snoc ws w)
    let ?h1 = "?h0\<lparr>Next := (Next h)(w := Some this, this := Next h x)\<rparr>"
    let ?h' = "(LinkedObject_release ?h1 x)\<lparr>ObjId := (ObjId (LinkedObject_release ?h1 x))(this := Some name)\<rparr>"
    have xw: "x \<noteq> w" "x \<noteq> this" "this \<noteq> w" using d tk snoc by auto
    have add: "NamedObject_add h this idx name mx = Some (?h', idx)"
      using s snoc xw by (simp add: NamedObject_add_def k_def Let_def fun_upd_twist)
    have r: "Next ?h' = (Next h)(w := Some this, this := Next h x, x := Some x)"
        "deleted ?h' = deleted h @ [x]" "\<And>a. a \<noteq> this \<Longrightarrow> ObjId ?h' a = ObjId h a"
        "ObjId ?h' this = Some name"
      using nself xw by (auto simp: LinkedObject_release_def)
    have "named_table ?h' (idx[k := idx ! k]) mx (tbl[k := us @ this # vs])"
    proof (rule named_table_upd [OF t k])
      show "chain (Next ?h') (idx ! k) (us @ this # vs)"
        using c d tk xw snoc by (auto simp: r(1) path_append)
      show "\<exists>n. ObjId ?h' a = Some n \<and> key_slot n mx = k" if "a \<in> set (us @ this # vs)" for a
        using that slot_names [OF t k, of a] sp tk r(3,4) by (cases "a = this") (auto simp: k_def)
      have "inj_on (ObjId ?h') (insert this (set us \<union> set vs))"
      proof (rule inj_on_new)
        show "inj_on (ObjId h) (set us \<union> set vs)" using i by (simp add: inj_on_def)
        show "ObjId ?h' a = ObjId h a" if "a \<in> set us \<union> set vs" for a
          using that tk by (intro r(3)) auto
        show "ObjId h a \<noteq> ObjId ?h' this" if "a \<in> set us \<union> set vs" for a
          using that inj_onD [OF i, of a x] d old unfolding r(4) by auto
      qed
      then show "inj_on (ObjId ?h') (set (us @ this # vs))" by simp
      show "Next ?h' a = Next h a \<and> ObjId ?h' a = ObjId h a"
        if "a \<in> set (concat tbl)" "a \<notin> set (tbl ! k)" for a
        using that fr sp r snoc by auto
    qed
    with add r snoc show ?thesis by auto
  qed
qed

lemma remove_table:
  assumes t: "named_table h idx mx tbl" and old: "ObjId h x = Some name"
  defines "k \<equiv> key_slot name mx"
  assumes sp: "tbl ! k = us @ x # vs"
  shows "\<exists>h' idx'. NamedObject_remove h idx name mx = Some (Some x, h', idx') \<and>
    named_table h' idx' mx (tbl[k := us @ vs]) \<and> ObjId h' = ObjId h \<and> deleted h' = deleted h"
proof -
  have k: "k < unat mx" using t by (simp add: k_def named_table_def key_slot_less)
  have c: "chain (Next h) (idx ! k) (us @ x # vs)" using named_table_chain [OF t k] sp by simp
  have i: "inj_on (ObjId h) (set (us @ x # vs))" using slot_inj [OF t k] sp by simp
  have "\<forall>u \<in> set us. ObjId h u \<noteq> Some name"
    using inj_onD [OF i, of _ x] old chain_distinct [OF c] by fastforce
  then have s: "name_scan h name None (idx ! k) = Some (if us = [] then None else Some (last us), Some x)"
    using c old by (intro name_scan_found) (auto simp: path_append)
  have upd: "named_table h' (idx[k := q]) mx (tbl[k := us @ vs])"
    if "chain (Next h') q (us @ vs)" "ObjId h' = ObjId h"
      "\<And>a. a \<notin> set (tbl ! k) \<Longrightarrow> Next h' a = Next h a" for h' q
  proof (rule named_table_upd [OF t k])
    show "inj_on (ObjId h') (set (us @ vs))" using i that(2) by (simp add: inj_on_def)
    show "\<exists>n. ObjId h' a = Some n \<and> key_slot n mx = k" if "a \<in> set (us @ vs)" for a
      using that slot_names [OF t k, of a] sp \<open>ObjId h' = ObjId h\<close> by auto
  qed (use that in auto)
  show ?thesis
  proof (cases us rule: rev_cases)
    case Nil
    with upd [of h "Next h x"] c s show ?thesis
      by (simp add: NamedObject_remove_def NamedObject_remove_list_def k_def key_slot_def)
  next
    case (snoc ws w)
    let ?h' = "h\<lparr>Next := (Next h)(w := Next h x)\<rparr>"
    have "chain (Next ?h') (idx ! k) (us @ vs)"
      using chain_bypass [of "Next h" "idx ! k" ws w x vs] c snoc by simp
    with upd [of ?h' "idx ! k"] s snoc sp show ?thesis
      by (auto simp: NamedObject_remove_def NamedObject_remove_list_def k_def key_slot_def Let_def)
  qed
qed

lemma concat_list_update_insert:
  "k < length tbl \<Longrightarrow> set (concat (tbl[k := x # tbl ! k])) = insert x (set (concat tbl))"
  by (induction tbl arbitrary: k) (auto simp: nth_Cons split: nat.splits)

lemma concat_list_update_remove:
  assumes t: "named_table h idx mx tbl" and k: "k < unat mx" and sp: "tbl ! k = us @ x # vs"
  shows "set (concat (tbl[k := us @ vs])) = set (concat tbl) - {x}"
proof (intro set_eqI iffI)
  have len: "length tbl = unat mx" using t by (simp add: named_table_def)
  have d: "distinct (us @ x # vs)" using slot_distinct [OF t k] sp by simp
  fix a
  show "a \<in> set (concat tbl) - {x}" if "a \<in> set (concat (tbl[k := us @ vs]))"
  proof -
    from that obtain j where j: "j < unat mx" "a \<in> set (tbl[k := us @ vs] ! j)"
      unfolding in_concat_iff using len by auto
    then have "a \<in> set (tbl ! j)" and "a \<noteq> x"
      using k len sp d named_table_disjoint [OF t j(1) k, of x] by (auto simp: nth_list_update split: if_splits)
    then show ?thesis using j(1) len in_concat_slot by auto
  qed
  show "a \<in> set (concat (tbl[k := us @ vs]))" if "a \<in> set (concat tbl) - {x}"
  proof -
    from that have "a \<in> set (concat tbl)" and "a \<noteq> x" by auto
    then obtain j where j: "j < unat mx" "a \<in> set (tbl ! j)" "a \<noteq> x"
      unfolding in_concat_iff using len by auto
    then have "a \<in> set (tbl[k := us @ vs] ! j)"
      using k len sp by (auto simp: nth_list_update)
    then show ?thesis using j(1) len in_concat_slot [of j "tbl[k := us @ vs]" a] by simp
  qed
qed

lemma concat_distinct:
  assumes t: "named_table h idx mx tbl"
  shows "distinct (concat tbl)"
proof -
  have "distinct (concat (take n tbl))" if "n \<le> unat mx" for n
    using that
  proof (induction n)
    case (Suc n)
    then have n: "n < unat mx" and len: "length tbl = unat mx" using t by (auto simp: named_table_def)
    have "a \<notin> set (tbl ! n)" if a: "a \<in> set (concat (take n tbl))" for a
    proof -
      from a obtain j where "j < n" "a \<in> set (tbl ! j)"
        using n len unfolding in_concat_iff by auto
      with named_table_disjoint [OF t, of j n a] n show ?thesis by simp
    qed
    moreover have "distinct (tbl ! n)" using slot_distinct [OF t n] .
    ultimately show ?case using Suc n len by (auto simp: take_Suc_conv_app_nth)
  qed simp
  from this [of "unat mx"] t show ?thesis by (simp add: named_table_def)
qed

lemma add_names:
  assumes "NamedObject_add h this idx name mx = Some (h', idx')"
  shows "ObjId h' this = Some name \<and> (\<forall>a. a \<noteq> this \<longrightarrow> ObjId h' a = ObjId h a)"
  using assms
  by (auto simp: NamedObject_add_def Let_def LinkedObject_release_def split: option.splits prod.splits if_splits)

section \<open>Enumerating, counting and purging an index\<close>

lemma keyindex_key_slot: "0 < mx \<Longrightarrow> unat (keyindex name mx) = key_slot name mx"
proof (cases "mx < 2")
  case True
  assume "0 < mx"
  with True have "unat mx = 1" by (simp add: word_less_nat_alt)
  with True show "unat (keyindex name mx) = key_slot name mx"
    by (simp add: key_slot_def keyindex_def unat_mod)
qed (simp add: key_slot_def)

lemma keyindex_Suc: "0 < mx \<Longrightarrow> unat (keyindex name mx + 1) = Suc (key_slot name mx)"
proof -
  assume "0 < mx"
  then have "unat (keyindex name mx) < unat mx"
    using key_slot_less keyindex_key_slot by simp
  then have "unat (keyindex name mx) + 1 < 2 ^ 32" using unat_bound_32 [of mx] by simp
  with \<open>0 < mx\<close> show ?thesis
    by (simp add: unat_word_ariths keyindex_key_slot [symmetric])
qed

definition first_of :: "addr list \<Rightarrow> ptr" where
  "first_of xs = (case xs of [] \<Rightarrow> None | x # _ \<Rightarrow> Some x)"

lemma chain_first: "chain link p xs \<Longrightarrow> p = first_of xs"
  by (cases xs) (auto simp: first_of_def)

lemma skip_slot_first:
  assumes "\<And>k. k < n \<Longrightarrow> chain link (idx ! k) (tbl ! k)" and "length tbl = n"
  shows "skip_slot idx k n = first_of (concat (drop k tbl))"
proof (induction "n - k" arbitrary: k)
  case 0
  then show ?case using assms(2) by (subst skip_slot.simps) (simp add: first_of_def)
next
  case (Suc m)
  then have k: "k < n" and d: "drop k tbl = tbl ! k # drop (Suc k) tbl"
    using assms(2) by (auto simp: Cons_nth_drop_Suc)
  have c: "idx ! k = first_of (tbl ! k)" using assms(1) [OF k] by (rule chain_first)
  show ?case
  proof (cases "tbl ! k")
    case Nil
    then show ?thesis
      using c k d Suc by (subst skip_slot.simps) (simp add: first_of_def)
  next
    case (Cons a as)
    then show ?thesis using c k d by (subst skip_slot.simps) (simp add: first_of_def)
  qed
qed

lemma skip_table_end:
  assumes "named_table h idx mx tbl" and "ObjId h y = Some nm" and "key_slot nm mx = k" and "Next h y = None"
  shows "NamedObject_skip h idx (Some y) mx = Some (first_of (concat (drop (Suc k) tbl)))"
  using assms skip_slot_first [of "unat mx" "Next h" idx tbl "Suc k"]
  by (simp add: NamedObject_skip_def keyindex_Suc named_table_def)

lemma first_nonempty_slot:
  assumes "concat (drop k tbl) = z # zs"
  obtains j ys where "k \<le> j" "j < length tbl" "tbl ! j = z # ys" "zs = ys @ concat (drop (Suc j) tbl)"
proof -
  have "\<exists>j ys. k \<le> j \<and> j < length tbl \<and> tbl ! j = z # ys \<and> zs = ys @ concat (drop (Suc j) tbl)"
    using assms
  proof (induction "length tbl - k" arbitrary: k)
    case (Suc m)
    then have d: "drop k tbl = tbl ! k # drop (Suc k) tbl" by (simp add: Cons_nth_drop_Suc)
    show ?case
    proof (cases "tbl ! k")
      case Nil
      then have "concat (drop (Suc k) tbl) = z # zs" and "m = length tbl - Suc k"
        using Suc d by auto
      from Suc.hyps(1) [OF this(2,1)] show ?thesis using Suc_leD by blast
    next
      case (Cons a as)
      with Suc d show ?thesis by (intro exI [of _ k] exI [of _ as]) auto
    qed
  qed simp
  then show ?thesis using that by blast
qed

lemma index_loop_table:
  assumes t: "named_table h idx mx tbl"
  shows "k < unat mx \<Longrightarrow> tbl ! k = xs @ y # ys \<Longrightarrow>
    named_index_loop h idx mx op (Some y) = Some (op @ map Some (y # ys @ concat (drop (Suc k) tbl)) @ [None])"
proof (induction "ys @ concat (drop (Suc k) tbl)" arbitrary: k xs y ys op)
  case Nil
  then have c: "chain (Next h) (idx ! k) (xs @ [y])" and e: "ys = []" "concat (drop (Suc k) tbl) = []"
    using named_table_chain [OF t Nil(2)] by auto
  obtain nm where nm: "ObjId h y = Some nm" "key_slot nm mx = k"
    using slot_names [OF t Nil(2), of y] Nil(3) by auto
  have "NamedObject_skip h idx (Some y) mx = Some (first_of (concat (drop (Suc k) tbl)))"
    using c nm skip_table_end [OF t nm] by (simp add: path_snoc)
  then have "NamedObject_skip h idx (Some y) mx = Some None"
    unfolding e(2) by (simp add: first_of_def)
  then show ?case using e by (simp add: named_loops)
next
  case (Cons z zs)
  have c: "chain (Next h) (idx ! k) (xs @ y # ys)"
    using named_table_chain [OF t Cons.prems(1)] Cons.prems(2) by simp
  show ?case
  proof (cases ys)
    case (Cons y' ys')
    then have "Next h y = Some y'" using c by (simp add: path_append)
    then have "NamedObject_skip h idx (Some y) mx = Some (Some y')"
      by (simp add: NamedObject_skip_def)
    moreover have "named_index_loop h idx mx (op @ [Some y]) (Some y') =
        Some ((op @ [Some y]) @ map Some (y' # ys' @ concat (drop (Suc k) tbl)) @ [None])"
      using Cons.hyps(2) Cons Cons.prems \<open>z # zs = _\<close> by (intro Cons.hyps(1) [of _ _ "xs @ [y]"]) auto
    ultimately show ?thesis using Cons by (simp add: named_loops)
  next
    case Nil
    then have "Next h y = None" using c by (simp add: path_snoc)
    obtain nm where nm: "ObjId h y = Some nm" "key_slot nm mx = k"
      using slot_names [OF t Cons.prems(1), of y] Cons.prems(2) by auto
    have cz: "concat (drop (Suc k) tbl) = z # zs" using Cons.hyps(2) Nil by simp
    then obtain j ys' where j: "Suc k \<le> j" "j < length tbl" "tbl ! j = z # ys'"
        "zs = ys' @ concat (drop (Suc j) tbl)"
      by (rule first_nonempty_slot)
    have "NamedObject_skip h idx (Some y) mx = Some (Some z)"
      using \<open>Next h y = None\<close> cz skip_table_end [OF t nm] by (simp add: first_of_def)
    moreover have "named_index_loop h idx mx (op @ [Some y]) (Some z) =
        Some ((op @ [Some y]) @ map Some (z # ys' @ concat (drop (Suc j) tbl)) @ [None])"
      using j t by (intro Cons.hyps(1) [of _ _ "[]"]) (auto simp: named_table_def)
    ultimately show ?thesis using Nil cz j by (simp add: named_loops)
  qed
qed

lemma index_table:
  assumes t: "named_table h idx mx tbl"
  shows "NamedObject_index h idx mx = Some (map Some (concat tbl) @ [None])"
proof -
  have s: "NamedObject_skip h idx None mx = Some (first_of (concat tbl))"
    using t skip_slot_first [of "unat mx" "Next h" idx tbl 0]
    by (simp add: NamedObject_skip_def named_table_def)
  show ?thesis
  proof (cases "concat tbl")
    case Nil
    show ?thesis
      using s unfolding Nil by (simp add: NamedObject_index_def named_loops first_of_def)
  next
    case (Cons z zs)
    then obtain j ys where j: "j < length tbl" "tbl ! j = z # ys" "zs = ys @ concat (drop (Suc j) tbl)"
      using first_nonempty_slot [of 0 tbl z zs] by auto
    then have "named_index_loop h idx mx [] (Some z) = Some (map Some (z # zs) @ [None])"
      using index_loop_table [OF t, of j "[]" z ys "[]"] t by (simp add: named_table_def)
    then show ?thesis using s unfolding Cons by (simp add: NamedObject_index_def first_of_def)
  qed
qed

lemma count_slots_table:
  assumes "\<And>k. k < n \<Longrightarrow> chain (Next h) (idx ! k) (tbl ! k)" and "n \<le> length tbl"
  shows "count_slots h idx n c = Some (c + of_nat (length (concat (take n tbl))))"
  using assms
proof (induction n arbitrary: c)
  case (Suc n)
  from count_loop_chain [OF Suc.prems(1) [of n], of c] Suc show ?case
    by (simp add: take_Suc_conv_app_nth algebra_simps)
qed simp

lemma count_table:
  assumes t: "named_table h idx mx tbl"
  shows "NamedObject_count h idx mx = Some (of_nat (length (concat tbl)))"
proof -
  have "(if mx < 2 then 1 else unat mx) = unat mx"
    using t by (auto simp: named_table_def word_less_nat_alt)
  then show ?thesis
    using t count_slots_table [of "unat mx" h idx tbl 0]
    by (simp add: NamedObject_count_def named_table_def)
qed

lemma purge_slots_table:
  assumes "\<And>k. k < n \<Longrightarrow> chain (Next h) (idx ! k) (tbl ! k)"
    and "\<And>j k a. j < n \<Longrightarrow> k < n \<Longrightarrow> j \<noteq> k \<Longrightarrow> a \<in> set (tbl ! j) \<Longrightarrow> a \<notin> set (tbl ! k)"
    and "n \<le> length tbl"
  shows "\<exists>h'. purge_slots h idx n = Some h' \<and> deleted h' = deleted h @ concat (rev (take n tbl))"
  using assms
proof (induction n arbitrary: h)
  case (Suc n)
  obtain h1 where h1: "LinkedObject_purge h (idx ! n) = Some h1" "deleted h1 = deleted h @ tbl ! n"
      "\<And>a. Next h1 a = (if a \<in> set (tbl ! n) then Some a else Next h a)"
    using purge_chain [of h "idx ! n" "tbl ! n"] Suc.prems(1) by fastforce
  have ch: "chain (Next h1) (idx ! k) (tbl ! k)" if "k < n" for k
  proof -
    have "path (Next h1) (idx ! k) (tbl ! k) None = path (Next h) (idx ! k) (tbl ! k) None"
      using Suc.prems(2) [of k n] that by (intro path_cong_links) (simp add: h1(3))
    with Suc.prems(1) that show ?thesis by simp
  qed
  have "\<exists>h'. purge_slots h1 idx n = Some h' \<and> deleted h' = deleted h1 @ concat (rev (take n tbl))"
  proof (rule Suc.IH)
    show "a \<notin> set (tbl ! k)" if "j < n" "k < n" "j \<noteq> k" "a \<in> set (tbl ! j)" for j k a
      using Suc.prems(2) [of j k a] that by simp
  qed (use ch Suc.prems(3) in simp_all)
  with Suc.prems(3) h1(1,2) show ?case
    by (auto simp: take_Suc_conv_app_nth)
qed simp

section \<open>Properties\<close>

text \<open>An empty store, in which every index is empty.\<close>

definition nheap :: named_heap where
  "nheap = \<lparr>Next = \<lambda>_. None, Prev = \<lambda>_. None, Root = \<lambda>_. None, head = \<lambda>_. None,
     tail = \<lambda>_. None, deleted = [], ObjId = \<lambda>_. None\<rparr>"

lemma nheap_table: "0 < mx \<Longrightarrow> named_table nheap (replicate (unat mx) None) mx (replicate (unat mx) [])"
  by (simp add: named_table_def nheap_def)

text \<open>
  C25: Adding an object under a name the index does not hold makes exactly that
  name resolve to the object: every lookup afterwards gives what it gave before, except
  for the new name, and the index stays well-formed with nothing deleted.
\<close>

theorem NamedObject_add_map:
  assumes t: "named_table h idx mx tbl" and fr: "this \<notin> set (concat tbl)"
    and new: "NamedObject_map h idx name mx = Some None"
  shows "\<exists>h' idx' tbl'. NamedObject_add h this idx name mx = Some (h', idx') \<and>
    named_table h' idx' mx tbl' \<and> deleted h' = deleted h \<and>
    (\<forall>n. NamedObject_map h' idx' n mx =
       (if n = name then Some (Some this) else NamedObject_map h idx n mx))"
proof -
  let ?k = "key_slot name mx" and ?t = "tbl[key_slot name mx := this # tbl ! key_slot name mx]"
  have k: "?k < length tbl" using t by (simp add: named_table_def key_slot_less)
  obtain h' idx' where a: "NamedObject_add h this idx name mx = Some (h', idx')"
      "named_table h' idx' mx ?t" "ObjId h' this = Some name"
      "\<And>a. a \<noteq> this \<Longrightarrow> ObjId h' a = ObjId h a" "deleted h' = deleted h"
    using add_new_table [OF t fr, of name] new map_table [OF t, of name] by auto
  have none: "\<And>a. a \<in> set (concat tbl) \<Longrightarrow> ObjId h a \<noteq> Some name"
    using new map_table [OF t, of name] by (auto simp: lookup_name_None)
  have set: "set (concat ?t) = insert this (set (concat tbl))"
    using k concat_list_update_insert [OF k] by simp
  have "lookup_name h' (concat ?t) n = Some x \<longleftrightarrow>
      (if n = name then x = this else lookup_name h (concat tbl) n = Some x)" for n x
    unfolding lookup_name_Some [OF named_table_inj [OF a(2)]] lookup_name_Some [OF named_table_inj [OF t]] set
    using a(3,4) fr none by (cases "x = this") auto
  then have "lookup_name h' (concat ?t) n =
      (if n = name then Some this else lookup_name h (concat tbl) n)" for n
    by (intro option_eqI) auto
  with a map_table [OF t] map_table [OF a(2)] show ?thesis by auto
qed

theorem NamedObject_add_map_witness:
  "\<exists>h' idx'. NamedObject_add nheap 7 (replicate 4 None) ''alpha'' 4 = Some (h', idx') \<and>
     NamedObject_map h' idx' ''alpha'' 4 = Some (Some 7)"
proof -
  have t: "named_table nheap (replicate 4 None) 4 (replicate 4 [])"
    using nheap_table [of 4] by simp
  have "NamedObject_map nheap (replicate 4 None) ''alpha'' 4 = Some None"
    using map_table [OF t] by (simp add: lookup_name_None)
  from NamedObject_add_map [OF t _ this, of 7] show ?thesis by auto
qed

text \<open>
  Adding an object under a name that the index already holds deletes the old
  holder. If the old holder was not the first object of its hash slot, the name then
  resolves to the new object. If it was the first one, the new object is linked nowhere and
  the name no longer resolves at all.
\<close>

theorem NamedObject_add_replace:
  assumes t: "named_table h idx mx tbl" and fr: "this \<notin> set (concat tbl)"
    and old: "ObjId h x = Some name" and sp: "tbl ! key_slot name mx = us @ x # vs"
  shows "\<exists>h' idx'. NamedObject_add h this idx name mx = Some (h', idx') \<and>
    deleted h' = deleted h @ [x] \<and> ObjId h' this = Some name \<and>
    NamedObject_map h' idx' name mx = Some (if us = [] then None else Some this)"
proof -
  let ?k = "key_slot name mx" and ?ys = "if us = [] then vs else us @ this # vs"
  have k: "?k < unat mx" "length tbl = unat mx" using t by (auto simp: named_table_def key_slot_less)
  obtain h' idx' where a: "NamedObject_add h this idx name mx = Some (h', idx')"
      "named_table h' idx' mx (tbl[?k := ?ys])" "deleted h' = deleted h @ [x]"
    using add_replace_table [OF t fr old sp] by auto
  have i: "inj_on (ObjId h) (set (us @ x # vs))" and d: "distinct (us @ x # vs)"
    using slot_inj [OF t k(1)] slot_distinct [OF t k(1)] sp by simp_all
  have nm: "ObjId h' this = Some name" and others: "\<And>a. a \<noteq> this \<Longrightarrow> ObjId h' a = ObjId h a"
    using add_names [OF a(1)] by auto
  have tk: "this \<notin> set (us @ x # vs)" using fr in_concat_slot k sp by metis
  have no: "ObjId h a \<noteq> Some name" if "a \<in> set us \<union> set vs" for a
    using that inj_onD [OF i, of a x] old d by auto
  have "lookup_name h' ?ys name = (if us = [] then None else Some this)"
  proof (cases "us = []")
    case True
    have "ObjId h' a \<noteq> Some name" if "a \<in> set vs" for a
      using that no [of a] others [of a] tk by (cases "a = this") auto
    with True show ?thesis by (simp add: lookup_name_None)
  next
    case False
    have "inj_on (ObjId h') (set (us @ this # vs))"
      using slot_inj [OF a(2) k(1)] k False by simp
    with False nm show ?thesis by (simp add: lookup_name_Some)
  qed
  moreover have "NamedObject_map h' idx' name mx = Some (lookup_name h' ?ys name)"
    using map_table [OF a(2)] lookup_name_slot [OF a(2), of name] k by simp
  ultimately show ?thesis using a nm by auto
qed

text \<open>One slot, the object 1 named \<open>a\<close>.\<close>

definition one_name :: named_heap where
  "one_name = nheap\<lparr>ObjId := (\<lambda>_. None)(1 := Some ''a'')\<rparr>"

lemma one_name_table: "named_table one_name [Some 1] 1 [[1]]"
  by (simp add: named_table_def one_name_def nheap_def key_slot_def)

theorem NamedObject_add_replace_witness:
  "\<exists>h' idx'. NamedObject_add one_name 2 [Some 1] ''a'' 1 = Some (h', idx') \<and>
     deleted h' = [1] \<and> NamedObject_map h' idx' ''a'' 1 = Some None"
  using NamedObject_add_replace [OF one_name_table, of 2 1 "''a''" "[]" "[]"]
  by (auto simp: one_name_def nheap_def key_slot_def)

text \<open>
  Removing a name returns the object that had it, and afterwards that name
  resolves to nothing while every other name resolves as before; the object is not
  deleted.
\<close>

theorem NamedObject_remove_map:
  assumes t: "named_table h idx mx tbl" and x: "NamedObject_map h idx name mx = Some (Some x)"
  shows "\<exists>h' idx' tbl'. NamedObject_remove h idx name mx = Some (Some x, h', idx') \<and>
    named_table h' idx' mx tbl' \<and> deleted h' = deleted h \<and>
    (\<forall>n. NamedObject_map h' idx' n mx = (if n = name then Some None else NamedObject_map h idx n mx))"
proof -
  let ?k = "key_slot name mx"
  have k: "?k < unat mx" "?k < length tbl" using t by (auto simp: named_table_def key_slot_less)
  have i: "inj_on (ObjId h) (set (concat tbl))" using t by (rule named_table_inj)
  have lx: "lookup_name h (tbl ! ?k) name = Some x" and cx: "lookup_name h (concat tbl) name = Some x"
    using x map_table [OF t] lookup_name_slot [OF t] by auto
  then have xm: "x \<in> set (tbl ! ?k)" "ObjId h x = Some name"
    using lookup_name_Some [OF slot_inj [OF t k(1)]] by auto
  then obtain us vs where sp: "tbl ! ?k = us @ x # vs" by (meson split_list)
  obtain h' idx' where r: "NamedObject_remove h idx name mx = Some (Some x, h', idx')"
      "named_table h' idx' mx (tbl[?k := us @ vs])" "ObjId h' = ObjId h" "deleted h' = deleted h"
    using remove_table [OF t xm(2) sp] by auto
  have set: "set (concat (tbl[?k := us @ vs])) = set (concat tbl) - {x}"
    by (rule concat_list_update_remove [OF t k(1) sp])
  have "lookup_name h' (concat (tbl[?k := us @ vs])) n = Some a \<longleftrightarrow>
      n \<noteq> name \<and> lookup_name h (concat tbl) n = Some a" for n a
    unfolding lookup_name_Some [OF named_table_inj [OF r(2)]] lookup_name_Some [OF i] set r(3)
    using xm inj_onD [OF i, of a x] in_concat_slot [OF k(2) xm(1)] by auto
  then have "lookup_name h' (concat (tbl[?k := us @ vs])) n =
      (if n = name then None else lookup_name h (concat tbl) n)" for n
    by (intro option_eqI) auto
  with r map_table [OF t] map_table [OF r(2)] show ?thesis by auto
qed

theorem NamedObject_remove_map_witness:
  "\<exists>h' idx'. NamedObject_remove one_name [Some 1] ''a'' 1 = Some (Some 1, h', idx') \<and>
     NamedObject_map h' idx' ''a'' 1 = Some None"
  using NamedObject_remove_map [OF one_name_table, of "''a''" 1] map_table [OF one_name_table]
  by (auto simp: lookup_name_def one_name_def)

text \<open>
  Enumerating an index with \<open>skip\<close>, as \<open>index\<close> does, terminates and visits
  every object exactly once, slot by slot; \<open>count\<close> is their number.
\<close>

theorem NamedObject_index_complete:
  assumes t: "named_table h idx mx tbl"
  shows "NamedObject_index h idx mx = Some (map Some (concat tbl) @ [None]) \<and>
    distinct (concat tbl) \<and> NamedObject_count h idx mx = Some (of_nat (length (concat tbl)))"
  using index_table [OF t] count_table [OF t] concat_distinct [OF t] by simp

theorem NamedObject_index_complete_witness:
  "NamedObject_index one_name [Some 1] 1 = Some [Some 1, None]"
  using NamedObject_index_complete [OF one_name_table] by simp

text \<open>
  Purging an index of at least two slots deletes every object exactly once.
  Purging an index of one slot deletes nothing.
\<close>

theorem NamedObject_purge_cases:
  assumes t: "named_table h idx mx tbl"
  shows "\<exists>h'. NamedObject_purge h idx mx = Some h' \<and>
    deleted h' = deleted h @ (if mx = 1 then [] else concat (rev tbl))"
proof (cases "mx = 1")
  case True
  then show ?thesis by (simp add: NamedObject_purge_def)
next
  case False
  with t have "\<not> mx < 2" by (auto simp: named_table_def word_less_nat_alt word_unat_eq_iff)
  with False purge_slots_table [of "unat mx" h idx tbl] t named_table_disjoint [OF t] show ?thesis
    by (auto simp: NamedObject_purge_def named_table_def)
qed

theorem NamedObject_purge_cases_witness:
  "\<exists>h'. NamedObject_purge one_name [Some 1] 1 = Some h' \<and> deleted h' = []"
  using NamedObject_purge_cases [OF one_name_table] by (simp add: one_name_def nheap_def)

text \<open>
  The constructor that enlists a named object on an \<open>OrderedIndex\<close> links the
  second object behind the first, but leaves the tail of the index at the first object, so
  that the third object replaces the second in the chain: after creating the objects 1, 2
  and 3 the index holds 1 and 3.
\<close>

theorem NamedObject_new_index_loses_second:
  "\<exists>h1 h2 h3. NamedObject_new_index nheap 1 100 ''a'' = Some h1 \<and>
     NamedObject_new_index h1 2 100 ''b'' = Some h2 \<and>
     NamedObject_new_index h2 3 100 ''c'' = Some h3 \<and>
     chain (Next h2) (head h2 100) [1, 2] \<and> tail h2 100 = Some 1 \<and>
     chain (Next h3) (head h3 100) [1, 3]"
  by (simp add: NamedObject_new_index_def nheap_def named_loops name_equal_def Let_def)

end
