(* ===== verification/Utf8.thy ===== *)
theory Utf8
  imports Prelude
begin

unbundle bit_operations_syntax

text \<open>
  The UTF-8 codec of \<open>corelib/unicode.cpp\<close> (class \<open>utf8\<close>).

  A \<open>const char *\<close> into a text is the list of the bytes from there up to, and without, the
  terminating NUL; \<open>byte_at\<close> reads it, and reading the terminator gives 0. \<open>ucs4_t\<close> is a
  32 bit signed integer: a 32 bit word, compared through \<open>sint\<close>, and \<open>EOF\<close> is \<open>-1\<close>.
  \<open>skip_bytes\<close> moves a pointer forward; its result \<open>None\<close> is a pointer behind the
  terminator, so that a \<open>None\<close> of a loop means that it reads outside the text. For the
  functions that fill an array, \<open>None\<close> also stands for a store outside the array.
\<close>

section \<open>Reading a text\<close>

definition byte_at :: "byte list \<Rightarrow> nat \<Rightarrow> byte" where
  "byte_at s i = (if i < length s then s ! i else 0)"

definition skip_bytes :: "nat \<Rightarrow> byte list \<Rightarrow> byte list option" where
  "skip_bytes n s = (if n \<le> length s then Some (drop n s) else None)"

section \<open>Decoding one code point\<close>

definition utf8_size :: "byte list \<Rightarrow> nat" where
  "utf8_size string =
     (let v = byte_at string 0
      in if v < 0x80 then 1
         else if v AND 0xe0 = 0xc0 then 2
         else if v AND 0xf0 = 0xe0 then 3
         else if v AND 0xf8 = 0xf0 then 4
         else if v AND 0xfc = 0xf8 then 5
         else if v AND 0xfe = 0xfc then 6
         else 0)"

fun get_tail :: "nat \<Rightarrow> 32 word \<Rightarrow> byte list \<Rightarrow> 32 word" where
  "get_tail 0 code cp = code"
| "get_tail (Suc count) code cp =
     (let ch = byte_at cp 0
      in if ch = 0 then -1
         else if ch AND 0xc0 \<noteq> 0x80 then -1
         else get_tail count (push_bit 6 code OR ucast (ch AND 0x3f)) (tl cp))"

definition utf8_get :: "byte list \<Rightarrow> 32 word" where
  "utf8_get cp =
     (let ch = byte_at cp 0
      in if ch = 0 then -1
         else if ch < 0x80 then ucast ch
         else if ch AND 0xe0 = 0xc0 then get_tail 1 (ucast (ch AND 0x1f)) (tl cp)
         else if ch AND 0xf0 = 0xe0 then get_tail 2 (ucast (ch AND 0x0f)) (tl cp)
         else if ch AND 0xf8 = 0xf0 then get_tail 3 (ucast (ch AND 0x07)) (tl cp)
         else if ch AND 0xfc = 0xf8 then get_tail 4 (ucast (ch AND 0x03)) (tl cp)
         else if ch AND 0xfe = 0xfc then get_tail 5 (ucast (ch AND 0x01)) (tl cp)
         else -1)"

fun codepoint_tail :: "nat \<Rightarrow> 32 word \<Rightarrow> byte list \<Rightarrow> 32 word" where
  "codepoint_tail 0 code string = code"
| "codepoint_tail (Suc n) code string =
     (let encoded = byte_at string 0
      in if encoded AND 0xc0 \<noteq> 0x80 then 0
         else codepoint_tail n (push_bit 6 code OR ucast (encoded AND 0x3f)) (tl string))"

definition utf8_codepoint :: "byte list \<Rightarrow> 32 word" where
  "utf8_codepoint string =
     (let codesize = utf8_size string; encoded = byte_at string 0
      in if encoded = 0 then 0
         else if codesize = 0 then -1
         else if codesize = 1 then ucast encoded
         else codepoint_tail (codesize - 1)
                (if codesize = 2 then ucast (encoded AND 0x1f)
                 else if codesize = 3 then ucast (encoded AND 0x0f)
                 else if codesize = 4 then ucast (encoded AND 0x07)
                 else if codesize = 5 then ucast (encoded AND 0x03)
                 else ucast (encoded AND 0x01))
                (tl string))"

section \<open>Encoding one code point\<close>

definition utf8_chars :: "32 word \<Rightarrow> nat" where
  "utf8_chars code =
     (if sint code \<le> 0x80 then 1
      else if sint code \<le> 0x7ff then 2
      else if sint code \<le> 0xffff then 3
      else if sint code \<le> 0x1fffff then 4
      else if sint code \<le> 0x3ffffff then 5
      else 6)"

text \<open>The bytes \<open>put\<close> stores at the start of its buffer.\<close>

definition cont_byte :: "32 word \<Rightarrow> nat \<Rightarrow> byte" where
  "cont_byte code n = ucast ((drop_bit n code AND 0x3f) OR 0x80)"

definition utf8_put :: "32 word \<Rightarrow> byte list" where
  "utf8_put code =
     (if code = -1 then []
      else if sint code < 0x80 then [ucast code]
      else if sint code < 0x7ff then [ucast (drop_bit 6 code OR 0xc0), cont_byte code 0]
      else if sint code \<le> 0xffff then
        [ucast (drop_bit 12 code OR 0xe0), cont_byte code 6, cont_byte code 0]
      else if sint code \<le> 0x1fffff then
        [ucast (drop_bit 18 code OR 0xf0), cont_byte code 12, cont_byte code 6, cont_byte code 0]
      else if sint code \<le> 0x3ffffff then
        [ucast (drop_bit 24 code OR 0xf8), cont_byte code 18, cont_byte code 12, cont_byte code 6,
         cont_byte code 0]
      else
        [ucast (drop_bit 30 code OR 0xfc), cont_byte code 24, cont_byte code 18, cont_byte code 12,
         cont_byte code 6, cont_byte code 0])"

section \<open>Walking a text\<close>

function utf8_count :: "byte list \<Rightarrow> nat option" where
  "utf8_count string =
     (if string = [] then Some 0
      else if utf8_size string = 0 then Some 0
      else case skip_bytes (utf8_size string) string of
             None \<Rightarrow> None
           | Some rest \<Rightarrow> map_option Suc (utf8_count rest))"
  by pat_completeness auto
termination
  by (relation "measure length") (auto simp: skip_bytes_def split: if_splits)

fun offset_loop :: "nat \<Rightarrow> nat \<Rightarrow> byte list \<Rightarrow> nat option option" where
  "offset_loop 0 off string = Some (Some off)"
| "offset_loop (Suc pos) off string =
     (let codesize = utf8_size string
      in if codesize = 0 then Some None
         else case skip_bytes codesize string of
                None \<Rightarrow> None
              | Some rest \<Rightarrow> offset_loop pos (off + codesize) rest)"

text \<open>The result is the byte offset of the returned pointer, \<open>Some None\<close> for \<open>NULL\<close>.\<close>

definition utf8_offset :: "byte list \<Rightarrow> int \<Rightarrow> nat option option" where
  "utf8_offset string pos =
     (case utf8_count string of
        None \<Rightarrow> None
      | Some codepoints \<Rightarrow>
          if pos > int codepoints then Some None
          else if pos = 0 then Some (Some 0)
          else if pos < 0 then
            (if - pos > int codepoints then Some None
             else offset_loop (nat (int codepoints - - pos)) 0 string)
          else offset_loop (nat pos) 0 string)"

fun utf8_chars_string :: "32 word list \<Rightarrow> nat" where
  "utf8_chars_string [] = 0"
| "utf8_chars_string (chr # string) = utf8_chars chr + utf8_chars_string string"

fun pack_loop :: "nat \<Rightarrow> byte list \<Rightarrow> 32 word list option" where
  "pack_loop 0 str = Some []"
| "pack_loop (Suc len) str =
     (let code = utf8_get str
      in if code = 0 \<or> code = -1 then Some []
         else case skip_bytes (utf8_chars code) str of
                None \<Rightarrow> None
              | Some rest \<Rightarrow> map_option ((#) code) (pack_loop len rest))"

text \<open>\<open>while(--len)\<close>: a length of 0 wraps around to the largest \<open>size_t\<close>.\<close>

definition utf8_pack :: "byte list \<Rightarrow> 64 word \<Rightarrow> 32 word list option" where
  "utf8_pack str len = pack_loop (unat (len - 1)) str"

function udup_loop :: "nat \<Rightarrow> 32 word list \<Rightarrow> byte list \<Rightarrow> 32 word list option" where
  "udup_loop cap out string =
     (if string = [] then (if length out < cap then Some (out @ [0]) else None)
      else if length out < cap then
        (case skip_bytes (utf8_size string) string of
           None \<Rightarrow> None
         | Some rest \<Rightarrow> udup_loop cap (out @ [utf8_codepoint string]) rest)
      else None)"
  by pat_completeness auto
termination
  by (relation "measure (\<lambda>(cap, out, string). cap - length out)") auto

definition utf8_udup :: "byte list \<Rightarrow> 32 word list option" where
  "utf8_udup string =
     (case utf8_count string of None \<Rightarrow> None | Some len \<Rightarrow> udup_loop (len + 1) [] string)"

text \<open>\<open>wdup\<close> returns \<open>NULL\<close> (\<open>Some None\<close>) at the first code point beyond 16 bits.\<close>

function wdup_loop :: "nat \<Rightarrow> 16 word list \<Rightarrow> byte list \<Rightarrow> 16 word list option option" where
  "wdup_loop cap out string =
     (if string = [] then (if length out < cap then Some (Some (out @ [0])) else None)
      else
        (let ch = utf8_codepoint string
         in if sint ch \<ge> 0x10000 \<or> sint ch < 0 then Some None
            else if length out < cap then
              (case skip_bytes (utf8_size string) string of
                 None \<Rightarrow> None
               | Some rest \<Rightarrow> wdup_loop cap (out @ [ucast ch]) rest)
            else None))"
  by pat_completeness auto
termination
  by (relation "measure (\<lambda>(cap, out, string). cap - length out)") auto

definition utf8_wdup :: "byte list \<Rightarrow> 16 word list option option" where
  "utf8_wdup string =
     (case utf8_count string of None \<Rightarrow> None | Some len \<Rightarrow> wdup_loop (len + 1) [] string)"

function utf8_ccount :: "byte list \<Rightarrow> 32 word \<Rightarrow> nat option" where
  "utf8_ccount cp code =
     (if cp = [] then Some 0
      else
        (let ch = utf8_codepoint cp; cs = utf8_size cp
         in if cs = 0 \<or> ch = -1 then Some 0
            else case skip_bytes cs cp of
                   None \<Rightarrow> None
                 | Some rest \<Rightarrow> map_option (\<lambda>total. if ch = code then Suc total else total) (utf8_ccount rest code)))"
  by pat_completeness auto
termination
  by (relation "measure (\<lambda>(cp, code). length cp)") (auto simp: skip_bytes_def split: if_splits)

function find_code_loop :: "byte list \<Rightarrow> 32 word \<Rightarrow> nat \<Rightarrow> nat \<Rightarrow> nat \<Rightarrow> nat option option" where
  "find_code_loop cp code pos cpos off =
     (if cp = [] then Some None
      else
        (let ch = utf8_codepoint cp; cs = utf8_size cp
         in if pos \<noteq> 0 \<and> cpos + 1 > pos then Some None
            else if cs = 0 \<or> ch = -1 then Some None
            else if ch = code then Some (Some off)
            else case skip_bytes cs cp of
                   None \<Rightarrow> None
                 | Some rest \<Rightarrow> find_code_loop rest code pos (if pos \<noteq> 0 then cpos + 1 else cpos) (off + cs)))"
  by pat_completeness auto
termination
  by (relation "measure (\<lambda>(cp, code, pos, cpos, off). length cp)")
    (auto simp: skip_bytes_def split: if_splits)

definition utf8_find :: "byte list \<Rightarrow> 32 word \<Rightarrow> nat \<Rightarrow> nat option option" where
  "utf8_find cp code pos = find_code_loop cp code pos 0 0"

function rfind_loop :: "byte list \<Rightarrow> 32 word \<Rightarrow> nat \<Rightarrow> nat \<Rightarrow> nat \<Rightarrow> nat option \<Rightarrow> nat option option" where
  "rfind_loop cp code pos cpos off result =
     (if cp = [] then Some result
      else
        (let ch = utf8_codepoint cp; cs = utf8_size cp
         in if cs = 0 \<or> ch = -1 then Some result
            else
              (let result' = (if ch = code then Some off else result)
               in if cpos + 1 > pos then Some result'
                  else case skip_bytes cs cp of
                         None \<Rightarrow> None
                       | Some rest \<Rightarrow> rfind_loop rest code pos (cpos + 1) (off + cs) result')))"
  by pat_completeness auto
termination
  by (relation "measure (\<lambda>(cp, code, pos, cpos, off, result). length cp)")
    (auto simp: skip_bytes_def split: if_splits)

definition utf8_rfind :: "byte list \<Rightarrow> 32 word \<Rightarrow> nat \<Rightarrow> nat option option" where
  "utf8_rfind cp code pos = rfind_loop cp code pos 0 0 None"

declare utf8_count.simps [simp del] udup_loop.simps [simp del] wdup_loop.simps [simp del]
  utf8_ccount.simps [simp del] find_code_loop.simps [simp del] rfind_loop.simps [simp del]

section \<open>Multi-byte sequences\<close>

text \<open>
  The common shape of the sequences of two to six bytes: a lead byte with prefix \<open>p\<close> and
  \<open>k\<close> payload bits, then \<open>j\<close> continuation bytes of six payload bits.
\<close>

fun conts :: "nat \<Rightarrow> 32 word \<Rightarrow> byte list" where
  "conts 0 c = []"
| "conts (Suc j) c = cont_byte c (6 * j) # conts j c"

definition lead_byte :: "nat \<Rightarrow> nat \<Rightarrow> byte \<Rightarrow> 32 word \<Rightarrow> byte" where
  "lead_byte j k p c = take_bit k (ucast (drop_bit (6 * j) c)) OR p"

definition is_lead :: "nat \<Rightarrow> nat \<Rightarrow> byte \<Rightarrow> bool" where
  "is_lead j k p \<longleftrightarrow>
     (j, k, p) \<in> {(1, 5, 0xc0), (2, 4, 0xe0), (3, 3, 0xf0), (4, 2, 0xf8), (5, 1, 0xfc)}"

lemma masks:
  "(0x3f :: byte) = mask 6" "(0x3f :: 32 word) = mask 6" "(0x1f :: byte) = mask 5"
  "(0x0f :: byte) = mask 4" "(0x07 :: byte) = mask 3" "(0x03 :: byte) = mask 2"
  by (simp_all add: mask_eq_exp_minus_1)

lemma horner6:
  "push_bit 6 (take_bit m (drop_bit (n + 6) c)) OR take_bit 6 (drop_bit n c)
     = take_bit (m + 6) (drop_bit n (c :: 32 word))"
  by (rule bit_eqI) (auto simp: bit_simps not_less add.commute)

lemma small_take: "unat (c :: 32 word) < 2 ^ k \<Longrightarrow> take_bit k c = c"
  by (simp add: word_unat_eq_iff unsigned_take_bit_eq take_bit_nat_eq_self)

lemma cont_byte_alt: "cont_byte c n = take_bit 6 (ucast (drop_bit n c)) OR 0x80"
  by (rule bit_eqI) (auto simp: cont_byte_def masks bit_simps simp flip: take_bit_eq_mask)

lemma prefix_and: "mask k AND m = 0 \<Longrightarrow> (take_bit k (y :: byte) OR p) AND m = p AND m"
  by (simp add: take_bit_eq_mask and.assoc bit.conj_disj_distrib2)

lemma cont_class: "cont_byte c n AND 0xc0 = 0x80"
  unfolding cont_byte_alt by (subst prefix_and) (simp_all add: mask_eq_exp_minus_1)

lemma cont_nonzero: "cont_byte c n \<noteq> 0"
  using cont_class [of c n] by auto

lemma cont_payload: "ucast (cont_byte c n AND 0x3f) = take_bit 6 (drop_bit n (c :: 32 word))"
  by (rule bit_eqI) (auto simp: cont_byte_alt masks bit_simps simp flip: take_bit_eq_mask)

text \<open>What \<open>put\<close> stores first is the lead byte.\<close>

lemma put_lead:
  assumes "unat c < 2 ^ (k + 6 * j)" and "k \<le> 8"
  shows "ucast (drop_bit (6 * j) c OR ucast p) = lead_byte j k p c"
proof -
  have "take_bit (k + 6 * j) c = c" using assms(1) by (rule small_take)
  then have b: "bit c i \<Longrightarrow> i < k + 6 * j" for i by (metis bit_take_bit_iff)
  show ?thesis
    unfolding lead_byte_def using assms(2) b by (intro bit_eqI) (force simp: bit_simps)
qed

lemma lead_payload:
  assumes "mask k AND p = 0" and "k \<le> 8"
  shows "ucast (lead_byte j k p c AND mask k) = take_bit k (drop_bit (6 * j) c)"
proof -
  have "take_bit k p = 0" using assms(1) by (simp add: take_bit_eq_mask and.commute)
  then have "\<not> bit p i" if "i < k" for i
    using that by (metis bit_0_eq bit_take_bit_iff bot_apply bot_bool_def)
  then show ?thesis
    unfolding lead_byte_def using assms(2)
    by (intro bit_eqI) (auto simp: bit_simps simp flip: take_bit_eq_mask)
qed

lemma lead_and: "mask k AND m = 0 \<Longrightarrow> lead_byte j k p c AND m = p AND m"
  unfolding lead_byte_def by (rule prefix_and)

text \<open>The class tests on a lead byte see only its prefix.\<close>

lemma is_lead_cases [consumes 1]:
  assumes "is_lead j k p"
  obtains "j = 1" "k = 5" "p = 0xc0" | "j = 2" "k = 4" "p = 0xe0" | "j = 3" "k = 3" "p = 0xf0"
    | "j = 4" "k = 2" "p = 0xf8" | "j = 5" "k = 1" "p = 0xfc"
  using assms by (auto simp: is_lead_def)

lemma lead_large:
  assumes "is_lead j k p"
  shows "0x80 \<le> lead_byte j k p c"
proof -
  have "lead_byte j k p c AND 0x80 = p AND 0x80"
    using assms by (intro lead_and) (auto simp: is_lead_def mask_eq_exp_minus_1)
  also have "\<dots> = 0x80" using assms by (auto simp: is_lead_def)
  finally show ?thesis by (metis word_and_le2)
qed

lemma lead_not_ascii: "is_lead j k p \<Longrightarrow> (lead_byte j k p c < 0x80) = False"
  using lead_large [of j k p c] by auto

lemma lead_nonzero: "is_lead j k p \<Longrightarrow> lead_byte j k p c \<noteq> 0"
  using lead_large [of j k p c] by auto

lemma lead_size:
  assumes "is_lead j k p"
  shows "utf8_size (lead_byte j k p c # r) = Suc j"
  using assms lead_not_ascii [OF assms, of c]
  by (cases rule: is_lead_cases)
    (simp_all add: utf8_size_def byte_at_def Let_def lead_and mask_eq_exp_minus_1)

lemma lead_bits:
  assumes "is_lead j k p"
  shows "ucast (lead_byte j k p c AND mask k) = take_bit k (drop_bit (6 * j) c)"
  using assms by (intro lead_payload) (auto simp: is_lead_def mask_eq_exp_minus_1)

lemma lead_codepoint:
  assumes "is_lead j k p"
  shows "utf8_codepoint (lead_byte j k p c # r) = codepoint_tail j (take_bit k (drop_bit (6 * j) c)) r"
  using assms lead_nonzero [OF assms, of c] lead_bits [OF assms, of c] lead_size [OF assms, of c r]
  by (cases rule: is_lead_cases) (simp_all add: utf8_codepoint_def byte_at_def Let_def masks)

lemma lead_get:
  assumes "is_lead j k p"
  shows "utf8_get (lead_byte j k p c # r) = get_tail j (take_bit k (drop_bit (6 * j) c)) r"
  using assms lead_nonzero [OF assms, of c] lead_bits [OF assms, of c] lead_not_ascii [OF assms, of c]
  by (cases rule: is_lead_cases)
    (simp_all add: utf8_get_def byte_at_def Let_def lead_and mask_eq_exp_minus_1)

text \<open>The continuation bytes give back the bits below the lead byte's.\<close>

lemma codepoint_conts:
  "codepoint_tail j (take_bit k (drop_bit (6 * j) c)) (conts j c @ r) = take_bit (k + 6 * j) c"
proof (induction j arbitrary: k)
  case (Suc j)
  then show ?case
    using horner6 [of k "6 * j" c] Suc [of "k + 6"]
    by (simp add: byte_at_def cont_class cont_payload add.assoc add.commute add.left_commute)
qed simp

lemma get_conts:
  "get_tail j (take_bit k (drop_bit (6 * j) c)) (conts j c @ r) = take_bit (k + 6 * j) c"
proof (induction j arbitrary: k)
  case (Suc j)
  then show ?case
    using horner6 [of k "6 * j" c] Suc [of "k + 6"]
    by (simp add: byte_at_def cont_class cont_payload cont_nonzero add.assoc add.commute add.left_commute)
qed simp

section \<open>The round trip of one code point\<close>

lemma sint_pos:
  fixes c :: "32 word"
  assumes "0 \<le> sint c"
  shows "sint c = int (unat c)" and "unat c < 2 ^ 31"
proof -
  show "sint c = int (unat c)"
    using assms sint_lt [of c] take_bit_int_eq_self [of "sint c" 32] by (simp add: uint_sint)
  then have "int (unat c) < 2 ^ 31" using sint_lt [of c] by (simp del: uint_nat int_nat_eq)
  then show "unat c < 2 ^ 31" by (metis of_nat_less_iff of_nat_numeral of_nat_power)
qed

lemma conts_unroll:
  "conts 1 c = [cont_byte c 0]" "conts 2 c = [cont_byte c 6, cont_byte c 0]"
  "conts 3 c = [cont_byte c 12, cont_byte c 6, cont_byte c 0]"
  "conts 4 c = [cont_byte c 18, cont_byte c 12, cont_byte c 6, cont_byte c 0]"
  "conts 5 c = [cont_byte c 24, cont_byte c 18, cont_byte c 12, cont_byte c 6, cont_byte c 0]"
  by (simp_all add: numeral_eq_Suc)

text \<open>\<open>put\<close> stores an ASCII byte or a lead byte with its continuation bytes.\<close>

lemma put_cases:
  assumes "0 < sint c"
  obtains (ascii) "unat c < 0x80" "utf8_put c = [ucast c]"
  | (lead) j k p where "is_lead j k p" "unat c < 2 ^ (k + 6 * j)" "utf8_put c = lead_byte j k p c # conts j c"
proof -
  note pos = sint_pos [OF less_imp_le [OF assms]]
  have ne: "c \<noteq> -1" using assms by auto
  have cmp: "(sint c < numeral w) = (unat c < numeral w)" "(sint c \<le> numeral w) = (unat c \<le> numeral w)" for w
    unfolding pos(1) by (simp_all only: of_nat_numeral [symmetric, where 'a = int] of_nat_less_iff of_nat_le_iff)
  have L: "ucast (drop_bit (6 * j) c OR ucast p) = lead_byte j k p c"
    if "is_lead j k p" "unat c < 2 ^ (k + 6 * j)" for j k p
    using that by (intro put_lead) (auto simp: is_lead_def)
  consider "unat c < 0x80" | "0x80 \<le> unat c" "unat c < 0x7ff" | "0x7ff \<le> unat c" "unat c \<le> 0xffff"
    | "0xffff < unat c" "unat c \<le> 0x1fffff" | "0x1fffff < unat c" "unat c \<le> 0x3ffffff" | "0x3ffffff < unat c"
    by linarith
  then show thesis
  proof cases
    case 1
    then show thesis using ascii ne by (simp add: utf8_put_def cmp)
  next
    case 2
    then show thesis using lead [of 1 5 "0xc0"] L [of 1 5 "0xc0"] ne pos(2)
      by (simp add: utf8_put_def cmp is_lead_def conts_unroll)
  next
    case 3
    then show thesis using lead [of 2 4 "0xe0"] L [of 2 4 "0xe0"] ne pos(2)
      by (simp add: utf8_put_def cmp is_lead_def conts_unroll)
  next
    case 4
    then show thesis using lead [of 3 3 "0xf0"] L [of 3 3 "0xf0"] ne pos(2)
      by (simp add: utf8_put_def cmp is_lead_def conts_unroll)
  next
    case 5
    then show thesis using lead [of 4 2 "0xf8"] L [of 4 2 "0xf8"] ne pos(2)
      by (simp add: utf8_put_def cmp is_lead_def conts_unroll)
  next
    case 6
    then show thesis using lead [of 5 1 "0xfc"] L [of 5 1 "0xfc"] ne pos(2)
      by (simp add: utf8_put_def cmp is_lead_def conts_unroll)
  qed
qed


lemma conts_length [simp]: "length (conts j c) = j"
  by (induction j) simp_all

lemma put_nonempty: "0 < sint c \<Longrightarrow> utf8_put c \<noteq> []"
  by (elim put_cases) auto

lemma ascii_byte:
  fixes c :: "32 word"
  assumes "0 < sint c" "unat c < 0x80"
  shows "(ucast c :: byte) < 0x80" "(ucast c :: byte) \<noteq> 0" "ucast (ucast c :: byte) = c"
proof -
  have u: "unat (ucast c :: byte) = unat c"
    using assms(2) by (simp add: unsigned_ucast_eq take_bit_nat_eq_self)
  show "(ucast c :: byte) < 0x80" using u assms(2) by (simp add: word_less_nat_alt)
  have "c \<noteq> 0" using assms(1) by auto
  then have "unat c \<noteq> 0" by (simp add: unat_eq_0)
  then show "(ucast c :: byte) \<noteq> 0" using u by auto
  have "take_bit 8 c = c" using assms(2) by (intro small_take) simp
  then have "bit c i \<Longrightarrow> i < 8" for i by (metis bit_take_bit_iff)
  then show "ucast (ucast c :: byte) = c" by (intro bit_eqI) (auto simp: bit_simps)
qed

lemma ascii_decode:
  assumes "(b :: byte) < 0x80" "b \<noteq> 0"
  shows "utf8_size (b # r) = 1" "utf8_codepoint (b # r) = ucast b" "utf8_get (b # r) = ucast b"
  using assms by (simp_all add: utf8_size_def utf8_codepoint_def utf8_get_def byte_at_def Let_def)

lemma put_decode:
  assumes "0 < sint c"
  shows "utf8_size (utf8_put c @ r) = length (utf8_put c)" "utf8_codepoint (utf8_put c @ r) = c"
    "utf8_get (utf8_put c @ r) = c"
proof -
  have "utf8_size (utf8_put c @ r) = length (utf8_put c) \<and> utf8_codepoint (utf8_put c @ r) = c
      \<and> utf8_get (utf8_put c @ r) = c"
    using assms
  proof (cases rule: put_cases)
    case ascii
    note b = ascii_byte [OF assms ascii(1)]
    show ?thesis by (simp add: ascii(2) ascii_decode [OF b(1,2)] b(3))
  next
    case (lead j k p)
    then show ?thesis
      by (simp add: lead_size lead_codepoint lead_get codepoint_conts get_conts small_take)
  qed
  then show "utf8_size (utf8_put c @ r) = length (utf8_put c)" "utf8_codepoint (utf8_put c @ r) = c"
    "utf8_get (utf8_put c @ r) = c" by blast+
qed

lemma conts_nonzero: "0 \<notin> set (conts j c)"
  using cont_nonzero [of c] by (induction j) (simp, metis conts.simps(2) set_ConsD)

lemma put_bytes:
  assumes "0 < sint c"
  shows "0 \<notin> set (utf8_put c)"
  using assms
proof (cases rule: put_cases)
  case ascii
  then show ?thesis using ascii_byte(2) [OF assms] by auto
next
  case (lead j k p)
  then show ?thesis using lead_nonzero [of j k p c] conts_nonzero by auto
qed

section \<open>The loops on an encoded text\<close>

abbreviation utf8_text :: "32 word list \<Rightarrow> byte list" where
  "utf8_text cps \<equiv> concat (map utf8_put cps)"

abbreviation good_codes :: "32 word list \<Rightarrow> bool" where
  "good_codes cps \<equiv> list_all (\<lambda>c. 0 < sint c) cps"

lemma text_skip:
  assumes "0 < sint c"
  shows "skip_bytes (length (utf8_put c)) (utf8_put c @ r) = Some r"
    and "utf8_put c \<noteq> []" and "c \<noteq> -1" and "c \<noteq> 0"
  using put_decode [OF assms] put_nonempty [OF assms] assms by (auto simp: skip_bytes_def)

lemma count_text: "good_codes cps \<Longrightarrow> utf8_count (utf8_text cps) = Some (length cps)"
  by (induction cps) (simp_all add: text_skip put_decode utf8_count.simps [of "_ @ _"] utf8_count.simps [of "[]"])

lemma udup_text:
  "\<lbrakk>good_codes cps; length out + length cps < cap\<rbrakk>
    \<Longrightarrow> udup_loop cap out (utf8_text cps) = Some (out @ cps @ [0])"
  by (induction cps arbitrary: out)
    (simp_all add: text_skip put_decode udup_loop.simps [of _ _ "_ @ _"] udup_loop.simps [of _ _ "[]"])

lemma ccount_text: "good_codes cps \<Longrightarrow> utf8_ccount (utf8_text cps) code = Some (count_list cps code)"
  by (induction cps)
    (simp_all add: text_skip put_decode Let_def utf8_ccount.simps [of "_ @ _"] utf8_ccount.simps [of "[]"])

lemma offset_text:
  "\<lbrakk>good_codes cps; n \<le> length cps\<rbrakk>
    \<Longrightarrow> offset_loop n off (utf8_text cps) = Some (Some (off + length (utf8_text (take n cps))))"
proof (induction n arbitrary: cps off)
  case (Suc n)
  then obtain c cs where "cps = c # cs" by (cases cps) auto
  with Suc show ?case by (simp add: text_skip put_decode Let_def)
qed simp

lemma pack_text:
  "\<lbrakk>good_codes cps; \<forall>c \<in> set cps. utf8_chars c = length (utf8_put c)\<rbrakk>
    \<Longrightarrow> pack_loop n (utf8_text cps) = Some (take n cps)"
proof (induction n arbitrary: cps)
  case (Suc n)
  show ?case
  proof (cases cps)
    case Nil
    then show ?thesis by (simp add: utf8_get_def byte_at_def)
  next
    case (Cons c cs)
    then have "skip_bytes (utf8_chars c) (utf8_put c @ utf8_text cs) = Some (utf8_text cs)"
      using Suc.prems by (simp add: skip_bytes_def)
    then show ?thesis using Suc Cons by (simp add: put_decode text_skip Let_def)
  qed
qed simp

lemma find_text:
  "good_codes cps \<Longrightarrow>
     find_code_loop (utf8_text cps) code 0 0 off =
       Some (if code \<in> set cps then Some (off + length (utf8_text (takeWhile (\<lambda>c. c \<noteq> code) cps))) else None)"
  by (induction cps arbitrary: off)
    (simp_all add: text_skip put_decode Let_def find_code_loop.simps [of "_ @ _"] find_code_loop.simps [of "[]"])

text \<open>The byte offset of the last occurrence of a code point.\<close>

fun last_offset :: "32 word list \<Rightarrow> 32 word \<Rightarrow> nat option" where
  "last_offset [] code = None"
| "last_offset (c # cps) code =
     (case last_offset cps code of
        Some n \<Rightarrow> Some (length (utf8_put c) + n)
      | None \<Rightarrow> if c = code then Some 0 else None)"

lemma rfind_text:
  "\<lbrakk>good_codes cps; cpos + length cps \<le> pos\<rbrakk> \<Longrightarrow>
     rfind_loop (utf8_text cps) code pos cpos off result =
       Some (case last_offset cps code of Some n \<Rightarrow> Some (off + n) | None \<Rightarrow> result)"
  by (induction cps arbitrary: off cpos result)
    (simp_all add: text_skip put_decode Let_def rfind_loop.simps [of "_ @ _"] rfind_loop.simps [of "[]"]
      split: option.split)

lemma chars_exact:
  assumes "0 < sint c"
  shows "utf8_chars c = length (utf8_put c) \<longleftrightarrow> c \<noteq> 0x80 \<and> c \<noteq> 0x7ff"
proof -
  note pos = sint_pos [OF less_imp_le [OF assms]]
  have cmp: "(sint c < numeral w) = (unat c < numeral w)" "(sint c \<le> numeral w) = (unat c \<le> numeral w)" for w
    unfolding pos(1) by (simp_all only: of_nat_numeral [symmetric, where 'a = int] of_nat_less_iff of_nat_le_iff)
  have eq: "(c = 0x80) = (unat c = 0x80)" "(c = 0x7ff) = (unat c = 0x7ff)"
    by (simp_all add: word_unat_eq_iff)
  have "c \<noteq> -1" using assms by auto
  then show ?thesis by (simp add: utf8_chars_def utf8_put_def cmp eq)
qed

lemma chars_string_exact:
  "\<lbrakk>good_codes cps; 0x80 \<notin> set cps; 0x7ff \<notin> set cps\<rbrakk>
    \<Longrightarrow> utf8_chars_string cps = length (utf8_text cps)"
  by (induction cps) (auto simp: chars_exact)

section \<open>Properties\<close>

text \<open>
  C7: For every positive code point, \<open>put\<close> stores a sequence without a NUL byte that
  \<open>size\<close>, \<open>codepoint\<close> and \<open>get\<close> read back, whatever follows it. \<open>chars\<close> predicts
  its length except for U+0080 and U+07FF, where the bounds of \<open>chars\<close> and \<open>put\<close>
  differ.
\<close>

theorem utf8_put_roundtrip:
  assumes "0 < sint c"
  shows "utf8_codepoint (utf8_put c @ r) = c \<and> utf8_get (utf8_put c @ r) = c
    \<and> utf8_size (utf8_put c @ r) = length (utf8_put c) \<and> 0 \<notin> set (utf8_put c)
    \<and> (utf8_chars c = length (utf8_put c) \<longleftrightarrow> c \<noteq> 0x80 \<and> c \<noteq> 0x7ff)"
  using assms put_decode put_bytes chars_exact by blast

theorem utf8_put_roundtrip_witness:
  "utf8_codepoint (utf8_put 0x20ac @ [0x41]) = 0x20ac \<and> utf8_chars 0x20ac = length (utf8_put 0x20ac)
    \<and> utf8_chars 0x7ff \<noteq> length (utf8_put 0x7ff)"
  using utf8_put_roundtrip [of "0x20ac" "[0x41]"] utf8_put_roundtrip [of "0x7ff" "[]"] by simp

text \<open>
  On the encoding of any list of positive code points, \<open>count\<close> gives the length of
  the list, \<open>udup\<close> decodes it into a zero terminated array without leaving its
  allocation, and, when U+0080 and U+07FF do not occur, \<open>chars\<close> gives the number of
  bytes and \<open>pack\<close> decodes the first \<open>len - 1\<close> code points.
\<close>

theorem utf8_text_roundtrip:
  assumes "\<forall>c \<in> set cps. 0 < sint c"
  shows "utf8_count (utf8_text cps) = Some (length cps) \<and> utf8_udup (utf8_text cps) = Some (cps @ [0])
    \<and> (0x80 \<notin> set cps \<and> 0x7ff \<notin> set cps \<longrightarrow>
         utf8_chars_string cps = length (utf8_text cps)
         \<and> utf8_pack (utf8_text cps) len = Some (take (unat (len - 1)) cps))"
proof -
  have g: "good_codes cps" using assms by (simp add: list_all_iff)
  moreover have "\<forall>c \<in> set cps. utf8_chars c = length (utf8_put c)" if "0x80 \<notin> set cps" "0x7ff \<notin> set cps"
    using assms that chars_exact by metis
  ultimately show ?thesis
    by (simp add: utf8_udup_def utf8_pack_def count_text udup_text pack_text chars_string_exact)
qed

theorem utf8_text_roundtrip_witness:
  "utf8_udup (utf8_text [0x41, 0x20ac, 0x10348]) = Some [0x41, 0x20ac, 0x10348, 0]
    \<and> utf8_pack (utf8_text [0x41, 0x20ac, 0x10348]) 3 = Some [0x41, 0x20ac]"
  using utf8_text_roundtrip [of "[0x41, 0x20ac, 0x10348]" 3] by simp

text \<open>
  On such a text \<open>offset\<close> points at the code point with the given number, counted
  from the end when negative and \<open>NULL\<close> outside the text; \<open>ccount\<close> counts the
  occurrences of a code point; \<open>find\<close> gives the offset of its first and \<open>rfind\<close>, with
  a bound of at least the length, that of its last occurrence, or \<open>NULL\<close>.
\<close>

theorem utf8_search:
  assumes "\<forall>c \<in> set cps. 0 < sint c" and "length cps \<le> bound"
  shows "utf8_offset (utf8_text cps) pos =
           Some (if \<bar>pos\<bar> > int (length cps) then None
                 else Some (length (utf8_text (take (nat (if pos < 0 then int (length cps) + pos else pos)) cps))))
    \<and> utf8_ccount (utf8_text cps) code = Some (count_list cps code)
    \<and> utf8_find (utf8_text cps) code 0 =
        Some (if code \<in> set cps then Some (length (utf8_text (takeWhile (\<lambda>c. c \<noteq> code) cps))) else None)
    \<and> utf8_rfind (utf8_text cps) code bound = Some (last_offset cps code)"
proof -
  have g: "good_codes cps" using assms(1) by (simp add: list_all_iff)
  have "utf8_rfind (utf8_text cps) code bound = Some (last_offset cps code)"
    using rfind_text [OF g, of 0 bound code 0 None] assms(2)
    by (simp add: utf8_rfind_def split: option.splits)
  with g show ?thesis
    by (auto simp: utf8_offset_def utf8_find_def count_text ccount_text find_text offset_text)
qed

theorem utf8_search_witness:
  "utf8_offset (utf8_text [0x20ac, 0x41, 0x20ac]) (-1) = Some (Some 4)
    \<and> utf8_find (utf8_text [0x20ac, 0x41, 0x20ac]) 0x41 0 = Some (Some 3)
    \<and> utf8_rfind (utf8_text [0x20ac, 0x41, 0x20ac]) 0x20ac 3 = Some (Some 4)"
  using utf8_search [of "[0x20ac, 0x41, 0x20ac]" 3 "-1" "0x41"]
    utf8_search [of "[0x20ac, 0x41, 0x20ac]" 3 "-1" "0x20ac"]
  by (simp add: utf8_put_def)

text \<open>
  Malformed texts are not caught. On a text cut off inside a multi-byte sequence
  \<open>count\<close> steps over the terminator; \<open>udup\<close> of a text that starts with a byte that is
  no lead byte does not advance and leaves the array it allocated.
\<close>

theorem utf8_malformed:
  shows "(\<forall>r. length r + 1 < utf8_size (b # r) \<longrightarrow> utf8_count (b # r) = None)
    \<and> (utf8_size [b] = 0 \<longrightarrow> utf8_udup (b # r) = None)"
proof -
  have sz: "utf8_size (b # r) = utf8_size [b]" for r by (simp add: utf8_size_def byte_at_def)
  have "utf8_udup (b # r) = None" if "utf8_size [b] = 0"
    using that sz [of r]
    by (simp add: utf8_udup_def utf8_count.simps [of "b # r"] udup_loop.simps [of _ _ "b # r"] skip_bytes_def)
  then show ?thesis by (auto simp: utf8_count.simps [of "b # _"] skip_bytes_def)
qed

theorem utf8_malformed_witness: "utf8_count [0xf0, 0x9f] = None \<and> utf8_udup [0xff] = None"
  using utf8_malformed [of "0xf0"] utf8_malformed [of "0xff" "[]"]
  by (simp add: utf8_size_def byte_at_def)

end
