(* ===== verification/Doubles.thy ===== *)
theory Doubles
  imports Complex_Main Prelude
begin

text \<open>
  The \<open>double\<close> arithmetic that \<open>Date::put\<close> of \<open>corelib/datetime.cpp\<close> uses.

  A \<open>double\<close> is the rational number it denotes; every operation rounds its exact result to
  53 significant bits, ties to even (IEEE 754 without the limits of the exponent, which the
  values of the calendar never reach). The locale \<open>double_arith\<close> states what a client
  needs of such a rounding: integers up to \<open>2^53\<close> are exact and the relative error is at
  most \<open>2^-53\<close>. From this alone follows the fact that carries the calendar: truncating the
  rounded quotient of two integers gives the integer quotient.
\<close>

section \<open>Rounding\<close>

definition round_even :: "rat \<Rightarrow> int" where
  "round_even x =
     (let f = \<lfloor>x\<rfloor>; d = x - of_int f
      in if d < 1 / 2 then f
         else if d > 1 / 2 then f + 1
         else if even f then f else f + 1)"

function round_pos :: "rat \<Rightarrow> rat" where
  "round_pos m =
     (if m \<le> 0 then 0
      else if m < 2 ^ 52 then round_pos (2 * m) / 2
      else if m < 2 ^ 53 then of_int (round_even m)
      else 2 * round_pos (m / 2))"
  by pat_completeness auto

definition double_round :: "rat \<Rightarrow> rat" where
  "double_round x = (if x < 0 then - round_pos (- x) else round_pos x)"

text \<open>The operators on \<open>double\<close>, for a rounding \<open>rnd\<close>, and the cast \<open>int(x)\<close>.\<close>

definition fadd :: "(rat \<Rightarrow> rat) \<Rightarrow> rat \<Rightarrow> rat \<Rightarrow> rat" where "fadd rnd x y = rnd (x + y)"
definition fsub :: "(rat \<Rightarrow> rat) \<Rightarrow> rat \<Rightarrow> rat \<Rightarrow> rat" where "fsub rnd x y = rnd (x - y)"
definition fmul :: "(rat \<Rightarrow> rat) \<Rightarrow> rat \<Rightarrow> rat \<Rightarrow> rat" where "fmul rnd x y = rnd (x * y)"
definition fdiv :: "(rat \<Rightarrow> rat) \<Rightarrow> rat \<Rightarrow> rat \<Rightarrow> rat" where "fdiv rnd x y = rnd (x / y)"

definition trunc :: "rat \<Rightarrow> int" where
  "trunc x = (if x < 0 then \<lceil>x\<rceil> else \<lfloor>x\<rfloor>)"

section \<open>The rounding terminates and is accurate\<close>

definition round_measure :: "rat \<Rightarrow> nat" where
  "round_measure m = nat \<lceil>2 ^ 52 / m\<rceil> + nat \<lfloor>m / 2 ^ 53\<rfloor>"

lemma ceiling_half:
  assumes "1 < (x :: rat)"
  shows "\<lceil>x / 2\<rceil> < \<lceil>x\<rceil>"
proof -
  have "2 \<le> \<lceil>x\<rceil>" using assms less_ceiling_iff [of 1 x] by simp
  then have "(2 :: rat) \<le> of_int \<lceil>x\<rceil>" by (metis of_int_le_iff of_int_numeral)
  moreover have "x \<le> of_int \<lceil>x\<rceil>" by (rule le_of_int_ceiling)
  ultimately have "x / 2 \<le> of_int (\<lceil>x\<rceil> - 1)" unfolding of_int_diff of_int_1 by linarith
  then have "\<lceil>x / 2\<rceil> \<le> \<lceil>x\<rceil> - 1" by (simp only: ceiling_le_iff)
  then show ?thesis by linarith
qed

lemma floor_half:
  assumes "1 \<le> (x :: rat)"
  shows "\<lfloor>x / 2\<rfloor> < \<lfloor>x\<rfloor>"
proof -
  have "1 \<le> \<lfloor>x\<rfloor>" using assms by (simp add: le_floor_iff)
  then have "(1 :: rat) \<le> of_int \<lfloor>x\<rfloor>" by (metis of_int_le_iff of_int_1)
  moreover have "x < of_int \<lfloor>x\<rfloor> + 1" using floor_correct [of x] by simp
  ultimately have "x / 2 < of_int \<lfloor>x\<rfloor>" by linarith
  then show ?thesis by (simp only: floor_less_iff)
qed

lemma round_measure_double:
  assumes "0 < m" "m < 2 ^ 52"
  shows "round_measure (2 * m) < round_measure m"
proof -
  have g: "1 < 2 ^ 52 / m" using assms by (simp add: divide_simps)
  then have "\<lceil>2 ^ 52 / (2 * m)\<rceil> < \<lceil>2 ^ 52 / m\<rceil>"
    using ceiling_half [of "2 ^ 52 / m"] by (simp add: mult.commute)
  moreover have "0 < \<lceil>2 ^ 52 / m\<rceil>" using assms(1) by (simp add: less_ceiling_iff)
  moreover have "\<lfloor>2 * m / 2 ^ 53\<rfloor> = 0" "\<lfloor>m / 2 ^ 53\<rfloor> = 0"
    using assms by (simp_all add: floor_eq_iff divide_simps)
  ultimately show ?thesis unfolding round_measure_def by linarith
qed

lemma round_measure_half:
  assumes "2 ^ 53 \<le> m"
  shows "round_measure (m / 2) < round_measure m"
proof -
  have "\<lceil>2 ^ 52 / (m / 2)\<rceil> = 1" "\<lceil>2 ^ 52 / m\<rceil> = 1"
    using assms by (simp_all add: ceiling_eq_iff divide_simps)
  moreover have "1 \<le> m / 2 ^ 53" using assms by simp
  then have "\<lfloor>m / 2 / 2 ^ 53\<rfloor> < \<lfloor>m / 2 ^ 53\<rfloor>" "0 < \<lfloor>m / 2 ^ 53\<rfloor>"
    using floor_half [of "m / 2 ^ 53"] by (simp_all add: mult.commute zero_less_floor)
  ultimately show ?thesis unfolding round_measure_def by linarith
qed

termination round_pos
  by (relation "measure round_measure")
    (auto simp: round_measure_double round_measure_half not_le not_less)

declare round_pos.simps [simp del]

lemma round_even_error: "\<bar>of_int (round_even x) - x\<bar> \<le> 1 / 2"
proof -
  have "of_int \<lfloor>x\<rfloor> \<le> x" "x < of_int \<lfloor>x\<rfloor> + 1" using floor_correct [of x] by auto
  then show ?thesis unfolding round_even_def Let_def abs_if of_int_add of_int_1 by (simp, linarith)
qed

lemma round_even_int [simp]: "round_even (of_int n) = n"
  by (simp add: round_even_def)

lemma round_pos_error: "0 \<le> m \<Longrightarrow> \<bar>round_pos m - m\<bar> \<le> m / 2 ^ 53"
proof (induction m rule: round_pos.induct)
  case (1 m)
  consider "m = 0" | "0 < m" "m < 2 ^ 52" | "2 ^ 52 \<le> m" "m < 2 ^ 53" | "2 ^ 53 \<le> m"
    using 1(3) by linarith
  then show ?case
  proof cases
    case 2
    then have "\<bar>round_pos (2 * m) - 2 * m\<bar> \<le> 2 * m / 2 ^ 53" using 1(1) by simp
    with 2 show ?thesis by (subst round_pos.simps) (simp add: abs_if divide_simps split: if_splits)
  next
    case 3
    then show ?thesis using round_even_error [of m] by (subst round_pos.simps) (simp add: not_le)
  next
    case 4
    then have "\<bar>round_pos (m / 2) - m / 2\<bar> \<le> m / 2 / 2 ^ 53" using 1(2) by simp
    with 4 show ?thesis
      by (subst round_pos.simps) (simp add: abs_if divide_simps not_le split: if_splits)
  qed (simp add: round_pos.simps)
qed

lemma round_pos_int: "0 \<le> n \<Longrightarrow> n \<le> 2 ^ 53 \<Longrightarrow> round_pos (of_int n) = of_int n"
proof (induction "of_int n :: rat" arbitrary: n rule: round_pos.induct)
  case (1 n)
  consider "n = 0" | "0 < n" "n < 2 ^ 52" | "2 ^ 52 \<le> n" "n < 2 ^ 53" | "n = 2 ^ 53"
    using 1(3,4) by linarith
  then show ?case
  proof cases
    case 2
    then have "round_pos (2 * of_int n) = 2 * of_int n"
      using 1(1) [of "2 * n"] by simp
    with 2 show ?thesis by (subst round_pos.simps) simp
  next
    case 3
    then show ?thesis by (subst round_pos.simps) simp
  next
    case 4
    have "round_even 4503599627370496 = 4503599627370496" using round_even_int [of "2 ^ 52"] by simp
    with 4 show ?thesis by (simp add: round_pos.simps)
  qed (simp add: round_pos.simps)
qed

section \<open>What the calendar needs of the rounding\<close>

locale double_arith =
  fixes rnd :: "rat \<Rightarrow> rat"
  assumes rnd_int: "\<bar>n\<bar> \<le> 2 ^ 53 \<Longrightarrow> rnd (of_int n) = of_int n"
    and rnd_error: "\<bar>rnd x - x\<bar> \<le> \<bar>x\<bar> / 2 ^ 53"
begin

lemma fadd_int: "\<bar>a + b\<bar> \<le> 2 ^ 53 \<Longrightarrow> fadd rnd (of_int a) (of_int b) = of_int (a + b)"
  unfolding fadd_def of_int_add [symmetric] by (rule rnd_int)

lemma fsub_int: "\<bar>a - b\<bar> \<le> 2 ^ 53 \<Longrightarrow> fsub rnd (of_int a) (of_int b) = of_int (a - b)"
  unfolding fsub_def of_int_diff [symmetric] by (rule rnd_int)

lemma fmul_int: "\<bar>a * b\<bar> \<le> 2 ^ 53 \<Longrightarrow> fmul rnd (of_int a) (of_int b) = of_int (a * b)"
  unfolding fmul_def of_int_mult [symmetric] by (rule rnd_int)

text \<open>
  The quotient \<open>a / b\<close> is at least \<open>1 / b\<close> below the next integer, so an error below
  that cannot carry it over.
\<close>

lemma trunc_fdiv:
  assumes "0 \<le> a" "a \<le> 2 ^ 52" "0 < b"
  shows "trunc (fdiv rnd (of_int a) (of_int b)) = a div b"
proof -
  let ?y = "rnd (of_int a / of_int b)" and ?q = "a div b"
  have b: "(0 :: rat) < of_int b" using assms(3) by simp
  have q: "0 \<le> ?q" using assms by (simp add: pos_imp_zdiv_nonneg_iff)
  have "of_int ?q \<le> ?y \<and> ?y < of_int ?q + 1"
  proof (cases "a mod b = 0")
    case True
    then have "a = ?q * b" by (metis add.right_neutral div_mult_mod_eq)
    then have "(of_int a :: rat) = of_int ?q * of_int b" by (metis of_int_mult)
    then have "of_int a / of_int b = (of_int ?q :: rat)" using b by simp
    moreover have "?q * 1 \<le> ?q * b" using q assms(3) by (intro mult_left_mono) simp_all
    then have "\<bar>?q\<bar> \<le> 2 ^ 53" using \<open>a = ?q * b\<close> q assms(2) by simp
    ultimately show ?thesis using rnd_int [of ?q] by simp
  next
    case False
    have "\<bar>?y - of_int a / of_int b\<bar> \<le> of_int a / of_int b / 2 ^ 53"
      using rnd_error [of "of_int a / of_int b"] b assms(1) by simp
    then have "\<bar>?y * of_int b - of_int a\<bar> \<le> of_int a / 2 ^ 53"
      using b by (simp add: abs_le_iff field_simps)
    moreover have "(of_int a :: rat) \<le> of_int (2 ^ 52)" using assms(2) by (simp only: of_int_le_iff)
    then have "(of_int a :: rat) / 2 ^ 53 \<le> 1 / 2" by simp
    ultimately have "of_int a - 1 / 2 \<le> ?y * of_int b" "?y * of_int b \<le> of_int a + 1 / 2" by linarith+
    moreover have "(of_int (b * ?q) :: rat) + 1 \<le> of_int a" "of_int a + 1 \<le> (of_int (b * (?q + 1)) :: rat)"
    proof -
      have "b * ?q + 1 \<le> a" "a + 1 \<le> b * (?q + 1)"
        using False mult_div_mod_eq [of b a] pos_mod_bound [OF assms(3), of a] pos_mod_sign [OF assms(3), of a]
        unfolding distrib_left mult_1_right by linarith+
      then show "(of_int (b * ?q) :: rat) + 1 \<le> of_int a" "of_int a + 1 \<le> (of_int (b * (?q + 1)) :: rat)"
        by (metis of_int_1 of_int_add of_int_le_iff)+
    qed
    ultimately have "of_int ?q * of_int b < ?y * of_int b" "?y * of_int b < (of_int ?q + 1) * of_int b"
      unfolding of_int_mult of_int_add of_int_1 mult.commute [of "of_int b"] by linarith+
    then show ?thesis using b by (simp add: mult_less_cancel_right_disj)
  qed
  then show ?thesis using q by (auto simp: fdiv_def trunc_def floor_eq_iff)
qed

end

interpretation ieee: double_arith double_round
proof
  show "\<bar>n\<bar> \<le> 2 ^ 53 \<Longrightarrow> double_round (of_int n) = of_int n" for n
    using round_pos_int [of n] round_pos_int [of "- n"] by (auto simp: double_round_def)
  show "\<bar>double_round x - x\<bar> \<le> \<bar>x\<bar> / 2 ^ 53" for x
  proof (cases "x < 0")
    case True
    have "\<bar>- round_pos (- x) - x\<bar> = \<bar>round_pos (- x) - - x\<bar>" by linarith
    with True round_pos_error [of "- x"] show ?thesis by (simp add: double_round_def)
  next
    case False
    with round_pos_error [of x] show ?thesis by (simp add: double_round_def)
  qed
qed

end
