(* ===== verification/Numbers.thy ===== *)
theory Numbers
  imports Prelude
begin

text \<open>
  The fixed width numbers of \<open>corelib/numbers.cpp\<close>: \<open>Number\<close> and \<open>ZNumber\<close>.

  A number is a view of \<open>size\<close> characters at the start of a character buffer, which is
  the list of its characters from the object's \<open>buffer\<close> pointer on. Setting a number
  returns the changed buffer; \<open>None\<close> is a store behind the end of the buffer, or the loop
  \<open>while(--exp)\<close> started with \<open>exp = 0\<close>, which does not end before \<open>exp\<close> overflows.
  \<open>long\<close> values are integers: a field has at most ten digits.
\<close>

section \<open>Number\<close>

definition Number_new :: "nat \<Rightarrow> nat" where
  "Number_new width =
     (let width = (if width > 10 then 10 else width)
      in if width < 1 then 1 else width)"

definition isdig :: "char \<Rightarrow> bool" where
  "isdig c \<longleftrightarrow> 48 \<le> (of_char c :: int) \<and> (of_char c :: int) \<le> 57"

fun get_digits :: "nat \<Rightarrow> int \<Rightarrow> cstr \<Rightarrow> int" where
  "get_digits 0 ret bp = ret"
| "get_digits (Suc count) ret bp =
     (if isdig (cchar bp 0)
      then get_digits count (ret * 10 + (of_char (cchar bp 0) - 48)) (tl bp)
      else ret)"

definition Number_get :: "nat \<Rightarrow> cstr \<Rightarrow> int" where
  "Number_get sz buffer =
     (if cchar buffer 0 = CHR ''-'' then - get_digits (sz - 1) 0 (tl buffer)
      else if cchar buffer 0 = CHR ''+'' then get_digits (sz - 1) 0 (tl buffer)
      else get_digits sz 0 buffer)"

text \<open>Stores at the start of a buffer.\<close>

definition put_over :: "cstr \<Rightarrow> cstr \<Rightarrow> cstr option" where
  "put_over out buffer =
     (if length out \<le> length buffer then Some (out @ drop (length out) buffer) else None)"

function number_digits :: "int \<Rightarrow> int \<Rightarrow> bool \<Rightarrow> cstr" where
  "number_digits value mx z =
     (if mx \<le> 0 then []
      else (if value \<ge> mx \<or> z then [char_of (48 + value div mx)] else []) @
           number_digits (if value \<ge> mx then value - (value div mx) * mx else value) (mx div 10)
             (z \<or> value \<ge> mx))"
  by pat_completeness auto
termination
  by (relation "measure (\<lambda>(value, mx, z). nat mx)") auto

fun blank_digits :: "nat \<Rightarrow> cstr \<Rightarrow> cstr" where
  "blank_digits 0 bp = bp"
| "blank_digits (Suc count) bp =
     (if isdig (cchar bp 0) then CHR '' '' # blank_digits count (tl bp) else bp)"

definition Number_set :: "nat \<Rightarrow> int \<Rightarrow> cstr \<Rightarrow> cstr option" where
  "Number_set sz value buffer =
     (let sign = (if value < 0 then ''-'' else ''''); count = sz - length sign
      in if count = 0 then None
         else
           (let digits = number_digits \<bar>value\<bar> (10 ^ (count - 1)) False; out = sign @ digits
            in if length out \<le> length buffer
               then Some (out @ blank_digits (count - length digits) (drop (length out) buffer))
               else None))"

definition Number_assign :: "nat \<Rightarrow> int \<Rightarrow> cstr \<Rightarrow> (int \<times> cstr) option" where
  "Number_assign sz value buffer = map_option (Pair value) (Number_set sz value buffer)"

definition Number_assign_number :: "nat \<Rightarrow> nat \<Rightarrow> cstr \<Rightarrow> cstr \<Rightarrow> (int \<times> cstr) option" where
  "Number_assign_number sz num_sz num buffer =
     map_option (\<lambda>b. (Number_get sz b, b)) (Number_set sz (Number_get num_sz num) buffer)"

definition Number_add :: "nat \<Rightarrow> int \<Rightarrow> cstr \<Rightarrow> (int \<times> cstr) option" where
  "Number_add sz value buffer =
     (let value1 = Number_get sz buffer + value in map_option (Pair value1) (Number_set sz value1 buffer))"

definition Number_sub :: "nat \<Rightarrow> int \<Rightarrow> cstr \<Rightarrow> (int \<times> cstr) option" where
  "Number_sub sz value buffer =
     (let value1 = Number_get sz buffer - value in map_option (Pair value1) (Number_set sz value1 buffer))"

definition Number_dec :: "nat \<Rightarrow> cstr \<Rightarrow> (int \<times> cstr) option" where
  "Number_dec sz buffer =
     (let val = Number_get sz buffer - 1 in map_option (Pair val) (Number_set sz val buffer))"

definition Number_inc :: "nat \<Rightarrow> cstr \<Rightarrow> (int \<times> cstr) option" where
  "Number_inc sz buffer =
     (let val = Number_get sz buffer + 1 in map_option (Pair val) (Number_set sz val buffer))"

section \<open>ZNumber\<close>

function znumber_digits :: "int \<Rightarrow> int \<Rightarrow> cstr" where
  "znumber_digits value mx =
     (if mx \<le> 0 then []
      else char_of (48 + value div mx) # znumber_digits (value - (value div mx) * mx) (mx div 10))"
  by pat_completeness auto
termination
  by (relation "measure (\<lambda>(value, mx). nat mx)") auto

definition ZNumber_set :: "nat \<Rightarrow> int \<Rightarrow> cstr \<Rightarrow> cstr option" where
  "ZNumber_set sz value buffer =
     (let sign = (if value < 0 then ''-'' else ''''); count = sz - length sign
      in if count = 0 then None
         else put_over (sign @ znumber_digits \<bar>value\<bar> (10 ^ (count - 1))) buffer)"

definition ZNumber_assign :: "nat \<Rightarrow> int \<Rightarrow> cstr \<Rightarrow> (int \<times> cstr) option" where
  "ZNumber_assign sz value buffer = map_option (Pair value) (ZNumber_set sz value buffer)"

declare number_digits.simps [simp del] znumber_digits.simps [simp del]

section \<open>Digits\<close>

lemma of_char_digit: "0 \<le> d \<Longrightarrow> d \<le> 9 \<Longrightarrow> of_char (char_of (48 + d :: int) :: char) = 48 + d"
  by (simp add: of_char_of)

lemma isdig_digit [simp]: "0 \<le> d \<Longrightarrow> d \<le> 9 \<Longrightarrow> isdig (char_of (48 + d :: int))"
  by (simp add: isdig_def of_char_digit)

lemma not_isdig [simp]: "\<not> isdig (CHR '' '')" "\<not> isdig (CHR ''-'')" "\<not> isdig (CHR ''+'')"
  "\<not> isdig (CHR 0x00)" "\<not> isdig (CHR '':'')"
  by (simp_all add: isdig_def)

lemma znumber_step:
  "znumber_digits v (10 ^ Suc k) = char_of (48 + v div 10 ^ Suc k) # znumber_digits (v mod 10 ^ Suc k) (10 ^ k)"
  by (subst znumber_digits.simps) (simp add: minus_div_mult_eq_mod not_le)

lemma znumber_last: "znumber_digits v 1 = [char_of (48 + v)]"
  by (subst znumber_digits.simps) (simp add: znumber_digits.simps [of _ 0])

lemma znumber_length: "length (znumber_digits v (10 ^ k)) = Suc k"
  by (induction k arbitrary: v) (simp_all add: znumber_last znumber_step del: power_Suc)

lemma lead_digit:
  assumes "0 \<le> v" "v < 10 ^ Suc k"
  shows "0 \<le> v div 10 ^ k" "v div 10 ^ k \<le> (9 :: int)"
proof -
  have "v div 10 ^ k < 10"
    using pos_imp_zdiv_neg_iff [of "10 ^ k" "v - 10 * 10 ^ k"] div_mult_self1 [of "10 ^ k" v "-10"] assms(2)
    by (simp add: algebra_simps)
  then show "0 \<le> v div 10 ^ k" "v div 10 ^ k \<le> 9"
    using assms(1) by (simp_all add: pos_imp_zdiv_nonneg_iff)
qed

lemma znumber_first:
  assumes "0 \<le> v" "v < 10 ^ Suc k"
  shows "isdig (cchar (znumber_digits v (10 ^ k) @ r) 0)"
  using lead_digit [OF assms]
  by (cases k) (simp_all add: znumber_last znumber_step cchar_def del: power_Suc)

text \<open>Reading digits back, whatever follows them.\<close>

lemma get_znumber:
  "\<lbrakk>0 \<le> v; v < 10 ^ Suc k\<rbrakk>
    \<Longrightarrow> get_digits (Suc k + n) r (znumber_digits v (10 ^ k) @ rest) = get_digits n (r * 10 ^ Suc k + v) rest"
proof (induction k arbitrary: v r)
  case 0
  then show ?case by (simp add: znumber_last cchar_def of_char_digit)
next
  case (Suc k)
  note d = lead_digit [OF Suc.prems]
  have "v mod 10 ^ Suc k < 10 ^ Suc k" "0 \<le> v mod 10 ^ Suc k" by simp_all
  from Suc.IH [OF this(2,1), of "r * 10 + v div 10 ^ Suc k"]
  have "get_digits (Suc (Suc k + n)) r (znumber_digits v (10 ^ Suc k) @ rest)
      = get_digits n ((r * 10 + v div 10 ^ Suc k) * 10 ^ Suc k + v mod 10 ^ Suc k) rest"
    using d by (subst get_digits.simps(2)) (simp add: znumber_step cchar_def of_char_digit del: power_Suc)
  also have "(r * 10 + v div 10 ^ Suc k) * 10 ^ Suc k + v mod 10 ^ Suc k = r * 10 ^ Suc (Suc k) + v"
    using mult_div_mod_eq [of "10 ^ Suc k" v] by (simp add: algebra_simps)
  finally show ?case by simp
qed

lemma get_blank [simp]: "get_digits n r (blank_digits n rest) = r"
  by (cases n) (simp_all add: cchar_def)

lemma pow10_not_le: "\<not> (10 :: int) ^ k \<le> 0"
  by (simp add: not_le)

lemma pow10_div: "(10 :: int) ^ Suc k div 10 = 10 ^ k"
  by simp

lemma number_znumber: "0 \<le> v \<Longrightarrow> number_digits v (10 ^ k) True = znumber_digits v (10 ^ k)"
proof (induction k arbitrary: v)
  case 0
  then show ?case
    by (simp add: znumber_last number_digits.simps [of _ 1] number_digits.simps [of _ 0])
next
  case (Suc k)
  show ?case
    by (subst number_digits.simps) (simp add: znumber_step Suc minus_div_mult_eq_mod not_le not_less pow10_div del: power_Suc)
qed

text \<open>\<open>Number::set\<close> leaves out the leading zeros.\<close>

lemma number_digits_cases:
  assumes "0 \<le> v"
  shows "number_digits v (10 ^ k) False = [] \<and> v = 0 \<or>
    (\<exists>j \<le> k. number_digits v (10 ^ k) False = znumber_digits v (10 ^ j) \<and> 10 ^ j \<le> v
       \<and> (v < 10 ^ Suc k \<longrightarrow> v < 10 ^ Suc j))"
proof (induction k)
  case 0
  then show ?case using assms
    by (simp add: znumber_last number_digits.simps [of _ 1] number_digits.simps [of _ 0])
next
  case (Suc k)
  show ?case
  proof (cases "v \<ge> 10 ^ Suc k")
    case True
    then have "number_digits v (10 ^ Suc k) False = znumber_digits v (10 ^ Suc k)"
      by (subst number_digits.simps)
        (simp add: znumber_step number_znumber minus_div_mult_eq_mod not_le pow10_div del: power_Suc)
    then show ?thesis using True by (intro disjI2 exI [of _ "Suc k"]) simp
  next
    case False
    then have "number_digits v (10 ^ Suc k) False = number_digits v (10 ^ k) False"
      by (subst number_digits.simps) (simp add: pow10_not_le pow10_div del: power_Suc)
    then show ?thesis using Suc False by (auto simp: not_le intro: le_SucI)
  qed
qed

lemma number_digits_get:
  assumes "0 \<le> v" "v < 10 ^ Suc k"
  shows "length (number_digits v (10 ^ k) False) \<le> Suc k"
    and "get_digits (Suc k) 0 (number_digits v (10 ^ k) False @
           blank_digits (Suc k - length (number_digits v (10 ^ k) False)) rest) = v"
proof -
  consider "number_digits v (10 ^ k) False = []" "v = 0"
    | j where "j \<le> k" "number_digits v (10 ^ k) False = znumber_digits v (10 ^ j)" "v < 10 ^ Suc j"
    using number_digits_cases [OF assms(1), of k] assms(2) by blast
  then have "length (number_digits v (10 ^ k) False) \<le> Suc k
    \<and> get_digits (Suc k) 0 (number_digits v (10 ^ k) False @
        blank_digits (Suc k - length (number_digits v (10 ^ k) False)) rest) = v"
  proof cases
    case 1
    then show ?thesis by (simp del: get_digits.simps blank_digits.simps)
  next
    case (2 j)
    then show ?thesis
      using get_znumber [OF assms(1) 2(3), of "k - j" 0 "blank_digits (k - j) rest"]
      by (simp add: znumber_length del: get_digits.simps blank_digits.simps)
  qed
  then show "length (number_digits v (10 ^ k) False) \<le> Suc k"
    and "get_digits (Suc k) 0 (number_digits v (10 ^ k) False @
           blank_digits (Suc k - length (number_digits v (10 ^ k) False)) rest) = v" by auto
qed

text \<open>A digit is not read as a sign.\<close>

lemma get_nosign:
  assumes "isdig (cchar b 0) \<or> cchar b 0 = CHR '' ''"
  shows "Number_get n b = get_digits n 0 b"
  using assms by (auto simp: Number_get_def)

text \<open>\<open>fits n v\<close>: the value has at most \<open>n\<close> characters, the sign included.\<close>

definition fits :: "nat \<Rightarrow> int \<Rightarrow> bool" where
  "fits n v \<longleftrightarrow> (if v < 0 then 1 < n \<and> - v < 10 ^ (n - 1) else 0 < n \<and> v < 10 ^ n)"

lemma ZNumber_set_get:
  assumes "fits n v" and "n \<le> length b"
  obtains b' where "ZNumber_set n v b = Some b'" "Number_get n b' = v" "length b' = length b"
    "drop n b' = drop n b"
proof (cases "v < 0")
  case True
  then obtain k where k: "n = Suc (Suc k)"
    using assms(1) by (auto simp: fits_def dest!: less_imp_Suc_add)
  let ?b = "''-'' @ znumber_digits (- v) (10 ^ k) @ drop n b"
  have "ZNumber_set n v b = Some ?b"
    using True k assms(2) by (simp add: ZNumber_set_def put_over_def znumber_length)
  moreover have "Number_get n ?b = v"
    using True assms(1) k get_znumber [of "- v" k 0 0 "drop n b"] by (simp add: fits_def Number_get_def cchar_def)
  ultimately show ?thesis using that [of ?b] k assms(2) by (simp add: znumber_length)
next
  case False
  then obtain k where k: "n = Suc k"
    using assms(1) by (auto simp: fits_def dest!: less_imp_Suc_add)
  let ?b = "znumber_digits v (10 ^ k) @ drop n b"
  have "ZNumber_set n v b = Some ?b"
    using False k assms(2) by (simp add: ZNumber_set_def put_over_def znumber_length)
  moreover have "isdig (cchar ?b 0)"
    using False assms(1) k by (intro znumber_first) (simp_all add: fits_def)
  then have "Number_get n ?b = v"
    using False assms(1) k get_znumber [of v k 0 0 "drop n b"] by (simp add: fits_def get_nosign)
  ultimately show ?thesis using that [of ?b] k assms(2) by (simp add: znumber_length)
qed

lemma Number_set_get:
  assumes "fits n v" and "n \<le> length b" and "v \<noteq> 0 \<or> cchar b 0 \<notin> {CHR ''-'', CHR ''+''}"
  obtains b' where "Number_set n v b = Some b'" "Number_get n b' = v"
proof (cases "v < 0")
  case True
  then obtain k where k: "n = Suc (Suc k)"
    using assms(1) by (auto simp: fits_def dest!: less_imp_Suc_add)
  let ?d = "number_digits (- v) (10 ^ k) False"
  let ?b = "''-'' @ ?d @ blank_digits (Suc k - length ?d) (drop (Suc (length ?d)) b)"
  have v: "0 \<le> - v" "- v < 10 ^ Suc k" using True assms(1) k by (simp_all add: fits_def)
  then have "Number_set n v b = Some ?b"
    using True k assms(2) number_digits_get(1) [OF v] by (simp add: Number_set_def Let_def)
  moreover have "Number_get n ?b = v"
    using number_digits_get(2) [OF v] k
    by (simp add: Number_get_def cchar_def del: get_digits.simps blank_digits.simps)
  ultimately show ?thesis by (rule that)
next
  case False
  then obtain k where k: "n = Suc k"
    using assms(1) by (auto simp: fits_def dest!: less_imp_Suc_add)
  let ?d = "number_digits v (10 ^ k) False"
  let ?b = "?d @ blank_digits (Suc k - length ?d) (drop (length ?d) b)"
  have v: "0 \<le> v" "v < 10 ^ Suc k" using False assms(1) k by (simp_all add: fits_def)
  have set: "Number_set n v b = Some ?b"
    using False k assms(2) number_digits_get(1) [OF v] by (simp add: Number_set_def Let_def)
  have "cchar ?b 0 \<notin> {CHR ''-'', CHR ''+''}"
  proof (cases "?d = []")
    case True
    then have "v = 0" using number_digits_cases [OF v(1), of k] by (metis znumber_length length_0_conv nat.distinct(1))
    then show ?thesis using True assms(3) by (auto simp: cchar_def)
  next
    case False
    then have "isdig (cchar ?b 0)"
      using number_digits_cases [OF v(1), of k] v(2) znumber_first [OF v(1)] by auto
    then show ?thesis by auto
  qed
  then have "Number_get n ?b = v"
    using number_digits_get(2) [OF v] k
    by (simp add: Number_get_def del: get_digits.simps blank_digits.simps)
  with set show ?thesis by (rule that)
qed

section \<open>Properties\<close>

text \<open>
  A \<open>ZNumber\<close> reads back every value that fits its field, stores exactly the
  characters of the field and leaves the rest of the buffer alone.
\<close>

theorem ZNumber_roundtrip:
  assumes "fits n v" and "n \<le> length b"
  shows "case ZNumber_assign n v b of
           None \<Rightarrow> False
         | Some (r, b') \<Rightarrow> r = v \<and> Number_get n b' = v \<and> length b' = length b \<and> drop n b' = drop n b"
proof -
  obtain b' where "ZNumber_set n v b = Some b'" "Number_get n b' = v" "length b' = length b"
    "drop n b' = drop n b" using assms by (rule ZNumber_set_get)
  then show ?thesis by (simp add: ZNumber_assign_def)
qed

theorem ZNumber_roundtrip_witness:
  "fits 4 (-12) \<and> (case ZNumber_assign 4 (-12) ''xxxxyz'' of None \<Rightarrow> False
     | Some (r, b') \<Rightarrow> r = -12 \<and> Number_get 4 b' = -12 \<and> length b' = 6 \<and> drop 4 b' = ''yz'')"
  using ZNumber_roundtrip [of 4 "-12" "''xxxxyz''"] by (auto simp: fits_def split: option.splits)

text \<open>
  C26: A \<open>Number\<close> reads back every value that fits its field, so the arithmetic operators
  on a field compute the arithmetic of their values, with one exception: assigning 0 to a
  field that starts with a sign stores nothing and the field keeps its old value.
\<close>

theorem Number_roundtrip:
  assumes "fits n v" and "n \<le> length b"
  shows "if v = 0 \<and> cchar b 0 \<in> {CHR ''-'', CHR ''+''} then Number_set n v b = Some b
         else \<exists>b'. Number_set n v b = Some b' \<and> Number_get n b' = v
           \<and> (v = Number_get n b + w \<longrightarrow> Number_add n w b = Some (v, b'))
           \<and> (v = Number_get n b - w \<longrightarrow> Number_sub n w b = Some (v, b'))
           \<and> (v = Number_get n b + 1 \<longrightarrow> Number_inc n b = Some (v, b'))
           \<and> (v = Number_get n b - 1 \<longrightarrow> Number_dec n b = Some (v, b'))"
proof (cases "v = 0 \<and> cchar b 0 \<in> {CHR ''-'', CHR ''+''}")
  case True
  then obtain k where k: "n = Suc k" using assms(1) by (auto simp: fits_def dest!: less_imp_Suc_add)
  have "number_digits 0 (10 ^ k) False = []" using number_digits_cases [of 0 k] by (auto simp: pow10_not_le)
  then have "Number_set n v b = Some b" using True k by (auto simp: Number_set_def)
  with True show ?thesis by simp
next
  case False
  then obtain b' where "Number_set n v b = Some b'" "Number_get n b' = v"
    using Number_set_get [OF assms] by blast
  with False show ?thesis
    by (auto simp: Number_add_def Number_sub_def Number_inc_def Number_dec_def)
qed

theorem Number_roundtrip_witness:
  "Number_set 2 0 ''-1'' = Some ''-1'' \<and> (\<exists>b'. Number_set 3 42 ''007'' = Some b' \<and> Number_get 3 b' = 42
     \<and> Number_add 3 35 ''007'' = Some (42, b'))"
proof -
  have "Number_get 3 ''007'' = 7"
    by (simp add: Number_get_def cchar_def isdig_def numeral_3_eq_3)
  then show ?thesis
    using Number_roundtrip [of 2 0 "''-1''"] Number_roundtrip [of 3 42 "''007''" 35]
    by (auto simp: fits_def cchar_def)
qed

end
