(* ===== verification/Calendar.thy ===== *)
theory Calendar
  imports Doubles Numbers
begin

text \<open>
  The classes \<open>Date\<close>, \<open>Time\<close> and \<open>DateTime\<close> of \<open>corelib/datetime.cpp\<close>.

  A date is its Julian day number, a time its seconds since midnight, and a \<open>DateTime\<close>,
  which inherits from both, has both parts. \<open>long\<close> values are integers; division and
  remainder truncate (\<open>cdiv\<close>, \<open>cmod\<close>). \<open>localtime\<close> and \<open>mktime\<close> are parameters: the
  broken down current time \<open>now\<close>, and a function on \<open>tm_t\<close>. Character buffers are lists;
  a \<open>put\<close> into a buffer that is too short is \<open>None\<close>.
\<close>

section \<open>Date\<close>

record tm_t =
  tm_year :: int
  tm_mon :: int
  tm_mday :: int
  tm_hour :: int
  tm_min :: int
  tm_sec :: int
  tm_isdst :: int

record Date =
  julian :: int

definition Date_set :: "int \<Rightarrow> int \<Rightarrow> int \<Rightarrow> Date" where
  "Date_set nyear nmonth nday =
     (if nmonth < 1 \<or> nmonth > 12 \<or> nday < 1 \<or> nday > 31 \<or> nyear = 0
      then \<lparr>julian = 0x7fffffff\<rparr>
      else
        (let nyear = (if nyear < 0 then nyear - 1 else nyear)
         in \<lparr>julian = nday - 32075
               + cdiv (1461 * (nyear + 4800 + cdiv (nmonth - 14) 12)) 4
               + cdiv (367 * (nmonth - 2 - cdiv (nmonth - 14) 12 * 12)) 12
               - cdiv (3 * cdiv (nyear + 4900 + cdiv (nmonth - 14) 12) 100) 4\<rparr>))"

definition Date_from_tm :: "tm_t \<Rightarrow> Date" where
  "Date_from_tm dt = Date_set (tm_year dt + 1900) (tm_mon dt + 1) (tm_mday dt)"

definition Date_set_str :: "tm_t \<Rightarrow> cstr \<Rightarrow> nat \<Rightarrow> Date" where
  "Date_set_str now str sz =
     (let sz = (if sz = 0 then length str else sz);
          finish = (\<lambda>nyear m d. Date_set nyear (Number_get 2 (drop m str)) (Number_get 2 (drop d str)));
          century = cdiv (tm_year now + 1900) 100 * 100
      in if sz = 4 then finish (tm_year now + 1900) 0 2
         else if sz = 5 then finish (tm_year now + 1900) 0 3
         else if sz = 6 then finish (century + Number_get 2 str) 2 4
         else if sz = 8 \<and> isdig (cchar str 2) \<and> isdig (cchar str 5) then finish (Number_get 4 str) 4 6
         else if sz = 8 then finish (century + Number_get 2 str) 3 6
         else if sz = 10 then finish (Number_get 4 str) 5 8
         else \<lparr>julian = 0x7fffffff\<rparr>)"

definition Date_is_valid :: "Date \<Rightarrow> bool" where
  "Date_is_valid d \<longleftrightarrow> julian d \<noteq> 0x7fffffff"

definition Date_dow :: "Date \<Rightarrow> int" where
  "Date_dow d = cmod (julian d + 1) 7 mod 2 ^ 32"

definition Date_add :: "Date \<Rightarrow> int \<Rightarrow> Date" where
  "Date_add d val = d\<lparr>julian := julian d + val\<rparr>"

definition Date_sub :: "Date \<Rightarrow> int \<Rightarrow> Date" where
  "Date_sub d val = d\<lparr>julian := julian d - val\<rparr>"

definition Date_inc :: "Date \<Rightarrow> Date" where
  "Date_inc d = d\<lparr>julian := julian d + 1\<rparr>"

definition Date_dec :: "Date \<Rightarrow> Date" where
  "Date_dec d = d\<lparr>julian := julian d - 1\<rparr>"

definition Date_eq :: "Date \<Rightarrow> Date \<Rightarrow> bool" where "Date_eq a b \<longleftrightarrow> julian a = julian b"
definition Date_ne :: "Date \<Rightarrow> Date \<Rightarrow> bool" where "Date_ne a b \<longleftrightarrow> julian a \<noteq> julian b"
definition Date_lt :: "Date \<Rightarrow> Date \<Rightarrow> bool" where "Date_lt a b \<longleftrightarrow> julian a < julian b"
definition Date_le :: "Date \<Rightarrow> Date \<Rightarrow> bool" where "Date_le a b \<longleftrightarrow> julian a \<le> julian b"
definition Date_gt :: "Date \<Rightarrow> Date \<Rightarrow> bool" where "Date_gt a b \<longleftrightarrow> julian a > julian b"
definition Date_ge :: "Date \<Rightarrow> Date \<Rightarrow> bool" where "Date_ge a b \<longleftrightarrow> julian a \<ge> julian b"

text \<open>The conversion of \<open>Date::put\<close>, in \<open>double\<close> arithmetic as the code has it.\<close>

definition date_civil :: "int \<Rightarrow> int \<times> int \<times> int" where
  "date_civil jd =
     (let R = double_round; cast = (\<lambda>x. of_int (trunc x));
          l = fadd R (R (of_int jd)) 68569;
          n = cast (fdiv R (fmul R 4 l) 146097);
          l = fsub R l (cast (fdiv R (fadd R (fmul R 146097 n) 3) 4));
          i = cast (fdiv R (fmul R 4000 (fadd R l 1)) 1461001);
          l = fadd R (fsub R l (cast (fdiv R (fmul R 1461 i) 4))) 31;
          j = cast (fdiv R (fmul R 80 l) 2447);
          k = fsub R l (cast (fdiv R (fmul R 2447 j) 80));
          l = cast (fdiv R j 11);
          j = fsub R (fadd R j 2) (fmul R 12 l);
          i = fadd R (fadd R (fmul R 100 (fsub R n 49)) i) l
      in (trunc i, trunc j, trunc k))"

text \<open>Assigning to a \<open>ZNumber\<close> of \<open>n\<close> characters at \<open>buffer + off\<close>.\<close>

definition field_set :: "nat \<Rightarrow> nat \<Rightarrow> int \<Rightarrow> cstr \<Rightarrow> cstr option" where
  "field_set off n v buffer = map_option ((@) (take off buffer)) (ZNumber_set n v (drop off buffer))"

definition Date_put :: "Date \<Rightarrow> cstr \<Rightarrow> cstr option" where
  "Date_put d buffer =
     (if length buffer < 11 then None
      else
        (let (nyear, nmonth, nday) = date_civil (julian d)
         in Option.bind (field_set 0 4 nyear (buffer[4 := CHR ''-'', 7 := CHR ''-''])) (\<lambda>buffer.
            Option.bind (field_set 5 2 nmonth buffer) (\<lambda>buffer.
            Option.bind (field_set 8 2 nday buffer) (\<lambda>buffer.
            Some (buffer[10 := CHR 0x00]))))))"

text \<open>The local buffers of the accessors; \<open>put\<close> overwrites all of it.\<close>

definition date_buf :: "Date \<Rightarrow> cstr option" where
  "date_buf d = Date_put d (replicate 11 (CHR 0x00))"

definition Date_year :: "Date \<Rightarrow> int option" where
  "Date_year d = map_option (Number_get 4) (date_buf d)"

definition Date_month :: "Date \<Rightarrow> int option" where
  "Date_month d = map_option (\<lambda>buf. Number_get 2 (drop 5 buf)) (date_buf d)"

definition Date_day :: "Date \<Rightarrow> int option" where
  "Date_day d = map_option (\<lambda>buf. Number_get 2 (drop 8 buf)) (date_buf d)"

definition Date_timeref :: "(tm_t \<Rightarrow> int) \<Rightarrow> Date \<Rightarrow> int option" where
  "Date_timeref mktime d =
     map_option (\<lambda>buf. mktime \<lparr>tm_year = Number_get 4 buf - 1900, tm_mon = Number_get 2 (drop 5 buf) - 1,
       tm_mday = Number_get 2 (drop 8 buf), tm_hour = 0, tm_min = 0, tm_sec = 0, tm_isdst = 0\<rparr>) (date_buf d)"

text \<open>\<open>atol\<close> skips white space, takes a sign and reads digits up to the first other character.\<close>

definition atol :: "cstr \<Rightarrow> int" where
  "atol s =
     (let s = dropWhile (\<lambda>c. (of_char c :: int) = 32 \<or> 9 \<le> (of_char c :: int) \<and> (of_char c :: int) \<le> 13) s
      in Number_get (length s) s)"

definition Date_get :: "Date \<Rightarrow> int option" where
  "Date_get d =
     map_option (\<lambda>buf. atol buf * 10000 + atol (drop 5 buf) * 100 + atol (drop 8 buf)) (date_buf d)"

section \<open>Time\<close>

record Time =
  seconds :: int

definition c_day :: int where "c_day = 86400"

definition Time_set :: "int \<Rightarrow> int \<Rightarrow> int \<Rightarrow> Time" where
  "Time_set nhour nminute nsecond =
     (if nminute > 59 \<or> nsecond > 59 \<or> nhour > 23 then \<lparr>seconds = -1\<rparr>
      else \<lparr>seconds = 3600 * nhour + 60 * nminute + nsecond\<rparr>)"

definition Time_from_tm :: "tm_t \<Rightarrow> Time" where
  "Time_from_tm dt = Time_set (tm_hour dt) (tm_min dt) (tm_sec dt)"

definition Time_set_str :: "cstr \<Rightarrow> nat \<Rightarrow> Time" where
  "Time_set_str str sz =
     (let sz = (if sz = 0 then length str else sz);
          finish = (\<lambda>sec. Time_set (Number_get 2 str) (Number_get 2 (drop 3 str)) sec)
      in if sz = 5 then finish 0
         else if sz = 8 then finish (Number_get 2 (drop 6 str))
         else \<lparr>seconds = -1\<rparr>)"

definition Time_is_valid :: "Time \<Rightarrow> bool" where
  "Time_is_valid t \<longleftrightarrow> seconds t \<noteq> -1"

definition Time_hour :: "Time \<Rightarrow> int" where
  "Time_hour t = (if seconds t = -1 then -1 else cdiv (seconds t) 3600)"

definition Time_minute :: "Time \<Rightarrow> int" where
  "Time_minute t = (if seconds t = -1 then -1 else cmod (cdiv (seconds t) 60) 60)"

definition Time_second :: "Time \<Rightarrow> int" where
  "Time_second t = (if seconds t = -1 then -1 else cmod (seconds t) 60)"

definition Time_update :: "Time \<Rightarrow> Time" where
  "Time_update t = t\<lparr>seconds := \<bar>cmod (seconds t) c_day\<bar>\<rparr>"

definition Time_add :: "Time \<Rightarrow> int \<Rightarrow> Time" where
  "Time_add t val = Time_update (t\<lparr>seconds := seconds t + val\<rparr>)"

definition Time_sub :: "Time \<Rightarrow> int \<Rightarrow> Time" where
  "Time_sub t val = Time_update (t\<lparr>seconds := seconds t - val\<rparr>)"

definition Time_inc :: "Time \<Rightarrow> Time" where
  "Time_inc t = Time_update (t\<lparr>seconds := seconds t + 1\<rparr>)"

definition Time_dec :: "Time \<Rightarrow> Time" where
  "Time_dec t = Time_update (t\<lparr>seconds := seconds t - 1\<rparr>)"

definition Time_diff :: "Time \<Rightarrow> Time \<Rightarrow> int" where
  "Time_diff t u =
     (if seconds t < seconds u then (seconds t + c_day) - seconds u else seconds t - seconds u)"

definition Time_eq :: "Time \<Rightarrow> Time \<Rightarrow> bool" where "Time_eq a b \<longleftrightarrow> seconds a = seconds b"
definition Time_ne :: "Time \<Rightarrow> Time \<Rightarrow> bool" where "Time_ne a b \<longleftrightarrow> seconds a \<noteq> seconds b"
definition Time_lt :: "Time \<Rightarrow> Time \<Rightarrow> bool" where "Time_lt a b \<longleftrightarrow> seconds a < seconds b"
definition Time_le :: "Time \<Rightarrow> Time \<Rightarrow> bool" where "Time_le a b \<longleftrightarrow> seconds a \<le> seconds b"
definition Time_gt :: "Time \<Rightarrow> Time \<Rightarrow> bool" where "Time_gt a b \<longleftrightarrow> seconds a > seconds b"
definition Time_ge :: "Time \<Rightarrow> Time \<Rightarrow> bool" where "Time_ge a b \<longleftrightarrow> seconds a \<ge> seconds b"

definition Time_put :: "Time \<Rightarrow> cstr \<Rightarrow> cstr option" where
  "Time_put t buffer =
     (if length buffer < 9 then None
      else
        Option.bind (field_set 0 2 (cmod (cdiv (seconds t) 3600) 24) (buffer[2 := CHR '':'', 5 := CHR '':''])) (\<lambda>buffer.
        let zhour = Number_get 2 buffer
        in Option.bind (field_set 3 2 (cdiv (seconds t - 3600 * zhour) 60) buffer) (\<lambda>buffer.
           let zminute = Number_get 2 (drop 3 buffer)
           in Option.bind (field_set 6 2 (seconds t - 3600 * zhour - 60 * zminute) buffer) (\<lambda>buffer.
              Some (buffer[8 := CHR 0x00])))))"

section \<open>DateTime\<close>

record DateTime =
  date :: Date
  time :: Time

definition DateTime_new :: "int \<Rightarrow> int \<Rightarrow> int \<Rightarrow> int \<Rightarrow> int \<Rightarrow> int \<Rightarrow> DateTime" where
  "DateTime_new year month day hour minute second =
     \<lparr>date = Date_set year month day, time = Time_set hour minute second\<rparr>"

text \<open>The constructor from a \<open>time_t\<close> reads the current time instead of its argument.\<close>

definition DateTime_from_time :: "tm_t \<Rightarrow> int \<Rightarrow> DateTime" where
  "DateTime_from_time now tm = \<lparr>date = Date_from_tm now, time = Time_from_tm now\<rparr>"

definition DateTime_from_str :: "tm_t \<Rightarrow> cstr \<Rightarrow> nat \<Rightarrow> DateTime" where
  "DateTime_from_str now a_str sz =
     (let sz = (if sz = 0 then length a_str else sz); str = take sz a_str
      in if sz = 11 then \<lparr>date = Date_set_str now str 5, time = Time_set_str (drop 6 str) 5\<rparr>
         else if sz = 14 then \<lparr>date = Date_set_str now str 8, time = Time_set_str (drop 9 str) 5\<rparr>
         else if sz = 17 then \<lparr>date = Date_set_str now str 8, time = Time_set_str (drop 9 str) 8\<rparr>
         else if sz = 19 then \<lparr>date = Date_set_str now str 10, time = Time_set_str (drop 11 str) 8\<rparr>
         else \<lparr>date = Date_from_tm now, time = Time_from_tm now\<rparr>)"

definition DateTime_is_valid :: "DateTime \<Rightarrow> bool" where
  "DateTime_is_valid dt \<longleftrightarrow> Date_is_valid (date dt) \<and> Time_is_valid (time dt)"

definition DateTime_put :: "DateTime \<Rightarrow> cstr \<Rightarrow> cstr option" where
  "DateTime_put dt buf =
     Option.bind (Date_put (date dt) buf) (\<lambda>buf.
     map_option ((@) (take 11 (buf[10 := CHR '' '']))) (Time_put (time dt) (drop 11 (buf[10 := CHR '' '']))))"

definition DateTime_get :: "(tm_t \<Rightarrow> int) \<Rightarrow> DateTime \<Rightarrow> int option" where
  "DateTime_get mktime dt =
     Option.bind (date_buf (date dt)) (\<lambda>dbuf.
     Option.bind (Time_put (time dt) dbuf) (\<lambda>buf.
     Some (mktime \<lparr>tm_year = Number_get 4 dbuf - 1900, tm_mon = Number_get 2 (drop 5 dbuf) - 1,
       tm_mday = Number_get 2 (drop 8 dbuf), tm_hour = Number_get 2 buf, tm_min = Number_get 2 (drop 2 buf),
       tm_sec = Number_get 2 (drop 4 buf), tm_isdst = -1\<rparr>)))"

definition DateTime_update :: "DateTime \<Rightarrow> DateTime" where
  "DateTime_update dt =
     \<lparr>date = Date_add (date dt) (cdiv (seconds (time dt)) c_day), time = Time_update (time dt)\<rparr>"

definition DateTime_add :: "DateTime \<Rightarrow> int \<Rightarrow> DateTime" where
  "DateTime_add dt value = DateTime_update (dt\<lparr>time := \<lparr>seconds = seconds (time dt) + value\<rparr>\<rparr>)"

definition DateTime_sub :: "DateTime \<Rightarrow> int \<Rightarrow> DateTime" where
  "DateTime_sub dt value = DateTime_update (dt\<lparr>time := \<lparr>seconds = seconds (time dt) - value\<rparr>\<rparr>)"

definition DateTime_inc :: "DateTime \<Rightarrow> DateTime" where
  "DateTime_inc dt = DateTime_update (dt\<lparr>date := Date_inc (date dt)\<rparr>)"

definition DateTime_dec :: "DateTime \<Rightarrow> DateTime" where
  "DateTime_dec dt = DateTime_update (dt\<lparr>date := Date_dec (date dt)\<rparr>)"

definition DateTime_diff :: "DateTime \<Rightarrow> DateTime \<Rightarrow> int" where
  "DateTime_diff a b =
     (julian (date a) - julian (date b)) * c_day + (seconds (time a) - seconds (time b))"

definition DateTime_eq :: "DateTime \<Rightarrow> DateTime \<Rightarrow> bool" where
  "DateTime_eq a b \<longleftrightarrow> julian (date a) = julian (date b) \<and> seconds (time a) = seconds (time b)"

definition DateTime_ne :: "DateTime \<Rightarrow> DateTime \<Rightarrow> bool" where
  "DateTime_ne a b \<longleftrightarrow> julian (date a) \<noteq> julian (date b) \<or> seconds (time a) \<noteq> seconds (time b)"

definition DateTime_lt :: "DateTime \<Rightarrow> DateTime \<Rightarrow> bool" where
  "DateTime_lt a b =
     (if julian (date a) \<noteq> julian (date b) then julian (date a) < julian (date b)
      else seconds (time a) < seconds (time b))"

definition DateTime_le :: "DateTime \<Rightarrow> DateTime \<Rightarrow> bool" where
  "DateTime_le a b =
     (if julian (date a) \<noteq> julian (date b) then julian (date a) < julian (date b)
      else seconds (time a) \<le> seconds (time b))"

definition DateTime_gt :: "DateTime \<Rightarrow> DateTime \<Rightarrow> bool" where
  "DateTime_gt a b =
     (if julian (date a) \<noteq> julian (date b) then julian (date a) > julian (date b)
      else seconds (time a) > seconds (time b))"

definition DateTime_ge :: "DateTime \<Rightarrow> DateTime \<Rightarrow> bool" where
  "DateTime_ge a b =
     (if julian (date a) \<noteq> julian (date b) then julian (date a) > julian (date b)
      else seconds (time a) \<ge> seconds (time b))"

definition DateTime_not :: "DateTime \<Rightarrow> bool" where
  "DateTime_not dt \<longleftrightarrow> \<not> (Date_is_valid (date dt) \<and> Time_is_valid (time dt))"

section \<open>The Gregorian calendar\<close>

definition leap :: "int \<Rightarrow> bool" where
  "leap y \<longleftrightarrow> y mod 4 = 0 \<and> (y mod 100 \<noteq> 0 \<or> y mod 400 = 0)"

definition month_days :: "int \<Rightarrow> int \<Rightarrow> int" where
  "month_days y m =
     (if m = 2 then (if leap y then 29 else 28)
      else if m = 4 \<or> m = 6 \<or> m = 9 \<or> m = 11 then 30 else 31)"

definition valid_date :: "int \<Rightarrow> int \<Rightarrow> int \<Rightarrow> bool" where
  "valid_date y m d \<longleftrightarrow> 1 \<le> y \<and> 1 \<le> m \<and> m \<le> 12 \<and> 1 \<le> d \<and> d \<le> month_days y m"

definition next_day :: "int \<times> int \<times> int \<Rightarrow> int \<times> int \<times> int" where
  "next_day = (\<lambda>(y, m, d).
     if d < month_days y m then (y, m, d + 1)
     else if m < 12 then (y, m + 1, 1)
     else (y + 1, 1, 1))"

text \<open>
  Years that begin in March: \<open>march_year\<close> and \<open>march_month\<close> (March is 1, February 12).
\<close>

definition march_year :: "int \<Rightarrow> int \<Rightarrow> int" where
  "march_year y m = (if m \<le> 2 then y - 1 else y)"

definition march_month :: "int \<Rightarrow> int" where
  "march_month m = (if m \<le> 2 then m + 10 else m - 2)"

lemma month_cases:
  assumes "1 \<le> m" "m \<le> (12 :: int)"
  obtains "m = 1" | "m = 2" | "m = 3" | "m = 4" | "m = 5" | "m = 6" | "m = 7" | "m = 8" | "m = 9"
    | "m = 10" | "m = 11" | "m = 12"
proof -
  have "m = 1 \<or> m = 2 \<or> m = 3 \<or> m = 4 \<or> m = 5 \<or> m = 6 \<or> m = 7 \<or> m = 8 \<or> m = 9
      \<or> m = 10 \<or> m = 11 \<or> m = 12" using assms by presburger
  then show thesis using that by blast
qed

lemma month_shift:
  assumes "1 \<le> m" "m \<le> 12"
  shows "cdiv (m - 14) 12 = (if m \<le> 2 then - 1 else 0)"
  using assms by (elim month_cases) (simp_all add: cdiv_def)

lemma Date_set_julian:
  assumes "1 \<le> y" "1 \<le> m" "m \<le> 12" "1 \<le> d" "d \<le> 31"
  shows "julian (Date_set y m d) =
    d - 32075 + 1461 * (march_year y m + 4800) div 4 + 367 * march_month m div 12
      - 3 * ((march_year y m + 4900) div 100) div 4"
proof -
  have "0 \<le> march_year y m" "0 \<le> march_month m" using assms by (auto simp: march_year_def march_month_def)
  moreover from this have "0 \<le> (march_year y m + 4900) div 100" by (simp add: pos_imp_zdiv_nonneg_iff)
  ultimately show ?thesis
    using assms month_shift [OF assms(2,3)]
    by (simp add: Date_set_def march_year_def march_month_def cdiv_nonneg split: if_splits)
qed

text \<open>The algorithm of \<open>put\<close> in integers.\<close>

definition civil_int :: "int \<Rightarrow> int \<times> int \<times> int" where
  "civil_int jd =
     (let l = jd + 68569;
          n = 4 * l div 146097;
          l = l - (146097 * n + 3) div 4;
          i = 4000 * (l + 1) div 1461001;
          l = l - 1461 * i div 4 + 31;
          j = 80 * l div 2447;
          k = l - 2447 * j div 80;
          l = j div 11
      in (100 * (n - 49) + i + l, j + 2 - 12 * l, k))"

text \<open>Its three stages: the century, the year in the century, the month in the year.\<close>

lemma civil_century:
  fixes c t :: int
  assumes "0 \<le> t" "t \<le> 36524" "t = 36524 \<longrightarrow> c mod 4 = 0"
  shows "4 * (36525 * c - 3 * c div 4 + t) div 146097 = c"
    and "36525 * c - 3 * c div 4 + t - (146097 * c + 3) div 4 = t"
proof -
  define a where "a = 3 * c div 4"
  have a: "4 * a \<le> 3 * c" "3 * c \<le> 4 * a + 3" unfolding a_def by linarith+
  have full: "3 * c = 4 * a" if "t = 36524"
    using that assms(3) unfolding a_def by presburger
  have "4 * (36525 * c - a + t) = 146097 * c + (3 * c - 4 * a + 4 * t)" by simp
  moreover have "0 \<le> 3 * c - 4 * a + 4 * t" using a assms by linarith
  moreover have "3 * c - 4 * a + 4 * t < 146097" using a assms(2) full by (cases "t = 36524") auto
  ultimately show "4 * (36525 * c - 3 * c div 4 + t) div 146097 = c"
    unfolding a_def by (metis int_div_pos_eq)
  have "146097 * c + 3 = 4 * (36525 * c - a) + (3 - (3 * c - 4 * a))" by simp
  moreover have "0 \<le> 3 - (3 * c - 4 * a)" "3 - (3 * c - 4 * a) < 4" using a by linarith+
  ultimately have "(146097 * c + 3) div 4 = 36525 * c - a" by (rule int_div_pos_eq)
  then show "36525 * c - 3 * c div 4 + t - (146097 * c + 3) div 4 = t" unfolding a_def by simp
qed

lemma civil_year:
  fixes r e :: int
  assumes "0 \<le> r" "r \<le> 99" "0 \<le> e" "e \<le> 365" "e = 365 \<longrightarrow> r mod 4 = 3"
  shows "4000 * (1461 * r div 4 + e + 1) div 1461001 = r"
proof -
  define q where "q = r div 4"
  have q: "4 * q \<le> r" "r \<le> 4 * q + 3" unfolding q_def by linarith+
  have full: "r = 4 * q + 3" if "e = 365" using that assms(5) unfolding q_def by presburger
  have "1461 * r = 4 * (365 * r + q) + (r - 4 * q)" by simp
  then have d: "1461 * r div 4 = 365 * r + q" by (rule int_div_pos_eq) (use q in linarith)+
  have low: "1461001 * r \<le> 4000 * (365 * r + q + e + 1)" using q assms(1-4) by simp
  have "4000 * (365 * r + q + e + 1) < 1461001 * r + 1461001"
    using q assms full by (cases "e = 365") auto
  with low show ?thesis
    unfolding d by (intro int_div_pos_eq [of _ _ _ "4000 * (365 * r + q + e + 1) - 1461001 * r"]) linarith+
qed

lemma civil_month:
  assumes "1 \<le> m" "m \<le> 12" "1 \<le> d" "d \<le> month_days y m"
  defines "l \<equiv> d + 367 * march_month m div 12"
  shows "80 * l div 2447 = march_month m" and "l - 2447 * march_month m div 80 = d"
proof -
  have "80 * l div 2447 = march_month m \<and> l - 2447 * march_month m div 80 = d"
    using assms(1,2)
  proof (rule month_cases)
  qed (use assms(3,4) in \<open>auto simp: l_def march_month_def month_days_def split: if_splits\<close>)
  then show "80 * l div 2447 = march_month m" and "l - 2447 * march_month m div 80 = d" by auto
qed

text \<open>The day of the March year, and where it can be the 366th.\<close>

lemma day_of_year:
  assumes "valid_date y m d"
  defines "e \<equiv> d - 31 + 367 * march_month m div 12"
  shows "0 \<le> e" "e \<le> 365" "e = 365 \<longrightarrow> m = 2 \<and> leap y"
proof -
  have "0 \<le> e \<and> e \<le> 365 \<and> (e = 365 \<longrightarrow> m = 2 \<and> leap y)"
  proof (rule month_cases)
    show "1 \<le> m" "m \<le> 12" using assms(1) by (auto simp: valid_date_def)
  qed (use assms(1) in \<open>auto simp: e_def valid_date_def march_month_def month_days_def split: if_splits\<close>)
  then show "0 \<le> e" "e \<le> 365" "e = 365 \<longrightarrow> m = 2 \<and> leap y" by auto
qed

lemma div_mod_succ:
  fixes i n :: int
  assumes "1 < n"
  shows "(i + 1) div n = i div n + (if i mod n = n - 1 then 1 else 0)"
    and "(i + 1) mod n = (if i mod n = n - 1 then 0 else i mod n + 1)"
proof -
  have i: "i + 1 = n * (i div n) + (i mod n + 1)" by simp
  have range: "0 \<le> i mod n" "i mod n < n" using assms by simp_all
  have "(i + 1) div n = i div n + (if i mod n = n - 1 then 1 else 0)
      \<and> (i + 1) mod n = (if i mod n = n - 1 then 0 else i mod n + 1)"
  proof (cases "i mod n = n - 1")
    case True
    with i have "i + 1 = n * (i div n + 1) + 0" by (simp add: algebra_simps)
    with True assms show ?thesis
      using int_div_pos_eq [of "i + 1" n "i div n + 1" 0] int_mod_pos_eq [of "i + 1" n "i div n + 1" 0] by simp
  next
    case False
    with range i show ?thesis
      using int_div_pos_eq [OF i] int_mod_pos_eq [OF i] by simp
  qed
  then show "(i + 1) div n = i div n + (if i mod n = n - 1 then 1 else 0)"
    and "(i + 1) mod n = (if i mod n = n - 1 then 0 else i mod n + 1)"
    by blast+
qed

lemma century_end: "(y + 4899) mod 100 = (99 :: int) \<longleftrightarrow> y mod 100 = 0"
proof -
  define a b where "a = (y + 4899) mod 100" and "b = y mod 100"
  have "y mod 100 = (y + 4899 + 1) mod 100"
    using mod_mult_self2 [of y 100 49] by (simp add: add.commute)
  then have "b = (if a = 99 then 0 else a + 1)"
    unfolding a_def b_def by (simp only: div_mod_succ(2)) simp
  moreover have "0 \<le> a" by (simp add: a_def)
  ultimately have "a = 99 \<longleftrightarrow> b = 0" by auto
  then show ?thesis by (simp only: a_def b_def)
qed

lemma leap_century:
  assumes "leap y"
  shows "(y + 4899) mod 100 mod 4 = 3"
    and "(y + 4899) mod 100 = 99 \<Longrightarrow> (y + 4899) div 100 mod 4 = 0"
proof -
  have "(y + 4899) mod 100 mod 4 = (y + 4899) mod 4" by (simp add: mod_mod_cancel)
  moreover from assms have "y mod 4 = 0" by (simp add: leap_def)
  then obtain j where "y = 4 * j" by (metis dvd_def mod_0_imp_dvd)
  then have "y + 4899 = 4 * (j + 1224) + 3" by simp
  then have "(y + 4899) mod 4 = 3" by (rule int_mod_pos_eq) simp_all
  ultimately show "(y + 4899) mod 100 mod 4 = 3" by simp
  assume "(y + 4899) mod 100 = 99"
  then have "y mod 100 = 0" by (simp add: century_end)
  then obtain k where "y = 400 * k" using assms unfolding leap_def by (metis dvd_def mod_0_imp_dvd)
  then have "y + 4899 = 100 * (4 * (k + 12)) + 99" by simp
  then have "(y + 4899) div 100 = 4 * (k + 12)" by (rule int_div_pos_eq) simp_all
  then show "(y + 4899) div 100 mod 4 = 0" by (simp only: mod_mult_self1_is_0)
qed

lemma julian_split:
  assumes "valid_date y m d"
  defines "c \<equiv> (march_year y m + 4900) div 100" and "r \<equiv> (march_year y m + 4900) mod 100"
    and "e \<equiv> d - 31 + 367 * march_month m div 12"
  shows "julian (Date_set y m d) + 68569 = 36525 * c - 3 * c div 4 + (1461 * r div 4 + e)"
proof -
  have Y: "march_year y m + 4800 = 100 * (c - 1) + r"
    using mult_div_mod_eq [of 100 "march_year y m + 4900"] by (simp add: c_def r_def)
  then have "1461 * (march_year y m + 4800) = 4 * (36525 * (c - 1)) + 1461 * r" by simp
  then have "1461 * (march_year y m + 4800) div 4 = 36525 * (c - 1) + 1461 * r div 4"
    by (metis div_mult_self4 add.commute zero_neq_numeral)
  moreover have "d \<le> 31" using assms(1) by (auto simp: valid_date_def month_days_def split: if_splits)
  ultimately show ?thesis
    using assms(1) by (simp add: Date_set_julian valid_date_def c_def e_def)
qed

lemma civil_int_set:
  assumes v: "valid_date y m d"
  shows "civil_int (julian (Date_set y m d)) = (y, m, d)"
proof -
  define c r where "c = (march_year y m + 4900) div 100" and "r = (march_year y m + 4900) mod 100"
  define e where "e = d - 31 + 367 * march_month m div 12"
  define t where "t = 1461 * r div 4 + e"
  have J: "julian (Date_set y m d) + 68569 = 36525 * c - 3 * c div 4 + t"
    using julian_split [OF v] by (simp add: c_def r_def e_def t_def)
  note e = day_of_year [OF v, folded e_def]
  have r: "0 \<le> r" "r \<le> 99" by (simp_all add: r_def)
  have e4: "e = 365 \<longrightarrow> r mod 4 = 3"
    using e(3) leap_century(1) [of y] by (auto simp: r_def march_year_def add.commute)
  have "1461 * r div 4 \<le> 1461 * 99 div 4" using r(2) by (intro zdiv_mono1) simp_all
  then have t: "0 \<le> t" "t \<le> 36524" using e r by (simp_all add: t_def)
  have t4: "t = 36524 \<longrightarrow> c mod 4 = 0"
  proof
    assume "t = 36524"
    with \<open>1461 * r div 4 \<le> 1461 * 99 div 4\<close> e(2) have "e = 365" "1461 * r div 4 = 36159"
      by (simp_all add: t_def)
    moreover from this(2) r have "r = 99" by linarith
    ultimately show "c mod 4 = 0"
      using e(3) leap_century(2) [of y] by (auto simp: r_def c_def march_year_def add.commute)
  qed
  have l: "t - 1461 * r div 4 + 31 = d + 367 * march_month m div 12" by (simp add: t_def e_def)
  have md: "1 \<le> m" "m \<le> 12" "1 \<le> d" "d \<le> month_days y m" using v by (auto simp: valid_date_def)
  have "100 * c + r = march_year y m + 4900" unfolding c_def r_def by (rule mult_div_mod_eq)
  then have "100 * (c - 49) + r = march_year y m" by simp
  moreover have "march_month m div 11 = (if m \<le> 2 then 1 else 0)"
    using md(1,2) by (elim month_cases) (simp_all add: march_month_def)
  ultimately show ?thesis
    unfolding civil_int_def Let_def J civil_century [OF t t4]
      civil_year [OF r e(1,2) e4, folded t_def] l civil_month [OF md]
    by (auto simp: march_year_def march_month_def)
qed

text \<open>With \<open>double\<close> arithmetic the algorithm computes the same.\<close>

lemma trunc_of_int [simp]: "trunc (of_int n) = n"
  by (simp add: trunc_def)

lemma double_civil:
  assumes "0 \<le> jd" "jd \<le> 100000000"
  shows "date_civil jd = civil_int jd"
proof -
  define l where "l = jd + 68569"
  define n where "n = 4 * l div 146097"
  define l2 where "l2 = l - (146097 * n + 3) div 4"
  define i where "i = 4000 * (l2 + 1) div 1461001"
  define l3 where "l3 = l2 - 1461 * i div 4 + 31"
  define j where "j = 80 * l3 div 2447"
  define k where "k = l3 - 2447 * j div 80"
  define l4 where "l4 = j div 11"
  have l: "0 \<le> l" "l \<le> 100068569" using assms by (simp_all add: l_def)
  have n: "0 \<le> n" "146097 * n \<le> 4 * l" "4 * l < 146097 * n + 146097" using l unfolding n_def by linarith+
  have l2: "0 \<le> l2" "l2 \<le> 36525" using n unfolding l2_def by linarith+
  have i: "0 \<le> i" "i \<le> 100" "1461001 * i \<le> 4000 * (l2 + 1)" "4000 * (l2 + 1) < 1461001 * i + 1461001"
    using l2 mult_div_mod_eq [of 1461001 "4000 * (l2 + 1)"] pos_mod_bound [of 1461001 "4000 * (l2 + 1)"]
      pos_mod_sign [of 1461001 "4000 * (l2 + 1)"]
    unfolding i_def [symmetric] by auto
  have "4 * (1461 * i div 4) \<le> 1461 * i" "1461 * i < 4 * (1461 * i div 4) + 4" by linarith+
  then have l3: "0 \<le> l3" "l3 \<le> 400" using i l2 unfolding l3_def by auto
  have j: "0 \<le> j" "j \<le> 14" using l3 unfolding j_def by linarith+
  have k: "\<bar>k\<bar> \<le> 1000" using l3 j unfolding k_def by linarith
  have l4: "0 \<le> l4" "l4 \<le> 2" using j unfolding l4_def by linarith+
  have lits: "(4 :: rat) = of_int 4" "(3 :: rat) = of_int 3" "(1 :: rat) = of_int 1" "(68569 :: rat) = of_int 68569"
    "(146097 :: rat) = of_int 146097" "(4000 :: rat) = of_int 4000" "(1461001 :: rat) = of_int 1461001"
    "(1461 :: rat) = of_int 1461" "(31 :: rat) = of_int 31" "(80 :: rat) = of_int 80" "(2447 :: rat) = of_int 2447"
    "(11 :: rat) = of_int 11" "(2 :: rat) = of_int 2" "(12 :: rat) = of_int 12" "(100 :: rat) = of_int 100"
    "(49 :: rat) = of_int 49" by simp_all
  note ops = ieee.rnd_int ieee.fadd_int ieee.fsub_int ieee.fmul_int ieee.trunc_fdiv
  have s1: "fadd double_round (double_round (of_int jd)) (of_int 68569) = of_int l"
    using assms by (simp add: ops l_def del: of_int_numeral of_int_1 of_int_add of_int_diff of_int_mult)
  have s2: "trunc (fdiv double_round (fmul double_round (of_int 4) (of_int l)) (of_int 146097)) = n"
    using l by (simp add: ops n_def del: of_int_numeral of_int_1 of_int_add of_int_diff of_int_mult)
  have s3: "fsub double_round (of_int l) (of_int (trunc (fdiv double_round
      (fadd double_round (fmul double_round (of_int 146097) (of_int n)) (of_int 3)) (of_int 4)))) = of_int l2"
    using l n l2 by (simp add: ops l2_def del: of_int_numeral of_int_1 of_int_add of_int_diff of_int_mult)
  have s4: "trunc (fdiv double_round (fmul double_round (of_int 4000)
      (fadd double_round (of_int l2) (of_int 1))) (of_int 1461001)) = i"
    using l2 by (simp add: ops i_def del: of_int_numeral of_int_1 of_int_add of_int_diff of_int_mult)
  have s5: "fadd double_round (fsub double_round (of_int l2) (of_int (trunc (fdiv double_round
      (fmul double_round (of_int 1461) (of_int i)) (of_int 4))))) (of_int 31) = of_int l3"
    using l2 i l3 by (simp add: ops l3_def del: of_int_numeral of_int_1 of_int_add of_int_diff of_int_mult)
  have s6: "trunc (fdiv double_round (fmul double_round (of_int 80) (of_int l3)) (of_int 2447)) = j"
    using l3 by (simp add: ops j_def del: of_int_numeral of_int_1 of_int_add of_int_diff of_int_mult)
  have s7: "fsub double_round (of_int l3) (of_int (trunc (fdiv double_round
      (fmul double_round (of_int 2447) (of_int j)) (of_int 80)))) = of_int k"
    using j l3 k by (simp add: ops k_def del: of_int_numeral of_int_1 of_int_add of_int_diff of_int_mult)
  have s8: "trunc (fdiv double_round (of_int j) (of_int 11)) = l4"
    using j by (simp add: ops l4_def del: of_int_numeral of_int_1 of_int_add of_int_diff of_int_mult)
  have s9: "fsub double_round (fadd double_round (of_int j) (of_int 2))
      (fmul double_round (of_int 12) (of_int l4)) = of_int (j + 2 - 12 * l4)"
    using j l4 by (simp add: ops del: of_int_numeral of_int_1 of_int_add of_int_diff of_int_mult)
  have s10: "fadd double_round (fadd double_round (fmul double_round (of_int 100)
      (fsub double_round (of_int n) (of_int 49))) (of_int i)) (of_int l4) = of_int (100 * (n - 49) + i + l4)"
    using n l i l4 by (simp add: ops del: of_int_numeral of_int_1 of_int_add of_int_diff of_int_mult)
  have "date_civil jd = (100 * (n - 49) + i + l4, j + 2 - 12 * l4, k)"
    unfolding date_civil_def Let_def lits s1 s2 s3 s4 s5 s6 s7 s8 s9 s10 trunc_of_int ..
  then show ?thesis
    unfolding civil_int_def Let_def l_def [symmetric] n_def [symmetric] l2_def [symmetric] i_def [symmetric]
      l3_def [symmetric] j_def [symmetric] k_def [symmetric] l4_def [symmetric] .
qed

lemma julian_nonneg:
  assumes v: "valid_date y m d"
  shows "0 \<le> julian (Date_set y m d)"
proof -
  define c r where "c = (march_year y m + 4900) div 100" and "r = (march_year y m + 4900) mod 100"
  have "0 \<le> march_year y m" using v by (auto simp: march_year_def valid_date_def)
  then have "49 \<le> c" unfolding c_def by linarith
  then have "36524 * 49 \<le> 36525 * c - 3 * c div 4" by linarith
  moreover have "0 \<le> 1461 * r div 4" unfolding r_def by (simp add: pos_imp_zdiv_nonneg_iff)
  ultimately show ?thesis using julian_split [OF v] day_of_year(1) [OF v] unfolding c_def r_def by linarith
qed

lemma julian_bounds:
  assumes "valid_date y m d" "y \<le> 9999"
  shows "0 \<le> julian (Date_set y m d)" "julian (Date_set y m d) \<le> 100000000"
proof -
  have "1 \<le> m" "m \<le> 12" using assms by (auto simp: valid_date_def)
  then have M: "1 \<le> march_month m" "march_month m \<le> 12" by (auto simp: march_month_def)
  have Y: "0 \<le> march_year y m" "march_year y m \<le> 9999" using assms by (auto simp: valid_date_def march_year_def)
  have d: "1 \<le> d" "d \<le> 31" using assms(1) by (auto simp: valid_date_def month_days_def split: if_splits)
  show "0 \<le> julian (Date_set y m d)" "julian (Date_set y m d) \<le> 100000000"
    using assms Y M d by (simp_all add: Date_set_julian valid_date_def)
qed

text \<open>Moving to the next day in the calendar adds one to the day number.\<close>

lemma days_before_year: "1461 * (Y :: int) div 4 = 365 * Y + Y div 4"
proof -
  have "1461 * Y = 4 * (365 * Y) + Y" by simp
  then show ?thesis by (metis div_mult_self4 zero_neq_numeral)
qed

lemma leap_step:
  "1461 * (y + 4800) div 4 - 3 * ((y + 4900) div 100) div 4
     = 1461 * (y + 4799) div 4 - 3 * ((y + 4899) div 100) div 4 + (if leap y then 366 else 365)"
proof (cases "y mod 100 = 0")
  case True
  then obtain k where k: "y = 100 * k" by (metis dvd_def mod_0_imp_dvd)
  have "y + 4900 = 100 * (k + 49)" "y + 4899 = 100 * (k + 48) + 99" using k by simp_all
  then have c: "(y + 4900) div 100 = k + 49" "(y + 4899) div 100 = k + 48"
    using int_div_pos_eq [of "y + 4900" 100 "k + 49" 0] int_div_pos_eq [of "y + 4899" 100 "k + 48" 99] by simp_all
  have "y mod 400 = 100 * (k mod 4)" unfolding k using mod_mult_mult1 [of 100 k 4] by simp
  then have "leap y \<longleftrightarrow> k mod 4 = 0" using k by (auto simp: leap_def)
  moreover have "(y + 4800) div 4 = (y + 4799) div 4 + 1" unfolding k by presburger
  moreover have "3 * (k + 49) div 4 = 3 * (k + 48) div 4 + (if k mod 4 = 0 then 0 else 1)" by presburger
  ultimately show ?thesis unfolding days_before_year c by simp
next
  case False
  then have "leap y \<longleftrightarrow> y mod 4 = 0" by (auto simp: leap_def)
  moreover have "(y + 4800) div 4 = (y + 4799) div 4 + (if y mod 4 = 0 then 1 else 0)" by presburger
  moreover have "(y + 4900) div 100 = (y + 4899) div 100"
    using False div_mod_succ(1) [of 100 "y + 4899"] by (simp add: century_end)
  ultimately show ?thesis unfolding days_before_year by simp
qed

lemma julian_month_end:
  assumes "1 \<le> y" "1 \<le> m" "m \<le> 12" "m \<noteq> 2"
  shows "julian (Date_set (if m = 12 then y + 1 else y) (if m = 12 then 1 else m + 1) 1)
    = julian (Date_set y m (month_days y m)) + 1"
proof -
  let ?m = "if m = 12 then 1 else m + 1" and ?y = "if m = 12 then y + 1 else y"
  have s: "march_year ?y ?m = march_year y m"
    "367 * march_month ?m div 12 = 367 * march_month m div 12 + month_days y m" "1 \<le> ?m" "?m \<le> 12" "1 \<le> ?y"
    "1 \<le> month_days y m" "month_days y m \<le> 31"
    using assms(2-4)
    by (elim month_cases; use assms(1) in \<open>simp add: march_year_def march_month_def month_days_def\<close>)+
  show ?thesis
    using s(3-7) assms(1-3) by (simp only: Date_set_julian s(1,2))
qed

lemma julian_february_end:
  assumes "1 \<le> y"
  shows "julian (Date_set y 3 1) = julian (Date_set y 2 (month_days y 2)) + 1"
proof -
  define P Q R S where "P = 1461 * (y + 4800) div 4" and "Q = 3 * ((y + 4900) div 100) div 4"
    and "R = 1461 * (y + 4799) div 4" and "S = 3 * ((y + 4899) div 100) div 4"
  have "julian (Date_set y 3 1) = 1 - 32075 + P + 30 - Q"
    using assms by (simp add: Date_set_julian march_year_def march_month_def P_def Q_def)
  moreover have "julian (Date_set y 2 d) = d - 32075 + R + 367 - S" if "1 \<le> d" "d \<le> 31" for d
    using assms that by (simp add: Date_set_julian march_year_def march_month_def R_def S_def add.commute)
  moreover have "P - Q = R - S + (if leap y then 366 else 365)"
    unfolding P_def Q_def R_def S_def by (rule leap_step)
  ultimately show ?thesis by (simp add: month_days_def)
qed

lemma julian_next_day:
  assumes "valid_date y m d" "next_day (y, m, d) = (y', m', d')"
  shows "julian (Date_set y' m' d') = julian (Date_set y m d) + 1" "valid_date y' m' d'"
proof -
  show v: "valid_date y' m' d'"
    using assms by (auto simp: valid_date_def next_day_def month_days_def split: if_splits)
  show "julian (Date_set y' m' d') = julian (Date_set y m d) + 1"
  proof (cases "d < month_days y m")
    case True
    moreover have "month_days y m \<le> 31" by (simp add: month_days_def)
    ultimately show ?thesis using assms by (auto simp: valid_date_def next_day_def Date_set_julian)
  next
    case False
    then have "d = month_days y m" using assms(1) by (simp add: valid_date_def)
    then show ?thesis
      using assms julian_month_end [of y m] julian_february_end [of y]
      by (cases "m = 2") (auto simp: valid_date_def next_day_def split: if_splits)
  qed
qed

section \<open>Text fields\<close>

definition digits :: "nat \<Rightarrow> int \<Rightarrow> cstr" where
  "digits n v = znumber_digits v (10 ^ (n - 1))"

lemma digits_length [simp]: "0 < n \<Longrightarrow> length (digits n v) = n"
  by (simp add: digits_def znumber_length)

lemma field_set_digits:
  "\<lbrakk>0 \<le> v; 0 < n; off + n \<le> length b\<rbrakk> \<Longrightarrow>
     field_set off n v b = Some (take off b @ digits n v @ drop (off + n) b)"
  by (simp add: field_set_def ZNumber_set_def put_over_def digits_def znumber_length add.commute)

lemma digits_get:
  assumes "0 \<le> v" "v < 10 ^ n" "0 < n"
  shows "Number_get n (digits n v @ r) = v"
proof -
  obtain k where k: "n = Suc k" using assms(3) by (cases n) auto
  have "isdig (cchar (digits n v @ r) 0)" using assms k by (simp add: digits_def znumber_first)
  then show ?thesis using get_znumber [of v k 0 0 r] assms k by (simp add: get_nosign digits_def)
qed

lemma digits_atol:
  assumes "0 \<le> v" "v < 10 ^ n" "0 < n" "r = [] \<or> \<not> isdig (hd r)"
  shows "atol (digits n v @ r) = v"
proof -
  obtain k where k: "n = Suc k" using assms(3) by (cases n) auto
  have f: "isdig (cchar (digits n v @ r) 0)" using assms k by (simp add: digits_def znumber_first)
  moreover obtain c cs where c: "digits n v @ r = c # cs" using assms(3) digits_length [of n v] by (cases "digits n v") auto
  ultimately have "dropWhile (\<lambda>c. (of_char c :: int) = 32 \<or> 9 \<le> (of_char c :: int) \<and> (of_char c :: int) \<le> 13)
      (digits n v @ r) = digits n v @ r" by (auto simp: isdig_def cchar_def)
  moreover have "get_digits (length r) v r = v" using assms(4) by (cases r) (auto simp: cchar_def)
  ultimately show ?thesis
    using get_znumber [of v k "length r" 0 r] assms k get_nosign [of "digits n v @ r" "n + length r"] f
    by (simp add: atol_def digits_def znumber_length)
qed

lemma Date_put_valid:
  assumes "valid_date y m d" "y \<le> 9999" "11 \<le> length b"
  shows "Date_put (Date_set y m d) b =
    Some (digits 4 y @ ''-'' @ digits 2 m @ ''-'' @ digits 2 d @ [CHR 0x00] @ drop 11 b)"
proof -
  have "date_civil (julian (Date_set y m d)) = (y, m, d)"
    using assms civil_int_set double_civil julian_bounds by simp
  moreover have "0 \<le> y" "0 \<le> m" "0 \<le> d" using assms(1) by (auto simp: valid_date_def)
  moreover have "take 4 (digits 4 y) = digits 4 y" "drop 4 (digits 4 y) = []" "take 2 (digits 2 m) = digits 2 m"
    "drop 2 (digits 2 m) = []" "take 2 (digits 2 d) = digits 2 d" "drop 2 (digits 2 d) = []" by simp_all
  moreover obtain b0 b1 b2 b3 b4 b5 b6 b7 b8 b9 b10 bs
    where "b = b0 # b1 # b2 # b3 # b4 # b5 # b6 # b7 # b8 # b9 # b10 # bs"
    using assms(3) by (auto simp: Suc_le_length_iff numeral_eq_Suc)
  ultimately show ?thesis
    by (simp add: Date_put_def field_set_digits list_update_append take_Cons' drop_Cons')
qed

lemma Time_put_valid:
  assumes "0 \<le> seconds t" "seconds t < 86400" "9 \<le> length b"
  shows "Time_put t b =
    Some (digits 2 (seconds t div 3600) @ '':'' @ digits 2 (seconds t div 60 mod 60) @ '':''
      @ digits 2 (seconds t mod 60) @ [CHR 0x00] @ drop 9 b)"
proof -
  define h mi se where "h = seconds t div 3600" and "mi = seconds t div 60 mod 60" and "se = seconds t mod 60"
  have s: "seconds t = 3600 * h + 60 * mi + se"
  proof -
    have "seconds t = 60 * (seconds t div 60) + se" unfolding se_def by (rule mult_div_mod_eq [symmetric])
    also have "seconds t div 60 = 60 * (seconds t div 60 div 60) + mi" unfolding mi_def by (rule mult_div_mod_eq [symmetric])
    also have "seconds t div 60 div 60 = h" using zdiv_zmult2_eq [of 60 "seconds t" 60] by (simp add: h_def)
    finally show ?thesis by simp
  qed
  have r: "0 \<le> h" "h < 24" "0 \<le> mi" "mi < 60" "0 \<le> se" "se < 60"
    using assms by (auto simp: h_def mi_def se_def pos_imp_zdiv_nonneg_iff)
  have c: "cmod (cdiv (seconds t) 3600) 24 = h" "cdiv (seconds t - 3600 * h) 60 = mi"
    "seconds t - 3600 * h - 60 * mi = se"
    using assms(1) r s by (simp_all add: h_def [symmetric] cdiv_nonneg cmod_nonneg)
  have g: "Number_get 2 (digits 2 h @ x) = h" "Number_get 2 (digits 2 mi @ x) = mi" for x
    using r by (simp_all add: digits_get)
  have d: "take 2 (digits 2 v) = digits 2 v" "drop 2 (digits 2 v) = []" for v by simp_all
  obtain b0 b1 b2 b3 b4 b5 b6 b7 b8 bs where "b = b0 # b1 # b2 # b3 # b4 # b5 # b6 # b7 # b8 # bs"
    using assms(3) by (auto simp: Suc_le_length_iff numeral_eq_Suc)
  then show ?thesis
    using r by (simp add: Time_put_def c g d field_set_digits list_update_append take_Cons' drop_Cons' Let_def
        h_def [symmetric] mi_def [symmetric] se_def [symmetric])
qed

lemma julian_first: "valid_date y m d \<Longrightarrow> julian (Date_set y m d) = julian (Date_set y m 1) + d - 1"
  by (auto simp: valid_date_def month_days_def Date_set_julian split: if_splits)

text \<open>Months counted through the years; the first day of a later month has a larger number.\<close>

definition month_start :: "int \<Rightarrow> int" where
  "month_start i = julian (Date_set (i div 12) (i mod 12 + 1) 1)"

lemma month_start_step:
  assumes "12 \<le> i"
  shows "month_start (i + 1) = month_start i + month_days (i div 12) (i mod 12 + 1)"
proof -
  define y m where "y = i div 12" and "m = i mod 12 + 1"
  have ym: "1 \<le> y" "1 \<le> m" "m \<le> 12" using assms unfolding y_def m_def by linarith+
  have n: "(i + 1) div 12 = (if m = 12 then y + 1 else y)" "(i + 1) mod 12 + 1 = (if m = 12 then 1 else m + 1)"
    unfolding y_def m_def using div_mod_succ [of 12 i] by auto
  have "valid_date y m (month_days y m)" using ym by (simp add: valid_date_def month_days_def)
  from julian_first [OF this] have "julian (Date_set y m (month_days y m)) = month_start i + month_days y m - 1"
    by (simp add: month_start_def y_def m_def)
  then show ?thesis
    using julian_month_end [OF ym] julian_february_end [OF ym(1)]
    by (cases "m = 2") (simp_all add: month_start_def n flip: y_def m_def)
qed

lemma month_start_mono:
  assumes "12 \<le> i" "i < k"
  shows "month_start i + month_days (i div 12) (i mod 12 + 1) \<le> month_start k"
  using assms(2)
proof (induction k rule: int_gr_induct)
  case base
  then show ?case using month_start_step [OF assms(1)] by simp
next
  case (step k)
  then show ?case using month_start_step [of k] assms(1) by (simp add: month_days_def)
qed

lemma julian_less:
  assumes "valid_date y m d" "valid_date y' m' d'" "12 * y + m < 12 * y' + m'"
  shows "julian (Date_set y m d) < julian (Date_set y' m' d')"
proof -
  have "(12 * y + m - 1) div 12 = y \<and> (12 * y + m - 1) mod 12 + 1 = m" if "1 \<le> m" "m \<le> 12" for y m :: int
    using that by presburger
  then have "julian (Date_set y m 1) + month_days y m \<le> julian (Date_set y' m' 1)"
    using month_start_mono [of "12 * y + m - 1" "12 * y' + m' - 1"] assms
    by (auto simp: month_start_def valid_date_def)
  moreover have "d \<le> month_days y m" "1 \<le> d'" using assms by (simp_all add: valid_date_def)
  ultimately show ?thesis unfolding julian_first [OF assms(1)] julian_first [OF assms(2)] by linarith
qed

lemma julian_order:
  assumes "valid_date y m d" "valid_date y' m' d'"
  shows "julian (Date_set y m d) < julian (Date_set y' m' d') \<longleftrightarrow> y < y' \<or> y = y' \<and> (m < m' \<or> m = m' \<and> d < d')"
proof -
  consider "12 * y + m < 12 * y' + m'" | "12 * y' + m' < 12 * y + m" | "12 * y + m = 12 * y' + m'" by linarith
  then show ?thesis
  proof cases
    case 1
    then show ?thesis using julian_less [OF assms 1] assms by (auto simp: valid_date_def)
  next
    case 2
    then show ?thesis using julian_less [OF assms(2,1) 2] assms by (auto simp: valid_date_def)
  next
    case 3
    then have "y = y'" "m = m'" using assms unfolding valid_date_def by presburger+
    then show ?thesis using assms julian_first by auto
  qed
qed

section \<open>Properties\<close>

text \<open>The text of a date, \<open>YYYY-MM-DD\<close>, and of a time, \<open>HH:MM:SS\<close>.\<close>

definition date_text :: "int \<Rightarrow> int \<Rightarrow> int \<Rightarrow> cstr" where
  "date_text y m d = digits 4 y @ ''-'' @ digits 2 m @ ''-'' @ digits 2 d"

definition time_text :: "int \<Rightarrow> int \<Rightarrow> int \<Rightarrow> cstr" where
  "time_text h m s = digits 2 h @ '':'' @ digits 2 m @ '':'' @ digits 2 s"

lemma date_fields:
  assumes "valid_date y m d" "y \<le> 9999"
  shows "Number_get 4 (date_text y m d @ r) = y" "Number_get 2 (drop 5 (date_text y m d @ r)) = m"
    "Number_get 2 (drop 8 (date_text y m d @ r)) = d"
    "\<not> isdig (cchar r 0) \<Longrightarrow> atol (date_text y m d @ r) = y \<and> atol (drop 5 (date_text y m d @ r)) = m
       \<and> atol (drop 8 (date_text y m d @ r)) = d"
proof -
  have b: "0 \<le> y" "y < 10 ^ 4" "0 \<le> m" "m < 10 ^ 2" "0 \<le> d" "d < 10 ^ 2"
    using assms by (auto simp: valid_date_def month_days_def split: if_splits)
  have p: "drop 5 (date_text y m d @ r) = digits 2 m @ ''-'' @ digits 2 d @ r"
    "drop 8 (date_text y m d @ r) = digits 2 d @ r"
    by (simp_all add: date_text_def drop_Cons')
  show "Number_get 4 (date_text y m d @ r) = y"
    using digits_get [of y 4] b by (simp add: date_text_def)
  show "Number_get 2 (drop 5 (date_text y m d @ r)) = m" "Number_get 2 (drop 8 (date_text y m d @ r)) = d"
    unfolding p using digits_get [of m 2] digits_get [of d 2] b by simp_all
  assume "\<not> isdig (cchar r 0)"
  then have "r = [] \<or> \<not> isdig (hd r)" by (cases r) (simp_all add: cchar_def)
  then show "atol (date_text y m d @ r) = y \<and> atol (drop 5 (date_text y m d @ r)) = m
       \<and> atol (drop 8 (date_text y m d @ r)) = d"
    unfolding p using digits_atol [of y 4] digits_atol [of m 2] digits_atol [of d 2 r] b by (simp add: date_text_def)
qed

lemma time_seconds:
  assumes "0 \<le> h" "h < 24" "0 \<le> m" "m < 60" "0 \<le> s" "s < 60"
  defines "t \<equiv> seconds (Time_set h m s)"
  shows "0 \<le> t" "t < 86400" "t div 3600 = h" "t div 60 mod 60 = m" "t mod 60 = s"
proof -
  have "t = 3600 * h + (60 * m + s)" "t = 60 * (60 * h + m) + s" using assms by (simp_all add: t_def Time_set_def)
  then show "0 \<le> t" "t < 86400" "t div 3600 = h" "t div 60 mod 60 = m" "t mod 60 = s"
    using int_div_pos_eq [of t 3600 h "60 * m + s"] int_div_pos_eq [of t 60 "60 * h + m" s]
      int_mod_pos_eq [of t 60 "60 * h + m" s] assms by (simp_all add: mod_mult_self4)
qed

lemma time_fields:
  assumes "0 \<le> h" "h < 24" "0 \<le> m" "m < 60" "0 \<le> s" "s < 60"
  shows "Number_get 2 (time_text h m s @ r) = h" "Number_get 2 (drop 3 (time_text h m s @ r)) = m"
    "Number_get 2 (drop 6 (time_text h m s @ r)) = s" "length (time_text h m s) = 8"
proof -
  have g: "Number_get 2 (digits 2 v @ r) = v" if "0 \<le> v" "v < 60" for v r using digits_get [of v 2 r] that by simp
  show "Number_get 2 (time_text h m s @ r) = h" "Number_get 2 (drop 3 (time_text h m s @ r)) = m"
    "Number_get 2 (drop 6 (time_text h m s @ r)) = s" "length (time_text h m s) = 8"
    using g [of h] g [of m] g [of s r] assms by (simp_all add: time_text_def drop_Cons')
qed

lemma time_put_text:
  assumes "0 \<le> h" "h < 24" "0 \<le> m" "m < 60" "0 \<le> s" "s < 60" "9 \<le> length b"
  shows "Time_put (Time_set h m s) b = Some (time_text h m s @ [CHR 0x00] @ drop 9 b)"
  using Time_put_valid [of "Time_set h m s" b] time_seconds [OF assms(1-6)] assms(7) by (simp add: time_text_def)

lemma date_put_text:
  assumes "valid_date y m d" "y \<le> 9999" "11 \<le> length b"
  shows "Date_put (Date_set y m d) b = Some (date_text y m d @ [CHR 0x00] @ drop 11 b)"
  using Date_put_valid [OF assms] by (simp add: date_text_def)

text \<open>What \<open>DateTime::get\<close> reads for the minutes and the seconds.\<close>

lemma time_wrong_fields:
  assumes "0 \<le> m" "m < 60"
  shows "Number_get 2 (drop 2 (time_text h m s @ r)) = 0" "Number_get 2 (drop 4 (time_text h m s @ r)) = m mod 10"
proof -
  have d: "digits 2 m = [char_of (48 + m div 10), char_of (48 + m mod 10)]"
    using znumber_step [of m 0] by (simp add: digits_def znumber_last)
  have p: "drop 2 (time_text h m s @ r) = CHR '':'' # digits 2 m @ '':'' @ digits 2 s @ r"
    "drop 4 (time_text h m s @ r) = char_of (48 + m mod 10) # '':'' @ digits 2 s @ r"
    by (simp_all add: time_text_def d)
  show "Number_get 2 (drop 2 (time_text h m s @ r)) = 0"
    unfolding p by (simp add: Number_get_def cchar_def numeral_2_eq_2)
  have "0 \<le> m mod 10" "m mod 10 \<le> 9" by simp_all
  then show "Number_get 2 (drop 4 (time_text h m s @ r)) = m mod 10"
    unfolding p by (subst get_nosign) (simp_all add: cchar_def numeral_2_eq_2 of_char_digit)
qed

text \<open>
  C6: Every Gregorian date of the years 1 to 9999 survives the way through the day number:
  \<open>put\<close>, which computes in \<open>double\<close>, prints it as \<open>YYYY-MM-DD\<close> and touches nothing
  behind its eleven characters; \<open>year\<close>, \<open>month\<close>, \<open>day\<close> and \<open>get\<close> return its parts, and
  parsing the text gives the same date again.
\<close>

theorem Date_roundtrip:
  assumes "valid_date y m d" and "y \<le> 9999" and "11 \<le> length b"
  shows "Date_put (Date_set y m d) b = Some (date_text y m d @ [CHR 0x00] @ drop 11 b)
    \<and> Date_year (Date_set y m d) = Some y \<and> Date_month (Date_set y m d) = Some m
    \<and> Date_day (Date_set y m d) = Some d \<and> Date_get (Date_set y m d) = Some (y * 10000 + m * 100 + d)
    \<and> Date_set_str now (date_text y m d) 0 = Date_set y m d
    \<and> Date_is_valid (Date_set y m d)"
proof -
  note put = date_put_text [OF assms(1,2)]
  have buf: "date_buf (Date_set y m d) = Some (date_text y m d @ [CHR 0x00])"
    using put [of "replicate 11 (CHR 0x00)"] by (simp add: date_buf_def)
  note f = date_fields [OF assms(1,2), of "[CHR 0x00]"] date_fields [OF assms(1,2), of "[]"]
  have "length (date_text y m d) = 10" by (simp add: date_text_def)
  then have "Date_set_str now (date_text y m d) 0 = Date_set y m d"
    using f by (simp add: Date_set_str_def Let_def)
  moreover have "Date_is_valid (Date_set y m d)"
    using julian_bounds [OF assms(1,2)] by (simp add: Date_is_valid_def)
  ultimately show ?thesis
    using put [OF assms(3)] f
    by (simp add: Date_year_def Date_month_def Date_day_def Date_get_def buf cchar_def)
qed

theorem Date_roundtrip_witness:
  "valid_date 2000 2 29 \<and> Date_year (Date_set 2000 2 29) = Some 2000 \<and> Date_month (Date_set 2000 2 29) = Some 2
    \<and> Date_day (Date_set 2000 2 29) = Some 29 \<and> Date_get (Date_set 2000 2 29) = Some 20000229"
  using Date_roundtrip [of 2000 2 29 "replicate 11 (CHR 0x00)"]
  by (simp add: valid_date_def month_days_def leap_def)

lemma dow_nonneg: "0 \<le> julian d \<Longrightarrow> Date_dow d = (julian d + 1) mod 7"
proof -
  assume "0 \<le> julian d"
  moreover have "0 \<le> (julian d + 1) mod 7" "(julian d + 1) mod 7 < 7" by simp_all
  ultimately show ?thesis unfolding Date_dow_def by (simp add: cmod_nonneg mod_pos_pos_trivial)
qed

text \<open>
  C27: The day number is the calendar: the day after a date has the next number and the
  next day of the week, 1 January 2000 is a Saturday (6), and the comparison operators
  order dates by year, month and day.
\<close>

theorem Date_calendar:
  assumes "valid_date y m d" and "valid_date y' m' d'"
  shows "(case next_day (y, m, d) of (a, b, c) \<Rightarrow> Date_set a b c) = Date_inc (Date_set y m d)
    \<and> Date_dow (Date_inc (Date_set y m d)) = (Date_dow (Date_set y m d) + 1) mod 7
    \<and> Date_dow (Date_set 2000 1 1) = 6
    \<and> (Date_lt (Date_set y m d) (Date_set y' m' d') \<longleftrightarrow> y < y' \<or> y = y' \<and> (m < m' \<or> m = m' \<and> d < d'))
    \<and> (Date_eq (Date_set y m d) (Date_set y' m' d') \<longleftrightarrow> (y, m, d) = (y', m', d'))"
proof -
  obtain a b c where n: "next_day (y, m, d) = (a, b, c)" by (metis prod_cases3)
  have "Date_set a b c = Date_inc (Date_set y m d)"
    using julian_next_day(1) [OF assms(1) n] by (cases "Date_set a b c"; cases "Date_set y m d") (simp add: Date_inc_def)
  moreover have "0 \<le> julian (Date_set y m d)" using assms(1) by (rule julian_nonneg)
  then have "Date_dow (Date_inc (Date_set y m d)) = (Date_dow (Date_set y m d) + 1) mod 7"
    by (simp add: dow_nonneg Date_inc_def mod_add_left_eq)
  moreover have "Date_dow (Date_set 2000 1 1) = 6" by (simp add: Date_dow_def Date_set_def cdiv_def cmod_def)
  moreover have "Date_eq (Date_set y m d) (Date_set y' m' d') \<longleftrightarrow> (y, m, d) = (y', m', d')"
    using civil_int_set [OF assms(1)] civil_int_set [OF assms(2)] unfolding Date_eq_def by (metis prod.inject)
  ultimately show ?thesis using n julian_order [OF assms] by (simp add: Date_lt_def)
qed

theorem Date_calendar_witness:
  "Date_set 2000 3 1 = Date_inc (Date_set 2000 2 29) \<and> Date_lt (Date_set 1999 12 31) (Date_set 2000 2 29)"
  using Date_calendar [of 2000 2 29 1999 12 31] Date_calendar [of 1999 12 31 2000 2 29]
  by (simp add: valid_date_def month_days_def leap_def next_day_def)

text \<open>
  Every time of day survives the way through the seconds: \<open>hour\<close>, \<open>minute\<close> and
  \<open>second\<close> return its parts, \<open>put\<close> prints it as \<open>HH:MM:SS\<close>, and parsing that text, or
  the text without the seconds, gives the time again. A part beyond its upper bound makes
  the time invalid.
\<close>

theorem Time_roundtrip:
  assumes "0 \<le> h" "h < 24" "0 \<le> m" "m < 60" "0 \<le> s" "s < 60" "9 \<le> length b"
  shows "Time_put (Time_set h m s) b = Some (time_text h m s @ [CHR 0x00] @ drop 9 b)
    \<and> Time_hour (Time_set h m s) = h \<and> Time_minute (Time_set h m s) = m \<and> Time_second (Time_set h m s) = s
    \<and> Time_set_str (time_text h m s) 0 = Time_set h m s \<and> Time_set_str (time_text h m s) 5 = Time_set h m 0
    \<and> Time_is_valid (Time_set h m s) \<and> \<not> Time_is_valid (Time_set (h + 24) m s)
    \<and> \<not> Time_is_valid (Time_set h (m + 60) s) \<and> \<not> Time_is_valid (Time_set h m (s + 60))"
proof -
  note t = time_seconds [OF assms(1-6)]
  have "Time_set_str (time_text h m s) 0 = Time_set h m s" "Time_set_str (time_text h m s) 5 = Time_set h m 0"
    using time_fields(1-3) [OF assms(1-6), of "[]"] time_fields(4) [OF assms(1-6)] by (simp_all add: Time_set_str_def)
  moreover have "\<not> Time_is_valid (Time_set (h + 24) m s)" "\<not> Time_is_valid (Time_set h (m + 60) s)"
    "\<not> Time_is_valid (Time_set h m (s + 60))"
    using assms by (simp_all add: Time_is_valid_def Time_set_def)
  ultimately show ?thesis using t time_put_text [OF assms]
    by (simp add: Time_hour_def Time_minute_def Time_second_def Time_is_valid_def cdiv_nonneg cmod_nonneg pos_imp_zdiv_nonneg_iff)
qed

theorem Time_roundtrip_witness:
  "Time_minute (Time_set 23 59 58) = 59 \<and> Time_set_str (time_text 23 59 58) 0 = Time_set 23 59 58"
  using Time_roundtrip [of 23 59 58 "replicate 9 (CHR 0x00)"] by simp

text \<open>
  Adding to a time of day wraps around at midnight, and so does the difference of two
  times; subtracting does not: going below midnight by \<open>k\<close> seconds gives \<open>k\<close> seconds after
  midnight instead of \<open>k\<close> seconds before it.
\<close>

theorem Time_arithmetic:
  assumes "0 \<le> seconds t" "seconds t < 86400" "0 \<le> v"
  shows "seconds (Time_add t v) = (seconds t + v) mod 86400
    \<and> seconds (Time_inc t) = (seconds t + 1) mod 86400
    \<and> Time_diff (Time_add t v) t = v mod 86400
    \<and> seconds (Time_sub t v) =
        (if v \<le> seconds t then seconds t - v else (v - seconds t) mod 86400)"
proof -
  have add: "seconds (Time_add t v) = (seconds t + v) mod 86400"
    using assms by (simp add: Time_add_def Time_update_def c_day_def cmod_nonneg)
  have "Time_diff (Time_add t v) t = ((seconds t + v) mod 86400 - seconds t) mod 86400"
  proof -
    define x where "x = (seconds t + v) mod 86400"
    have "0 \<le> x" "x < 86400" by (simp_all add: x_def)
    then have "(if x < seconds t then x + 86400 - seconds t else x - seconds t) = (x - seconds t) mod 86400"
      using assms mod_add_self2 [of "x - seconds t" 86400]
      by (auto simp: mod_pos_pos_trivial algebra_simps simp del: mod_add_self2)
    then show ?thesis unfolding Time_diff_def add x_def [symmetric] c_day_def .
  qed
  also have "\<dots> = v mod 86400" by (simp add: mod_diff_left_eq)
  finally have "Time_diff (Time_add t v) t = v mod 86400" .
  then show ?thesis using assms add
    by (auto simp: Time_sub_def Time_inc_def Time_update_def c_day_def cmod_nonneg cmod_neg mod_pos_pos_trivial)
qed

theorem Time_arithmetic_witness:
  "seconds (Time_add \<lparr>seconds = 86399\<rparr> 2) = 1 \<and> seconds (Time_sub \<lparr>seconds = 0\<rparr> 1) = 1"
  using Time_arithmetic [of "\<lparr>seconds = 86399\<rparr>" 2] Time_arithmetic [of "\<lparr>seconds = 0\<rparr>" 1] by simp

definition instant :: "DateTime \<Rightarrow> int" where
  "instant dt = julian (date dt) * 86400 + seconds (time dt)"

lemma instant_order:
  fixes s s' j j' :: int
  assumes "0 \<le> s" "s < 86400" "0 \<le> s'" "s' < 86400"
  shows "j * 86400 + s < j' * 86400 + s' \<longleftrightarrow> j < j' \<or> j = j' \<and> s < s'"
    and "j * 86400 + s = j' * 86400 + s' \<longleftrightarrow> j = j' \<and> s = s'"
    and "j * 86400 + s \<le> j' * 86400 + s' \<longleftrightarrow> j < j' \<or> j = j' \<and> s \<le> s'"
  using assms by (cases j j' rule: linorder_cases; simp; linarith)+

text \<open>
  Adding seconds to a \<open>DateTime\<close> moves the instant \<open>julian * 86400 + seconds\<close> forward
  by that many seconds, and \<open>operator-\<close> between two of them is the distance of their
  instants, by which the comparison operators order them. Subtracting moves back within the
  day; past midnight it leaves the instant at a wrong place, on the same or a later side.
\<close>

theorem DateTime_arithmetic:
  assumes "0 \<le> seconds (time a)" "seconds (time a) < 86400" "0 \<le> seconds (time b)" "seconds (time b) < 86400" "0 \<le> v"
  shows "instant (DateTime_add a v) = instant a + v
    \<and> seconds (time (DateTime_add a v)) = (seconds (time a) + v) mod 86400
    \<and> DateTime_diff (DateTime_add a v) a = v
    \<and> DateTime_diff a b = instant a - instant b
    \<and> (DateTime_lt a b \<longleftrightarrow> instant a < instant b) \<and> (DateTime_eq a b \<longleftrightarrow> instant a = instant b)
    \<and> (DateTime_le a b \<longleftrightarrow> instant a \<le> instant b)
    \<and> (v \<le> seconds (time a) \<longrightarrow> instant (DateTime_sub a v) = instant a - v)
    \<and> (seconds (time a) < v \<and> v - seconds (time a) < 86400 \<longrightarrow>
         instant (DateTime_sub a v) = instant a - v + 2 * (v - seconds (time a)))"
proof -
  define s where "s = seconds (time a) + v"
  have "0 \<le> s" using assms by (simp add: s_def)
  moreover have "s = 86400 * (s div 86400) + s mod 86400" by simp
  ultimately have add: "instant (DateTime_add a v) = instant a + v"
    "seconds (time (DateTime_add a v)) = (seconds (time a) + v) mod 86400"
    by (simp_all add: instant_def DateTime_add_def DateTime_update_def Date_add_def Time_update_def c_day_def
        cdiv_nonneg cmod_nonneg distrib_right flip: s_def)
  have diff: "DateTime_diff x y = instant x - instant y" for x y
    by (simp add: DateTime_diff_def instant_def c_day_def algebra_simps)
  have "instant (DateTime_sub a v) = instant a - v" if "v \<le> seconds (time a)"
    using that assms
    by (simp add: instant_def DateTime_sub_def DateTime_update_def Date_add_def Time_update_def c_day_def
        cdiv_nonneg cmod_nonneg mod_pos_pos_trivial div_pos_pos_trivial)
  moreover have "instant (DateTime_sub a v) = instant a - v + 2 * (v - seconds (time a))"
    if "seconds (time a) < v" "v - seconds (time a) < 86400"
    using that assms
    by (simp add: instant_def DateTime_sub_def DateTime_update_def Date_add_def Time_update_def c_day_def
        cdiv_neg cmod_neg mod_pos_pos_trivial div_pos_pos_trivial)
  moreover have "DateTime_lt a b \<longleftrightarrow> instant a < instant b" "DateTime_eq a b \<longleftrightarrow> instant a = instant b"
    "DateTime_le a b \<longleftrightarrow> instant a \<le> instant b"
    using instant_order [of "seconds (time a)" "seconds (time b)" "julian (date a)" "julian (date b)"] assms
    unfolding DateTime_lt_def DateTime_eq_def DateTime_le_def instant_def by auto
  ultimately show ?thesis using add diff by simp
qed

theorem DateTime_arithmetic_witness:
  "instant (DateTime_add \<lparr>date = \<lparr>julian = 2451545\<rparr>, time = \<lparr>seconds = 86399\<rparr>\<rparr> 1) = 2451546 * 86400
    \<and> instant (DateTime_sub \<lparr>date = \<lparr>julian = 2451545\<rparr>, time = \<lparr>seconds = 0\<rparr>\<rparr> 1) = 2451545 * 86400 + 1"
  using DateTime_arithmetic [of "\<lparr>date = \<lparr>julian = 2451545\<rparr>, time = \<lparr>seconds = 86399\<rparr>\<rparr>"
      "\<lparr>date = \<lparr>julian = 2451545\<rparr>, time = \<lparr>seconds = 0\<rparr>\<rparr>" 1]
    DateTime_arithmetic [of "\<lparr>date = \<lparr>julian = 2451545\<rparr>, time = \<lparr>seconds = 0\<rparr>\<rparr>"
      "\<lparr>date = \<lparr>julian = 2451545\<rparr>, time = \<lparr>seconds = 0\<rparr>\<rparr>" 1]
  by (simp add: instant_def)

text \<open>
  \<open>DateTime::put\<close> prints date and time, and the constructor from a string reads them
  back. \<open>DateTime::get\<close> does not: it takes minutes and seconds from the wrong places of the
  text, so that \<open>mktime\<close> is called with minute 0 and the last digit of the minute as second.
\<close>

theorem DateTime_text:
  assumes "valid_date y mo d" "y \<le> 9999" "0 \<le> h" "h < 24" "0 \<le> m" "m < 60" "0 \<le> s" "s < 60" "20 \<le> length b"
  shows "DateTime_put (DateTime_new y mo d h m s) b =
           Some (date_text y mo d @ '' '' @ time_text h m s @ [CHR 0x00] @ drop 20 b)
    \<and> DateTime_from_str now (date_text y mo d @ '' '' @ time_text h m s) 0 = DateTime_new y mo d h m s
    \<and> DateTime_get mktime (DateTime_new y mo d h m s) =
        Some (mktime \<lparr>tm_year = y - 1900, tm_mon = mo - 1, tm_mday = d, tm_hour = h, tm_min = 0,
                tm_sec = m mod 10, tm_isdst = -1\<rparr>)"
proof -
  define D T where "D = date_text y mo d" and "T = time_text h m s"
  note tf = time_fields(1-3) [OF assms(3-8)] and df = date_fields [OF assms(1,2)]
  have len: "length D = 10" "length T = 8" by (simp_all add: D_def T_def date_text_def time_text_def)
  have "Date_put (Date_set y mo d) b = Some (D @ [CHR 0x00] @ drop 11 b)"
    using date_put_text [OF assms(1,2), of b] assms(9) by (simp add: D_def)
  moreover have "Time_put (Time_set h m s) (drop 11 b) = Some (T @ [CHR 0x00] @ drop 20 b)"
    using time_put_text [OF assms(3-8), of "drop 11 b"] assms(9) by (simp add: T_def)
  ultimately have put: "DateTime_put (DateTime_new y mo d h m s) b = Some (D @ '' '' @ T @ [CHR 0x00] @ drop 20 b)"
    using len by (simp add: DateTime_put_def DateTime_new_def list_update_append)
  have "Date_set_str now (D @ '' '' @ T) 10 = Date_set y mo d" "Time_set_str T 8 = Time_set h m s"
    using df [of "'' '' @ T"] tf [of "[]"] by (simp_all add: Date_set_str_def Time_set_str_def D_def T_def Let_def)
  then have parse: "DateTime_from_str now (D @ '' '' @ T) 0 = DateTime_new y mo d h m s"
    using len by (simp add: DateTime_from_str_def DateTime_new_def)
  have db: "date_buf (Date_set y mo d) = Some (D @ [CHR 0x00])"
    using date_put_text [OF assms(1,2), of "replicate 11 (CHR 0x00)"] by (simp add: date_buf_def D_def)
  then have "Time_put (Time_set h m s) (D @ [CHR 0x00]) = Some (T @ [CHR 0x00] @ drop 9 (D @ [CHR 0x00]))"
    using time_put_text [OF assms(3-8), of "D @ [CHR 0x00]"] len by (simp add: T_def)
  then have "DateTime_get mktime (DateTime_new y mo d h m s) =
        Some (mktime \<lparr>tm_year = y - 1900, tm_mon = mo - 1, tm_mday = d, tm_hour = h, tm_min = 0,
                tm_sec = m mod 10, tm_isdst = -1\<rparr>)"
    using db df [of "[CHR 0x00]"] tf [of "[CHR 0x00] @ drop 9 (D @ [CHR 0x00])"]
      time_wrong_fields [OF assms(5,6), of h s "[CHR 0x00] @ drop 9 (D @ [CHR 0x00])"]
    by (simp add: DateTime_get_def DateTime_new_def D_def T_def)
  then show ?thesis using put parse by (simp add: D_def T_def)
qed

theorem DateTime_text_witness:
  "DateTime_get (\<lambda>tm. 3600 * tm_hour tm + 60 * tm_min tm + tm_sec tm) (DateTime_new 2024 5 17 12 34 56) =
     Some (3600 * 12 + 4)"
  using DateTime_text [of 2024 5 17 12 34 56 "replicate 20 (CHR 0x00)" _
      "\<lambda>tm. 3600 * tm_hour tm + 60 * tm_min tm + tm_sec tm"]
  by (simp add: valid_date_def month_days_def)

end
