(* ===== verification/Access.thy ===== *)
theory Access
  imports Prelude
begin

text \<open>
  The read/write lock \<open>ConditionalAccess\<close> of \<open>corelib/condition.cpp\<close>.

  The object is a monitor: a mutex, a condition variable for writers (\<open>waitSignal\<close>), one
  for readers (\<open>waitBroadcast\<close>) and three counters. Between taking the mutex and waiting or
  unlocking, an operation runs alone, so such a section is one step. A thread's program
  counter says where it is between sections; \<open>modify\<close> returns with the mutex held. As in
  POSIX, \<open>signal\<close> wakes one waiting writer, \<open>broadcast\<close> all waiting readers, and any
  waiting thread may wake up without cause. Threads call \<open>commit\<close> after \<open>modify\<close> and
  \<open>release\<close> after \<open>access\<close>, so the counters, at most the number of threads, do not wrap.
\<close>

section \<open>State and operations\<close>

datatype apc = Idle | WaitSig | WokenSig | Exclusive | WaitBcast | WokenBcast | Sharing

record access_state =
  sharing :: nat
  pending :: nat
  waiting :: nat
  mutex :: "nat option"
  pcs :: "apc list"

definition ConditionalAccess_new :: "nat \<Rightarrow> access_state" where
  "ConditionalAccess_new n =
     \<lparr>sharing = 0, pending = 0, waiting = 0, mutex = None, pcs = replicate n Idle\<rparr>"

abbreviation goto :: "nat \<Rightarrow> apc \<Rightarrow> access_state \<Rightarrow> access_state" where
  "goto t p s \<equiv> s\<lparr>pcs := (pcs s)[t := p]\<rparr>"

text \<open>\<open>signal()\<close>: the possible outcomes.\<close>

definition signal :: "access_state \<Rightarrow> access_state list" where
  "signal s = map (\<lambda>ps. s\<lparr>pcs := ps\<rparr>) (wake_one (\<lambda>p. p = WaitSig) (\<lambda>p. WokenSig) (pcs s))"

definition broadcast :: "access_state \<Rightarrow> access_state" where
  "broadcast s = s\<lparr>pcs := map (\<lambda>p. if p = WaitBcast then WokenBcast else p) (pcs s)\<rparr>"

text \<open>The loop of \<open>modify\<close>, from the test of \<open>sharing\<close> with the mutex held.\<close>

definition modify_loop :: "nat \<Rightarrow> access_state \<Rightarrow> access_state" where
  "modify_loop t s =
     (if sharing s \<noteq> 0 then goto t WaitSig (s\<lparr>pending := pending s + 1, mutex := None\<rparr>)
      else goto t Exclusive (s\<lparr>mutex := Some t\<rparr>))"

definition ConditionalAccess_modify :: "nat \<Rightarrow> access_state \<Rightarrow> access_state" where
  "ConditionalAccess_modify t s = modify_loop t s"

text \<open>Returning from \<open>waitSignal\<close>.\<close>

definition modify_resume :: "nat \<Rightarrow> access_state \<Rightarrow> access_state" where
  "modify_resume t s = modify_loop t (s\<lparr>pending := pending s - 1\<rparr>)"

definition ConditionalAccess_commit :: "nat \<Rightarrow> access_state \<Rightarrow> access_state list" where
  "ConditionalAccess_commit t s =
     map (\<lambda>s. goto t Idle (s\<lparr>mutex := None\<rparr>))
       (if pending s \<noteq> 0 then signal s
        else if waiting s \<noteq> 0 then [broadcast s]
        else [s])"

definition access_loop :: "nat \<Rightarrow> access_state \<Rightarrow> access_state" where
  "access_loop t s =
     (if pending s \<noteq> 0 then goto t WaitBcast (s\<lparr>waiting := waiting s + 1\<rparr>)
      else goto t Sharing (s\<lparr>sharing := sharing s + 1\<rparr>))"

definition ConditionalAccess_access :: "nat \<Rightarrow> access_state \<Rightarrow> access_state" where
  "ConditionalAccess_access t s = access_loop t s"

definition access_resume :: "nat \<Rightarrow> access_state \<Rightarrow> access_state" where
  "access_resume t s = access_loop t (s\<lparr>waiting := waiting s - 1\<rparr>)"

definition ConditionalAccess_release :: "nat \<Rightarrow> access_state \<Rightarrow> access_state list" where
  "ConditionalAccess_release t s =
     (let s = s\<lparr>sharing := sharing s - 1\<rparr>
      in map (goto t Idle)
           (if pending s \<noteq> 0 \<and> sharing s = 0 then signal s
            else if waiting s \<noteq> 0 \<and> pending s = 0 then [broadcast s]
            else [s]))"

section \<open>Steps\<close>

abbreviation at :: "access_state \<Rightarrow> nat \<Rightarrow> apc \<Rightarrow> bool" where
  "at s t p \<equiv> t < length (pcs s) \<and> pcs s ! t = p"

inductive access_step :: "access_state \<Rightarrow> access_state \<Rightarrow> bool" where
  modify: "at s t Idle \<Longrightarrow> mutex s = None \<Longrightarrow> access_step s (ConditionalAccess_modify t s)"
| modify_wake: "at s t WokenSig \<Longrightarrow> mutex s = None \<Longrightarrow> access_step s (modify_resume t s)"
| commit: "at s t Exclusive \<Longrightarrow> s' \<in> set (ConditionalAccess_commit t s) \<Longrightarrow> access_step s s'"
| access: "at s t Idle \<Longrightarrow> mutex s = None \<Longrightarrow> access_step s (ConditionalAccess_access t s)"
| access_wake: "at s t WokenBcast \<Longrightarrow> mutex s = None \<Longrightarrow> access_step s (access_resume t s)"
| release: "at s t Sharing \<Longrightarrow> mutex s = None \<Longrightarrow> s' \<in> set (ConditionalAccess_release t s) \<Longrightarrow>
    access_step s s'"
| spurious_signal: "at s t WaitSig \<Longrightarrow> access_step s (goto t WokenSig s)"
| spurious_broadcast: "at s t WaitBcast \<Longrightarrow> access_step s (goto t WokenBcast s)"

inductive_cases access_stepE: "access_step s t"

definition access_init :: "access_state \<Rightarrow> bool" where
  "access_init s \<longleftrightarrow> (\<exists>n. s = ConditionalAccess_new n)"

section \<open>The invariant\<close>

definition counted :: "access_state \<Rightarrow> bool" where
  "counted s \<longleftrightarrow>
     sharing s = count_list (pcs s) Sharing
     \<and> pending s = count_list (pcs s) WaitSig + count_list (pcs s) WokenSig
     \<and> waiting s = count_list (pcs s) WaitBcast + count_list (pcs s) WokenBcast"

definition exclusion :: "access_state \<Rightarrow> bool" where
  "exclusion s \<longleftrightarrow>
     (\<forall>t < length (pcs s). pcs s ! t = Exclusive \<longleftrightarrow> mutex s = Some t)
     \<and> (\<forall>t. mutex s = Some t \<longrightarrow> t < length (pcs s) \<and> sharing s = 0)"

text \<open>A free lock with waiting writers has one on its way; without writers no reader sleeps.\<close>

definition awake :: "access_state \<Rightarrow> bool" where
  "awake s \<longleftrightarrow>
     (mutex s = None \<and> pending s \<noteq> 0 \<and> sharing s = 0 \<longrightarrow> WokenSig \<in> set (pcs s))
     \<and> (mutex s = None \<and> pending s = 0 \<longrightarrow> WaitBcast \<notin> set (pcs s))"

definition access_inv :: "access_state \<Rightarrow> bool" where
  "access_inv s \<longleftrightarrow> counted s \<and> exclusion s \<and> awake s"

lemma at_in_set: "at s t p \<Longrightarrow> p \<in> set (pcs s)"
  by auto

lemma count_pos: "at s t p \<Longrightarrow> 0 < count_list (pcs s) p"
  by (metis count_list_0_iff gr0I nth_mem)

lemma access_signal_cases:
  assumes "s' \<in> set (signal s)"
  obtains "WaitSig \<notin> set (pcs s)" "s' = s" | u where "at s u WaitSig" "s' = goto u WokenSig s"
proof -
  obtain ps where ps: "ps \<in> set (wake_one (\<lambda>p. p = WaitSig) (\<lambda>p. WokenSig) (pcs s))" "s' = s\<lparr>pcs := ps\<rparr>"
    using assms by (auto simp: signal_def)
  from ps(1) show thesis
    by (cases rule: wake_one_cases) (use that ps(2) in auto)
qed

text \<open>What \<open>signal\<close> and \<open>broadcast\<close> change, in the counts.\<close>

lemma signal_frame:
  assumes "s' \<in> set (signal s)"
  shows "sharing s' = sharing s" "pending s' = pending s" "waiting s' = waiting s" "mutex s' = mutex s"
    "length (pcs s') = length (pcs s)"
    "pcs s ! t \<noteq> WaitSig \<Longrightarrow> pcs s' ! t = pcs s ! t"
    "p \<notin> {WaitSig, WokenSig} \<Longrightarrow> count_list (pcs s') p = count_list (pcs s) p"
    "p \<notin> {WaitSig, WokenSig} \<Longrightarrow> pcs s' ! t = p \<longleftrightarrow> pcs s ! t = p"
    "count_list (pcs s') WaitSig + count_list (pcs s') WokenSig = count_list (pcs s) WaitSig + count_list (pcs s) WokenSig"
proof -
  note c = access_signal_cases [OF assms]
  show "sharing s' = sharing s" "pending s' = pending s" "waiting s' = waiting s" "mutex s' = mutex s"
    "length (pcs s') = length (pcs s)"
    "pcs s ! t \<noteq> WaitSig \<Longrightarrow> pcs s' ! t = pcs s ! t"
    "p \<notin> {WaitSig, WokenSig} \<Longrightarrow> pcs s' ! t = p \<longleftrightarrow> pcs s ! t = p"
    by (rule c; auto simp: nth_list_update)+
  show "p \<notin> {WaitSig, WokenSig} \<Longrightarrow> count_list (pcs s') p = count_list (pcs s) p"
    by (rule c; auto simp: count_update)
  show "count_list (pcs s') WaitSig + count_list (pcs s') WokenSig = count_list (pcs s) WaitSig + count_list (pcs s) WokenSig"
  proof (rule c)
    fix u assume "at s u WaitSig" "s' = goto u WokenSig s"
    then show ?thesis using count_pos [of u s WaitSig] by (simp add: count_update)
  qed simp
qed

lemma access_signal_wakes:
  assumes "s' \<in> set (signal s)" "counted s" "pending s \<noteq> 0"
  shows "WokenSig \<in> set (pcs s')"
  using assms(1)
proof (cases rule: access_signal_cases)
  case 1
  then show ?thesis using assms(2,3) by (simp add: counted_def count_list_0_iff)
next
  case (2 u)
  then show ?thesis by (simp add: set_update_memI)
qed

lemma count_broadcast:
  "count_list (map (\<lambda>p. if p = WaitBcast then WokenBcast else p) xs) q =
     (if q = WaitBcast then 0 else if q = WokenBcast then count_list xs WaitBcast + count_list xs WokenBcast
      else count_list xs q)"
  by (induction xs) auto

lemma broadcast_frame:
  "sharing (broadcast s) = sharing s" "pending (broadcast s) = pending s" "waiting (broadcast s) = waiting s"
  "mutex (broadcast s) = mutex s" "length (pcs (broadcast s)) = length (pcs s)"
  "t < length (pcs s) \<Longrightarrow> pcs s ! t \<noteq> WaitBcast \<Longrightarrow> pcs (broadcast s) ! t = pcs s ! t"
  "p \<notin> {WaitBcast, WokenBcast} \<Longrightarrow> t < length (pcs s) \<Longrightarrow> pcs (broadcast s) ! t = p \<longleftrightarrow> pcs s ! t = p"
  "WaitBcast \<notin> set (pcs (broadcast s))"
  "p \<notin> {WaitBcast, WokenBcast} \<Longrightarrow> p \<in> set (pcs (broadcast s)) \<longleftrightarrow> p \<in> set (pcs s)"
  by (auto simp: broadcast_def)

lemma counted_signal: "counted s \<Longrightarrow> s' \<in> set (signal s) \<Longrightarrow> counted s'"
  using signal_frame [of s' s] by (simp add: counted_def)

lemma counted_broadcast: "counted s \<Longrightarrow> counted (broadcast s)"
  by (simp add: counted_def broadcast_def count_broadcast)

section \<open>Every step keeps the invariant\<close>

lemmas access_defs = ConditionalAccess_modify_def modify_resume_def modify_loop_def ConditionalAccess_access_def
  access_resume_def access_loop_def

lemma counted_commit:
  assumes "counted s" "at s t Exclusive" "s' \<in> set (ConditionalAccess_commit t s)"
  shows "counted s'"
proof -
  obtain r where r: "s' = goto t Idle (r\<lparr>mutex := None\<rparr>)" "counted r" "at r t Exclusive"
    using assms counted_signal counted_broadcast [OF assms(1)] broadcast_frame(5,6) signal_frame(5,6)
    by (auto simp: ConditionalAccess_commit_def split: if_splits)
  then show ?thesis using count_pos [OF r(3)] by (auto simp: counted_def count_update)
qed

lemma counted_release:
  assumes "counted s" "at s t Sharing" "s' \<in> set (ConditionalAccess_release t s)"
  shows "counted s'"
proof -
  let ?r = "s\<lparr>sharing := sharing s - 1\<rparr>"
  obtain r where r: "s' = goto t Idle (r\<lparr>sharing := sharing r - 1\<rparr>)" "counted r" "at r t Sharing"
  proof -
    have "signal ?r = map (\<lambda>r. r\<lparr>sharing := sharing r - 1\<rparr>) (signal s)"
      by (simp add: signal_def)
    moreover have "broadcast ?r = (broadcast s)\<lparr>sharing := sharing (broadcast s) - 1\<rparr>"
      by (simp add: broadcast_def)
    ultimately show thesis
      using assms counted_signal counted_broadcast [OF assms(1)] broadcast_frame(5,6) signal_frame(5,6) that
      by (fastforce simp: ConditionalAccess_release_def Let_def split: if_splits)
  qed
  then show ?thesis using count_pos [OF r(3)] by (auto simp: counted_def count_update)
qed

lemma access_counted_step: "access_step s s' \<Longrightarrow> counted s \<Longrightarrow> counted s'"
proof (induction rule: access_step.induct)
  case (modify_wake s t)
  then show ?case using count_pos [of t s WokenSig] by (auto simp: access_defs counted_def count_update)
next
  case (access_wake s t)
  then show ?case using count_pos [of t s WokenBcast] by (auto simp: access_defs counted_def count_update)
next
  case (spurious_signal s t)
  then show ?case using count_pos [of t s WaitSig] by (auto simp: counted_def count_update)
next
  case (spurious_broadcast s t)
  then show ?case using count_pos [of t s WaitBcast] by (auto simp: counted_def count_update)
next
  case (commit s t s')
  then show ?case using counted_commit by blast
next
  case (release s t s')
  then show ?case using counted_release by blast
qed (auto simp: access_defs counted_def count_update)

text \<open>\<open>woke s r\<close>: from \<open>s\<close> to \<open>r\<close> waiting threads have been woken and nothing else has changed.\<close>

definition woke :: "access_state \<Rightarrow> access_state \<Rightarrow> bool" where
  "woke s r \<longleftrightarrow>
     sharing r = sharing s \<and> pending r = pending s \<and> waiting r = waiting s \<and> mutex r = mutex s
     \<and> length (pcs r) = length (pcs s)
     \<and> (\<forall>u < length (pcs s). \<forall>p \<in> {Idle, Exclusive, Sharing}. pcs r ! u = p \<longleftrightarrow> pcs s ! u = p)"

lemma access_woke_refl [simp]: "woke s s"
  by (simp add: woke_def)

lemma access_woke_signal: "r \<in> set (signal s) \<Longrightarrow> woke s r"
  using signal_frame [of r s] by (simp add: woke_def)

lemma access_woke_broadcast: "woke s (broadcast s)"
  by (simp add: woke_def broadcast_frame)

lemma access_no_sleeper:
  assumes "counted s" "waiting s = 0"
  shows "WaitBcast \<notin> set (pcs s)"
  using assms by (simp add: counted_def count_list_0_iff)

lemma commit_shape:
  assumes "s' \<in> set (ConditionalAccess_commit t s)" "counted s"
  obtains r where "s' = goto t Idle (r\<lparr>mutex := None\<rparr>)" "woke s r"
    "pending s \<noteq> 0 \<Longrightarrow> WokenSig \<in> set (pcs r)" "pending s = 0 \<Longrightarrow> WaitBcast \<notin> set (pcs r)"
  using assms access_woke_signal access_woke_broadcast [of s] access_signal_wakes [OF _ assms(2)] broadcast_frame(8) access_no_sleeper [OF assms(2)]
  by (fastforce simp: ConditionalAccess_commit_def split: if_splits)

lemma release_shape:
  assumes "s' \<in> set (ConditionalAccess_release t s)" "counted s"
  obtains r where "s' = goto t Idle (r\<lparr>sharing := sharing s - 1\<rparr>)" "woke s r"
    "pending s \<noteq> 0 \<Longrightarrow> sharing s = 1 \<Longrightarrow> WokenSig \<in> set (pcs r)" "pending s = 0 \<Longrightarrow> WaitBcast \<notin> set (pcs r)"
proof -
  let ?r = "s\<lparr>sharing := sharing s - 1\<rparr>"
  have "signal ?r = map (\<lambda>r. r\<lparr>sharing := sharing s - 1\<rparr>) (signal s)" by (simp add: signal_def)
  moreover have "broadcast ?r = (broadcast s)\<lparr>sharing := sharing s - 1\<rparr>" by (simp add: broadcast_def)
  ultimately show thesis
    using assms that access_woke_signal access_woke_broadcast [of s] access_signal_wakes [OF _ assms(2)] broadcast_frame(8)
      access_no_sleeper [OF assms(2)]
    by (fastforce simp: ConditionalAccess_release_def Let_def split: if_splits)
qed

lemma access_exclusion_step: "access_step s s' \<Longrightarrow> counted s \<Longrightarrow> exclusion s \<Longrightarrow> exclusion s'"
proof (induction rule: access_step.induct)
  case (commit s t s')
  then have "mutex s = Some t" by (auto simp: exclusion_def)
  from commit(2,3) obtain r where "s' = goto t Idle (r\<lparr>mutex := None\<rparr>)" "woke s r" by (rule commit_shape)
  then show ?case using commit(4) \<open>mutex s = Some t\<close> by (auto simp: exclusion_def woke_def nth_list_update)
next
  case (release s t s')
  from release(3,4) obtain r where "s' = goto t Idle (r\<lparr>sharing := sharing s - 1\<rparr>)" "woke s r" by (rule release_shape)
  then show ?case using release(1,2,5) by (auto simp: exclusion_def woke_def nth_list_update)
qed (auto simp: access_defs exclusion_def nth_list_update)

lemma access_awake_step: "access_step s s' \<Longrightarrow> access_inv s \<Longrightarrow> awake s'"
proof (induction rule: access_step.induct)
  case (commit s t s')
  from commit(3) have c: "counted s" by (simp add: access_inv_def)
  obtain r where r: "s' = goto t Idle (r\<lparr>mutex := None\<rparr>)" "woke s r"
    "pending s \<noteq> 0 \<Longrightarrow> WokenSig \<in> set (pcs r)" "pending s = 0 \<Longrightarrow> WaitBcast \<notin> set (pcs r)"
    using commit_shape [OF commit(2) c] by blast
  moreover have "at r t Exclusive" using r(2) commit(1) by (simp add: woke_def)
  ultimately have "WokenSig \<in> set (pcs s')" if "pending s' \<noteq> 0"
    using that by (auto simp: woke_def intro!: in_update)
  moreover have "WaitBcast \<notin> set (pcs s')" if "pending s' = 0"
    using that r notin_update [of WaitBcast "pcs r" Idle t] by (simp add: woke_def)
  ultimately show ?case by (simp add: awake_def)
next
  case (release s t s')
  from release(4) have c: "counted s" by (simp add: access_inv_def)
  obtain r where r: "s' = goto t Idle (r\<lparr>sharing := sharing s - 1\<rparr>)" "woke s r"
    "pending s \<noteq> 0 \<Longrightarrow> sharing s = 1 \<Longrightarrow> WokenSig \<in> set (pcs r)" "pending s = 0 \<Longrightarrow> WaitBcast \<notin> set (pcs r)"
    using release_shape [OF release(3) c] by blast
  have t: "at r t Sharing" "0 < sharing s"
    using r(2) release(1) c count_pos [of t s Sharing] by (auto simp: woke_def counted_def)
  have "WokenSig \<in> set (pcs s')" if "pending s' \<noteq> 0" "sharing s' = 0"
    using that r t by (auto simp: woke_def intro!: in_update)
  moreover have "WaitBcast \<notin> set (pcs s')" if "pending s' = 0"
    using that r notin_update [of WaitBcast "pcs r" Idle t] by (simp add: woke_def)
  ultimately show ?case by (simp add: awake_def)
next
  case (modify s t)
  then show ?case by (simp add: access_defs awake_def)
next
  case (access s t)
  then show ?case using notin_update [of WaitBcast "pcs s" Sharing t]
    by (auto simp: access_defs awake_def access_inv_def intro!: in_update)
next
  case (access_wake s t)
  then show ?case using notin_update [of WaitBcast "pcs s" Sharing t]
    by (auto simp: access_defs awake_def access_inv_def intro!: in_update)
next
  case (modify_wake s t)
  then show ?case by (simp add: access_defs awake_def)
next
  case (spurious_signal s t)
  then show ?case using notin_update [of WaitBcast "pcs s" WokenSig t] set_update_memI [of t "pcs s"]
    by (auto simp: awake_def access_inv_def)
next
  case (spurious_broadcast s t)
  then show ?case using notin_update [of WaitBcast "pcs s" WokenBcast t]
    by (auto simp: awake_def access_inv_def intro!: in_update)
qed

interpretation access: invariant_system access_init access_step access_inv
proof
  show "access_inv s" if "access_init s" for s
    using that by (auto simp: access_init_def access_inv_def ConditionalAccess_new_def counted_def exclusion_def
        awake_def count_list_0_iff)
  show "access_inv t" if "access_inv s" "access_step s t" for s t
    using that access_counted_step access_exclusion_step access_awake_step unfolding access_inv_def by blast
qed

section \<open>Properties\<close>

text \<open>
  C10: In every reachable state the counters are the numbers of sharing, of waiting writing
  and of waiting reading threads, at most one thread is between \<open>modify\<close> and \<open>commit\<close>, and
  while one is, no thread is between \<open>access\<close> and \<open>release\<close>.
\<close>

theorem ConditionalAccess_exclusion:
  assumes "reach access_init access_step s"
  shows "sharing s = count_list (pcs s) Sharing
    \<and> pending s = count_list (pcs s) WaitSig + count_list (pcs s) WokenSig
    \<and> waiting s = count_list (pcs s) WaitBcast + count_list (pcs s) WokenBcast
    \<and> (at s t Exclusive \<and> at s u Exclusive \<longrightarrow> t = u)
    \<and> (at s t Exclusive \<longrightarrow> \<not> at s u Sharing)"
proof -
  have i: "counted s" "exclusion s" using access.reach_inv [OF assms] by (auto simp: access_inv_def)
  have "\<not> at s u Sharing" if "at s t Exclusive"
    using i that count_pos [of u s Sharing] by (auto simp: counted_def exclusion_def)
  then show ?thesis using i by (auto simp: counted_def exclusion_def)
qed

text \<open>
  C9: No wake-up is lost: whenever a thread sleeps in \<open>modify\<close> or in \<open>access\<close>, some thread
  is exclusive, is sharing, or has been woken and will test its condition again. So as long
  as every thread that holds the lock gives it back, the lock never stands still.
\<close>

theorem ConditionalAccess_no_lost_wakeup:
  assumes "reach access_init access_step s" and "at s t WaitSig \<or> at s t WaitBcast"
  shows "\<exists>u. at s u Exclusive \<or> at s u Sharing \<or> at s u WokenSig"
proof (rule ccontr)
  assume n: "\<not> ?thesis"
  have i: "counted s" "exclusion s" "awake s" using access.reach_inv [OF assms(1)] by (auto simp: access_inv_def)
  have no: "Sharing \<notin> set (pcs s)" "WokenSig \<notin> set (pcs s)" "Exclusive \<notin> set (pcs s)"
    using n by (auto simp: in_set_conv_nth)
  then have "sharing s = 0" using i(1) by (simp add: counted_def count_list_0_iff)
  moreover have "mutex s = None"
    using i(2) no(3) by (cases "mutex s") (simp, metis exclusion_def nth_mem)
  ultimately have "pending s = 0" "WaitBcast \<notin> set (pcs s)" using i(3) no(2) by (auto simp: awake_def)
  with assms(2) show False using i(1) count_pos [of t s WaitSig] at_in_set [of t s WaitBcast]
    by (fastforce simp: counted_def)
qed

text \<open>A run of two threads: a reader, a writer that has to wait for it, and its wake-up.\<close>

lemma access_run:
  "reach access_init access_step
     \<lparr>sharing = 1, pending = 1, waiting = 0, mutex = None, pcs = [Sharing, WaitSig]\<rparr>"
proof -
  have "reach access_init access_step (ConditionalAccess_new 2)"
    by (rule reach_init) (auto simp: access_init_def)
  moreover have "access_step (ConditionalAccess_new 2)
      \<lparr>sharing = 1, pending = 0, waiting = 0, mutex = None, pcs = [Sharing, Idle]\<rparr>"
    using access_step.access [of 0 "ConditionalAccess_new 2"]
    by (simp add: access_defs ConditionalAccess_new_def numeral_2_eq_2)
  moreover have "access_step \<lparr>sharing = 1, pending = 0, waiting = 0, mutex = None, pcs = [Sharing, Idle]\<rparr>
      \<lparr>sharing = 1, pending = 1, waiting = 0, mutex = None, pcs = [Sharing, WaitSig]\<rparr>"
    using access_step.modify [of 1 "\<lparr>sharing = 1, pending = 0, waiting = 0, mutex = None, pcs = [Sharing, Idle]\<rparr>"]
    by (simp add: access_defs)
  ultimately show ?thesis by (meson reach_step)
qed

theorem ConditionalAccess_exclusion_witness:
  "count_list [Sharing, WaitSig] Sharing = 1 \<and> count_list [Sharing, WaitSig] WaitSig = 1"
  using ConditionalAccess_exclusion [OF access_run] by simp

theorem ConditionalAccess_no_lost_wakeup_witness:
  "\<exists>u < 2. [Sharing, WaitSig] ! u \<in> {Exclusive, Sharing, WokenSig}"
  using ConditionalAccess_no_lost_wakeup [OF access_run, of 1] by (auto simp: numeral_2_eq_2)

end
