(* ===== verification/RWLock.thy ===== *)
theory RWLock
  imports Prelude
begin

text \<open>
  The recursive read/write lock \<open>RWLock\<close> of \<open>corelib/thread.cpp\<close>, with timeouts.

  As in the theory of \<open>ConditionalAccess\<close>, which \<open>RWLock\<close> extends, a section between
  taking the mutex and waiting or unlocking is one step; here no operation returns with the
  mutex held. A timed wait ends in two steps: the thread leaves the condition variable
  (from then on a signal misses it), and later it gets the mutex back and runs on.
  \<open>Zero\<close>, \<open>Finite\<close> and \<open>Inf\<close> are the timeout 0, a timeout in between and \<open>Timer::inf\<close>.
  A thread that writes may call \<open>modify\<close> again; a thread that shares calls \<open>release\<close> first.
\<close>

section \<open>State and operations\<close>

datatype timeout = Zero | Finite | Inf

text \<open>The flag of a waiting thread says whether its wait is timed.\<close>

datatype rwpc =
    Idle
  | WaitSig bool | WokenSig bool | TimedSig
  | WaitBcast bool | WokenBcast bool | TimedBcast
  | Sharing
  | Writing

record rwlock =
  sharing :: nat
  pending :: nat
  waiting :: nat
  writers :: nat
  writeid :: "nat option"
  pcs :: "rwpc list"

definition RWLock_new :: "nat \<Rightarrow> rwlock" where
  "RWLock_new n =
     \<lparr>sharing = 0, pending = 0, waiting = 0, writers = 0, writeid = None, pcs = replicate n Idle\<rparr>"

abbreviation goto :: "nat \<Rightarrow> rwpc \<Rightarrow> rwlock \<Rightarrow> rwlock" where
  "goto t p s \<equiv> s\<lparr>pcs := (pcs s)[t := p]\<rparr>"

fun wake_writer :: "rwpc \<Rightarrow> rwpc" where
  "wake_writer (WaitSig timed) = WokenSig timed"
| "wake_writer p = p"

fun wake_reader :: "rwpc \<Rightarrow> rwpc" where
  "wake_reader (WaitBcast timed) = WokenBcast timed"
| "wake_reader p = p"

definition is_waitsig :: "rwpc \<Rightarrow> bool" where
  "is_waitsig p \<longleftrightarrow> (\<exists>b \<in> {False, True}. p = WaitSig b)"

definition signal :: "rwlock \<Rightarrow> rwlock list" where
  "signal s = map (\<lambda>ps. s\<lparr>pcs := ps\<rparr>) (wake_one is_waitsig wake_writer (pcs s))"

definition broadcast :: "rwlock \<Rightarrow> rwlock" where
  "broadcast s = s\<lparr>pcs := map wake_reader (pcs s)\<rparr>"

text \<open>
  The loop of \<open>modify\<close>, from the test with the mutex held; with a timeout of 0 a busy lock
  means failure, which leaves the state as it was.
\<close>

definition rw_modify_loop :: "nat \<Rightarrow> timeout \<Rightarrow> rwlock \<Rightarrow> rwlock" where
  "rw_modify_loop t timeout s =
     (if (writers s \<noteq> 0 \<or> sharing s \<noteq> 0) \<and> \<not> (writers s \<noteq> 0 \<and> writeid s = Some t)
      then (if timeout = Zero then s
            else goto t (WaitSig (timeout = Finite)) (s\<lparr>pending := pending s + 1\<rparr>))
      else goto t Writing
             (s\<lparr>writeid := (if writers s = 0 then Some t else writeid s), writers := writers s + 1\<rparr>))"

definition RWLock_modify :: "nat \<Rightarrow> timeout \<Rightarrow> rwlock \<Rightarrow> rwlock" where
  "RWLock_modify t timeout s = rw_modify_loop t timeout s"

definition rw_modify_resume :: "nat \<Rightarrow> bool \<Rightarrow> rwlock \<Rightarrow> rwlock" where
  "rw_modify_resume t timed s =
     rw_modify_loop t (if timed then Finite else Inf) (s\<lparr>pending := pending s - 1\<rparr>)"

text \<open>\<open>rtn\<close> is false after a timeout: the loop ends and \<open>modify\<close> fails.\<close>

definition rw_modify_timeout :: "nat \<Rightarrow> rwlock \<Rightarrow> rwlock" where
  "rw_modify_timeout t s = goto t Idle (s\<lparr>pending := pending s - 1\<rparr>)"

definition rw_access_loop :: "nat \<Rightarrow> timeout \<Rightarrow> rwlock \<Rightarrow> rwlock" where
  "rw_access_loop t timeout s =
     (if writers s \<noteq> 0 \<or> pending s \<noteq> 0
      then (if timeout = Zero then goto t Idle s
            else goto t (WaitBcast (timeout = Finite)) (s\<lparr>waiting := waiting s + 1\<rparr>))
      else goto t Sharing (s\<lparr>sharing := sharing s + 1\<rparr>))"

definition RWLock_access :: "nat \<Rightarrow> timeout \<Rightarrow> rwlock \<Rightarrow> rwlock" where
  "RWLock_access t timeout s = rw_access_loop t timeout s"

definition rw_access_resume :: "nat \<Rightarrow> bool \<Rightarrow> rwlock \<Rightarrow> rwlock" where
  "rw_access_resume t timed s =
     rw_access_loop t (if timed then Finite else Inf) (s\<lparr>waiting := waiting s - 1\<rparr>)"

definition rw_access_timeout :: "nat \<Rightarrow> rwlock \<Rightarrow> rwlock" where
  "rw_access_timeout t s = goto t Idle (s\<lparr>waiting := waiting s - 1\<rparr>)"

text \<open>A thread that has released its last write lock, or its read lock, is idle again.\<close>

definition RWLock_release :: "nat \<Rightarrow> rwlock \<Rightarrow> rwlock list" where
  "RWLock_release t s =
     (if writers s \<noteq> 0 then
        (let s = s\<lparr>writers := writers s - 1\<rparr>
         in map (\<lambda>r. if writers s = 0 then goto t Idle r else r)
              (if pending s \<noteq> 0 \<and> writers s = 0 then signal s
               else if waiting s \<noteq> 0 \<and> writers s = 0 then [broadcast s]
               else [s]))
      else if sharing s \<noteq> 0 then
        (let s = s\<lparr>sharing := sharing s - 1\<rparr>
         in map (goto t Idle)
              (if pending s \<noteq> 0 \<and> sharing s = 0 then signal s
               else if waiting s \<noteq> 0 \<and> pending s = 0 then [broadcast s]
               else [s]))
      else [s])"

section \<open>Steps\<close>

abbreviation at :: "rwlock \<Rightarrow> nat \<Rightarrow> rwpc \<Rightarrow> bool" where
  "at s t p \<equiv> t < length (pcs s) \<and> pcs s ! t = p"

text \<open>The parameter says which timeouts the threads use.\<close>

inductive rw_step :: "timeout set \<Rightarrow> rwlock \<Rightarrow> rwlock \<Rightarrow> bool" for T :: "timeout set" where
  modify: "at s t Idle \<or> at s t Writing \<Longrightarrow> timeout \<in> T \<Longrightarrow> rw_step T s (RWLock_modify t timeout s)"
| modify_wake: "at s t (WokenSig timed) \<Longrightarrow> rw_step T s (rw_modify_resume t timed s)"
| modify_timeout: "at s t TimedSig \<Longrightarrow> rw_step T s (rw_modify_timeout t s)"
| access: "at s t Idle \<Longrightarrow> timeout \<in> T \<Longrightarrow> rw_step T s (RWLock_access t timeout s)"
| access_wake: "at s t (WokenBcast timed) \<Longrightarrow> rw_step T s (rw_access_resume t timed s)"
| access_timeout: "at s t TimedBcast \<Longrightarrow> rw_step T s (rw_access_timeout t s)"
| release: "at s t Sharing \<or> at s t Writing \<Longrightarrow> s' \<in> set (RWLock_release t s) \<Longrightarrow> rw_step T s s'"
| spurious_signal: "at s t (WaitSig timed) \<Longrightarrow> rw_step T s (goto t (WokenSig timed) s)"
| spurious_broadcast: "at s t (WaitBcast timed) \<Longrightarrow> rw_step T s (goto t (WokenBcast timed) s)"
| expire_signal: "at s t (WaitSig True) \<Longrightarrow> rw_step T s (goto t TimedSig s)"
| expire_broadcast: "at s t (WaitBcast True) \<Longrightarrow> rw_step T s (goto t TimedBcast s)"

definition rw_init :: "rwlock \<Rightarrow> bool" where
  "rw_init s \<longleftrightarrow> (\<exists>n. s = RWLock_new n)"

section \<open>Invariants\<close>

fun in_modify :: "rwpc \<Rightarrow> bool" where
  "in_modify (WaitSig b) = True" | "in_modify (WokenSig b) = True" | "in_modify TimedSig = True"
| "in_modify p = False"

fun in_access :: "rwpc \<Rightarrow> bool" where
  "in_access (WaitBcast b) = True" | "in_access (WokenBcast b) = True" | "in_access TimedBcast = True"
| "in_access p = False"

definition rw_counted :: "rwlock \<Rightarrow> bool" where
  "rw_counted s \<longleftrightarrow>
     sharing s = count_if ((=) Sharing) (pcs s) \<and> pending s = count_if in_modify (pcs s)
     \<and> waiting s = count_if in_access (pcs s)"

definition rw_exclusion :: "rwlock \<Rightarrow> bool" where
  "rw_exclusion s \<longleftrightarrow>
     (\<forall>t < length (pcs s). pcs s ! t = Writing \<longleftrightarrow> writers s \<noteq> 0 \<and> writeid s = Some t)
     \<and> (writers s \<noteq> 0 \<longrightarrow> sharing s = 0 \<and> (\<exists>t < length (pcs s). writeid s = Some t))"

definition rw_safe :: "rwlock \<Rightarrow> bool" where
  "rw_safe s \<longleftrightarrow> rw_counted s \<and> rw_exclusion s"

text \<open>\<open>woke s r\<close>: from \<open>s\<close> to \<open>r\<close> waiting threads have been woken and nothing else has changed.\<close>

definition woke :: "rwlock \<Rightarrow> rwlock \<Rightarrow> bool" where
  "woke s r \<longleftrightarrow>
     r\<lparr>pcs := []\<rparr> = s\<lparr>pcs := []\<rparr>
     \<and> list_all2 (\<lambda>p q. q \<in> {p, wake_writer p, wake_reader p}) (pcs s) (pcs r)"

lemma wake_keeps [simp]:
  "in_modify (wake_writer p) = in_modify p" "in_modify (wake_reader p) = in_modify p"
  "in_access (wake_writer p) = in_access p" "in_access (wake_reader p) = in_access p"
  "Sharing = wake_writer p \<longleftrightarrow> Sharing = p" "Sharing = wake_reader p \<longleftrightarrow> Sharing = p"
  "wake_writer p = Writing \<longleftrightarrow> p = Writing" "wake_reader p = Writing \<longleftrightarrow> p = Writing"
  "Writing = wake_writer p \<longleftrightarrow> p = Writing" "Writing = wake_reader p \<longleftrightarrow> p = Writing"
  "wake_writer p = Idle \<longleftrightarrow> p = Idle" "wake_reader p = Idle \<longleftrightarrow> p = Idle"
  by (cases p; auto)+

lemma woke_counts:
  assumes "woke s r"
  shows "count_if ((=) Sharing) (pcs r) = count_if ((=) Sharing) (pcs s)"
    "count_if in_modify (pcs r) = count_if in_modify (pcs s)"
    "count_if in_access (pcs r) = count_if in_access (pcs s)"
    "length (pcs r) = length (pcs s)"
    "t < length (pcs s) \<Longrightarrow> pcs r ! t = Writing \<longleftrightarrow> pcs s ! t = Writing"
    "t < length (pcs s) \<Longrightarrow> pcs s ! t = Sharing \<Longrightarrow> pcs r ! t = Sharing"
proof -
  have l: "list_all2 (\<lambda>p q. q \<in> {p, wake_writer p, wake_reader p}) (pcs s) (pcs r)"
    using assms by (simp add: woke_def)
  show "count_if ((=) Sharing) (pcs r) = count_if ((=) Sharing) (pcs s)"
    "count_if in_modify (pcs r) = count_if in_modify (pcs s)"
    "count_if in_access (pcs r) = count_if in_access (pcs s)"
    by (rule count_if_cong, rule list_all2_mono [OF l], auto)+
  show "length (pcs r) = length (pcs s)" using l by (simp add: list_all2_lengthD)
  show "pcs r ! t = Writing \<longleftrightarrow> pcs s ! t = Writing" if "t < length (pcs s)"
    using list_all2_nthD [OF l that] by auto
  show "pcs r ! t = Sharing" if "t < length (pcs s)" "pcs s ! t = Sharing"
    using list_all2_nthD [OF l that(1)] that(2) by auto
qed

lemma woke_fields:
  assumes "woke s r"
  shows "sharing r = sharing s" "pending r = pending s" "waiting r = waiting s" "writers r = writers s"
    "writeid r = writeid s"
  using assms by (auto simp: woke_def dest: arg_cong [where f = sharing] arg_cong [where f = pending]
      arg_cong [where f = waiting] arg_cong [where f = writers] arg_cong [where f = writeid])

lemma rwlock_woke_refl [simp]: "woke s s"
  by (simp add: woke_def list_all2_same)

lemma woke_update: "q \<in> {p, wake_writer p, wake_reader p} \<Longrightarrow> pcs s ! t = p \<Longrightarrow> woke s (goto t q s)"
  by (cases "t < length (pcs s)") (auto simp: woke_def list_all2_conv_all_nth nth_list_update)

lemma rwlock_woke_broadcast: "woke s (broadcast s)"
  by (simp add: woke_def broadcast_def list_all2_conv_all_nth)

lemma rwlock_signal_cases:
  assumes "r \<in> set (signal s)"
  obtains "\<forall>p \<in> set (pcs s). \<not> is_waitsig p" "r = s"
  | u where "u < length (pcs s)" "is_waitsig (pcs s ! u)" "r = goto u (wake_writer (pcs s ! u)) s"
proof -
  obtain ps where ps: "ps \<in> set (wake_one is_waitsig wake_writer (pcs s))" "r = s\<lparr>pcs := ps\<rparr>"
    using assms by (auto simp: signal_def)
  from ps(1) show thesis
    by (cases rule: wake_one_cases) (use that ps(2) in auto)
qed

lemma rwlock_woke_signal: "r \<in> set (signal s) \<Longrightarrow> woke s r"
  by (erule rwlock_signal_cases) (auto intro: woke_update)

text \<open>What \<open>release\<close> does: a nested write lock, the last write lock, a read lock.\<close>

lemma release_cases:
  assumes "s' \<in> set (RWLock_release t s)" "at s t Sharing \<or> at s t Writing" "rw_safe s"
  obtains (nested) "at s t Writing" "1 < writers s" "s' = s\<lparr>writers := writers s - 1\<rparr>"
  | (written) r where "at s t Writing" "writers s = 1" "s' = goto t Idle r" "woke (s\<lparr>writers := 0\<rparr>) r"
      "if pending s \<noteq> 0 then r \<in> set (signal (s\<lparr>writers := 0\<rparr>))
       else waiting s \<noteq> 0 \<longrightarrow> r = broadcast (s\<lparr>writers := 0\<rparr>)"
  | (shared) r where "at s t Sharing" "writers s = 0" "0 < sharing s" "s' = goto t Idle r"
      "woke (s\<lparr>sharing := sharing s - 1\<rparr>) r"
      "if pending s \<noteq> 0 then sharing s = 1 \<longrightarrow> r \<in> set (signal (s\<lparr>sharing := sharing s - 1\<rparr>))
       else waiting s \<noteq> 0 \<longrightarrow> r = broadcast (s\<lparr>sharing := sharing s - 1\<rparr>)"
proof (cases "writers s = 0")
  case False
  then have t: "at s t Writing" 
    using assms(2,3) count_if_pos [of t "pcs s" "(=) Sharing"] by (auto simp: rw_safe_def rw_exclusion_def rw_counted_def)
  show thesis
  proof (cases "writers s = 1")
    case True
    let ?s = "s\<lparr>writers := 0\<rparr>"
    obtain r where r: "s' = goto t Idle r"
      "r \<in> set (if pending s \<noteq> 0 then signal ?s else if waiting s \<noteq> 0 then [broadcast ?s] else [?s])"
      using assms(1) True by (auto simp: RWLock_release_def Let_def split: if_splits)
    show thesis
      by (rule written [OF t True r(1)]) (use r(2) rwlock_woke_signal rwlock_woke_broadcast in \<open>auto split: if_splits\<close>)
  next
    case neq: False
    then show thesis using assms(1) False nested [OF t] by (auto simp: RWLock_release_def Let_def)
  qed
next
  case True
  then have t: "at s t Sharing" "0 < sharing s"
    using assms(2,3) count_if_pos [of t "pcs s" "(=) Sharing"] by (auto simp: rw_safe_def rw_exclusion_def rw_counted_def)
  let ?s = "s\<lparr>sharing := sharing s - 1\<rparr>"
  obtain r where r: "s' = goto t Idle r"
    "r \<in> set (if pending s \<noteq> 0 \<and> sharing s = 1 then signal ?s
       else if waiting s \<noteq> 0 \<and> pending s = 0 then [broadcast ?s] else [?s])"
    using assms(1) True t(2) by (auto simp: RWLock_release_def Let_def le_Suc_eq split: if_splits)
  show thesis
    by (rule shared [OF t(1) True t(2) r(1)]) (use r(2) rwlock_woke_signal rwlock_woke_broadcast in \<open>auto split: if_splits\<close>)
qed

lemmas rw_defs = RWLock_modify_def rw_modify_resume_def rw_modify_loop_def rw_modify_timeout_def RWLock_access_def
  rw_access_resume_def rw_access_loop_def rw_access_timeout_def

text \<open>Moving one thread from \<open>p\<close> to \<open>q\<close>, in the counts.\<close>

lemma rwlock_count_move:
  assumes "at s t p"
  shows "count_if ((=) Sharing) ((pcs s)[t := q]) + of_bool (p = Sharing) = count_if ((=) Sharing) (pcs s) + of_bool (q = Sharing)"
    "count_if in_modify ((pcs s)[t := q]) + of_bool (in_modify p) = count_if in_modify (pcs s) + of_bool (in_modify q)"
    "count_if in_access ((pcs s)[t := q]) + of_bool (in_access p) = count_if in_access (pcs s) + of_bool (in_access q)"
  using assms count_if_update [of t "pcs s" "(=) Sharing" q] count_if_update [of t "pcs s" in_modify q]
    count_if_update [of t "pcs s" in_access q] by (auto simp: eq_commute [of Sharing])

lemma rwlock_counted_step: "rw_step T s s' \<Longrightarrow> rw_safe s \<Longrightarrow> rw_counted s'"
proof (induction rule: rw_step.induct)
  case (release s t s')
  from release(2,1,3) show ?case
  proof (cases rule: release_cases)
    case nested
    then show ?thesis using release(3) by (simp add: rw_safe_def rw_counted_def)
  next
    case (written r)
    have "at r t Writing" using written(1,4) woke_counts(4,5) [OF written(4)] by auto
    then show ?thesis
      using release(3) written(3) woke_counts(1-3) [OF written(4)] woke_fields [OF written(4)] rwlock_count_move [of t r Writing Idle]
      by (simp add: rw_safe_def rw_counted_def)
  next
    case (shared r)
    have "at r t Sharing" using shared(1) woke_counts(4,6) [OF shared(5)] by auto
    then show ?thesis
      using release(3) shared(3,4) woke_counts(1-3) [OF shared(5)] woke_fields [OF shared(5)] rwlock_count_move [of t r Sharing Idle]
      by (simp add: rw_safe_def rw_counted_def)
  qed
next
  case (modify s t timeout)
  then obtain p where "at s t p" "\<not> in_modify p" "\<not> in_access p" "p \<noteq> Sharing" by auto
  then show ?case
    using modify(3) rwlock_count_move [of t s p "WaitSig (timeout = Finite)"] rwlock_count_move [of t s p Writing]
    by (simp add: rw_defs rw_safe_def rw_counted_def)
next
  case (modify_wake s t timed)
  then show ?case
    using rwlock_count_move [of t s "WokenSig timed" "WaitSig timed"] rwlock_count_move [of t s "WokenSig timed" Writing]
    by (auto simp: rw_defs rw_safe_def rw_counted_def)
next
  case (access s t timeout)
  then show ?case
    using rwlock_count_move [of t s Idle Idle] rwlock_count_move [of t s Idle "WaitBcast (timeout = Finite)"] rwlock_count_move [of t s Idle Sharing]
    by (auto simp: rw_defs rw_safe_def rw_counted_def)
next
  case (access_wake s t timed)
  then show ?case
    using rwlock_count_move [of t s "WokenBcast timed" "WaitBcast timed"] rwlock_count_move [of t s "WokenBcast timed" Sharing]
    by (auto simp: rw_defs rw_safe_def rw_counted_def)
next
  case (modify_timeout s t)
  then show ?case using rwlock_count_move [of t s TimedSig Idle] by (auto simp: rw_defs rw_safe_def rw_counted_def)
next
  case (access_timeout s t)
  then show ?case using rwlock_count_move [of t s TimedBcast Idle] by (auto simp: rw_defs rw_safe_def rw_counted_def)
next
  case (spurious_signal s t timed)
  then show ?case using rwlock_count_move [of t s "WaitSig timed" "WokenSig timed"] by (auto simp: rw_safe_def rw_counted_def)
next
  case (spurious_broadcast s t timed)
  then show ?case using rwlock_count_move [of t s "WaitBcast timed" "WokenBcast timed"] by (auto simp: rw_safe_def rw_counted_def)
next
  case (expire_signal s t)
  then show ?case using rwlock_count_move [of t s "WaitSig True" TimedSig] by (auto simp: rw_safe_def rw_counted_def)
next
  case (expire_broadcast s t)
  then show ?case using rwlock_count_move [of t s "WaitBcast True" TimedBcast] by (auto simp: rw_safe_def rw_counted_def)
qed

lemma exclusion_move:
  assumes "rw_exclusion s" "at s t p" "p \<noteq> Writing" "q \<noteq> Writing"
  shows "rw_exclusion (goto t q s)"
  using assms by (auto simp: rw_exclusion_def nth_list_update)

lemma rwlock_exclusion_step: "rw_step T s s' \<Longrightarrow> rw_safe s \<Longrightarrow> rw_exclusion s'"
proof (induction rule: rw_step.induct)
  case (release s t s')
  note x = release(3) [unfolded rw_safe_def, THEN conjunct2]
  from release(2,1,3) show ?case
  proof (cases rule: release_cases)
    case nested
    then show ?thesis using x by (auto simp: rw_exclusion_def)
  next
    case (written r)
    then have "pcs r ! u \<noteq> Writing" if "u < length (pcs s)" "u \<noteq> t" for u
      using that x woke_counts(5) [OF written(4), of u] by (auto simp: rw_exclusion_def)
    then show ?thesis
      using x written(1,3) woke_fields [OF written(4)] woke_counts(4) [OF written(4)]
      by (auto simp: rw_exclusion_def nth_list_update)
  next
    case (shared r)
    then have "pcs r ! u \<noteq> Writing" if "u < length (pcs s)" for u
      using that x woke_counts(5) [OF shared(5), of u] by (auto simp: rw_exclusion_def)
    then show ?thesis
      using x shared(1,2,4) woke_fields [OF shared(5)] woke_counts(4) [OF shared(5)]
      by (auto simp: rw_exclusion_def nth_list_update)
  qed
next
  case (modify s t timeout)
  then show ?case by (auto simp: rw_defs rw_safe_def rw_exclusion_def nth_list_update split: if_splits)
next
  case (modify_wake s t timed)
  then show ?case by (auto simp: rw_defs rw_safe_def rw_exclusion_def nth_list_update split: if_splits)
next
  case (access s t timeout)
  then show ?case by (auto simp: rw_defs rw_safe_def rw_exclusion_def nth_list_update split: if_splits)
next
  case (access_wake s t timed)
  then show ?case by (auto simp: rw_defs rw_safe_def rw_exclusion_def nth_list_update split: if_splits)
qed (auto simp: rw_defs rw_safe_def rw_exclusion_def nth_list_update split: if_splits)

interpretation rw: invariant_system rw_init "rw_step T" rw_safe
proof
  show "rw_safe s" if "rw_init s" for s
    using that by (auto simp: rw_init_def rw_safe_def RWLock_new_def rw_counted_def rw_exclusion_def count_if_def)
  show "rw_safe t" if "rw_safe s" "rw_step T s t" for s t
    using that rwlock_counted_step rwlock_exclusion_step unfolding rw_safe_def by blast
qed

section \<open>Without timeouts no wake-up is lost\<close>

fun untimed :: "rwpc \<Rightarrow> bool" where
  "untimed (WaitSig b) = (\<not> b)" | "untimed (WokenSig b) = (\<not> b)" | "untimed TimedSig = False"
| "untimed (WaitBcast b) = (\<not> b)" | "untimed (WokenBcast b) = (\<not> b)" | "untimed TimedBcast = False"
| "untimed p = True"

definition rw_awake :: "rwlock \<Rightarrow> bool" where
  "rw_awake s \<longleftrightarrow>
     list_all untimed (pcs s)
     \<and> (writers s = 0 \<and> sharing s = 0 \<and> pending s \<noteq> 0 \<longrightarrow> WokenSig False \<in> set (pcs s))
     \<and> (writers s = 0 \<and> pending s = 0 \<longrightarrow> WaitBcast False \<notin> set (pcs s))"

definition rw_live :: "rwlock \<Rightarrow> bool" where
  "rw_live s \<longleftrightarrow> rw_safe s \<and> rw_awake s"

lemma untimed_at: "list_all untimed (pcs s) \<Longrightarrow> at s t p \<Longrightarrow> untimed p"
  by (auto simp: list_all_iff)

lemma untimed_modify: "in_modify p \<Longrightarrow> untimed p \<Longrightarrow> \<not> is_waitsig p \<Longrightarrow> p = WokenSig False"
  by (cases p) (auto simp: is_waitsig_def)

lemma rwlock_signal_wakes:
  assumes "r \<in> set (signal s)" "count_if in_modify (pcs s) \<noteq> 0" "list_all untimed (pcs s)"
  shows "WokenSig False \<in> set (pcs r)"
  using assms(1)
proof (cases rule: rwlock_signal_cases)
  case 1
  obtain p where p: "p \<in> set (pcs s)" "in_modify p" using assms(2) by (auto simp: count_if_0)
  then have "p = WokenSig False" using 1(1) assms(3) untimed_modify by (auto simp: list_all_iff)
  then show ?thesis using p 1 by simp
next
  case (2 u)
  then have "wake_writer (pcs s ! u) = WokenSig False"
    using assms(3) untimed_at [of s u "pcs s ! u"] by (auto simp: is_waitsig_def)
  then show ?thesis using 2 by (simp add: set_update_memI)
qed

lemma broadcast_wakes: "WaitBcast b \<notin> set (pcs (broadcast s))"
proof
  assume "WaitBcast b \<in> set (pcs (broadcast s))"
  then obtain p where "wake_reader p = WaitBcast b" by (auto simp: broadcast_def)
  then show False by (cases p) auto
qed

lemma woke_untimed: "woke s r \<Longrightarrow> list_all untimed (pcs s) \<Longrightarrow> list_all untimed (pcs r)"
  unfolding list_all_iff
proof
  fix q
  assume w: "woke s r" "\<forall>p \<in> set (pcs s). untimed p" "q \<in> set (pcs r)"
  then obtain p where "p \<in> set (pcs s)" "q \<in> {p, wake_writer p, wake_reader p}"
    unfolding woke_def list_all2_conv_all_nth by (metis in_set_conv_nth)
  with bspec [OF w(2), of p] show "untimed q" by (cases p) auto
qed

lemma rwlock_no_sleeper:
  assumes "rw_counted s" "waiting s = 0" "woke s' r" "pcs s' = pcs s"
  shows "WaitBcast b \<notin> set (pcs r)"
proof -
  have "count_if in_access (pcs r) = 0" using assms woke_counts(3) [OF assms(3)] by (simp add: rw_counted_def)
  then show ?thesis by (auto simp: count_if_0)
qed

lemma awake_release:
  assumes "rw_live s" "woke s1 r" "pcs s1 = pcs s" "pending s1 = pending s" "at s t p" "p \<in> {Sharing, Writing}"
    "pending s \<noteq> 0 \<and> writers s1 = 0 \<and> sharing s1 = 0 \<longrightarrow> r \<in> set (signal s1)"
    "pending s = 0 \<and> writers s1 = 0 \<longrightarrow> WaitBcast False \<notin> set (pcs r)"
  shows "rw_awake (goto t Idle r)"
proof -
  have u: "list_all untimed (pcs s)" and c: "rw_counted s"
    using assms(1) unfolding rw_live_def rw_awake_def rw_safe_def by blast+
  have "list_all untimed (pcs (goto t Idle r))"
    using woke_untimed [OF assms(2)] u assms(3) by (simp add: list_all_update)
  moreover have "WokenSig False \<in> set (pcs (goto t Idle r))" if "pending s \<noteq> 0" "writers s1 = 0" "sharing s1 = 0"
  proof -
    have "WokenSig False \<in> set (pcs r)"
      using rwlock_signal_wakes [of r s1] assms(3,7) that u c by (simp add: rw_counted_def)
    moreover have "t < length (pcs r)" "pcs r ! t \<noteq> WokenSig False"
      using assms(3,5,6) woke_counts(4) [OF assms(2)] woke_counts(5,6) [OF assms(2), of t] by auto
    ultimately show ?thesis by (simp add: in_update)
  qed
  moreover have "WaitBcast False \<notin> set (pcs (goto t Idle r))" if "pending s = 0" "writers s1 = 0"
    using assms(8) that notin_update [of "WaitBcast False" "pcs r" Idle t] by simp
  ultimately show ?thesis using woke_fields [OF assms(2)] assms(4) by (simp add: rw_awake_def)
qed

lemma rwlock_awake_step: "rw_step {Zero, Inf} s s' \<Longrightarrow> rw_live s \<Longrightarrow> rw_awake s'"
proof (induction rule: rw_step.induct)
  case (release s t s')
  have safe: "rw_safe s" and awake: "rw_awake s" and c: "rw_counted s"
    using release(3) by (auto simp: rw_live_def rw_safe_def)
  from release(2,1) safe show ?case
  proof (cases rule: release_cases)
    case nested
    then show ?thesis using awake by (simp add: rw_awake_def)
  next
    case (written r)
    have k: "sharing s = 0" using safe written(2) by (auto simp: rw_safe_def rw_exclusion_def)
    have "pending s = 0 \<longrightarrow> WaitBcast False \<notin> set (pcs r)"
      using written(5) broadcast_wakes rwlock_no_sleeper [OF c _ written(4)] by (cases "waiting s = 0") auto
    then show ?thesis
      unfolding written(3) using written(1,5) k awake_release [OF release(3) written(4), of t Writing]
      by (simp split: if_splits)
  next
    case (shared r)
    have "pending s = 0 \<longrightarrow> WaitBcast False \<notin> set (pcs r)"
      using shared(6) broadcast_wakes rwlock_no_sleeper [OF c _ shared(5)] by (cases "waiting s = 0") auto
    then show ?thesis
      unfolding shared(4) using shared(1,2,3,6) awake_release [OF release(3) shared(5), of t Sharing]
      by (simp split: if_splits)
  qed
next
  case (modify s t timeout)
  then show ?case by (auto simp: rw_defs rw_live_def rw_awake_def list_all_update)
next
  case (modify_wake s t timed)
  then have "\<not> timed" using untimed_at [of s t "WokenSig timed"] by (auto simp: rw_live_def rw_awake_def)
  then show ?case using modify_wake by (auto simp: rw_defs rw_live_def rw_awake_def list_all_update)
next
  case (access s t timeout)
  then show ?case using in_update [of t "pcs s" "WokenSig False"] notin_update [of "WaitBcast False" "pcs s"]
    by (auto simp: rw_defs rw_live_def rw_awake_def list_all_update)
next
  case (access_wake s t timed)
  then have "\<not> timed" using untimed_at [of s t "WokenBcast timed"] by (auto simp: rw_live_def rw_awake_def)
  then show ?case
    using access_wake in_update [of t "pcs s" "WokenSig False"] notin_update [of "WaitBcast False" "pcs s"]
    by (auto simp: rw_defs rw_live_def rw_awake_def list_all_update)
next
  case (modify_timeout s t)
  then show ?case using untimed_at [of s t TimedSig]
    by (simp add: rw_live_def rw_awake_def)
next
  case (access_timeout s t)
  then show ?case using untimed_at [of s t TimedBcast]
    by (simp add: rw_live_def rw_awake_def)
next
  case (spurious_signal s t timed)
  then have "\<not> timed" using untimed_at [of s t "WaitSig timed"]
    by (simp add: rw_live_def rw_awake_def)
  then show ?case
    using spurious_signal set_update_memI [of t "pcs s"] notin_update [of "WaitBcast False" "pcs s"]
    by (simp add: rw_live_def rw_awake_def list_all_update)
next
  case (spurious_broadcast s t timed)
  then have "\<not> timed" using untimed_at [of s t "WaitBcast timed"]
    by (simp add: rw_live_def rw_awake_def)
  then show ?case
    using spurious_broadcast in_update [of t "pcs s" "WokenSig False"] notin_update [of "WaitBcast False" "pcs s"]
    by (simp add: rw_live_def rw_awake_def list_all_update)
next
  case (expire_signal s t)
  then show ?case using untimed_at [of s t "WaitSig True"]
    by (simp add: rw_live_def rw_awake_def)
next
  case (expire_broadcast s t)
  then show ?case using untimed_at [of s t "WaitBcast True"]
    by (simp add: rw_live_def rw_awake_def)
qed

interpretation rw_untimed: invariant_system rw_init "rw_step {Zero, Inf}" rw_live
proof
  show "rw_live s" if "rw_init s" for s
    using that rw.inv_init [of s] by (auto simp: rw_live_def rw_init_def RWLock_new_def rw_awake_def list_all_iff)
  show "rw_live t" if "rw_live s" "rw_step {Zero, Inf} s t" for s t
    using that rwlock_awake_step rw.inv_step unfolding rw_live_def by blast
qed

section \<open>Properties\<close>

text \<open>
  C4: Whatever timeouts are used, in every reachable state the counters are the numbers of
  sharing, of write-waiting and of read-waiting threads, one thread at most holds the write
  lock, it is the recorded owner, and nobody shares while it does.
\<close>

theorem RWLock_exclusion:
  assumes "reach rw_init (rw_step UNIV) s"
  shows "sharing s = count_if ((=) Sharing) (pcs s) \<and> pending s = count_if in_modify (pcs s)
    \<and> waiting s = count_if in_access (pcs s)
    \<and> (at s t Writing \<longrightarrow> writeid s = Some t \<and> writers s \<noteq> 0 \<and> \<not> at s u Sharing)
    \<and> (at s t Writing \<and> at s u Writing \<longrightarrow> t = u)"
proof -
  have i: "rw_counted s" "rw_exclusion s" using rw.reach_inv [OF assms] by (auto simp: rw_safe_def)
  have "\<not> at s u Sharing" if "at s t Writing"
    using i that count_if_pos [of u "pcs s" "(=) Sharing"] by (auto simp: rw_counted_def rw_exclusion_def)
  then show ?thesis using i by (auto simp: rw_counted_def rw_exclusion_def)
qed

text \<open>
  C28: When every wait is without timeout or the timeout is 0, no wake-up is lost: if a
  thread sleeps, some thread holds the lock or has been woken.
\<close>

theorem RWLock_no_lost_wakeup:
  assumes "reach rw_init (rw_step {Zero, Inf}) s" and "at s t (WaitSig b) \<or> at s t (WaitBcast b)"
  shows "\<exists>u. at s u Writing \<or> at s u Sharing \<or> at s u (WokenSig False)"
proof (rule ccontr)
  assume n: "\<not> ?thesis"
  have i: "rw_counted s" "rw_exclusion s" "rw_awake s"
    using rw_untimed.reach_inv [OF assms(1)] by (auto simp: rw_live_def rw_safe_def)
  have no: "Sharing \<notin> set (pcs s)" "WokenSig False \<notin> set (pcs s)" "Writing \<notin> set (pcs s)"
    using n by (auto simp: in_set_conv_nth)
  have "sharing s = 0" using i(1) no(1) by (auto simp: rw_counted_def count_if_0)
  moreover have "writers s = 0" using i(2) no(3) unfolding rw_exclusion_def by (metis nth_mem)
  ultimately have p: "pending s = 0" "WaitBcast False \<notin> set (pcs s)" using i(3) no(2) by (auto simp: rw_awake_def)
  have "\<not> at s t (WaitBcast False)" using p(2) by (metis nth_mem)
  moreover have "b = False" using assms(2) i(3) untimed_at [of s t] by (auto simp: rw_awake_def)
  ultimately show False
    using assms(2) p(1) i(1) count_if_pos [of t "pcs s" in_modify] by (auto simp: rw_counted_def)
qed

text \<open>
  With timeouts a wake-up can be lost: a writer whose timed wait expires just before the
  lock is released swallows the signal, and gives up without waking the readers that wait
  because of it. They stay asleep although the lock is free and all other threads are idle.
\<close>

theorem RWLock_timeout_loses_wakeup:
  "reach rw_init (rw_step UNIV)
     \<lparr>sharing = 0, pending = 0, waiting = 1, writers = 0, writeid = Some 0, pcs = [Idle, Idle, WaitBcast False]\<rparr>"
proof -
  let ?S = "\<lambda>p w k. \<lparr>sharing = 0, pending = p, waiting = w, writers = k, writeid = Some 0, pcs = []\<rparr>"
  have "reach rw_init (rw_step UNIV) (RWLock_new 3)"
    by (rule reach_init) (auto simp: rw_init_def)
  then have "reach rw_init (rw_step UNIV) (RWLock_modify 0 Inf (RWLock_new 3))"
    by (rule reach_step) (rule rw_step.modify; simp add: RWLock_new_def)
  then have "reach rw_init (rw_step UNIV) ((?S 0 0 1)\<lparr>pcs := [Writing, Idle, Idle]\<rparr>)"
    by (simp add: rw_defs RWLock_new_def numeral_3_eq_3)
  then have "reach rw_init (rw_step UNIV) (RWLock_modify 1 Finite ((?S 0 0 1)\<lparr>pcs := [Writing, Idle, Idle]\<rparr>))"
    by (rule reach_step) (rule rw_step.modify; simp)
  then have "reach rw_init (rw_step UNIV) ((?S 1 0 1)\<lparr>pcs := [Writing, WaitSig True, Idle]\<rparr>)"
    by (simp add: rw_defs)
  then have "reach rw_init (rw_step UNIV) (RWLock_access 2 Inf ((?S 1 0 1)\<lparr>pcs := [Writing, WaitSig True, Idle]\<rparr>))"
    by (rule reach_step) (rule rw_step.access; simp)
  then have "reach rw_init (rw_step UNIV) ((?S 1 1 1)\<lparr>pcs := [Writing, WaitSig True, WaitBcast False]\<rparr>)"
    by (simp add: rw_defs numeral_2_eq_2)
  then have "reach rw_init (rw_step UNIV) (goto 1 TimedSig ((?S 1 1 1)\<lparr>pcs := [Writing, WaitSig True, WaitBcast False]\<rparr>))"
    by (rule reach_step) (rule rw_step.expire_signal; simp)
  then have "reach rw_init (rw_step UNIV) ((?S 1 1 0)\<lparr>pcs := [Idle, TimedSig, WaitBcast False]\<rparr>)"
    by (rule reach_step)
      (rule rw_step.release [of 0]; simp add: RWLock_release_def signal_def wake_one_def is_waitsig_def upt_rec numeral_2_eq_2)
  then have "reach rw_init (rw_step UNIV) (rw_modify_timeout 1 ((?S 1 1 0)\<lparr>pcs := [Idle, TimedSig, WaitBcast False]\<rparr>))"
    by (rule reach_step) (rule rw_step.modify_timeout; simp)
  then show ?thesis by (simp add: rw_defs)
qed

lemma rw_run:
  "reach rw_init (rw_step {Zero, Inf})
     \<lparr>sharing = 0, pending = 1, waiting = 0, writers = 1, writeid = Some 0, pcs = [Writing, WaitSig False]\<rparr>"
proof -
  have "reach rw_init (rw_step {Zero, Inf}) (RWLock_new 2)"
    by (rule reach_init) (auto simp: rw_init_def)
  then have "reach rw_init (rw_step {Zero, Inf}) (RWLock_modify 0 Inf (RWLock_new 2))"
    by (rule reach_step) (rule rw_step.modify; simp add: RWLock_new_def)
  then have "reach rw_init (rw_step {Zero, Inf}) (RWLock_modify 1 Inf (RWLock_modify 0 Inf (RWLock_new 2)))"
    by (rule reach_step) (rule rw_step.modify; simp add: rw_defs RWLock_new_def)
  then show ?thesis by (simp add: rw_defs RWLock_new_def numeral_2_eq_2)
qed

lemma rw_step_mono: "rw_step T s t \<Longrightarrow> T \<subseteq> U \<Longrightarrow> rw_step U s t"
  by (induction rule: rw_step.induct) (auto intro: rw_step.intros)

lemma reach_mono: "reach rw_init (rw_step T) s \<Longrightarrow> T \<subseteq> U \<Longrightarrow> reach rw_init (rw_step U) s"
  by (induction rule: reach.induct) (auto intro: reach.intros rw_step_mono)

theorem RWLock_exclusion_witness:
  "count_if in_modify [Writing, WaitSig False] = 1 \<and> \<not> [Writing, WaitSig False] ! 1 = Sharing"
  using RWLock_exclusion [OF reach_mono [OF rw_run], of 0 1] by simp

theorem RWLock_no_lost_wakeup_witness:
  "\<exists>u < 2. [Writing, WaitSig False] ! u \<in> {Writing, Sharing, WokenSig False}"
  using RWLock_no_lost_wakeup [OF rw_run, of 1 False] by (auto simp: numeral_2_eq_2)

end
