(* ===== verification/Semaphore.thy ===== *)
theory Semaphore
  imports Prelude
begin

text \<open>
  The counting semaphore \<open>Semaphore\<close> of \<open>corelib/condition.cpp\<close>.

  A section between taking the mutex and waiting or unlocking is one step. A waiting thread
  is woken by a signal or without cause; a timed wait may also expire, after which a signal
  no longer reaches the thread. \<open>set\<close> signals in sections of their own, one per waiting
  thread it means to let in: \<open>Setting n\<close> is a thread with \<open>n\<close> signals to go. \<open>unsigned\<close>
  counters are natural numbers; \<open>used\<close> and \<open>waits\<close> are decremented only when positive.

  The last four fields of the state are not in the class: they record what has happened so
  far, and no operation reads or writes them. The steps count the waits that returned true
  (\<open>granted\<close>), the calls of \<open>release\<close> (\<open>released\<close>), those of them that found no unit in
  use (\<open>lost\<close>), and keep the largest limit there has been (\<open>peak\<close>).
\<close>

section \<open>State and operations\<close>

datatype spc = Idle | Wait bool | Woken bool | Expired | Setting nat

record semaphore =
  count :: nat
  used :: nat
  waits :: nat
  pcs :: "spc list"
  granted :: nat
  released :: nat
  lost :: nat
  peak :: nat

definition Semaphore_new :: "nat \<Rightarrow> nat \<Rightarrow> semaphore" where
  "Semaphore_new limit n =
     \<lparr>count = limit, used = 0, waits = 0, pcs = replicate n Idle, granted = 0, released = 0, lost = 0, peak = limit\<rparr>"

definition Semaphore_new_avail :: "nat \<Rightarrow> nat \<Rightarrow> nat \<Rightarrow> semaphore" where
  "Semaphore_new_avail limit avail n =
     \<lparr>count = limit, used = limit - avail, waits = 0, pcs = replicate n Idle, granted = 0, released = 0, lost = 0,
      peak = limit\<rparr>"

abbreviation goto :: "nat \<Rightarrow> spc \<Rightarrow> semaphore \<Rightarrow> semaphore" where
  "goto t p s \<equiv> s\<lparr>pcs := (pcs s)[t := p]\<rparr>"

fun wake :: "spc \<Rightarrow> spc" where
  "wake (Wait timed) = Woken timed"
| "wake p = p"

fun sleeping :: "spc \<Rightarrow> bool" where
  "sleeping (Wait timed) = True"
| "sleeping p = False"

definition signal :: "semaphore \<Rightarrow> semaphore list" where
  "signal s = map (\<lambda>ps. s\<lparr>pcs := ps\<rparr>) (wake_one sleeping wake (pcs s))"

definition broadcast :: "semaphore \<Rightarrow> semaphore" where
  "broadcast s = s\<lparr>pcs := map wake (pcs s)\<rparr>"

text \<open>After the wait: take a unit, unless the semaphore has been switched off.\<close>

definition take_unit :: "nat \<Rightarrow> semaphore \<Rightarrow> semaphore" where
  "take_unit t s = goto t Idle (if count s \<noteq> 0 then s\<lparr>used := used s + 1\<rparr> else s)"

text \<open>
  \<open>wait(timeout)\<close>, from the test of its loop, with its result: None as long as the thread
  waits.
\<close>

definition timed_loop :: "nat \<Rightarrow> semaphore \<Rightarrow> bool option \<times> semaphore" where
  "timed_loop t s =
     (if used s \<ge> count s then (None, goto t (Wait True) (s\<lparr>waits := waits s + 1\<rparr>))
      else (Some True, take_unit t s))"

definition Semaphore_wait_timed :: "nat \<Rightarrow> semaphore \<Rightarrow> bool option \<times> semaphore" where
  "Semaphore_wait_timed t s = timed_loop t s"

definition timed_resume :: "nat \<Rightarrow> semaphore \<Rightarrow> bool option \<times> semaphore" where
  "timed_resume t s =
     (let s = s\<lparr>waits := waits s - 1\<rparr>
      in if count s = 0 then (Some True, take_unit t s) else timed_loop t s)"

definition timed_expire :: "nat \<Rightarrow> semaphore \<Rightarrow> bool option \<times> semaphore" where
  "timed_expire t s = (Some False, goto t Idle (s\<lparr>waits := waits s - 1\<rparr>))"

text \<open>\<open>wait()\<close> tests the condition only once; it has no result, and \<open>Some True\<close> says that it returned.\<close>

definition Semaphore_wait :: "nat \<Rightarrow> semaphore \<Rightarrow> bool option \<times> semaphore" where
  "Semaphore_wait t s =
     (if used s \<ge> count s then (None, goto t (Wait False) (s\<lparr>waits := waits s + 1\<rparr>))
      else (Some True, take_unit t s))"

definition wait_resume :: "nat \<Rightarrow> semaphore \<Rightarrow> bool option \<times> semaphore" where
  "wait_resume t s = (Some True, take_unit t (s\<lparr>waits := waits s - 1\<rparr>))"

definition Semaphore_release :: "semaphore \<Rightarrow> semaphore list" where
  "Semaphore_release s =
     (let s = (if used s \<noteq> 0 then s\<lparr>used := used s - 1\<rparr> else s)
      in if waits s \<noteq> 0 then (if count s \<noteq> 0 then signal s else [broadcast s]) else [s])"

definition Semaphore_set :: "nat \<Rightarrow> nat \<Rightarrow> semaphore \<Rightarrow> semaphore" where
  "Semaphore_set t value s =
     (let s = s\<lparr>count := value\<rparr>
      in if used s \<ge> count s \<or> waits s = 0 then s
         else (let diff = count s - used s; diff = (if diff > waits s then waits s else diff)
               in goto t (Setting diff) s))"

definition set_signal :: "nat \<Rightarrow> nat \<Rightarrow> semaphore \<Rightarrow> semaphore list" where
  "set_signal t n s =
     map (goto t (if n = 0 then Idle else Setting n)) (signal s)"

section \<open>Steps\<close>

abbreviation at :: "semaphore \<Rightarrow> nat \<Rightarrow> spc \<Rightarrow> bool" where
  "at s t p \<equiv> t < length (pcs s) \<and> pcs s ! t = p"

text \<open>What the steps record of a call's result and of a release.\<close>

definition grant :: "bool option \<times> semaphore \<Rightarrow> semaphore" where
  "grant r = (if fst r = Some True then (snd r)\<lparr>granted := granted (snd r) + 1\<rparr> else snd r)"

definition note_release :: "semaphore \<Rightarrow> semaphore \<Rightarrow> semaphore" where
  "note_release s s' = s'\<lparr>released := released s + 1, lost := lost s + of_bool (used s = 0)\<rparr>"

text \<open>The parameter says which operations the threads use. \<open>set\<close> asserts a limit above 0.\<close>

datatype sem_op = OpWait | OpTimed | OpRelease | OpSet

inductive sem_step :: "sem_op set \<Rightarrow> semaphore \<Rightarrow> semaphore \<Rightarrow> bool" for A :: "sem_op set" where
  wait_timed: "at s t Idle \<Longrightarrow> OpTimed \<in> A \<Longrightarrow> sem_step A s (grant (Semaphore_wait_timed t s))"
| timed_wake: "at s t (Woken True) \<Longrightarrow> sem_step A s (grant (timed_resume t s))"
| timed_out: "at s t Expired \<Longrightarrow> sem_step A s (grant (timed_expire t s))"
| wait: "at s t Idle \<Longrightarrow> OpWait \<in> A \<Longrightarrow> sem_step A s (grant (Semaphore_wait t s))"
| wait_wake: "at s t (Woken False) \<Longrightarrow> sem_step A s (grant (wait_resume t s))"
| release: "at s t Idle \<Longrightarrow> OpRelease \<in> A \<Longrightarrow> s' \<in> set (Semaphore_release s) \<Longrightarrow>
    sem_step A s (note_release s s')"
| set: "at s t Idle \<Longrightarrow> OpSet \<in> A \<Longrightarrow> 0 < value \<Longrightarrow>
    sem_step A s ((Semaphore_set t value s)\<lparr>peak := max (peak s) value\<rparr>)"
| set_next: "at s t (Setting (Suc n)) \<Longrightarrow> s' \<in> set (set_signal t n s) \<Longrightarrow> sem_step A s s'"
| spurious: "at s t (Wait timed) \<Longrightarrow> sem_step A s (goto t (Woken timed) s)"
| expire: "at s t (Wait True) \<Longrightarrow> sem_step A s (goto t Expired s)"

definition sem_init :: "nat \<Rightarrow> nat \<Rightarrow> semaphore \<Rightarrow> bool" where
  "sem_init limit avail s \<longleftrightarrow> (\<exists>n. 0 < limit \<and> avail \<le> limit \<and> s = Semaphore_new_avail limit avail n)"

lemma Semaphore_new_all: "Semaphore_new limit n = Semaphore_new_avail limit limit n"
  by (simp add: Semaphore_new_def Semaphore_new_avail_def)

section \<open>Invariants\<close>

fun in_wait :: "spc \<Rightarrow> bool" where
  "in_wait (Wait b) = True" | "in_wait (Woken b) = True" | "in_wait Expired = True" | "in_wait p = False"

fun woken :: "spc \<Rightarrow> bool" where
  "woken (Woken b) = True" | "woken p = False"

fun no_set :: "spc \<Rightarrow> bool" where
  "no_set (Setting n) = False" | "no_set p = True"

fun timed_only :: "spc \<Rightarrow> bool" where
  "timed_only (Wait b) = b" | "timed_only (Woken b) = b" | "timed_only p = True"

text \<open>
  Free units and sleeping threads: as many threads are on their way as there are units.
\<close>

definition sem_live :: "semaphore \<Rightarrow> bool" where
  "sem_live s \<longleftrightarrow>
     0 < count s \<and> list_all no_set (pcs s) \<and> waits s = count_if in_wait (pcs s)
     \<and> (count_if sleeping (pcs s) \<noteq> 0 \<longrightarrow> count s - used s \<le> count_if woken (pcs s))"

text \<open>
  Every unit is accounted for: the units in use are those that were not available at first
  and those handed out, less the effective releases.
\<close>

definition sem_bounded :: "sem_op set \<Rightarrow> nat \<Rightarrow> nat \<Rightarrow> semaphore \<Rightarrow> bool" where
  "sem_bounded A limit avail s \<longleftrightarrow>
     0 < count s \<and> count s \<le> peak s \<and> limit \<le> peak s \<and> (OpSet \<in> A \<or> peak s = limit) \<and> used s \<le> peak s
     \<and> list_all timed_only (pcs s) \<and> granted s + (limit - avail) + lost s = used s + released s"

lemma sem_count_move:
  assumes "at s t p"
  shows "count_if in_wait ((pcs s)[t := q]) + of_bool (in_wait p) = count_if in_wait (pcs s) + of_bool (in_wait q)"
    "count_if woken ((pcs s)[t := q]) + of_bool (woken p) = count_if woken (pcs s) + of_bool (woken q)"
    "count_if sleeping ((pcs s)[t := q]) + of_bool (sleeping p) = count_if sleeping (pcs s) + of_bool (sleeping q)"
  using assms count_if_update [of t "pcs s" _ q] by fastforce+

lemma sem_all_at: "list_all P (pcs s) \<Longrightarrow> at s t p \<Longrightarrow> P p"
  by (auto simp: list_all_iff)

lemma sem_signal_cases:
  assumes "r \<in> set (signal s)"
  obtains "count_if sleeping (pcs s) = 0" "r = s" | u b where "at s u (Wait b)" "r = goto u (Woken b) s"
proof -
  obtain ps where ps: "ps \<in> set (wake_one sleeping wake (pcs s))" "r = s\<lparr>pcs := ps\<rparr>"
    using assms by (auto simp: signal_def)
  from ps(1) show thesis
  proof (cases rule: wake_one_cases)
    case 1
    then show thesis using that(1) ps(2) by (simp add: count_if_0)
  next
    case (2 u)
    then show thesis using that(2) ps(2) by (cases "pcs s ! u") auto
  qed
qed

lemma sleeping_in_wait: "sleeping p \<Longrightarrow> in_wait p"
  by (cases p) auto

lemma live_step: "sem_step A s s' \<Longrightarrow> OpSet \<notin> A \<Longrightarrow> sem_live s \<Longrightarrow> sem_live s'"
proof (induction rule: sem_step.induct)
  case (release s t s')
  have n: "sem_live (note_release s s') = sem_live s'" by (simp add: note_release_def sem_live_def)
  define s1 where "s1 = (if used s \<noteq> 0 then s\<lparr>used := used s - 1\<rparr> else s)"
  have r: "s' \<in> set (if waits s1 \<noteq> 0 then signal s1 else [s1])"
    using release(3,5) by (auto simp: Semaphore_release_def Let_def s1_def sem_live_def split: if_splits)
  have s1: "pcs s1 = pcs s" "waits s1 = waits s" "count s1 = count s" "count s1 - used s1 \<le> Suc (count s - used s)"
    by (auto simp: s1_def)
  have "sem_live s'"
  proof (cases "waits s = 0")
    case True
    then have "count_if sleeping (pcs s) = 0"
      using release(5) sleeping_in_wait by (auto simp: sem_live_def count_if_0)
    then show ?thesis using r s1 True release(5) by (simp add: sem_live_def)
  next
    case False
    then have "s' \<in> set (signal s1)" using r s1 by simp
    then show ?thesis
    proof (cases rule: sem_signal_cases)
      case 1
      then show ?thesis using release(5) s1 by (simp add: sem_live_def)
    next
      case (2 u b)
      then show ?thesis using release(5) s1 sem_count_move [of u s "Wait b" "Woken b"]
        by (auto simp: sem_live_def list_all_update)
    qed
  qed
  then show ?case by (simp add: n)
next
  case (wait_timed s t)
  then show ?case using sem_count_move [of t s Idle "Wait True"] sem_count_move [of t s Idle Idle]
    by (auto simp: grant_def Semaphore_wait_timed_def timed_loop_def take_unit_def sem_live_def list_all_update)
next
  case (timed_wake s t)
  then show ?case using sem_count_move [of t s "Woken True" "Wait True"] sem_count_move [of t s "Woken True" Idle]
    by (auto simp: grant_def timed_resume_def timed_loop_def take_unit_def sem_live_def list_all_update Let_def)
next
  case (timed_out s t)
  then show ?case using sem_count_move [of t s Expired Idle] by (auto simp: grant_def timed_expire_def sem_live_def list_all_update)
next
  case (wait s t)
  then show ?case using sem_count_move [of t s Idle "Wait False"] sem_count_move [of t s Idle Idle]
    by (auto simp: grant_def Semaphore_wait_def take_unit_def sem_live_def list_all_update)
next
  case (wait_wake s t)
  then show ?case using sem_count_move [of t s "Woken False" Idle]
    by (auto simp: grant_def wait_resume_def take_unit_def sem_live_def list_all_update)
next
  case (spurious s t timed)
  then show ?case using sem_count_move [of t s "Wait timed" "Woken timed"] by (auto simp: sem_live_def list_all_update)
next
  case (expire s t)
  then show ?case using sem_count_move [of t s "Wait True" Expired] by (auto simp: sem_live_def list_all_update)
next
  case (set_next s t n s')
  then show ?case using sem_all_at [of no_set s t "Setting (Suc n)"] by (simp add: sem_live_def)
qed simp

text \<open>A signal moves one thread at most and changes no counter.\<close>

lemma signal_timed:
  assumes "r \<in> set (signal s)" "list_all timed_only (pcs s)"
  obtains ps where "r = s\<lparr>pcs := ps\<rparr>" "list_all timed_only ps"
  using assms(1)
proof (cases rule: sem_signal_cases)
  case 1
  then show thesis using that [of "pcs s"] assms(2) by simp
next
  case (2 u b)
  then show thesis using that assms(2) sem_all_at [OF assms(2), of u "Wait b"] by (simp add: list_all_update)
qed

lemma signal_bounded: "r \<in> set (signal s) \<Longrightarrow> sem_bounded A limit avail s \<Longrightarrow> sem_bounded A limit avail r"
  by (erule signal_timed) (auto simp: sem_bounded_def)

lemma bounded_goto: "sem_bounded A limit avail s \<Longrightarrow> timed_only p \<Longrightarrow> sem_bounded A limit avail (goto t p s)"
  by (simp add: sem_bounded_def list_all_update)

lemma bounded_wait:
  "sem_bounded A limit avail s \<Longrightarrow> sem_bounded A limit avail (grant (timed_loop t (s\<lparr>waits := w\<rparr>)))"
  by (auto simp: grant_def timed_loop_def take_unit_def sem_bounded_def list_all_update)

lemma release_bounded:
  assumes "s' \<in> set (Semaphore_release s)" "sem_bounded A limit avail s"
  shows "sem_bounded A limit avail (note_release s s')"
proof -
  define s1 where "s1 = (if used s \<noteq> 0 then s\<lparr>used := used s - 1\<rparr> else s)"
  have s1: "count s1 \<noteq> 0" "list_all timed_only (pcs s1)" "sem_bounded A limit avail (note_release s s1)"
    using assms(2) by (auto simp: s1_def sem_bounded_def note_release_def)
  have "s' = s1 \<or> s' \<in> set (signal s1)"
    using assms(1) s1(1) by (auto simp: Semaphore_release_def Let_def s1_def split: if_splits)
  then obtain ps where "s' = s1\<lparr>pcs := ps\<rparr>" "list_all timed_only ps"
  proof
    assume "s' = s1"
    then show thesis using that [of "pcs s1"] s1(2) by simp
  qed (rule signal_timed [OF _ s1(2)], assumption, rule that)
  then show ?thesis using s1(3) by (simp add: note_release_def sem_bounded_def)
qed

lemma bounded_step:
  "sem_step A s s' \<Longrightarrow> OpWait \<notin> A \<Longrightarrow> sem_bounded A limit avail s \<Longrightarrow> sem_bounded A limit avail s'"
proof (induction rule: sem_step.induct)
  case (wait_timed s t)
  then show ?case using bounded_wait [of A limit avail s t "waits s"] by (simp add: Semaphore_wait_timed_def)
next
  case (timed_wake s t)
  then show ?case using bounded_wait [of A limit avail s t "waits s - 1"]
    by (simp add: timed_resume_def Let_def sem_bounded_def)
next
  case (timed_out s t)
  then show ?case by (simp add: grant_def timed_expire_def sem_bounded_def list_all_update)
next
  case (wait_wake s t)
  then show ?case using sem_all_at [of timed_only s t "Woken False"] by (simp add: sem_bounded_def)
next
  case (release s t s')
  then show ?case using release_bounded by blast
next
  case (set s t "value")
  then show ?case by (auto simp: Semaphore_set_def Let_def sem_bounded_def list_all_update)
next
  case (set_next s t n s')
  then obtain r where "s' = goto t (if n = 0 then Idle else Setting n) r" "r \<in> set (signal s)"
    by (auto simp: set_signal_def)
  then show ?case using set_next.prems signal_bounded bounded_goto [of A limit avail r] by auto
next
  case (spurious s t timed)
  then show ?case using sem_all_at [of timed_only s t "Wait timed"] by (simp add: sem_bounded_def list_all_update)
next
  case (expire s t)
  then show ?case by (simp add: sem_bounded_def list_all_update)
qed simp

lemma count_replicate_idle: "count_if sleeping (replicate n Idle) = 0" "count_if in_wait (replicate n Idle) = 0"
  by (simp_all add: count_if_def)

interpretation sem: invariant_system "sem_init limit avail" "sem_step {OpWait, OpTimed, OpRelease}" sem_live
  for limit avail
proof
  show "sem_live s" if "sem_init limit avail s" for s
    using that by (auto simp: sem_init_def sem_live_def Semaphore_new_avail_def count_replicate_idle list_all_iff)
  show "sem_live t" if "sem_live s" "sem_step {OpWait, OpTimed, OpRelease} s t" for s t
    using that live_step by blast
qed

interpretation sem_timed: invariant_system "sem_init limit avail" "sem_step (A - {OpWait})" "sem_bounded A limit avail"
  for limit avail A
proof
  show "sem_bounded A limit avail s" if "sem_init limit avail s" for s
    using that by (auto simp: sem_init_def sem_bounded_def Semaphore_new_avail_def list_all_iff)
  show "sem_bounded A limit avail t" if "sem_bounded A limit avail s" "sem_step (A - {OpWait}) s t" for s t
    using that bounded_step [of "A - {OpWait}" s t limit avail] by (simp add: sem_bounded_def)
qed

section \<open>Properties\<close>

text \<open>
  C11: A semaphore made with a limit above 0 of which \<open>avail\<close> units are available, used by
  timed waits, releases and, when A holds OpSet, changes of the limit to a value above 0 in
  any order, with timeouts and spurious wake-ups. Every unit is accounted for: the waits
  that returned true and the units not available at first are the units in use and the
  effective releases, so a wait that expires takes nothing. No more units are in use than
  the largest limit so far, and the waits that returned true are never more than the units
  available at first, the releases, and what \<open>set\<close> added to the limit. The untimed
  \<open>wait()\<close> is left out: it hands out more (\<open>Semaphore_wait_overcommits\<close>).
\<close>

theorem Semaphore_timed_bounded:
  assumes "reach (sem_init limit avail) (sem_step (A - {OpWait})) s"
  shows "granted s + (limit - avail) + lost s = used s + released s \<and> used s \<le> peak s
    \<and> granted s \<le> avail + released s + (peak s - limit) \<and> (OpSet \<notin> A \<longrightarrow> count s \<le> limit \<and> peak s = limit)"
  using sem_timed.reach_inv [OF assms] by (auto simp: sem_bounded_def)

abbreviation sem_at :: "nat \<Rightarrow> nat \<Rightarrow> spc list \<Rightarrow> nat \<Rightarrow> nat \<Rightarrow> semaphore" where
  "sem_at u w ps g r \<equiv> \<lparr>count = 1, used = u, waits = w, pcs = ps, granted = g, released = r, lost = 0, peak = 1\<rparr>"

text \<open>
  With \<open>wait()\<close>, which does not test again after it was woken, it can: between a release
  and the woken thread's turn another thread takes the unit, and the woken thread takes it
  too. Three waits have then returned after one release of a semaphore of one unit.
\<close>

theorem Semaphore_wait_overcommits:
  "reach (sem_init 1 1) (sem_step {OpWait, OpRelease}) (sem_at 2 0 [Idle, Idle] 3 1)"
proof -
  let ?R = "reach (sem_init 1 1) (sem_step {OpWait, OpRelease})"
  have "?R (Semaphore_new 1 2)" by (rule reach_init) (auto simp: sem_init_def Semaphore_new_all)
  then have "?R (grant (Semaphore_wait 0 (Semaphore_new 1 2)))"
    by (rule reach_step) (rule sem_step.wait; simp add: Semaphore_new_def)
  then have "?R (sem_at 1 0 [Idle, Idle] 1 0)"
    by (simp add: grant_def Semaphore_wait_def take_unit_def Semaphore_new_def numeral_2_eq_2)
  then have "?R (grant (Semaphore_wait 1 (sem_at 1 0 [Idle, Idle] 1 0)))"
    by (rule reach_step) (rule sem_step.wait; simp)
  then have "?R (sem_at 1 1 [Idle, Wait False] 1 0)" by (simp add: grant_def Semaphore_wait_def)
  then have "?R (note_release (sem_at 1 1 [Idle, Wait False] 1 0) (sem_at 0 1 [Idle, Woken False] 1 0))"
    by (rule reach_step) (rule sem_step.release [of 0]; simp add: Semaphore_release_def signal_def wake_one_def upt_rec)
  then have "?R (sem_at 0 1 [Idle, Woken False] 1 1)" by (simp add: note_release_def)
  then have "?R (grant (Semaphore_wait 0 (sem_at 0 1 [Idle, Woken False] 1 1)))"
    by (rule reach_step) (rule sem_step.wait; simp)
  then have "?R (sem_at 1 1 [Idle, Woken False] 2 1)"
    by (simp add: grant_def Semaphore_wait_def take_unit_def numeral_2_eq_2)
  then have "?R (grant (wait_resume 1 (sem_at 1 1 [Idle, Woken False] 2 1)))"
    by (rule reach_step) (rule sem_step.wait_wake; simp)
  then show ?thesis by (simp add: grant_def wait_resume_def take_unit_def eval_nat_numeral)
qed

text \<open>
  No wake-up is lost: while threads sleep on the semaphore, at least as many woken
  threads are on their way as there are free units, whatever mix of waits and timeouts is
  used. \<open>waits\<close> counts the threads inside a wait.
\<close>

theorem Semaphore_no_lost_wakeup:
  assumes "reach (sem_init limit avail) (sem_step {OpWait, OpTimed, OpRelease}) s" and "at s t (Wait b)"
  shows "count s - used s \<le> count_if woken (pcs s) \<and> waits s = count_if in_wait (pcs s)"
  using sem.reach_inv [OF assms(1)] assms(2) count_if_pos [of t "pcs s" sleeping] by (auto simp: sem_live_def)

lemma sem_run:
  "OpTimed \<in> A \<Longrightarrow> reach (sem_init 1 1) (sem_step A) (sem_at 1 1 [Idle, Wait True] 1 0)"
proof -
  assume A: "OpTimed \<in> A"
  have "reach (sem_init 1 1) (sem_step A) (Semaphore_new 1 2)"
    by (rule reach_init) (auto simp: sem_init_def Semaphore_new_all)
  then have "reach (sem_init 1 1) (sem_step A) (grant (Semaphore_wait_timed 0 (Semaphore_new 1 2)))"
    by (rule reach_step) (rule sem_step.wait_timed; simp add: Semaphore_new_def A)
  then have "reach (sem_init 1 1) (sem_step A) (sem_at 1 0 [Idle, Idle] 1 0)"
    by (simp add: grant_def Semaphore_wait_timed_def timed_loop_def take_unit_def Semaphore_new_def numeral_2_eq_2)
  then have "reach (sem_init 1 1) (sem_step A) (grant (Semaphore_wait_timed 1 (sem_at 1 0 [Idle, Idle] 1 0)))"
    by (rule reach_step) (rule sem_step.wait_timed; simp add: A)
  then show ?thesis by (simp add: grant_def Semaphore_wait_timed_def timed_loop_def)
qed

theorem Semaphore_timed_bounded_witness:
  "granted (sem_at 1 1 [Idle, Wait True] 1 0) \<le> 1 + released (sem_at 1 1 [Idle, Wait True] 1 0)
     \<and> reach (sem_init 1 1) (sem_step {OpTimed, OpRelease}) (sem_at 1 1 [Idle, Wait True] 1 0)"
proof -
  have A: "{OpTimed, OpRelease} - {OpWait} = {OpTimed, OpRelease}" by auto
  show ?thesis
    using Semaphore_timed_bounded [of 1 1 "{OpTimed, OpRelease}" "sem_at 1 1 [Idle, Wait True] 1 0"]
      sem_run [of "{OpTimed, OpRelease}"] by (simp add: A)
qed

theorem Semaphore_no_lost_wakeup_witness: "count_if in_wait [Idle, Wait True] = 1"
  using Semaphore_no_lost_wakeup [OF sem_run, of 1 True] by simp

end
