(* ===== verification/Barrier.thy ===== *)
theory Barrier
  imports Prelude
begin

text \<open>
  The thread barrier \<open>Barrier\<close> of \<open>corelib/condition.cpp\<close>.

  A section between taking the mutex and waiting or unlocking is one step. \<open>wait\<close> does not
  loop: a thread that wakes up, for whatever reason, has passed.

  The field \<open>early\<close> is not in the class and no operation reads or writes it: the steps
  count in it the threads of the current group that have left before the group was complete,
  because their time expired or because they woke up without cause.
\<close>

section \<open>State and operations\<close>

datatype bpc = Idle | Wait bool | Woken

record barrier =
  count :: nat
  waits :: nat
  pcs :: "bpc list"
  early :: nat

definition Barrier_new :: "nat \<Rightarrow> nat \<Rightarrow> barrier" where
  "Barrier_new limit n = \<lparr>count = limit, waits = 0, pcs = replicate n Idle, early = 0\<rparr>"

abbreviation goto :: "nat \<Rightarrow> bpc \<Rightarrow> barrier \<Rightarrow> barrier" where
  "goto t p s \<equiv> s\<lparr>pcs := (pcs s)[t := p]\<rparr>"

fun sleeping :: "bpc \<Rightarrow> bool" where
  "sleeping (Wait timed) = True" | "sleeping p = False"

definition broadcast :: "barrier \<Rightarrow> barrier" where
  "broadcast s = s\<lparr>pcs := map (\<lambda>p. if sleeping p then Woken else p) (pcs s)\<rparr>"

definition Barrier_destroy :: "barrier \<Rightarrow> barrier" where
  "Barrier_destroy s = (if waits s \<noteq> 0 then broadcast s else s)"

definition Barrier_set :: "nat \<Rightarrow> barrier \<Rightarrow> barrier" where
  "Barrier_set limit s =
     (let s = s\<lparr>count := limit\<rparr>
      in if count s \<le> waits s then broadcast (s\<lparr>waits := 0\<rparr>) else s)"

definition Barrier_dec :: "barrier \<Rightarrow> barrier" where
  "Barrier_dec s = (if count s \<noteq> 0 then s\<lparr>count := count s - 1\<rparr> else s)"

definition Barrier_dec_value :: "barrier \<Rightarrow> nat \<times> barrier" where
  "Barrier_dec_value s =
     (let s = (if count s \<noteq> 0 then s\<lparr>count := count s - 1\<rparr> else s) in (count s, s))"

definition Barrier_inc :: "barrier \<Rightarrow> barrier" where
  "Barrier_inc s =
     (let s = s\<lparr>count := count s + 1\<rparr>
      in if count s \<le> waits s then broadcast (s\<lparr>waits := 0\<rparr>) else s)"

definition Barrier_inc_value :: "barrier \<Rightarrow> nat \<times> barrier" where
  "Barrier_inc_value s =
     (let s = s\<lparr>count := count s + 1\<rparr>;
          s = (if count s \<le> waits s then broadcast (s\<lparr>waits := 0\<rparr>) else s)
      in (count s, s))"

text \<open>The common part of \<open>wait()\<close> and \<open>wait(timeout)\<close>, up to the wait.\<close>

definition barrier_arrive :: "bool \<Rightarrow> nat \<Rightarrow> barrier \<Rightarrow> barrier" where
  "barrier_arrive timed t s =
     (if count s = 0 then s
      else
        (let s = s\<lparr>waits := waits s + 1\<rparr>
         in if waits s \<ge> count s then broadcast (s\<lparr>waits := 0\<rparr>)
            else goto t (Wait timed) s))"

definition Barrier_wait :: "nat \<Rightarrow> barrier \<Rightarrow> barrier" where
  "Barrier_wait t s = barrier_arrive False t s"

definition Barrier_wait_timed :: "nat \<Rightarrow> barrier \<Rightarrow> barrier" where
  "Barrier_wait_timed t s = barrier_arrive True t s"

section \<open>Steps\<close>

abbreviation at :: "barrier \<Rightarrow> nat \<Rightarrow> bpc \<Rightarrow> bool" where
  "at s t p \<equiv> t < length (pcs s) \<and> pcs s ! t = p"

datatype barrier_op = OpWait | OpTimed | OpResize | OpDec | OpSpurious

text \<open>A group is over when the counter has gone back to 0.\<close>

definition settle :: "barrier \<Rightarrow> barrier" where
  "settle s = (if waits s = 0 then s\<lparr>early := 0\<rparr> else s)"

definition leave :: "nat \<Rightarrow> bpc \<Rightarrow> barrier \<Rightarrow> barrier" where
  "leave t p s = (goto t p s)\<lparr>early := early s + 1\<rparr>"

inductive barrier_step :: "barrier_op set \<Rightarrow> barrier \<Rightarrow> barrier \<Rightarrow> bool" for A :: "barrier_op set" where
  wait: "at s t Idle \<Longrightarrow> OpWait \<in> A \<Longrightarrow> barrier_step A s (settle (Barrier_wait t s))"
| wait_timed: "at s t Idle \<Longrightarrow> OpTimed \<in> A \<Longrightarrow> barrier_step A s (settle (Barrier_wait_timed t s))"
| pass: "at s t Woken \<Longrightarrow> barrier_step A s (goto t Idle s)"
| expire: "at s t (Wait True) \<Longrightarrow> barrier_step A s (leave t Idle s)"
| spurious: "at s t (Wait timed) \<Longrightarrow> OpSpurious \<in> A \<Longrightarrow> barrier_step A s (leave t Woken s)"
| set: "OpResize \<in> A \<Longrightarrow> 0 < limit \<Longrightarrow> barrier_step A s (settle (Barrier_set limit s))"
| inc: "OpResize \<in> A \<Longrightarrow> barrier_step A s (settle (Barrier_inc s))"
| dec: "OpDec \<in> A \<Longrightarrow> barrier_step A s (Barrier_dec s)"

definition barrier_init :: "barrier \<Rightarrow> bool" where
  "barrier_init s \<longleftrightarrow> (\<exists>limit n. 0 < limit \<and> s = Barrier_new limit n)"

lemma barrier_init_new: "0 < limit \<Longrightarrow> barrier_init (Barrier_new limit n)"
  by (auto simp: barrier_init_def)

section \<open>The invariant\<close>

text \<open>
  \<open>waits\<close> is the number of the threads of the group that have arrived: those that sleep
  and those that left early. Unless \<open>dec\<close> is used, a thread of the group is still missing.
\<close>

definition barrier_inv :: "barrier_op set \<Rightarrow> barrier \<Rightarrow> bool" where
  "barrier_inv A s \<longleftrightarrow>
     waits s = count_if sleeping (pcs s) + early s \<and> (OpDec \<in> A \<or> waits s < count s)
     \<and> (OpTimed \<in> A \<or> Wait True \<notin> set (pcs s)) \<and> (OpTimed \<in> A \<or> OpSpurious \<in> A \<or> early s = 0)"

lemma broadcast_none: "count_if sleeping (pcs (broadcast s)) = 0" "Wait b \<notin> set (pcs (broadcast s))"
  by (auto simp: broadcast_def count_if_0)

lemma broadcast_fields [simp]: "count (broadcast s) = count s" "waits (broadcast s) = waits s" "early (broadcast s) = early s"
  by (simp_all add: broadcast_def)

lemma barrier_move:
  "at s t p \<Longrightarrow> count_if sleeping ((pcs s)[t := q]) + of_bool (sleeping p) = count_if sleeping (pcs s) + of_bool (sleeping q)"
  using count_if_update [of t "pcs s" sleeping q] by auto

lemma settle_inv: "barrier_inv A s \<Longrightarrow> barrier_inv A (settle s)"
  by (auto simp: settle_def barrier_inv_def)

text \<open>A group that is released leaves an empty barrier.\<close>

lemma release_group_inv:
  "OpDec \<in> A \<or> 0 < count s \<Longrightarrow> barrier_inv A (settle (broadcast (s\<lparr>waits := 0\<rparr>)))"
  by (simp add: settle_def barrier_inv_def broadcast_none)

lemma arrive_inv:
  assumes "barrier_inv A s" "at s t Idle" "timed \<longrightarrow> OpTimed \<in> A"
  shows "barrier_inv A (settle (barrier_arrive timed t s))"
proof -
  consider "count s = 0" | "count s \<noteq> 0" "waits s + 1 \<ge> count s" | "count s \<noteq> 0" "waits s + 1 < count s" by linarith
  then show ?thesis
  proof cases
    case 1
    then show ?thesis using assms(1) by (simp add: barrier_arrive_def settle_inv)
  next
    case 2
    then show ?thesis using release_group_inv [of A "s\<lparr>waits := waits s + 1\<rparr>"] by (simp add: barrier_arrive_def)
  next
    case 3
    then show ?thesis
      using assms barrier_move [of t s Idle "Wait timed"] notin_update [of "Wait True" "pcs s" "Wait timed" t]
      by (auto simp: barrier_arrive_def settle_def barrier_inv_def)
  qed
qed

lemma leave_inv:
  assumes "barrier_inv A s" "at s t (Wait b)" "p \<in> {Idle, Woken}" "b \<and> OpTimed \<in> A \<or> OpSpurious \<in> A"
  shows "barrier_inv A (leave t p s)"
  using assms barrier_move [of t s "Wait b" p] notin_update [of "Wait True" "pcs s" p t]
  by (auto simp: leave_def barrier_inv_def)

lemma resize_inv:
  assumes "barrier_inv A s" "0 < limit"
  shows "barrier_inv A (settle (Barrier_set limit s))"
proof (cases "limit \<le> waits s")
  case True
  then show ?thesis using assms(2) release_group_inv [of A "s\<lparr>count := limit\<rparr>"] by (simp add: Barrier_set_def)
next
  case False
  then show ?thesis using assms by (intro settle_inv) (simp add: Barrier_set_def barrier_inv_def)
qed

lemma Barrier_inc_set: "Barrier_inc s = Barrier_set (count s + 1) s"
  by (simp add: Barrier_inc_def Barrier_set_def)

lemma barrier_inv_step: "barrier_step A s s' \<Longrightarrow> barrier_inv A s \<Longrightarrow> barrier_inv A s'"
proof (induction rule: barrier_step.induct)
  case (wait s t)
  then show ?case using arrive_inv [of A s t False] by (simp add: Barrier_wait_def)
next
  case (wait_timed s t)
  then show ?case using arrive_inv [of A s t True] by (simp add: Barrier_wait_timed_def)
next
  case (pass s t)
  then show ?case
    using barrier_move [of t s Woken Idle] notin_update [of "Wait True" "pcs s" Idle t] by (auto simp: barrier_inv_def)
next
  case (expire s t)
  moreover have "OpTimed \<in> A" using expire nth_mem [of t "pcs s"] by (auto simp: barrier_inv_def)
  ultimately show ?case using leave_inv [of A s t True Idle] by simp
next
  case (spurious s t timed)
  then show ?case using leave_inv [of A s t timed Woken] by simp
next
  case (set limit s)
  then show ?case using resize_inv by blast
next
  case (inc s)
  then show ?case using resize_inv [of A s "count s + 1"] by (simp add: Barrier_inc_set)
next
  case (dec s)
  then show ?case by (auto simp: barrier_inv_def Barrier_dec_def)
qed

interpretation barrier: invariant_system barrier_init "barrier_step A" "barrier_inv A" for A
proof
  show "barrier_inv A s" if "barrier_init s" for s
    using that by (auto simp: barrier_init_def barrier_inv_def Barrier_new_def count_if_def)
  show "barrier_inv A t" if "barrier_inv A s" "barrier_step A s t" for s t
    using that barrier_inv_step by blast
qed

section \<open>Properties\<close>

text \<open>
  C29: Whatever operations A the threads use, with timed waits that expire and threads that
  wake up without cause when A allows them: \<open>waits\<close> counts the threads of the current group
  that have arrived, those that sleep and those that left early, and none leaves early
  unless its wait is timed or it wakes without cause. As long as \<open>dec\<close> is not used a group
  that is complete has been released: fewer than the limit have arrived. A thread that
  arrives, with either form of \<open>wait\<close>, at a barrier whose limit is not 0 sleeps as long as
  the group is not complete with it; otherwise all that sleep are woken, the thread itself
  passes, and the barrier is empty for the next group. The threads that left early stay
  counted (\<open>Barrier_defects\<close>), so a group then passes with as many fewer.
\<close>

theorem Barrier_groups:
  assumes "reach barrier_init (barrier_step A) s" and "at s t Idle"
  shows "waits s = count_if sleeping (pcs s) + early s
    \<and> (OpTimed \<notin> A \<and> OpSpurious \<notin> A \<longrightarrow> early s = 0)
    \<and> (OpDec \<notin> A \<longrightarrow> count_if sleeping (pcs s) + early s < count s)
    \<and> (count s \<noteq> 0 \<longrightarrow>
        (if count_if sleeping (pcs s) + early s + 1 < count s
         then at (Barrier_wait t s) t (Wait False) \<and> at (Barrier_wait_timed t s) t (Wait True)
         else Barrier_wait_timed t s = Barrier_wait t s \<and> waits (Barrier_wait t s) = 0
           \<and> count_if sleeping (pcs (Barrier_wait t s)) = 0 \<and> at (Barrier_wait t s) t Idle
           \<and> (\<forall>u b. at s u (Wait b) \<longrightarrow> at (Barrier_wait t s) u Woken)))"
proof -
  have i: "barrier_inv A s" using assms(1) by (rule barrier.reach_inv)
  have b: "at (broadcast s') t Idle \<and> (\<forall>u b. at s u (Wait b) \<longrightarrow> at (broadcast s') u Woken)"
    if "pcs s' = pcs s" for s' using that assms(2) by (simp add: broadcast_def)
  have "if waits s + 1 < count s
     then at (Barrier_wait t s) t (Wait False) \<and> at (Barrier_wait_timed t s) t (Wait True)
     else Barrier_wait_timed t s = Barrier_wait t s \<and> waits (Barrier_wait t s) = 0
       \<and> count_if sleeping (pcs (Barrier_wait t s)) = 0 \<and> at (Barrier_wait t s) t Idle
       \<and> (\<forall>u b. at s u (Wait b) \<longrightarrow> at (Barrier_wait t s) u Woken)" if "count s \<noteq> 0"
    using assms(2) that b [of "s\<lparr>waits := 0\<rparr>"]
    by (simp add: Barrier_wait_def Barrier_wait_timed_def barrier_arrive_def broadcast_none)
  then show ?thesis using i by (auto simp: barrier_inv_def)
qed

text \<open>
  A timed wait that expires stays counted: the barrier of two then lets a single thread
  through. Lowering the limit with \<open>dec\<close> below the number of waiting threads does not wake
  them: they sleep although as many threads as the limit have arrived.
\<close>

theorem Barrier_defects:
  "reach barrier_init (barrier_step {OpWait, OpTimed}) \<lparr>count = 2, waits = 1, pcs = [Idle, Idle], early = 1\<rparr>
   \<and> Barrier_wait 1 \<lparr>count = 2, waits = 1, pcs = [Idle, Idle], early = 1\<rparr>
       = \<lparr>count = 2, waits = 0, pcs = [Idle, Idle], early = 1\<rparr>
   \<and> Barrier_dec (Barrier_wait 1 (Barrier_wait 0 (Barrier_new 3 2)))
       = \<lparr>count = 2, waits = 2, pcs = [Wait False, Wait False], early = 0\<rparr>"
proof -
  let ?R = "reach barrier_init (barrier_step {OpWait, OpTimed})"
  have "?R (Barrier_new 2 2)" by (intro reach_init barrier_init_new) simp
  then have "?R (settle (Barrier_wait_timed 0 (Barrier_new 2 2)))"
    by (rule reach_step) (rule barrier_step.wait_timed; simp add: Barrier_new_def)
  then have "?R \<lparr>count = 2, waits = 1, pcs = [Wait True, Idle], early = 0\<rparr>"
    by (simp add: settle_def Barrier_wait_timed_def barrier_arrive_def Barrier_new_def numeral_2_eq_2)
  then have "?R (leave 0 Idle \<lparr>count = 2, waits = 1, pcs = [Wait True, Idle], early = 0\<rparr>)"
    by (rule reach_step) (rule barrier_step.expire; simp)
  then show ?thesis
    by (simp add: leave_def Barrier_wait_def barrier_arrive_def Barrier_new_def Barrier_dec_def
        broadcast_def numeral_2_eq_2 numeral_3_eq_3)
qed

lemma barrier_run:
  assumes "OpWait \<in> A"
  shows "reach barrier_init (barrier_step A) \<lparr>count = 2, waits = 1, pcs = [Wait False, Idle], early = 0\<rparr>"
proof -
  have "reach barrier_init (barrier_step A) (Barrier_new 2 2)"
    by (intro reach_init barrier_init_new) simp
  then have "reach barrier_init (barrier_step A) (settle (Barrier_wait 0 (Barrier_new 2 2)))"
    by (rule reach_step) (rule barrier_step.wait; simp add: Barrier_new_def assms)
  then show ?thesis by (simp add: settle_def Barrier_wait_def barrier_arrive_def Barrier_new_def numeral_2_eq_2)
qed

theorem Barrier_groups_witness:
  "reach barrier_init (barrier_step UNIV) \<lparr>count = 2, waits = 1, pcs = [Wait False, Idle], early = 0\<rparr>
    \<and> count_if sleeping (pcs (Barrier_wait 1 \<lparr>count = 2, waits = 1, pcs = [Wait False, Idle], early = 0\<rparr>)) = 0"
  using Barrier_groups [OF barrier_run [of UNIV], of 1] barrier_run [of UNIV] by (simp add: count_if_def)

end
