(* ===== verification/RecursiveMutex.thy ===== *)
theory RecursiveMutex
  imports Prelude
begin

text \<open>
  The recursive mutex \<open>RecursiveMutex\<close> of \<open>corelib/thread.cpp\<close>.

  A section between taking the mutex of the condition variable and waiting or unlocking is
  one step. The program counter \<open>Holding\<close> is that of a thread whose \<open>lock\<close> has returned
  and which has not yet released as often; \<open>locker\<close> is the recorded owner.
\<close>

section \<open>State and operations\<close>

datatype mpc = Idle | Wait bool | Woken bool | Expired | Holding

record rmutex =
  lockers :: nat
  waiting :: nat
  locker :: "nat option"
  pcs :: "mpc list"

definition RecursiveMutex_new :: "nat \<Rightarrow> rmutex" where
  "RecursiveMutex_new n = \<lparr>lockers = 0, waiting = 0, locker = None, pcs = replicate n Idle\<rparr>"

abbreviation goto :: "nat \<Rightarrow> mpc \<Rightarrow> rmutex \<Rightarrow> rmutex" where
  "goto t p s \<equiv> s\<lparr>pcs := (pcs s)[t := p]\<rparr>"

fun sleeping :: "mpc \<Rightarrow> bool" where
  "sleeping (Wait timed) = True" | "sleeping p = False"

fun wake :: "mpc \<Rightarrow> mpc" where
  "wake (Wait timed) = Woken timed" | "wake p = p"

definition signal :: "rmutex \<Rightarrow> rmutex list" where
  "signal s = map (\<lambda>ps. s\<lparr>pcs := ps\<rparr>) (wake_one sleeping wake (pcs s))"

text \<open>The end of \<open>lock()\<close>: take the mutex, or count one more lock of the owner.\<close>

definition lock_take :: "nat \<Rightarrow> rmutex \<Rightarrow> rmutex" where
  "lock_take t s =
     goto t Holding
       (s\<lparr>locker := (if lockers s = 0 then Some t else locker s), lockers := lockers s + 1\<rparr>)"

text \<open>The loop of \<open>lock()\<close>.\<close>

definition lock_loop :: "nat \<Rightarrow> rmutex \<Rightarrow> rmutex" where
  "lock_loop t s =
     (if lockers s \<noteq> 0 \<and> locker s \<noteq> Some t
      then goto t (Wait False) (s\<lparr>waiting := waiting s + 1\<rparr>)
      else lock_take t s)"

definition RecursiveMutex_lock :: "nat \<Rightarrow> rmutex \<Rightarrow> rmutex" where
  "RecursiveMutex_lock t s = lock_loop t s"

definition lock_resume :: "nat \<Rightarrow> rmutex \<Rightarrow> rmutex" where
  "lock_resume t s = lock_loop t (s\<lparr>waiting := waiting s - 1\<rparr>)"

text \<open>
  \<open>lock(timeout)\<close>, with its result once it returns: whether the mutex was free. So it is
  false for a lock that the owner takes again, and after a timeout \<open>lockers\<close> is
  incremented all the same.
\<close>

definition timed_loop :: "nat \<Rightarrow> rmutex \<Rightarrow> bool option \<times> rmutex" where
  "timed_loop t s =
     (if lockers s \<noteq> 0 \<and> locker s \<noteq> Some t
      then (None, goto t (Wait True) (s\<lparr>waiting := waiting s + 1\<rparr>))
      else (Some (lockers s = 0), lock_take t s))"

definition RecursiveMutex_lock_timed :: "nat \<Rightarrow> rmutex \<Rightarrow> bool option \<times> rmutex" where
  "RecursiveMutex_lock_timed t s = timed_loop t s"

definition timed_resume :: "nat \<Rightarrow> rmutex \<Rightarrow> bool option \<times> rmutex" where
  "timed_resume t s = timed_loop t (s\<lparr>waiting := waiting s - 1\<rparr>)"

definition timed_expire :: "nat \<Rightarrow> rmutex \<Rightarrow> bool option \<times> rmutex" where
  "timed_expire t s =
     (let s = s\<lparr>waiting := waiting s - 1\<rparr>
      in if lockers s = 0 then (Some True, goto t Holding (s\<lparr>locker := Some t, lockers := lockers s + 1\<rparr>))
         else (Some False, goto t Idle (s\<lparr>lockers := lockers s + 1\<rparr>)))"

definition RecursiveMutex_release :: "nat \<Rightarrow> rmutex \<Rightarrow> rmutex list" where
  "RecursiveMutex_release t s =
     (let s = s\<lparr>lockers := lockers s - 1\<rparr>
      in map (\<lambda>r. if lockers s = 0 then goto t Idle r else r)
           (if lockers s = 0 \<and> waiting s \<noteq> 0 then signal s else [s]))"

section \<open>Steps\<close>

abbreviation at :: "rmutex \<Rightarrow> nat \<Rightarrow> mpc \<Rightarrow> bool" where
  "at s t p \<equiv> t < length (pcs s) \<and> pcs s ! t = p"

inductive mutex_step :: "bool \<Rightarrow> rmutex \<Rightarrow> rmutex \<Rightarrow> bool" for timeouts :: bool where
  lock: "at s t Idle \<or> at s t Holding \<Longrightarrow> mutex_step timeouts s (RecursiveMutex_lock t s)"
| lock_timed: "at s t Idle \<or> at s t Holding \<Longrightarrow> timeouts \<Longrightarrow>
    mutex_step timeouts s (snd (RecursiveMutex_lock_timed t s))"
| lock_wake: "at s t (Woken False) \<Longrightarrow> mutex_step timeouts s (lock_resume t s)"
| timed_wake: "at s t (Woken True) \<Longrightarrow> mutex_step timeouts s (snd (timed_resume t s))"
| timed_out: "at s t Expired \<Longrightarrow> mutex_step timeouts s (snd (timed_expire t s))"
| release: "at s t Holding \<Longrightarrow> s' \<in> set (RecursiveMutex_release t s) \<Longrightarrow> mutex_step timeouts s s'"
| spurious: "at s t (Wait timed) \<Longrightarrow> mutex_step timeouts s (goto t (Woken timed) s)"
| expire: "at s t (Wait True) \<Longrightarrow> mutex_step timeouts s (goto t Expired s)"

definition mutex_init :: "rmutex \<Rightarrow> bool" where
  "mutex_init s \<longleftrightarrow> (\<exists>n. s = RecursiveMutex_new n)"

section \<open>The invariant\<close>

fun in_lock :: "mpc \<Rightarrow> bool" where
  "in_lock (Wait b) = True" | "in_lock (Woken b) = True" | "in_lock Expired = True" | "in_lock p = False"

fun woken :: "mpc \<Rightarrow> bool" where
  "woken (Woken b) = True" | "woken p = False"

definition mutex_inv :: "rmutex \<Rightarrow> bool" where
  "mutex_inv s \<longleftrightarrow>
     waiting s = count_if in_lock (pcs s)
     \<and> (\<forall>t < length (pcs s). pcs s ! t = Holding \<longleftrightarrow> lockers s \<noteq> 0 \<and> locker s = Some t)
     \<and> (lockers s \<noteq> 0 \<longrightarrow> (\<exists>t < length (pcs s). locker s = Some t))
     \<and> (lockers s = 0 \<and> count_if sleeping (pcs s) \<noteq> 0 \<longrightarrow> count_if woken (pcs s) \<noteq> 0)"

lemma mutex_move:
  assumes "at s t p"
  shows "count_if in_lock ((pcs s)[t := q]) + of_bool (in_lock p) = count_if in_lock (pcs s) + of_bool (in_lock q)"
    "count_if sleeping ((pcs s)[t := q]) + of_bool (sleeping p) = count_if sleeping (pcs s) + of_bool (sleeping q)"
    "count_if woken ((pcs s)[t := q]) + of_bool (woken p) = count_if woken (pcs s) + of_bool (woken q)"
  using assms count_if_update [of t "pcs s" _ q] by fastforce+

text \<open>A thread that finds the mutex free, or its own, takes it; another one goes to sleep.\<close>

lemma take_inv:
  assumes "mutex_inv s" "at s t p" "lockers s = 0 \<or> locker s = Some t"
    and "in_lock p \<Longrightarrow> lockers s = 0"
  shows "mutex_inv (lock_take t (s\<lparr>waiting := waiting s - of_bool (in_lock p)\<rparr>))"
  using assms mutex_move [of t s p Holding]
  by (auto simp: mutex_inv_def lock_take_def nth_list_update split: if_splits)

lemma sleep_inv:
  assumes "mutex_inv s" "at s t p" "lockers s \<noteq> 0" "locker s \<noteq> Some t"
  shows "mutex_inv (goto t (Wait b) (s\<lparr>waiting := waiting s - of_bool (in_lock p) + 1\<rparr>))"
  using assms mutex_move [of t s p "Wait b"] count_if_pos [of t "pcs s" in_lock]
  by (auto simp: mutex_inv_def nth_list_update split: if_splits)

lemma sleeping_in_lock: "sleeping p \<Longrightarrow> in_lock p"
  by (cases p) auto

lemma mutex_signal_cases:
  assumes "r \<in> set (signal s)"
  obtains "count_if sleeping (pcs s) = 0" "r = s" | u b where "at s u (Wait b)" "r = goto u (Woken b) s"
proof -
  obtain ps where ps: "ps \<in> set (wake_one sleeping wake (pcs s))" "r = s\<lparr>pcs := ps\<rparr>"
    using assms by (auto simp: signal_def)
  from ps(1) show thesis
  proof (cases rule: wake_one_cases)
    case 1
    then show thesis using that(1) ps(2) by (simp add: count_if_0)
  next
    case (2 u)
    then show thesis using that(2) ps(2) by (cases "pcs s ! u") auto
  qed
qed

text \<open>The owner leaves: nobody holds the mutex any more.\<close>

lemma idle_inv:
  assumes "at r t Holding" "\<And>u. u < length (pcs r) \<Longrightarrow> u \<noteq> t \<Longrightarrow> pcs r ! u \<noteq> Holding"
    and "waiting r = count_if in_lock (pcs r)" "lockers r = 0"
    and "count_if sleeping (pcs r) \<noteq> 0 \<Longrightarrow> count_if woken (pcs r) \<noteq> 0"
  shows "mutex_inv (goto t Idle r)"
proof -
  have "(pcs r)[t := Idle] ! u \<noteq> Holding" if "u < length (pcs r)" for u
    using assms(1,2) that by (cases "u = t") auto
  then show ?thesis using assms(1,3-5) mutex_move [of t r Holding Idle] by (simp add: mutex_inv_def)
qed

lemma release_inv:
  assumes "mutex_inv s" "at s t Holding" "s' \<in> set (RecursiveMutex_release t s)"
  shows "mutex_inv s'"
proof (cases "lockers s = 1")
  case False
  moreover have "lockers s \<noteq> 0" using assms(1,2) by (auto simp: mutex_inv_def)
  ultimately have "s' = s\<lparr>lockers := lockers s - 1\<rparr>" "lockers s - 1 \<noteq> 0"
    using assms(3) by (auto simp: RecursiveMutex_release_def Let_def)
  then show ?thesis using assms(1) \<open>lockers s \<noteq> 0\<close> by (simp add: mutex_inv_def)
next
  case True
  let ?s = "s\<lparr>lockers := 0\<rparr>"
  obtain r where r: "s' = goto t Idle r" "r \<in> set (if waiting s \<noteq> 0 then signal ?s else [?s])"
    using assms(3) True by (auto simp: RecursiveMutex_release_def Let_def split: if_splits)
  have i: "waiting s = count_if in_lock (pcs s)" "u < length (pcs s) \<Longrightarrow> u \<noteq> t \<Longrightarrow> pcs s ! u \<noteq> Holding" for u
    using assms(1,2) by (auto simp: mutex_inv_def)
  show ?thesis
  proof (cases "waiting s = 0")
    case True
    have "count_if sleeping (pcs s) = 0" using True i(1) sleeping_in_lock by (auto simp: count_if_0)
    then show ?thesis unfolding r(1) using True r(2) i assms(2) by (intro idle_inv) auto
  next
    case False
    then have "r \<in> set (signal ?s)" using r by simp
    then show ?thesis
    proof (cases rule: mutex_signal_cases)
      case 1
      then show ?thesis unfolding r(1) using i assms(2) by (intro idle_inv) auto
    next
      case (2 u b)
      show ?thesis
        unfolding r(1) using 2 i assms(2) mutex_move [of u s "Wait b" "Woken b"]
        by (intro idle_inv) (auto simp: nth_list_update)
    qed
  qed
qed

text \<open>A sleeping thread that is woken, or whose time expires, changes no lock.\<close>

lemma rouse_inv:
  assumes "mutex_inv s" "at s t (Wait b)" "in_lock q" "\<not> sleeping q" "woken q \<or> q = Expired"
  shows "mutex_inv (goto t q s)"
proof -
  have "(pcs s)[t := q] ! u = Holding \<longleftrightarrow> pcs s ! u = Holding" if "u < length (pcs s)" for u
    using assms(2,3) that by (cases "u = t") auto
  then show ?thesis using assms mutex_move [of t s "Wait b" q] by (auto simp: mutex_inv_def)
qed

lemma mutex_inv_not_owner:
  "mutex_inv s \<Longrightarrow> at s t p \<Longrightarrow> in_lock p \<Longrightarrow> lockers s \<noteq> 0 \<Longrightarrow> locker s \<noteq> Some t"
  by (auto simp: mutex_inv_def)

lemma expire_inv:
  assumes "mutex_inv s" "at s t Expired"
  shows "mutex_inv (snd (timed_expire t s))"
proof (cases "lockers s = 0")
  case True
  then show ?thesis using take_inv [OF assms] by (simp add: timed_expire_def lock_take_def Let_def)
next
  case False
  then show ?thesis using assms mutex_move [of t s Expired Idle]
    by (auto simp: mutex_inv_def timed_expire_def Let_def nth_list_update)
qed

lemma mutex_inv_step: "mutex_step timeouts s s' \<Longrightarrow> mutex_inv s \<Longrightarrow> mutex_inv s'"
proof (induction rule: mutex_step.induct)
  case (lock s t)
  then show ?case using take_inv [of s t Idle] take_inv [of s t Holding] sleep_inv [of s t Idle] sleep_inv [of s t Holding]
    by (auto simp: RecursiveMutex_lock_def lock_loop_def)
next
  case (lock_timed s t)
  then show ?case using take_inv [of s t Idle] take_inv [of s t Holding] sleep_inv [of s t Idle] sleep_inv [of s t Holding]
    by (auto simp: RecursiveMutex_lock_timed_def timed_loop_def)
next
  case (lock_wake s t)
  then show ?case using take_inv [of s t "Woken False"] sleep_inv [of s t "Woken False" False] mutex_inv_not_owner [of s t]
    by (auto simp: lock_resume_def lock_loop_def)
next
  case (timed_wake s t)
  then show ?case using take_inv [of s t "Woken True"] sleep_inv [of s t "Woken True" True] mutex_inv_not_owner [of s t]
    by (auto simp: timed_resume_def timed_loop_def)
next
  case (timed_out s t)
  then show ?case using expire_inv by blast
next
  case (release s t s')
  then show ?case using release_inv by blast
next
  case (spurious s t timed)
  then show ?case by (intro rouse_inv) auto
next
  case (expire s t)
  then show ?case by (intro rouse_inv) auto
qed

interpretation rmutex: invariant_system mutex_init "mutex_step timeouts" mutex_inv for timeouts
proof
  show "mutex_inv s" if "mutex_init s" for s
    using that by (auto simp: mutex_init_def mutex_inv_def RecursiveMutex_new_def count_if_def)
  show "mutex_inv t" if "mutex_inv s" "mutex_step timeouts s t" for s t
    using that mutex_inv_step by blast
qed

section \<open>Properties\<close>

text \<open>
  C12: With every mixture of \<open>lock()\<close> and, when \<open>timeouts\<close> is set, \<open>lock(timeout)\<close>, and
  with threads that wake without cause: at most one thread holds the mutex and it is the
  recorded owner; another thread that calls \<open>lock\<close> meanwhile goes to sleep; a thread that
  sleeps finds the mutex held or another thread already woken; and when the holder locks
  again it stays the holder and one more release brings the mutex back to where it was.
  \<open>Holding\<close> is the mutex's own account: a timed lock that fails is counted too, so the
  holder then stays the holder beyond its own releases
  (\<open>RecursiveMutex_timeout_leaks\<close>).
\<close>

theorem RecursiveMutex_exclusion:
  assumes "reach mutex_init (mutex_step timeouts) s"
  shows "(at s t Holding \<and> at s u Holding \<longrightarrow> t = u)
    \<and> (at s t Holding \<longrightarrow> locker s = Some t \<and> lockers s \<noteq> 0)
    \<and> (at s t Holding \<and> at s u Idle \<longrightarrow> at (RecursiveMutex_lock u s) u (Wait False)
         \<and> at (snd (RecursiveMutex_lock_timed u s)) u (Wait True))
    \<and> (at s t (Wait b) \<longrightarrow> (\<exists>v c. at s v Holding \<or> at s v (Woken c)))
    \<and> (at s t Holding \<longrightarrow> lockers (RecursiveMutex_lock t s) = lockers s + 1 \<and> at (RecursiveMutex_lock t s) t Holding
         \<and> RecursiveMutex_release t (RecursiveMutex_lock t s) = [s]
         \<and> snd (RecursiveMutex_lock_timed t s) = RecursiveMutex_lock t s)"
proof -
  have i: "mutex_inv s" using assms by (rule rmutex.reach_inv)
  have own: "locker s = Some v \<and> lockers s \<noteq> 0" if "at s v Holding" for v using i that by (auto simp: mutex_inv_def)
  have "\<exists>v c. at s v Holding \<or> at s v (Woken c)" if "at s t (Wait b)"
  proof (cases "lockers s = 0")
    case True
    have "count_if sleeping (pcs s) \<noteq> 0" using that count_if_pos [of t "pcs s" sleeping] by auto
    then obtain p where p: "p \<in> set (pcs s)" "woken p" using i True by (auto simp: mutex_inv_def count_if_0)
    obtain c where "p = Woken c" using p(2) by (cases p rule: mpc.exhaust) auto
    then show ?thesis using p(1) by (metis in_set_conv_nth)
  next
    case False
    then show ?thesis using i by (auto simp: mutex_inv_def)
  qed
  moreover have "RecursiveMutex_release t (RecursiveMutex_lock t s) = [s] \<and> lockers (RecursiveMutex_lock t s) = lockers s + 1
      \<and> at (RecursiveMutex_lock t s) t Holding \<and> snd (RecursiveMutex_lock_timed t s) = RecursiveMutex_lock t s"
    if "at s t Holding"
  proof -
    have "(pcs s)[t := Holding] = pcs s" using that by (metis list_update_id)
    then show ?thesis using own [OF that] that
      by (simp add: RecursiveMutex_lock_def RecursiveMutex_lock_timed_def lock_loop_def timed_loop_def lock_take_def
          RecursiveMutex_release_def Let_def)
  qed
  moreover have "at (RecursiveMutex_lock u s) u (Wait False) \<and> at (snd (RecursiveMutex_lock_timed u s)) u (Wait True)"
    if "at s t Holding" "at s u Idle"
  proof -
    have "t \<noteq> u" using that by auto
    then show ?thesis using own [OF that(1)] that(2)
      by (simp add: RecursiveMutex_lock_def RecursiveMutex_lock_timed_def lock_loop_def timed_loop_def)
  qed
  moreover have "t = u" if "at s t Holding" "at s u Holding" using own [OF that(1)] own [OF that(2)] by simp
  ultimately show ?thesis using own [of t] by blast
qed

lemma mutex_run:
  "reach mutex_init (mutex_step timeouts) \<lparr>lockers = 1, waiting = 1, locker = Some 0, pcs = [Holding, Wait False]\<rparr>"
proof -
  have "reach mutex_init (mutex_step timeouts) (RecursiveMutex_new 2)"
    by (rule reach_init) (auto simp: mutex_init_def)
  then have "reach mutex_init (mutex_step timeouts) (RecursiveMutex_lock 0 (RecursiveMutex_new 2))"
    by (rule reach_step) (rule mutex_step.lock; simp add: RecursiveMutex_new_def)
  then have "reach mutex_init (mutex_step timeouts) \<lparr>lockers = 1, waiting = 0, locker = Some 0, pcs = [Holding, Idle]\<rparr>"
    by (simp add: RecursiveMutex_lock_def lock_loop_def lock_take_def RecursiveMutex_new_def numeral_2_eq_2)
  then have "reach mutex_init (mutex_step timeouts)
      (RecursiveMutex_lock 1 \<lparr>lockers = 1, waiting = 0, locker = Some 0, pcs = [Holding, Idle]\<rparr>)"
    by (rule reach_step) (rule mutex_step.lock; simp)
  then show ?thesis by (simp add: RecursiveMutex_lock_def lock_loop_def)
qed

theorem RecursiveMutex_exclusion_witness:
  "RecursiveMutex_release 0 (RecursiveMutex_lock 0 \<lparr>lockers = 1, waiting = 1, locker = Some 0, pcs = [Holding, Wait False]\<rparr>)
     = [\<lparr>lockers = 1, waiting = 1, locker = Some 0, pcs = [Holding, Wait False]\<rparr>]"
  using RecursiveMutex_exclusion [OF mutex_run, where t = 0] by simp

text \<open>
  A timed \<open>lock\<close> that times out counts itself as a locker although it does not own the
  mutex: after the owner's release the mutex counts a lock that nobody holds. The owner's own
  timed lock succeeds but reports failure.
\<close>

theorem RecursiveMutex_timeout_leaks:
  "reach mutex_init (mutex_step True) \<lparr>lockers = 1, waiting = 0, locker = Some 0, pcs = [Holding, Idle]\<rparr>
   \<and> fst (timed_expire 1 \<lparr>lockers = 1, waiting = 1, locker = Some 0, pcs = [Holding, Expired]\<rparr>) = Some False
   \<and> snd (timed_expire 1 \<lparr>lockers = 1, waiting = 1, locker = Some 0, pcs = [Holding, Expired]\<rparr>)
       = \<lparr>lockers = 2, waiting = 0, locker = Some 0, pcs = [Holding, Idle]\<rparr>
   \<and> RecursiveMutex_release 0 \<lparr>lockers = 2, waiting = 0, locker = Some 0, pcs = [Holding, Idle]\<rparr>
       = [\<lparr>lockers = 1, waiting = 0, locker = Some 0, pcs = [Holding, Idle]\<rparr>]
   \<and> RecursiveMutex_lock_timed 0 \<lparr>lockers = 1, waiting = 0, locker = Some 0, pcs = [Holding, Idle]\<rparr>
       = (Some False, \<lparr>lockers = 2, waiting = 0, locker = Some 0, pcs = [Holding, Idle]\<rparr>)"
proof -
  have "reach mutex_init (mutex_step True) (RecursiveMutex_new 2)"
    by (rule reach_init) (auto simp: mutex_init_def)
  then have "reach mutex_init (mutex_step True) (RecursiveMutex_lock 0 (RecursiveMutex_new 2))"
    by (rule reach_step) (rule mutex_step.lock; simp add: RecursiveMutex_new_def)
  then have "reach mutex_init (mutex_step True) \<lparr>lockers = 1, waiting = 0, locker = Some 0, pcs = [Holding, Idle]\<rparr>"
    by (simp add: RecursiveMutex_lock_def lock_loop_def lock_take_def RecursiveMutex_new_def numeral_2_eq_2)
  then show ?thesis
    by (simp add: timed_expire_def RecursiveMutex_release_def RecursiveMutex_lock_timed_def timed_loop_def lock_take_def
        numeral_2_eq_2)
qed

end
