(* ===== verification/TypeRef.thy ===== *)
theory TypeRef
  imports Prelude
begin

text \<open>
  The reference counted smart pointers of \<open>corelib/typeref.cpp\<close>: \<open>TypeRef\<close> and
  \<open>TypeRef::Counted\<close>, and the bit operations of \<open>typeref<const uint8_t *>\<close>.

  The heap has the counter of every counted object and the list of the objects that have
  been deallocated, in order. The smart pointers are the variables of a list; an operation
  on one is named by its index. The atomic counter returns its old value, so \<open>release\<close>
  deallocates when that is below 2.
\<close>

section \<open>Counted objects and smart pointers\<close>

record theap =
  rcount :: "addr \<Rightarrow> nat"
  freed :: "addr list"

definition Counted_retain :: "addr \<Rightarrow> 'a theap_scheme \<Rightarrow> 'a theap_scheme" where
  "Counted_retain x h = h\<lparr>rcount := (rcount h)(x := rcount h x + 1)\<rparr>"

definition Counted_dealloc :: "addr \<Rightarrow> 'a theap_scheme \<Rightarrow> 'a theap_scheme" where
  "Counted_dealloc x h = h\<lparr>freed := freed h @ [x]\<rparr>"

definition Counted_release :: "addr \<Rightarrow> 'a theap_scheme \<Rightarrow> 'a theap_scheme" where
  "Counted_release x h =
     (let old = rcount h x; h = h\<lparr>rcount := (rcount h)(x := old - 1)\<rparr>
      in if old < 2 then Counted_dealloc x h else h)"

definition retain_ptr :: "ptr \<Rightarrow> 'a theap_scheme \<Rightarrow> 'a theap_scheme" where
  "retain_ptr p h = (case p of None \<Rightarrow> h | Some x \<Rightarrow> Counted_retain x h)"

definition release_ptr :: "ptr \<Rightarrow> 'a theap_scheme \<Rightarrow> 'a theap_scheme" where
  "release_ptr p h = (case p of None \<Rightarrow> h | Some x \<Rightarrow> Counted_release x h)"

record trefs = theap +
  vars :: "ptr list"

definition TypeRef_new :: "'a trefs_scheme \<Rightarrow> 'a trefs_scheme" where
  "TypeRef_new s = s\<lparr>vars := vars s @ [None]\<rparr>"

definition TypeRef_new_object :: "ptr \<Rightarrow> 'a trefs_scheme \<Rightarrow> 'a trefs_scheme" where
  "TypeRef_new_object object s = (let s = s\<lparr>vars := vars s @ [object]\<rparr> in retain_ptr object s)"

definition TypeRef_copy :: "nat \<Rightarrow> 'a trefs_scheme \<Rightarrow> 'a trefs_scheme" where
  "TypeRef_copy copy s = (let ref = vars s ! copy in retain_ptr ref (s\<lparr>vars := vars s @ [ref]\<rparr>))"

definition TypeRef_clear :: "nat \<Rightarrow> 'a trefs_scheme \<Rightarrow> 'a trefs_scheme" where
  "TypeRef_clear this s =
     (let s = release_ptr (vars s ! this) s in s\<lparr>vars := (vars s)[this := None]\<rparr>)"

text \<open>\<open>set(const TypeRef&)\<close> reads the source again after \<open>clear\<close>.\<close>

definition TypeRef_set :: "nat \<Rightarrow> nat \<Rightarrow> 'a trefs_scheme \<Rightarrow> 'a trefs_scheme" where
  "TypeRef_set this p s =
     (let s = retain_ptr (vars s ! p) s; s = TypeRef_clear this s
      in s\<lparr>vars := (vars s)[this := vars s ! p]\<rparr>)"

definition TypeRef_set_object :: "nat \<Rightarrow> ptr \<Rightarrow> 'a trefs_scheme \<Rightarrow> 'a trefs_scheme" where
  "TypeRef_set_object this object s =
     (let s = retain_ptr object s; s = TypeRef_clear this s
      in s\<lparr>vars := (vars s)[this := object]\<rparr>)"

definition TypeRef_copies :: "nat \<Rightarrow> 'a trefs_scheme \<Rightarrow> nat" where
  "TypeRef_copies this s = (case vars s ! this of None \<Rightarrow> 0 | Some x \<Rightarrow> rcount s x)"

section \<open>Bits of a byte array\<close>

definition bit_mask :: "nat \<Rightarrow> byte" where
  "bit_mask offset = push_bit (offset mod 8) 1"

text \<open>\<open>None\<close> is a read behind the array.\<close>

definition bytes_get :: "byte list \<Rightarrow> nat \<Rightarrow> bool option" where
  "bytes_get v offset =
     (if length v < offset div 8 then Some False
      else if offset div 8 < length v then Some (and (v ! (offset div 8)) (bit_mask offset) \<noteq> 0)
      else None)"

fun bytes_count :: "byte list \<Rightarrow> nat \<Rightarrow> nat \<Rightarrow> nat" where
  "bytes_count v offset 0 = 0"
| "bytes_count v offset (Suc bits) =
     (let pos = offset div 8
      in if pos \<ge> length v then 0
         else (if and (v ! pos) (bit_mask offset) \<noteq> 0 then 1 else 0) + bytes_count v (offset + 1) bits)"

fun bytes_set :: "bool \<Rightarrow> byte list \<Rightarrow> nat \<Rightarrow> nat \<Rightarrow> nat \<times> byte list" where
  "bytes_set mode v offset 0 = (0, v)"
| "bytes_set mode v offset (Suc bits) =
     (let pos = offset div 8
      in if pos \<ge> length v then (0, v)
         else
           (let bitmask = bit_mask offset; current = (and (v ! pos) bitmask \<noteq> 0)
            in if current = mode then bytes_set mode v (offset + 1) bits
               else (let v = v[pos := (if mode then or (v ! pos) bitmask else and (v ! pos) (not bitmask))];
                         (total, v) = bytes_set mode v (offset + 1) bits
                     in (total + 1, v))))"

section \<open>The invariant of the counters\<close>

text \<open>
  \<open>refs_ext e s\<close>: every counter is the number of variables that point to the object plus
  the references \<open>e\<close> held elsewhere; an object is freed once and has no reference then.
\<close>

definition refs_ext :: "(addr \<Rightarrow> nat) \<Rightarrow> 'a trefs_scheme \<Rightarrow> bool" where
  "refs_ext e s \<longleftrightarrow>
     (\<forall>x. rcount s x = count_list (vars s) (Some x) + e x)
     \<and> distinct (freed s) \<and> (\<forall>x \<in> set (freed s). rcount s x = 0)"

abbreviation refs_ok :: "'a trefs_scheme \<Rightarrow> bool" where
  "refs_ok \<equiv> refs_ext (\<lambda>x. 0)"

lemma count_var_update:
  "i < length vs \<Longrightarrow> count_list (vs[i := q]) x + of_bool (vs ! i = x) = count_list vs x + of_bool (q = x)"
proof (induction vs arbitrary: i)
  case (Cons v vs)
  then show ?case by (cases i) auto
qed simp

lemma rcount_retain [simp]: "rcount (retain_ptr p s) x = rcount s x + of_bool (p = Some x)"
  by (cases p) (auto simp: retain_ptr_def Counted_retain_def)

lemma rcount_release [simp]: "rcount (release_ptr p s) x = rcount s x - of_bool (p = Some x)"
  by (cases p) (auto simp: release_ptr_def Counted_release_def Counted_dealloc_def Let_def)

lemma freed_retain [simp]: "freed (retain_ptr p s) = freed s"
  by (cases p) (auto simp: retain_ptr_def Counted_retain_def)

lemma freed_release:
  "freed (release_ptr p s) = freed s @ (case p of Some x \<Rightarrow> if rcount s x < 2 then [x] else [] | None \<Rightarrow> [])"
  by (cases p) (auto simp: release_ptr_def Counted_release_def Counted_dealloc_def Let_def)

lemma vars_ptr [simp]: "vars (retain_ptr p s) = vars s" "vars (release_ptr p s) = vars s"
  by (cases p; simp add: retain_ptr_def release_ptr_def Counted_retain_def Counted_release_def Counted_dealloc_def Let_def)+

lemma ptr_fields [simp]:
  "retain_ptr p (s\<lparr>vars := v\<rparr>) = (retain_ptr p s)\<lparr>vars := v\<rparr>"
  "release_ptr p (s\<lparr>vars := v\<rparr>) = (release_ptr p s)\<lparr>vars := v\<rparr>"
  by (cases p; simp add: retain_ptr_def release_ptr_def Counted_retain_def Counted_release_def Counted_dealloc_def Let_def)+

lemma refs_retain:
  "\<lbrakk>refs_ext e s; \<And>x. p = Some x \<Longrightarrow> x \<notin> set (freed s)\<rbrakk>
    \<Longrightarrow> refs_ext (\<lambda>x. e x + of_bool (p = Some x)) (retain_ptr p s)"
  by (auto simp: refs_ext_def)

lemma refs_release:
  assumes "refs_ext (\<lambda>x. e x + of_bool (p = Some x)) s"
  shows "refs_ext e (release_ptr p s)"
proof (cases p)
  case (Some x)
  have "0 < rcount s x" using assms Some by (simp add: refs_ext_def)
  then have "x \<notin> set (freed s)" using assms by (auto simp: refs_ext_def)
  then show ?thesis using assms Some by (auto simp: refs_ext_def freed_release)
qed (use assms in \<open>simp add: release_ptr_def\<close>)

text \<open>Moving a reference out of a variable and into an empty one.\<close>

lemma refs_take:
  assumes "refs_ext e s" "i < length (vars s)"
  shows "refs_ext (\<lambda>x. e x + of_bool (vars s ! i = Some x)) (s\<lparr>vars := (vars s)[i := None]\<rparr>)"
  using assms count_var_update [OF assms(2), of None] by (auto simp: refs_ext_def)

lemma refs_store:
  assumes "refs_ext (\<lambda>x. e x + of_bool (p = Some x)) s" "i < length (vars s)" "vars s ! i = None"
  shows "refs_ext e (s\<lparr>vars := (vars s)[i := p]\<rparr>)"
proof -
  have "count_list ((vars s)[i := p]) (Some x) = count_list (vars s) (Some x) + of_bool (p = Some x)" for x
    using count_var_update [OF assms(2), of p "Some x"] assms(3) by simp
  then show ?thesis using assms(1) unfolding refs_ext_def by (auto simp: ac_simps)
qed

lemma refs_clear:
  assumes "refs_ext e s" "i < length (vars s)"
  shows "refs_ext e (TypeRef_clear i s)"
  using refs_release [OF refs_take [OF assms]] by (simp add: TypeRef_clear_def Let_def)

lemma clear_fields [simp]:
  "vars (TypeRef_clear i s) = (vars s)[i := None]"
  by (simp add: TypeRef_clear_def Let_def)

lemma refs_set_object:
  assumes "refs_ext e s" "i < length (vars s)" "\<And>x. p = Some x \<Longrightarrow> x \<notin> set (freed s)"
  shows "refs_ext e (TypeRef_set_object i p s)"
proof -
  have "refs_ext (\<lambda>x. e x + of_bool (p = Some x)) (TypeRef_clear i (retain_ptr p s))"
    using refs_clear [OF refs_retain [OF assms(1,3)]] assms(2) by simp
  then show ?thesis
    using refs_store [of e p "TypeRef_clear i (retain_ptr p s)" i] assms(2) by (simp add: TypeRef_set_object_def Let_def)
qed

lemma var_not_freed: "refs_ext e s \<Longrightarrow> Some x \<in> set (vars s) \<Longrightarrow> x \<notin> set (freed s)"
  by (metis add_is_0 count_list_0_iff refs_ext_def)

lemma refs_set:
  assumes "refs_ext e s" "i < length (vars s)" "j < length (vars s)" "i \<noteq> j"
  shows "refs_ext e (TypeRef_set i j s)"
proof -
  have "TypeRef_set i j s = TypeRef_set_object i (vars s ! j) s"
    using assms(2-4) by (simp add: TypeRef_set_def TypeRef_set_object_def Let_def)
  then show ?thesis using refs_set_object [OF assms(1,2), of "vars s ! j"] var_not_freed [OF assms(1)] assms(3)
    by (metis nth_mem)
qed

lemma refs_append:
  assumes "refs_ext e s" "\<And>x. p = Some x \<Longrightarrow> x \<notin> set (freed s)"
  shows "refs_ext e (retain_ptr p (s\<lparr>vars := vars s @ [p]\<rparr>))"
  using assms by (auto simp: refs_ext_def)

section \<open>Sequences of operations\<close>

datatype ref_op = New | NewObject ptr | Copy nat | Clear nat | Set nat nat | SetObject nat ptr

fun ref_run :: "ref_op \<Rightarrow> trefs \<Rightarrow> trefs" where
  "ref_run New s = TypeRef_new s"
| "ref_run (NewObject p) s = TypeRef_new_object p s"
| "ref_run (Copy i) s = TypeRef_copy i s"
| "ref_run (Clear i) s = TypeRef_clear i s"
| "ref_run (Set i j) s = TypeRef_set i j s"
| "ref_run (SetObject i p) s = TypeRef_set_object i p s"

text \<open>Operations on existing variables, with objects that are still there; no self assignment.\<close>

fun ref_valid :: "ref_op \<Rightarrow> trefs \<Rightarrow> bool" where
  "ref_valid New s = True"
| "ref_valid (NewObject p) s = (\<forall>x \<in> set_option p. x \<notin> set (freed s))"
| "ref_valid (Copy i) s = (i < length (vars s))"
| "ref_valid (Clear i) s = (i < length (vars s))"
| "ref_valid (Set i j) s = (i < length (vars s) \<and> j < length (vars s) \<and> i \<noteq> j)"
| "ref_valid (SetObject i p) s = (i < length (vars s) \<and> (\<forall>x \<in> set_option p. x \<notin> set (freed s)))"

fun ref_valid_all :: "ref_op list \<Rightarrow> trefs \<Rightarrow> bool" where
  "ref_valid_all [] s = True"
| "ref_valid_all (x # xs) s = (ref_valid x s \<and> ref_valid_all xs (ref_run x s))"

lemma ref_run_ok: "refs_ok s \<Longrightarrow> ref_valid x s \<Longrightarrow> refs_ok (ref_run x s)"
proof (cases x)
  case (NewObject p)
  assume "refs_ok s" "ref_valid x s"
  then show ?thesis using NewObject refs_append [of "\<lambda>x. 0" s p] by (auto simp: TypeRef_new_object_def Let_def)
next
  case (Copy i)
  assume a: "refs_ok s" "ref_valid x s"
  then have "vars s ! i = Some y \<Longrightarrow> y \<notin> set (freed s)" for y
    using Copy var_not_freed [OF a(1), of y] by (metis nth_mem ref_valid.simps(3))
  then show ?thesis using Copy a refs_append [of "\<lambda>x. 0" s "vars s ! i"] by (simp add: TypeRef_copy_def Let_def)
next
  case New
  assume "refs_ok s"
  then show ?thesis using New unfolding refs_ext_def by (auto simp: TypeRef_new_def)
qed (auto simp: refs_clear refs_set refs_set_object)

lemma ref_fold_ok: "refs_ok s \<Longrightarrow> ref_valid_all xs s \<Longrightarrow> refs_ok (fold ref_run xs s)"
  by (induction xs arbitrary: s) (auto simp: ref_run_ok)

section \<open>Bit operations\<close>

lemma mask_bit: "(and b (bit_mask n) \<noteq> 0) = bit (b :: byte) (n mod 8)"
  by (simp add: bit_mask_def push_bit_of_1 and_exp_eq_0_iff_not_bit)

definition bit_of :: "byte list \<Rightarrow> nat \<Rightarrow> bool" where
  "bit_of v n = (n div 8 < length v \<and> bit (v ! (n div 8)) (n mod 8))"

lemma upt_step: "[offset..<offset + Suc bits] = offset # [offset + 1..<offset + 1 + bits]"
  by (simp add: upt_conv_Cons)

lemma no_bits: "length v \<le> offset div 8 \<Longrightarrow> offset \<le> n \<Longrightarrow> \<not> n div 8 < length v"
  using div_le_mono [of offset n 8] by linarith

lemma bytes_count_bits:
  "bytes_count v offset bits = length (filter (bit_of v) [offset..<offset + bits])"
proof (induction bits arbitrary: offset)
  case (Suc bits)
  show ?case
  proof (cases "length v \<le> offset div 8")
    case True
    then have "filter (bit_of v) [offset..<offset + Suc bits] = []"
      using no_bits [OF True] by (auto simp: filter_empty_conv bit_of_def)
    then show ?thesis using True by simp
  next
    case False
    then show ?thesis using Suc unfolding upt_step by (simp add: mask_bit bit_of_def not_le Let_def)
  qed
qed simp

lemma flip_bit:
  assumes "offset div 8 < length v"
  shows "bit_of (v[offset div 8 := (if mode then or (v ! (offset div 8)) (bit_mask offset)
           else and (v ! (offset div 8)) (not (bit_mask offset)))]) n
    = (if n = offset then mode else bit_of v n)"
proof -
  have "n div 8 = offset div 8 \<and> n mod 8 = offset mod 8 \<longleftrightarrow> n = offset"
    by (metis div_mult_mod_eq)
  moreover have "n mod 8 < 8" by simp
  ultimately show ?thesis
    using assms by (auto simp: bit_of_def nth_list_update bit_mask_def bit_simps push_bit_of_1)
qed

definition changed :: "bool \<Rightarrow> byte list \<Rightarrow> nat \<Rightarrow> nat \<Rightarrow> nat" where
  "changed mode v offset bits =
     length (filter (\<lambda>n. n div 8 < length v \<and> bit_of v n \<noteq> mode) [offset..<offset + bits])"

lemma changed_step:
  "offset div 8 < length v \<Longrightarrow>
     changed mode v offset (Suc bits) = of_bool (bit_of v offset \<noteq> mode) + changed mode v (offset + 1) bits"
  unfolding changed_def upt_step by simp

lemma changed_none: "length v \<le> offset div 8 \<Longrightarrow> changed mode v offset bits = 0"
  using no_bits [of v offset] by (auto simp: changed_def filter_empty_conv)

lemma changed_cong:
  assumes "length v = length w" "\<And>n. n \<noteq> offset \<Longrightarrow> bit_of v n = bit_of w n"
  shows "changed mode v (offset + 1) bits = changed mode w (offset + 1) bits"
proof -
  have "filter (\<lambda>n. n div 8 < length v \<and> bit_of v n \<noteq> mode) [offset + 1..<offset + 1 + bits]
      = filter (\<lambda>n. n div 8 < length w \<and> bit_of w n \<noteq> mode) [offset + 1..<offset + 1 + bits]"
    using assms by (intro filter_cong) auto
  then show ?thesis by (simp add: changed_def)
qed

lemma bytes_set_bits:
  "bytes_set mode v offset bits = (k, v') \<Longrightarrow>
     length v' = length v \<and> k = changed mode v offset bits
     \<and> (\<forall>n. bit_of v' n = (if offset \<le> n \<and> n < offset + bits \<and> n div 8 < length v then mode else bit_of v n))"
proof (induction bits arbitrary: offset v k v')
  case (Suc bits)
  show ?case
  proof (cases "length v \<le> offset div 8")
    case True
    then show ?thesis using Suc.prems no_bits [OF True] changed_none [OF True] by (auto simp: Let_def)
  next
    case False
    then have lt: "offset div 8 < length v" by simp
    show ?thesis
    proof (cases "bit_of v offset = mode")
      case True
      then have "bytes_set mode v (offset + 1) bits = (k, v')"
        using Suc.prems lt by (simp add: mask_bit bit_of_def Let_def)
      from Suc.IH [OF this] show ?thesis
        using True lt by (auto simp: changed_step le_eq_less_or_eq Suc_le_eq)
    next
      case flip: False
      define w where "w = v[offset div 8 := (if mode then or (v ! (offset div 8)) (bit_mask offset)
           else and (v ! (offset div 8)) (not (bit_mask offset)))]"
      obtain k' where k': "bytes_set mode w (offset + 1) bits = (k', v')" "k = k' + 1"
        using Suc.prems lt flip
        by (cases "bytes_set mode w (offset + 1) bits") (auto simp: mask_bit bit_of_def Let_def w_def split: prod.splits if_splits)
      have w: "length w = length v" "bit_of w n = (if n = offset then mode else bit_of v n)" for n
        using flip_bit [OF lt, of mode n] by (simp_all add: w_def)
      have "changed mode w (offset + 1) bits = changed mode v (offset + 1) bits"
        by (rule changed_cong) (simp_all add: w)
      then show ?thesis
        using Suc.IH [OF k'(1)] k'(2) flip lt w by (auto simp: changed_step le_eq_less_or_eq Suc_le_eq)
    qed
  qed
qed (auto simp: changed_def)

section \<open>Properties\<close>

text \<open>
  C30: Under any sequence of constructions, copies, assignments and clears (self assignment
  apart), the counter of every object is the number of smart pointers to it, no smart
  pointer refers to a deallocated object, and no object is deallocated twice. A smart
  pointer assigned to itself is cleared, and its object is never deallocated.
\<close>

theorem TypeRef_counts:
  assumes "ref_valid_all ops \<lparr>rcount = \<lambda>x. 0, freed = [], vars = []\<rparr>"
  shows "case fold ref_run ops \<lparr>rcount = \<lambda>x. 0, freed = [], vars = []\<rparr> of s \<Rightarrow>
      (\<forall>x. rcount s x = count_list (vars s) (Some x)) \<and> distinct (freed s)
      \<and> (\<forall>x. Some x \<in> set (vars s) \<longrightarrow> x \<notin> set (freed s))
      \<and> (\<forall>i < length (vars s). \<forall>x. vars s ! i = Some x \<longrightarrow>
           vars (TypeRef_set i i s) ! i = None \<and> rcount (TypeRef_set i i s) x = rcount s x
           \<and> freed (TypeRef_set i i s) = freed s)"
proof -
  define s where "s = fold ref_run ops \<lparr>rcount = \<lambda>x. 0, freed = [], vars = []\<rparr>"
  have ok: "refs_ok s" unfolding s_def by (rule ref_fold_ok [OF _ assms]) (simp add: refs_ext_def)
  have "vars (TypeRef_set i i s) ! i = None \<and> rcount (TypeRef_set i i s) x = rcount s x
      \<and> freed (TypeRef_set i i s) = freed s" if "i < length (vars s)" "vars s ! i = Some x" for i x
  proof -
    have "0 < rcount s x" using ok that by (metis add_is_0 count_list_0_iff gr0I nth_mem refs_ext_def)
    then show ?thesis using that by (simp add: TypeRef_set_def TypeRef_clear_def Let_def freed_release)
  qed
  then show ?thesis using ok var_not_freed [OF ok] unfolding s_def [symmetric] by (auto simp: refs_ext_def)
qed

theorem TypeRef_counts_witness:
  "(case fold ref_run [NewObject (Some 7), Copy 0, Clear 0] \<lparr>rcount = \<lambda>x. 0, freed = [], vars = []\<rparr> of s \<Rightarrow>
      rcount s 7 = count_list (vars s) (Some 7) \<and> vars s = [None, Some 7] \<and> freed s = [])"
  using TypeRef_counts [of "[NewObject (Some 7), Copy 0, Clear 0]"]
  by (simp add: TypeRef_new_object_def TypeRef_copy_def TypeRef_clear_def retain_ptr_def release_ptr_def
      Counted_retain_def Counted_release_def Let_def)

text \<open>
  The bit operations on a byte array: \<open>set\<close> gives exactly the bits of the range inside
  the array the new value and returns how many of them changed, \<open>count\<close> counts the bits of
  a range, and \<open>get\<close> reads a bit; at the first bit behind the array \<open>get\<close> reads outside it.
\<close>

theorem bytes_bits:
  "case bytes_set mode v offset bits of (k, v') \<Rightarrow>
     length v' = length v \<and> k = changed mode v offset bits
     \<and> (\<forall>n. bit_of v' n = (if offset \<le> n \<and> n < offset + bits \<and> n div 8 < length v then mode else bit_of v n))
     \<and> bytes_count v' offset bits = length (filter (bit_of v') [offset..<offset + bits])
     \<and> (\<forall>n. bytes_get v n = (if n div 8 = length v then None else Some (bit_of v n)))"
proof -
  obtain k v' where r: "bytes_set mode v offset bits = (k, v')" by (cases "bytes_set mode v offset bits")
  have "bytes_get v n = (if n div 8 = length v then None else Some (bit_of v n))" for n
    by (auto simp: bytes_get_def bit_of_def mask_bit)
  then show ?thesis using bytes_set_bits [OF r] bytes_count_bits [of v'] by (simp add: r)
qed

end
