(* ===== verification/ArrayRef.thy ===== *)
theory ArrayRef
  imports TypeRef
begin

text \<open>
  The shared arrays, queues and stacks of reference counted objects of
  \<open>corelib/arrayref.cpp\<close>: \<open>ArrayRef\<close> and \<open>ArrayRef::Array\<close>.

  The slots of the array are the variables of the reference counting state, so that the
  invariant of the counters extends to them; \<open>size\<close> is the number of slots. The operations
  run under the array's lock. Where the code would wait for another thread, because a queue
  is full or empty, the model returns \<open>None\<close>: the state does not change while it waits.
\<close>

section \<open>State and operations\<close>

datatype arraytype = ARRAY | QUEUE | STACK | FALLBACK

record arrayref = trefs +
  atype :: arraytype
  head :: nat
  tail :: nat

abbreviation asize :: "arrayref \<Rightarrow> nat" where
  "asize a \<equiv> length (vars a)"

definition Array_new :: "arraytype \<Rightarrow> nat \<Rightarrow> theap \<Rightarrow> arrayref" where
  "Array_new mode used h =
     \<lparr>rcount = rcount h, freed = freed h, vars = replicate used None, atype = mode, head = 0,
      tail = (if mode = ARRAY then used else 0)\<rparr>"

fun dealloc_loop :: "nat \<Rightarrow> nat \<Rightarrow> arrayref \<Rightarrow> arrayref" where
  "dealloc_loop 0 index a = a"
| "dealloc_loop (Suc n) index a = dealloc_loop n (index + 1) (TypeRef_clear index a)"

definition Array_dealloc :: "arrayref \<Rightarrow> arrayref" where
  "Array_dealloc a = (dealloc_loop (asize a) 0 a)\<lparr>vars := []\<rparr>"

definition Array_count :: "arrayref \<Rightarrow> nat" where
  "Array_count a = (if head a \<le> tail a then tail a - head a else (tail a + asize a) - head a)"

definition Array_get :: "nat \<Rightarrow> arrayref \<Rightarrow> ptr" where
  "Array_get index a = (if index \<ge> asize a then None else vars a ! index)"

definition Array_remove :: "nat \<Rightarrow> arrayref \<Rightarrow> ptr \<times> arrayref" where
  "Array_remove index a =
     (if index \<ge> asize a then (None, a)
      else (Array_get index a, a\<lparr>vars := (vars a)[index := None]\<rparr>))"

definition Array_assign :: "nat \<Rightarrow> ptr \<Rightarrow> arrayref \<Rightarrow> arrayref" where
  "Array_assign index object a =
     (if index \<ge> asize a then a
      else
        (let a = retain_ptr object a; a = release_ptr (Array_get index a) a
         in a\<lparr>vars := (vars a)[index := object]\<rparr>))"

fun assign_all :: "nat \<Rightarrow> nat \<Rightarrow> ptr \<Rightarrow> arrayref \<Rightarrow> arrayref" where
  "assign_all 0 index object a = a"
| "assign_all (Suc n) index object a = assign_all n (index + 1) object (Array_assign index object a)"

definition ArrayRef_reset :: "ptr \<Rightarrow> arrayref \<Rightarrow> arrayref" where
  "ArrayRef_reset object a =
     (if asize a = 0 \<or> object = None then a
      else
        (let mx = (case atype a of ARRAY \<Rightarrow> asize a | FALLBACK \<Rightarrow> 1 | _ \<Rightarrow> 0)
         in assign_all mx 0 object (a\<lparr>head := 0, tail := mx\<rparr>)))"

definition ArrayRef_clear :: "arrayref \<Rightarrow> arrayref" where
  "ArrayRef_clear a = ArrayRef_reset None a"

text \<open>The branch for \<open>QUEUE\<close>, into which \<open>FALLBACK\<close> falls through.\<close>

definition pop_head :: "arrayref \<Rightarrow> arrayref" where
  "pop_head a =
     (if head a \<noteq> tail a
      then (let a = Array_assign (head a) None a
            in a\<lparr>head := (if head a + 1 \<ge> asize a then 0 else head a + 1)\<rparr>)
      else a)"

definition ArrayRef_pop :: "arrayref \<Rightarrow> arrayref" where
  "ArrayRef_pop a =
     (if asize a = 0 then a
      else case atype a of
        STACK \<Rightarrow>
          (if head a \<noteq> tail a
           then (let a = a\<lparr>tail := (if tail a = 0 then asize a else tail a) - 1\<rparr>
                 in Array_assign (tail a) None a)
           else a)
      | FALLBACK \<Rightarrow> if Array_count a = 1 then a else pop_head a
      | QUEUE \<Rightarrow> pop_head a
      | ARRAY \<Rightarrow> a)"

text \<open>One round of the loop of \<open>push\<close>: \<open>None\<close> when it waits because the array is full.\<close>

definition ArrayRef_push :: "ptr \<Rightarrow> arrayref \<Rightarrow> arrayref option" where
  "ArrayRef_push object a =
     (if atype a = ARRAY then Some a
      else if Array_count a \<ge> asize a - 1 then None
      else
        (let a = Array_assign (tail a) object a
         in Some (a\<lparr>tail := (if tail a + 1 \<ge> asize a then 0 else tail a + 1)\<rparr>)))"

definition pull_head :: "arrayref \<Rightarrow> ptr \<times> arrayref" where
  "pull_head a =
     (let (value, a) = Array_remove (head a) a
      in (value, a\<lparr>head := (if head a + 1 = asize a then 0 else head a + 1)\<rparr>))"

text \<open>
  One round of the loop of \<open>pull\<close>: the pointer that the caller's smart pointer is set to,
  without \<open>retain\<close>. With \<open>None\<close> it is cleared, and unless the array is an \<open>ARRAY\<close> the code
  waits and tries again; a slot between head and tail that holds no object has been skipped.
\<close>

definition ArrayRef_pull :: "arrayref \<Rightarrow> ptr \<times> arrayref" where
  "ArrayRef_pull a =
     (if atype a \<noteq> ARRAY \<and> head a \<noteq> tail a then
        (case atype a of
           STACK \<Rightarrow> (let a = a\<lparr>tail := (if tail a = 0 then asize a else tail a) - 1\<rparr>
                      in Array_remove (tail a) a)
         | FALLBACK \<Rightarrow> if Array_count a = 1 then (Array_get (head a) a, a) else pull_head a
         | QUEUE \<Rightarrow> pull_head a
         | ARRAY \<Rightarrow> (None, a))
      else (None, a))"

definition ArrayRef_assign :: "nat \<Rightarrow> ptr \<Rightarrow> arrayref \<Rightarrow> arrayref" where
  "ArrayRef_assign index obj a =
     (if index \<ge> asize a then a
      else
        (let index = index + head a; index = (if index \<ge> asize a then index - asize a else index)
         in Array_assign index obj a))"

definition ArrayRef_get :: "nat \<Rightarrow> arrayref \<Rightarrow> ptr" where
  "ArrayRef_get index a =
     (if index \<ge> asize a \<or> head a = tail a then None
      else
        (let index = index + head a
         in if head a \<le> tail a \<and> index \<ge> tail a then None
            else
              (let index = (if index \<ge> asize a then index - asize a else index)
               in if index \<ge> tail a then None else Array_get index a)))"

definition ArrayRef_is :: "nat \<Rightarrow> arrayref \<Rightarrow> bool" where
  "ArrayRef_is index a \<longleftrightarrow> ArrayRef_get index a \<noteq> None"

section \<open>The ring\<close>

text \<open>
  \<open>ring a xs\<close>: from head to tail the slots hold the objects \<open>xs\<close>, the others are empty.
\<close>

definition ring :: "arrayref \<Rightarrow> addr list \<Rightarrow> bool" where
  "ring a xs \<longleftrightarrow>
     head a < asize a \<and> length xs < asize a \<and> tail a = (head a + length xs) mod asize a
     \<and> (\<forall>i < length xs. vars a ! ((head a + i) mod asize a) = Some (xs ! i))
     \<and> (\<forall>i. length xs \<le> i \<and> i < asize a \<longrightarrow> vars a ! ((head a + i) mod asize a) = None)"

lemma mod_wrap: "h < n \<Longrightarrow> k < n \<Longrightarrow> (h + k) mod n = (if h + k < n then h + k else h + k - (n :: nat))"
  by (simp add: mod_if)

lemma ring_count: "ring a xs \<Longrightarrow> Array_count a = length xs"
  by (auto simp: ring_def Array_count_def mod_wrap split: if_splits)

lemma ring_empty: "ring a xs \<Longrightarrow> head a = tail a \<longleftrightarrow> xs = []"
  by (auto simp: ring_def mod_wrap split: if_splits)

lemma mod_lt: "h < n \<Longrightarrow> m mod n < (n :: nat)"
  by simp

lemma mod_inj: "h < n \<Longrightarrow> i < n \<Longrightarrow> j < n \<Longrightarrow> (h + i) mod n = (h + j) mod n \<Longrightarrow> i = (j :: nat)"
  by (auto simp: mod_wrap split: if_splits)

lemma ptr_array_fields [simp]:
  fixes a :: arrayref
  shows "head (retain_ptr p a) = head a" "tail (retain_ptr p a) = tail a" "atype (retain_ptr p a) = atype a"
    "head (release_ptr p a) = head a" "tail (release_ptr p a) = tail a" "atype (release_ptr p a) = atype a"
  by (cases p; simp add: retain_ptr_def release_ptr_def Counted_retain_def Counted_release_def Counted_dealloc_def Let_def)+

lemma assign_fields [simp]:
  "head (Array_assign i p a) = head a" "tail (Array_assign i p a) = tail a" "atype (Array_assign i p a) = atype a"
  "vars (Array_assign i p a) = (vars a)[i := p]"
  by (simp_all add: Array_assign_def Let_def list_update_beyond)

lemma ring_put:
  assumes "ring a xs" "length xs + 1 < asize a" "vars a' = (vars a)[tail a := Some x]"
    "head a' = head a" "tail a' = (tail a + 1) mod asize a"
  shows "ring a' (xs @ [x])"
proof -
  let ?n = "asize a"
  have h: "head a < ?n" "tail a = (head a + length xs) mod ?n" using assms(1) by (auto simp: ring_def)
  have t: "tail a < ?n" using h mod_lt [OF h(1)] by auto
  have eq: "(head a + i) mod ?n = tail a \<longleftrightarrow> i = length xs" if "i < ?n" for i
    using mod_inj [of "head a" ?n i "length xs"] h that assms(2) by auto
  have slot: "(vars a)[tail a := Some x] ! ((head a + i) mod ?n)
      = (if i = length xs then Some x else vars a ! ((head a + i) mod ?n))" if "i < ?n" for i
    using eq [OF that] t by (auto simp: nth_list_update)
  have "tail a' = (head a' + length (xs @ [x])) mod asize a'"
    using assms(3-5) h(2) by (simp add: mod_Suc_eq)
  moreover have "vars a' ! ((head a' + i) mod asize a') = Some ((xs @ [x]) ! i)" if "i < length (xs @ [x])" for i
    using that assms slot [of i] by (auto simp: ring_def nth_append less_Suc_eq)
  moreover have "vars a' ! ((head a' + i) mod asize a') = None" if "length (xs @ [x]) \<le> i" "i < asize a'" for i
    using that assms slot [of i] by (auto simp: ring_def)
  ultimately show ?thesis using assms h by (auto simp: ring_def)
qed

lemma ring_get:
  assumes "ring a (x # xs)" "vars a' = (vars a)[head a := None]" "head a' = (head a + 1) mod asize a" "tail a' = tail a"
  shows "vars a ! head a = Some x" "ring a' xs"
proof -
  let ?n = "asize a"
  have h: "head a < ?n" "length xs + 1 < ?n" "tail a = (head a + Suc (length xs)) mod ?n"
    using assms(1) by (auto simp: ring_def)
  have n: "(head a' + i) mod ?n = (head a + Suc i) mod ?n" for i using assms(3) by (simp add: mod_Suc_eq mod_add_left_eq)
  have eq: "(head a + Suc i) mod ?n = head a \<longleftrightarrow> Suc i = ?n" if "i < ?n" for i
  proof (cases "Suc i = ?n")
    case False
    then have "(head a + Suc i) mod ?n \<noteq> (head a + 0) mod ?n" using mod_inj [of "head a" ?n "Suc i" 0] h that by force
    then show ?thesis using False h by simp
  qed (use h in simp)
  show "vars a ! head a = Some x" using assms(1) h by (fastforce simp: ring_def)
  have "vars a' ! ((head a' + i) mod asize a') = Some (xs ! i)" if "i < length xs" for i
    using that assms(1,2) h n eq [of i] by (fastforce simp: ring_def nth_list_update)
  moreover have "vars a' ! ((head a' + i) mod asize a') = None" if "length xs \<le> i" "i < asize a'" for i
  proof (cases "Suc i = ?n")
    case True
    then have "(head a + Suc i) mod ?n = head a" using eq [of i] by simp
    then show ?thesis using assms(2) h(1) n [of i] by simp
  next
    case False
    then show ?thesis using that assms(1,2) h n eq [of i] by (fastforce simp: ring_def nth_list_update)
  qed
  ultimately show "ring a' xs" using assms h n [of "length xs"] mod_lt [OF h(1)] by (auto simp: ring_def)
qed

lemma ring_push:
  assumes "ring a xs" "length xs + 1 < asize a" "atype a \<noteq> ARRAY"
  obtains a' where "ArrayRef_push (Some x) a = Some a'" "ring a' (xs @ [x])" "atype a' = atype a" "asize a' = asize a"
proof -
  have c: "\<not> Array_count a \<ge> asize a - 1" using ring_count [OF assms(1)] assms(2) by simp
  have t: "tail a < asize a" using assms(1) mod_lt [of "head a" "asize a"] by (auto simp: ring_def)
  let ?a = "(Array_assign (tail a) (Some x) a)\<lparr>tail := (tail a + 1) mod asize a\<rparr>"
  have "ArrayRef_push (Some x) a = Some ?a"
    using c assms(3) t by (auto simp: ArrayRef_push_def Let_def mod_Suc)
  moreover have "ring ?a (xs @ [x])" using assms(1,2) by (rule ring_put) simp_all
  ultimately show thesis using that by simp
qed

lemma ring_pull:
  assumes "ring a (x # xs)" "atype a = QUEUE"
  obtains a' where "ArrayRef_pull a = (Some x, a')" "ring a' xs" "atype a' = QUEUE" "asize a' = asize a"
proof -
  have h: "head a < asize a" using assms(1) by (auto simp: ring_def)
  let ?a = "a\<lparr>vars := (vars a)[head a := None], head := (head a + 1) mod asize a\<rparr>"
  have "ring ?a xs" "vars a ! head a = Some x" using ring_get [OF assms(1), of ?a] by simp_all
  moreover have "(if head a + 1 = asize a then 0 else head a + 1) = (head a + 1) mod asize a" using h by (auto simp: mod_if)
  ultimately have "ArrayRef_pull a = (Some x, ?a)"
    using h ring_empty [OF assms(1)] assms(2)
    by (simp add: ArrayRef_pull_def pull_head_def Array_remove_def Array_get_def Let_def)
  then show thesis using that [of ?a] \<open>ring ?a xs\<close> assms(2) by simp
qed

lemma ring_pull_empty: "ring a [] \<Longrightarrow> atype a \<noteq> ARRAY \<Longrightarrow> ArrayRef_pull a = (None, a)"
  using ring_empty [of a "[]"] by (simp add: ArrayRef_pull_def)

text \<open>One attempt to push, for the interface of first-in first-out containers.\<close>

definition try_push :: "addr \<Rightarrow> arrayref \<Rightarrow> arrayref" where
  "try_push x a = (case ArrayRef_push (Some x) a of Some a' \<Rightarrow> a' | None \<Rightarrow> a)"

interpretation queue: fifo "\<lambda>a xs. ring a xs \<and> atype a = QUEUE \<and> asize a = n" "\<lambda>x xs. length xs + 1 < n"
  try_push ArrayRef_pull for n
proof
  fix s :: arrayref and xs :: "addr list" and x :: addr
  assume "ring s xs \<and> atype s = QUEUE \<and> asize s = n" "length xs + 1 < n"
  then show "ring (try_push x s) (xs @ [x]) \<and> atype (try_push x s) = QUEUE \<and> asize (try_push x s) = n"
    by (elim conjE ring_push [of s xs x]) (auto simp: try_push_def)
next
  fix s :: arrayref and xs :: "addr list" and x :: addr
  assume "ring s (x # xs) \<and> atype s = QUEUE \<and> asize s = n"
  then show "fst (ArrayRef_pull s) = Some x \<and> ring (snd (ArrayRef_pull s)) xs \<and> atype (snd (ArrayRef_pull s)) = QUEUE
      \<and> asize (snd (ArrayRef_pull s)) = n"
    by (elim conjE ring_pull [of s x xs]) auto
next
  fix s :: arrayref
  assume "ring s [] \<and> atype s = QUEUE \<and> asize s = n"
  then show "fst (ArrayRef_pull s) = None \<and> ring (snd (ArrayRef_pull s)) [] \<and> atype (snd (ArrayRef_pull s)) = QUEUE
      \<and> asize (snd (ArrayRef_pull s)) = n"
    using ring_pull_empty [of s] by simp
qed

section \<open>Reference counts\<close>

lemma refs_array [simp]:
  "refs_ext e (a\<lparr>head := h\<rparr>) = refs_ext e (a :: arrayref)" "refs_ext e (a\<lparr>tail := t\<rparr>) = refs_ext e (a :: arrayref)"
  by (simp_all add: refs_ext_def)

lemma refs_assign:
  assumes "refs_ext e a" "\<And>x. p = Some x \<Longrightarrow> x \<notin> set (freed a)"
  shows "refs_ext e (Array_assign i p a)"
proof (cases "i < asize a")
  case True
  then have "Array_assign i p a = TypeRef_set_object i p a"
    by (simp add: Array_assign_def TypeRef_set_object_def TypeRef_clear_def Array_get_def Let_def)
  then show ?thesis using refs_set_object [OF assms(1) True assms(2)] by simp
qed (use assms in \<open>simp add: Array_assign_def\<close>)

lemma refs_remove:
  assumes "refs_ext e a" "Array_remove i a = (v, a')"
  shows "refs_ext (\<lambda>x. e x + of_bool (v = Some x)) a'"
  using assms refs_take [OF assms(1), of i] by (auto simp: Array_remove_def Array_get_def split: if_splits)

lemma refs_push:
  "\<lbrakk>refs_ext e a; x \<notin> set (freed a); ArrayRef_push (Some x) a = Some a'\<rbrakk> \<Longrightarrow> refs_ext e a'"
  using refs_assign [of e a "Some x" "tail a"] by (auto simp: ArrayRef_push_def Let_def split: if_splits)

lemma refs_pop: "refs_ext e a \<Longrightarrow> refs_ext e (ArrayRef_pop a)"
  using refs_assign [of e a None "head a"] refs_assign [of e "a\<lparr>tail := _\<rparr>" None]
  by (auto simp: ArrayRef_pop_def pop_head_def Let_def split: arraytype.split)

lemma refs_pull:
  assumes "refs_ext e a" "ArrayRef_pull a = (v, a')" "atype a \<in> {QUEUE, STACK}"
  shows "refs_ext (\<lambda>x. e x + of_bool (v = Some x)) a'"
proof (cases "atype a")
  case QUEUE
  then show ?thesis
    using assms refs_remove [OF assms(1), of "head a"]
    by (auto simp: ArrayRef_pull_def pull_head_def Let_def split: if_splits prod.splits)
next
  case STACK
  let ?a = "a\<lparr>tail := (if tail a = 0 then asize a else tail a) - 1\<rparr>"
  show ?thesis
  proof (cases "head a = tail a")
    case True
    then show ?thesis using assms by (simp add: ArrayRef_pull_def)
  next
    case False
    then have "Array_remove (tail ?a) ?a = (v, a')"
      using STACK assms(2) by (simp add: ArrayRef_pull_def Let_def)
    then show ?thesis using refs_remove [of e ?a] assms(1) by simp
  qed
qed (use assms(3) in simp_all)

section \<open>Properties\<close>

text \<open>
  C31: A \<open>QUEUE\<close> of size \<open>n\<close> hands out up to \<open>n - 1\<close> objects in the order in which they were
  pushed, wherever in the ring it starts, and the next pull waits.
\<close>

theorem ArrayRef_queue_order:
  assumes "ring a [] \<and> atype a = QUEUE \<and> asize a = n" and "length xs < n"
  shows "fst (deq_n ArrayRef_pull (length xs) (enq_all try_push xs a)) = map Some xs
    \<and> fst (ArrayRef_pull (snd (deq_n ArrayRef_pull (length xs) (enq_all try_push xs a)))) = None"
proof -
  have "all_ok (\<lambda>x xs. length xs + 1 < n) xs ys" if "length ys + length xs < n" for ys
    using that by (induction xs arbitrary: ys) auto
  then have "all_ok (\<lambda>x xs. length xs + 1 < n) xs []" using assms(2) by simp
  then show ?thesis using queue.fifo_order [OF assms(1)] by blast
qed

lemma queue_start: "0 < n \<Longrightarrow> ring (Array_new QUEUE n h) [] \<and> atype (Array_new QUEUE n h) = QUEUE \<and> asize (Array_new QUEUE n h) = n"
  by (simp add: ring_def Array_new_def)

theorem ArrayRef_queue_order_witness:
  "fst (deq_n ArrayRef_pull 2 (enq_all try_push [5, 7] (Array_new QUEUE 3 \<lparr>rcount = \<lambda>x. 0, freed = []\<rparr>))) = [Some 5, Some 7]"
  using ArrayRef_queue_order [OF queue_start, of 3 "[5, 7]" "\<lparr>rcount = \<lambda>x. 0, freed = []\<rparr>"]
  by (simp add: numeral_2_eq_2)

text \<open>
  Reference counts: \<open>push\<close>, \<open>pop\<close>, \<open>pull\<close> from a queue or a stack and \<open>assign\<close> keep
  every counter equal to the references in the slots and elsewhere; a pulled object's
  reference moves to the caller. The last object of a \<open>FALLBACK\<close> queue is handed out
  without a reference of its own.
\<close>

theorem ArrayRef_reference_counts:
  assumes "refs_ext e a"
  shows "(\<forall>x a'. x \<notin> set (freed a) \<and> ArrayRef_push (Some x) a = Some a' \<longrightarrow> refs_ext e a')
    \<and> refs_ext e (ArrayRef_pop a)
    \<and> (\<forall>i x. x \<notin> set (freed a) \<longrightarrow> refs_ext e (ArrayRef_assign i (Some x) a))
    \<and> (\<forall>x a'. atype a \<in> {QUEUE, STACK} \<and> ArrayRef_pull a = (Some x, a') \<longrightarrow> refs_ext (e(x := e x + 1)) a')
    \<and> (\<forall>x. atype a = FALLBACK \<and> ring a [x] \<longrightarrow>
         ArrayRef_pull a = (Some x, a) \<and> \<not> refs_ext (e(x := e x + 1)) a)"
proof (intro conjI allI impI)
  fix x a' assume "x \<notin> set (freed a) \<and> ArrayRef_push (Some x) a = Some a'"
  then show "refs_ext e a'" using refs_push assms by blast
next
  show "refs_ext e (ArrayRef_pop a)" using assms by (rule refs_pop)
next
  fix i x assume "x \<notin> set (freed a)"
  then show "refs_ext e (ArrayRef_assign i (Some x) a)" using refs_assign [OF assms, of "Some x"] assms
    by (auto simp: ArrayRef_assign_def Let_def)
next
  fix x a' assume a: "atype a \<in> {QUEUE, STACK} \<and> ArrayRef_pull a = (Some x, a')"
  have "(\<lambda>y. e y + of_bool (Some x = Some y)) = e(x := e x + 1)" by auto
  then show "refs_ext (e(x := e x + 1)) a'" using a refs_pull [OF assms, of "Some x" a'] by simp
next
  fix x assume a: "atype a = FALLBACK \<and> ring a [x]"
  then have "head a \<noteq> tail a" "Array_count a = 1" "Array_get (head a) a = Some x"
    using ring_empty [of a "[x]"] ring_count [of a "[x]"] by (auto simp: ring_def Array_get_def)
  then show "ArrayRef_pull a = (Some x, a)" using a by (simp add: ArrayRef_pull_def)
  show "\<not> refs_ext (e(x := e x + 1)) a" using assms by (auto simp: refs_ext_def dest: spec [of _ x])
qed

theorem ArrayRef_reference_counts_witness:
  "refs_ext (\<lambda>x. 0) (ArrayRef_pop (Array_new QUEUE 3 \<lparr>rcount = \<lambda>x. 0, freed = []\<rparr>))"
proof -
  have "refs_ext (\<lambda>x. 0) (Array_new QUEUE 3 \<lparr>rcount = \<lambda>x. 0, freed = []\<rparr>)"
    by (simp add: refs_ext_def Array_new_def numeral_3_eq_3)
  from ArrayRef_reference_counts [OF this] show ?thesis by blast
qed

text \<open>
  \<open>get\<close> reads the objects of a ring by number as long as it does not wrap around; once
  it does, the objects in front of the wrap are not found. \<open>clear\<close> does nothing.
\<close>

theorem ArrayRef_get_ring:
  assumes "ring a xs" and "i < length xs"
  shows "ArrayRef_get i a =
      (if head a \<le> tail a \<or> asize a \<le> head a + i then Some (xs ! i) else None)
    \<and> ArrayRef_clear a = a"
proof -
  have h: "head a < asize a" "length xs < asize a" "tail a = (head a + length xs) mod asize a"
    "vars a ! ((head a + i) mod asize a) = Some (xs ! i)" "head a \<noteq> tail a"
    using assms ring_empty [OF assms(1)] by (auto simp: ring_def)
  show ?thesis
    using h assms(2)
    by (auto simp: ArrayRef_get_def Array_get_def ArrayRef_clear_def ArrayRef_reset_def mod_wrap Let_def add.commute split: if_splits)
qed

definition wrapped :: arrayref where
  "wrapped = \<lparr>rcount = \<lambda>x. 1, freed = [], vars = [Some 8, None, None, Some 7], atype = QUEUE, head = 3, tail = 1\<rparr>"

theorem ArrayRef_get_ring_witness: "ArrayRef_get 0 wrapped = None \<and> ArrayRef_get 1 wrapped = Some 8"
proof -
  have "vars wrapped ! ((3 + i) mod 4) = None" if "2 \<le> i" "i < 4" for i
  proof -
    have "i = 2 \<or> i = 3" using that by linarith
    then show ?thesis by (auto simp: wrapped_def)
  qed
  moreover have "vars wrapped ! ((3 + i) mod 4) = Some ([7, 8] ! i)" if "i < 2" for i
  proof -
    have "i = 0 \<or> i = 1" using that by linarith
    then show ?thesis by (auto simp: wrapped_def)
  qed
  ultimately have "ring wrapped [7, 8]" by (simp add: ring_def wrapped_def numeral_2_eq_2)
  from ArrayRef_get_ring [OF this, of 0] ArrayRef_get_ring [OF this, of 1] show ?thesis
    by (simp add: wrapped_def)
qed

end
