(* ===== verification/Buffer.thy ===== *)
theory Buffer
  imports Prelude "HOL-Library.Monad_Syntax"
begin

text \<open>
  Character buffers, and the functions of class \<open>String\<close> in \<open>corelib/string.cpp\<close> that work on
  plain C strings (\<open>char *\<close>).

  A buffer is the list of the characters from a pointer to the end of its memory. A write
  behind the end, and \<open>strlen\<close> of a text without terminator, give \<open>None\<close>. Texts that are only
  read are lists of characters without the terminator.
\<close>

section \<open>Memory\<close>

abbreviation NUL :: char where
  "NUL \<equiv> CHR 0x00"

definition poke :: "nat \<Rightarrow> char \<Rightarrow> char list \<Rightarrow> char list option" where
  "poke i c b = (if i < length b then Some (b[i := c]) else None)"

definition memcpy :: "nat \<Rightarrow> char list \<Rightarrow> char list \<Rightarrow> char list option" where
  "memcpy d src b =
     (if d + length src \<le> length b then Some (take d b @ src @ drop (d + length src) b) else None)"

definition memmove :: "nat \<Rightarrow> nat \<Rightarrow> nat \<Rightarrow> char list \<Rightarrow> char list option" where
  "memmove d s n b = (if s + n \<le> length b then memcpy d (take n (drop s b)) b else None)"

text \<open>The C string at a pointer into a buffer.\<close>

definition text_at :: "nat \<Rightarrow> char list \<Rightarrow> cstr option" where
  "text_at pos b = (if NUL \<in> set (drop pos b) then Some (takeWhile (\<lambda>c. c \<noteq> NUL) (drop pos b)) else None)"

definition strlen_at :: "nat \<Rightarrow> char list \<Rightarrow> nat option" where
  "strlen_at pos b = map_option length (text_at pos b)"

text \<open>
  Addition and subtraction of \<open>size_t\<close> values, which wrap around. They are written out where
  an operand comes from the caller; the sum of the lengths of two texts in memory, and a
  difference that the code has compared before, are those of the natural numbers.
\<close>

definition size_add :: "nat \<Rightarrow> nat \<Rightarrow> nat" where
  "size_add a b = (a + b) mod 2 ^ 64"

definition size_minus :: "nat \<Rightarrow> nat \<Rightarrow> nat" where
  "size_minus a b = (a + 2 ^ 64 - b) mod 2 ^ 64"

lemma poke_append [simp]: "i = length a \<Longrightarrow> poke i c (a @ x # b) = Some (a @ c # b)"
  by (simp add: poke_def)

lemma memcpy_append:
  "d = length a \<Longrightarrow> length src \<le> length b \<Longrightarrow> memcpy d src (a @ b) = Some (a @ src @ drop (length src) b)"
  by (simp add: memcpy_def)

lemma memmove_down:
  "d = length a \<Longrightarrow> s = length a + length x \<Longrightarrow> n = length y \<Longrightarrow>
     memmove d s n (a @ x @ y @ b) = Some (a @ y @ drop (length y) (x @ y @ b))"
  by (simp add: memmove_def memcpy_def)

text \<open>Moving the end of a text down and terminating it.\<close>

lemma move_down:
  assumes "t = a @ x @ y" "d = length a" "s = length a + length x" "n = length y" "e = length a + length y"
  shows "\<exists>junk'. do { b \<leftarrow> memmove d s n (t @ NUL # junk); poke e NUL b } = Some (a @ y @ NUL # junk')
    \<and> length junk' = length x + length junk"
proof -
  have "memmove d s n (a @ x @ y @ NUL # junk) = Some (a @ y @ drop (length y) (x @ y @ NUL # junk))"
    using assms by (intro memmove_down) simp_all
  moreover have "drop (length y) (x @ y @ NUL # junk) \<noteq> []" by simp
  then obtain c r where "drop (length y) (x @ y @ NUL # junk) = c # r" by (meson neq_Nil_conv)
  moreover from this have "length r = length x + length junk"
    using length_drop [of "length y" "x @ y @ NUL # junk"] by simp
  ultimately show ?thesis
    using assms poke_append [of e "a @ y" NUL c r] by auto
qed

lemma text_at_append [simp]: "NUL \<notin> set t \<Longrightarrow> text_at 0 (t @ NUL # junk) = Some t"
  by (induction t) (auto simp: text_at_def)

lemma strlen_append [simp]: "NUL \<notin> set t \<Longrightarrow> strlen_at 0 (t @ NUL # junk) = Some (length t)"
  by (simp add: strlen_at_def)

lemma text_at_split:
  "text_at 0 b = Some t \<longleftrightarrow> NUL \<notin> set t \<and> (\<exists>junk. b = t @ NUL # junk)"
proof
  assume t: "text_at 0 b = Some t"
  then have "NUL \<in> set b" by (auto simp: text_at_def split: if_splits)
  then obtain u junk where b: "b = u @ NUL # junk" "NUL \<notin> set u"
    by (meson split_list_first)
  with t show "NUL \<notin> set t \<and> (\<exists>junk. b = t @ NUL # junk)" by auto
qed auto

lemma text_at_cut: "text_at 0 (take n t @ NUL # junk) = Some (take n t)" if "NUL \<notin> set t" for t
  using that by (meson in_set_takeD text_at_append)

lemma size_minus_le:
  assumes "b \<le> a" "a < 2 ^ 64"
  shows "size_minus a b = a - b"
proof -
  have "a + 2 ^ 64 - b = (a - b) + 2 ^ 64" by (rule add_diff_assoc2 [symmetric]) (rule assms)
  moreover have "a - b < 2 ^ 64" using assms(2) by (rule le_less_trans [OF diff_le_self])
  ultimately show ?thesis by (simp only: size_minus_def mod_add_self2 mod_less)
qed

lemma size_add_less: "a + b < 2 ^ 64 \<Longrightarrow> size_add a b = a + b"
  by (simp only: size_add_def mod_less)

section \<open>Copying into a buffer\<close>

definition cstr_set_len :: "char list \<Rightarrow> nat \<Rightarrow> cstr \<Rightarrow> nat \<Rightarrow> char list option" where
  "cstr_set_len str sz s len =
     (if sz < 2 then Some str
      else
        (let l = length s; l = (if l \<ge> sz then sz - 1 else l); l = (if l > len then len else l)
         in if l = 0 then poke 0 NUL str
            else do { str \<leftarrow> memcpy 0 (take l s) str; poke l NUL str }))"

definition cstr_set :: "char list \<Rightarrow> nat \<Rightarrow> cstr \<Rightarrow> char list option" where
  "cstr_set str sz s =
     (if sz < 2 then Some str
      else
        (let l = length s; l = (if l \<ge> sz then sz - 1 else l)
         in if l = 0 then poke 0 NUL str
            else do { str \<leftarrow> memcpy 0 (take l s) str; poke l NUL str }))"

definition cstr_rset :: "char list \<Rightarrow> nat \<Rightarrow> cstr \<Rightarrow> char list option" where
  "cstr_rset str sz s =
     (let len = length s; s = (if len > sz then drop (len - sz) s else s) in cstr_set str sz s)"

text \<open>A function applied to the buffer from a position on.\<close>

definition at_pos :: "nat \<Rightarrow> (char list \<Rightarrow> char list option) \<Rightarrow> char list \<Rightarrow> char list option" where
  "at_pos off f b = map_option (\<lambda>b'. take off b @ b') (f (drop off b))"

definition cstr_add_len :: "char list \<Rightarrow> nat \<Rightarrow> cstr \<Rightarrow> char list option" where
  "cstr_add_len str sz s =
     do {
       let l = length s;
       off \<leftarrow> strlen_at 0 str;
       if off \<ge> size_minus sz 1 then Some str
       else at_pos off (\<lambda>b. cstr_set_len b (size_minus sz off) s l) str
     }"

definition cstr_add :: "char list \<Rightarrow> nat \<Rightarrow> cstr \<Rightarrow> char list option" where
  "cstr_add str sz s =
     do {
       off \<leftarrow> strlen_at 0 str;
       if off \<ge> size_minus sz 1 then Some str
       else at_pos off (\<lambda>b. cstr_set b (size_minus sz off) s) str
     }"

text \<open>\<open>dup\<close> and \<open>left\<close>: \<open>mem\<close> is what \<open>malloc\<close> returns.\<close>

definition cstr_dup :: "cstr \<Rightarrow> char list \<Rightarrow> char list option" where
  "cstr_dup cp mem = (let len = length cp + 1 in cstr_set (take len mem) len cp)"

definition cstr_left :: "cstr \<Rightarrow> nat \<Rightarrow> char list \<Rightarrow> char list option" where
  "cstr_left cp sz mem =
     (let sz = (if sz = 0 then length cp else sz); sz = size_add sz 1
      in cstr_set (take sz mem) sz cp)"

definition cstr_fill :: "char list \<Rightarrow> nat \<Rightarrow> char \<Rightarrow> char list option" where
  "cstr_fill str sz fill =
     do {
       str \<leftarrow> memcpy 0 (replicate (size_minus sz 1) fill) str;
       poke (size_minus sz 1) NUL str
     }"

section \<open>Editing in place\<close>

definition cstr_cut :: "char list \<Rightarrow> nat \<Rightarrow> nat \<Rightarrow> char list option" where
  "cstr_cut str offset sz =
     do {
       len \<leftarrow> strlen_at 0 str;
       if len = 0 \<or> offset \<ge> len then Some str
       else if size_add offset sz \<ge> len then poke offset NUL str
       else
         do {
           str \<leftarrow> memmove offset (size_add offset sz) (size_minus (len - offset) sz) str;
           poke (size_minus len sz) NUL str
         }
     }"

definition cstr_paste :: "char list \<Rightarrow> nat \<Rightarrow> nat \<Rightarrow> cstr \<Rightarrow> nat \<Rightarrow> char list option" where
  "cstr_paste str mx offset cp sz =
     (let sz = (if sz = 0 then length cp else sz)
      in if sz = 0 then Some str
         else
           do {
             len \<leftarrow> strlen_at 0 str;
             if len \<le> mx then Some str
             else
               (let sz = (if size_add len sz \<ge> mx then size_minus mx len else sz)
                in if offset \<ge> len then at_pos len (\<lambda>b. cstr_set b (size_add sz 1) cp) str
                   else
                     do {
                       str \<leftarrow> memmove (size_add offset sz) offset (len - offset) str;
                       memcpy offset (take sz cp) str
                     })
           })"

fun chop_loop :: "cstr \<Rightarrow> nat \<Rightarrow> char list \<Rightarrow> char list option" where
  "chop_loop clist 0 str = Some str"
| "chop_loop clist (Suc offset) str =
     (if strchr_in clist (cchar str offset)
      then do { str \<leftarrow> poke offset NUL str; chop_loop clist offset str }
      else Some str)"

definition cstr_chop :: "char list \<Rightarrow> cstr \<Rightarrow> char list option" where
  "cstr_chop str clist = do { offset \<leftarrow> strlen_at 0 str; chop_loop clist offset str }"

text \<open>\<open>trim\<close> returns a pointer into the text: the number of characters that are skipped.\<close>

fun trim_loop :: "cstr \<Rightarrow> cstr \<Rightarrow> nat" where
  "trim_loop clist [] = 0"
| "trim_loop clist (c # str) = (if strchr_in clist c then trim_loop clist str + 1 else 0)"

definition cstr_trim :: "cstr \<Rightarrow> cstr \<Rightarrow> nat" where
  "cstr_trim str clist = trim_loop clist str"

definition cstr_strip :: "char list \<Rightarrow> cstr \<Rightarrow> (nat \<times> char list) option" where
  "cstr_strip str clist =
     do {
       s \<leftarrow> text_at 0 str;
       let p = cstr_trim s clist;
       str \<leftarrow> at_pos p (\<lambda>b. cstr_chop b clist) str;
       Some (p, str)
     }"

text \<open>\<open>unquote\<close>: \<open>clist\<close> holds pairs of opening and closing quotes.\<close>

fun unquote_loop :: "char list \<Rightarrow> nat \<Rightarrow> cstr \<Rightarrow> (nat \<times> char list) option" where
  "unquote_loop str len (q # q' # clist) =
     (if cchar str 0 = q \<and> cchar str (len - 1) = q'
      then do { str \<leftarrow> poke (len - 1) NUL str; Some (1, str) }
      else unquote_loop str len clist)"
| "unquote_loop str len [q] = (if cchar str 0 = q \<and> cchar str (len - 1) = NUL
      then do { str \<leftarrow> poke (len - 1) NUL str; Some (1, str) } else None)"
| "unquote_loop str len [] = Some (0, str)"

definition cstr_unquote :: "char list \<Rightarrow> cstr \<Rightarrow> (nat \<times> char list) option option" where
  "cstr_unquote str clist =
     do {
       len \<leftarrow> strlen_at 0 str;
       if len = 0 then Some None else map_option Some (unquote_loop str len clist)
     }"

text \<open>\<open>toupper\<close> and \<open>tolower\<close> in the C locale.\<close>

definition to_upper :: "char \<Rightarrow> char" where
  "to_upper c =
     (if 97 \<le> (of_char c :: nat) \<and> (of_char c :: nat) \<le> 122 then char_of (of_char c - 32 :: nat) else c)"

definition to_lower :: "char \<Rightarrow> char" where
  "to_lower c =
     (if 65 \<le> (of_char c :: nat) \<and> (of_char c :: nat) \<le> 90 then char_of (of_char c + 32 :: nat) else c)"

fun cstr_upper :: "char list \<Rightarrow> char list" where
  "cstr_upper [] = []"
| "cstr_upper (c # str) = (if c = NUL then c # str else to_upper c # cstr_upper str)"

fun cstr_lower :: "char list \<Rightarrow> char list" where
  "cstr_lower [] = []"
| "cstr_lower (c # str) = (if c = NUL then c # str else to_lower c # cstr_lower str)"

definition cstr_erase :: "char list \<Rightarrow> char list option" where
  "cstr_erase str = do { n \<leftarrow> strlen_at 0 str; memcpy 0 (replicate n NUL) str }"

section \<open>Scanning\<close>

text \<open>Pointers into a text are positions in it.\<close>

fun cstr_check_loop :: "cstr \<Rightarrow> nat \<Rightarrow> nat \<Rightarrow> nat option" where
  "cstr_check_loop [] count mx = Some count"
| "cstr_check_loop (c # str) count mx =
     (if count + 1 > mx then None else cstr_check_loop str (count + 1) mx)"

definition cstr_check :: "cstr \<Rightarrow> nat \<Rightarrow> nat \<Rightarrow> bool" where
  "cstr_check str mx mn =
     (case cstr_check_loop str 0 mx of None \<Rightarrow> False | Some count \<Rightarrow> \<not> count < mn)"

fun cstr_ccount :: "cstr \<Rightarrow> cstr \<Rightarrow> nat" where
  "cstr_ccount [] clist = 0"
| "cstr_ccount (c # str) clist = (if strchr_in clist c then 1 else 0) + cstr_ccount str clist"

definition cstr_skip :: "cstr \<Rightarrow> cstr \<Rightarrow> nat option" where
  "cstr_skip str clist =
     (let p = trim_loop clist str in if cchar str p \<noteq> NUL then Some p else None)"

fun cstr_rskip_loop :: "cstr \<Rightarrow> cstr \<Rightarrow> nat \<Rightarrow> nat option" where
  "cstr_rskip_loop str clist 0 = None"
| "cstr_rskip_loop str clist (Suc len) =
     (if \<not> strchr_in clist (cchar str len) then Some 0 else cstr_rskip_loop str clist len)"

definition cstr_rskip :: "cstr \<Rightarrow> cstr \<Rightarrow> nat option" where
  "cstr_rskip str clist = (if length str = 0 then None else cstr_rskip_loop str clist (length str))"

fun cstr_seek :: "cstr \<Rightarrow> cstr \<Rightarrow> nat" where
  "cstr_seek [] clist = 0"
| "cstr_seek (c # str) clist = (if strchr_in clist c then 0 else cstr_seek str clist + 1)"

text \<open>
  \<open>find(str, clist)\<close>: the loop never moves on, so the result is \<open>None\<close> when \<open>fuel\<close> rounds do not
  end it.
\<close>

fun cstr_find :: "nat \<Rightarrow> cstr \<Rightarrow> cstr \<Rightarrow> nat option option" where
  "cstr_find 0 str clist = None"
| "cstr_find (Suc fuel) str clist =
     (if cchar str 0 \<noteq> NUL
      then (if strchr_in clist (cchar str 0) then Some (Some 0) else cstr_find fuel str clist)
      else Some None)"

fun cstr_rfind_loop :: "cstr \<Rightarrow> cstr \<Rightarrow> nat \<Rightarrow> nat option" where
  "cstr_rfind_loop str clist 0 = None"
| "cstr_rfind_loop str clist (Suc s) =
     (if strchr_in clist (cchar str s) then Some s else cstr_rfind_loop str clist s)"

definition cstr_rfind :: "cstr \<Rightarrow> cstr \<Rightarrow> nat option" where
  "cstr_rfind str clist = cstr_rfind_loop str clist (length str)"

definition cstr_pos :: "cstr \<Rightarrow> int \<Rightarrow> nat" where
  "cstr_pos cp offset =
     (let len = length cp
      in if len = 0 then 0
         else if offset \<ge> 0 then (if nat offset > len then len else nat offset)
         else (let offset = nat (- offset) in if offset \<ge> len then 0 else len - offset))"

section \<open>Lemmas\<close>

lemma drop_past: "length t \<le> n \<Longrightarrow> drop n (t @ b) = drop (n - length t) b"
  by simp

lemma notin_set_dropI: "x \<notin> set s \<Longrightarrow> x \<notin> set (drop n s)"
  by (auto dest: in_set_dropD)

lemma text_at_pos: "p = length a \<Longrightarrow> text_at p (a @ b) = text_at 0 b"
  by (simp add: text_at_def)

text \<open>What the copying functions leave in the buffer.\<close>

lemma cstr_set_result:
  assumes "2 \<le> n" "n \<le> length b"
  shows "cstr_set b n s = Some (take (n - 1) s @ NUL # drop (Suc (min (length s) (n - 1))) b)"
proof -
  define l where "l = min (length s) (n - 1)"
  have l: "l < length b" "(if length s \<ge> n then n - 1 else length s) = l" using assms by (auto simp: l_def)
  obtain c b' where "drop l b = c # b'" using l(1) by (metis Cons_nth_drop_Suc)
  then have b': "b' = drop (Suc l) b" by (simp add: drop_Suc drop_tl)
  have "take l s = take (n - 1) s" by (simp add: l_def min_def)
  moreover have "length (take l s) = l" by (simp add: l_def)
  ultimately show ?thesis
    using l assms \<open>drop l b = c # b'\<close>
    by (cases "l = 0") (auto simp: cstr_set_def Let_def poke_def memcpy_def b' l_def [symmetric]
        list_update_append neq_Nil_conv)
qed

lemma cstr_add_result:
  assumes t: "text_at 0 b = Some t" "length t < n" and n: "2 \<le> n" "n \<le> length b" "n < 2 ^ 64"
  shows "\<exists>junk. cstr_add b n s = Some (t @ take (n - 1 - length t) s @ NUL # junk)
    \<and> (\<forall>k \<ge> n. drop k (t @ take (n - 1 - length t) s @ NUL # junk) = drop k b)
    \<and> length (t @ take (n - 1 - length t) s @ NUL # junk) = length b"
proof -
  from t obtain junk where b: "b = t @ NUL # junk" "NUL \<notin> set t" by (auto simp: text_at_split)
  have sub: "size_minus n 1 = n - 1" "size_minus n (length t) = n - length t"
    using t n by (simp_all only: size_minus_le less_imp_le)
  show ?thesis
  proof (cases "length t \<ge> n - 1")
    case True
    then have "cstr_add b n s = Some b" using b sub by (simp add: cstr_add_def)
    with True b show ?thesis by auto
  next
    case False
    let ?m = "n - length t" and ?l = "min (length s) (n - length t - 1)"
    have "cstr_set (NUL # junk) ?m s = Some (take (?m - 1) s @ NUL # drop (Suc ?l) (NUL # junk))"
      using False n b by (intro cstr_set_result) auto
    then have "cstr_add b n s = Some (t @ take (?m - 1) s @ NUL # drop (Suc ?l) (NUL # junk))"
      using False b sub by (simp add: cstr_add_def at_pos_def)
    moreover have "drop k (t @ take (?m - 1) s @ NUL # drop (Suc ?l) (NUL # junk)) = drop k b" if "k \<ge> n" for k
      using that False b by (auto simp: drop_Cons')
    ultimately show ?thesis using b False n
      by (intro exI [of _ "drop (Suc ?l) (NUL # junk)"]) (auto simp: add.commute)
  qed
qed

lemma strchr_in_text: "c \<noteq> NUL \<Longrightarrow> strchr_in clist c \<longleftrightarrow> c \<in> set clist"
  by (simp add: strchr_in_def)

text \<open>Removing characters from the end and from the front.\<close>

definition chopped :: "cstr \<Rightarrow> cstr \<Rightarrow> cstr" where
  "chopped clist t = rev (dropWhile (\<lambda>c. c \<in> set clist) (rev t))"

lemma chopped_snoc: "chopped clist (t @ [c]) = (if c \<in> set clist then chopped clist t else t @ [c])"
  by (simp add: chopped_def)

lemma length_chopped: "length (chopped clist t) \<le> length t"
  using length_dropWhile_le [of _ "rev t"] by (simp add: chopped_def)

lemma set_chopped: "set (chopped clist t) \<subseteq> set t"
  by (auto simp: chopped_def dest: set_dropWhileD)

lemma chop_loop_result:
  "NUL \<notin> set t \<Longrightarrow> chop_loop clist (length t) (t @ NUL # junk)
     = Some (chopped clist t @ NUL # replicate (length t - length (chopped clist t)) NUL @ junk)"
proof (induction t arbitrary: junk rule: rev_induct)
  case Nil
  then show ?case by (simp add: chopped_def)
next
  case (snoc c t)
  have "length t - length (chopped clist t) = k \<Longrightarrow>
      Suc (length t) - length (chopped clist t) = Suc k" for k
    using length_chopped [of clist t] by simp
  with snoc.IH [of "NUL # junk"] snoc.prems show ?case
    by (auto simp: cchar_def chopped_snoc strchr_in_text poke_def list_update_append
        replicate_append_same [symmetric])
qed

lemma trim_loop_length: "NUL \<notin> set t \<Longrightarrow> trim_loop clist t = length (takeWhile (\<lambda>c. c \<in> set clist) t)"
  by (induction t) (auto simp: strchr_in_text)

lemma trim_loop_drop: "NUL \<notin> set t \<Longrightarrow> drop (trim_loop clist t) t = dropWhile (\<lambda>c. c \<in> set clist) t"
  by (simp add: trim_loop_length dropWhile_eq_drop)

lemma cstr_cut_result:
  assumes "text_at 0 b = Some t" "off + sz < 2 ^ 64" "length t < 2 ^ 64"
  shows "\<exists>b'. cstr_cut b off sz = Some b' \<and> text_at 0 b' = Some (take off t @ drop (off + sz) t) \<and> length b' = length b"
proof -
  from assms(1) obtain junk where b: "b = t @ NUL # junk" "NUL \<notin> set t" by (auto simp: text_at_split)
  note add = size_add_less [OF assms(2)]
  consider "length t = 0 \<or> off \<ge> length t" | "off < length t" "off + sz \<ge> length t" | "off + sz < length t" by linarith
  then show ?thesis
  proof cases
    case 1
    then show ?thesis using b by (auto simp: cstr_cut_def)
  next
    case 2
    then have "cstr_cut b off sz = Some (take off t @ NUL # drop (Suc off) b)"
      using b by (auto simp: cstr_cut_def add poke_def upd_conv_take_nth_drop)
    with 2 b show ?thesis by (auto simp: text_at_cut)
  next
    case 3
    let ?t = "take off t @ drop (off + sz) t"
    have "t = take off t @ take sz (drop off t) @ drop (off + sz) t"
      by (metis append_take_drop_id drop_drop add.commute)
    from move_down [OF this, of off "off + sz" "length t - off - sz" "length t - sz" junk] 3
    obtain junk' where "do { b \<leftarrow> memmove off (off + sz) (length t - off - sz) b; poke (length t - sz) NUL b }
        = Some (?t @ NUL # junk')" "length junk' = sz + length junk"
      by (auto simp: b)
    moreover have nul: "NUL \<notin> set ?t"
      using b by (auto dest: in_set_takeD in_set_dropD)
    moreover have "text_at 0 (take off t @ drop (off + sz) t @ NUL # junk') = Some ?t"
      using text_at_append [OF nul, of junk'] by simp
    moreover have "cstr_cut b off sz
        = do { b \<leftarrow> memmove off (off + sz) (length t - off - sz) b; poke (length t - sz) NUL b }"
    proof -
      have "size_minus (length t - off) sz = length t - off - sz" "size_minus (length t) sz = length t - sz"
        using 3 assms(3) by (intro size_minus_le; linarith)+
      then show ?thesis using 3 b by (auto simp: cstr_cut_def add)
    qed
    ultimately show ?thesis
      using 3 b by (intro exI [of _ "?t @ NUL # junk'"]) auto
  qed
qed

text \<open>Quotes: the pairs of \<open>clist\<close>, and the text between the first matching pair.\<close>

fun unquoted :: "cstr \<Rightarrow> cstr \<Rightarrow> cstr option" where
  "unquoted t (q # q' # clist) =
     (if hd t = q \<and> last t = q' then Some (butlast (tl t)) else unquoted t clist)"
| "unquoted t _ = None"

lemma unquoted_Some: "unquoted t clist = Some u \<Longrightarrow> u = butlast (tl t)"
  by (induction t clist rule: unquoted.induct) (auto split: if_splits)

lemma unquote_loop_result:
  assumes "NUL \<notin> set t" "t \<noteq> []" "even (length clist)"
  shows "unquote_loop (t @ NUL # junk) (length t) clist =
    (case unquoted t clist of
       None \<Rightarrow> Some (0, t @ NUL # junk)
     | Some u \<Rightarrow> Some (1, butlast t @ NUL # NUL # junk))"
proof -
  have "cchar (t @ NUL # junk) 0 = hd t" "cchar (t @ NUL # junk) (length t - 1) = last t"
    using assms(2) by (auto simp: cchar_def hd_conv_nth last_conv_nth nth_append)
  moreover have "t @ NUL # junk = butlast t @ last t # NUL # junk"
    using append_butlast_last_id [OF assms(2)] by (metis append.assoc append_Cons append_Nil)
  then have "poke (length t - 1) NUL (t @ NUL # junk) = Some (butlast t @ NUL # NUL # junk)"
    by (metis poke_append length_butlast)
  ultimately show ?thesis
    using assms(3) by (induction t clist rule: unquoted.induct) auto
qed

lemma cstr_upper_text: "NUL \<notin> set t \<Longrightarrow> cstr_upper (t @ NUL # junk) = map to_upper t @ NUL # junk"
  by (induction t) auto

lemma cstr_lower_text: "NUL \<notin> set t \<Longrightarrow> cstr_lower (t @ NUL # junk) = map to_lower t @ NUL # junk"
  by (induction t) auto

lemma cstr_check_loop_result:
  "cstr_check_loop s k mx = (if s = [] \<or> k + length s \<le> mx then Some (k + length s) else None)"
  by (induction s arbitrary: k) auto

lemma cstr_ccount_filter: "NUL \<notin> set s \<Longrightarrow> cstr_ccount s clist = length (filter (\<lambda>c. c \<in> set clist) s)"
  by (induction s) (auto simp: strchr_in_text)

lemma cstr_seek_length: "NUL \<notin> set s \<Longrightarrow> cstr_seek s clist = length (takeWhile (\<lambda>c. c \<notin> set clist) s)"
  by (induction s) (auto simp: strchr_in_text)

lemma cstr_skip_result:
  "NUL \<notin> set s \<Longrightarrow> cstr_skip s clist =
     (if set s \<subseteq> set clist then None else Some (length (takeWhile (\<lambda>c. c \<in> set clist) s)))"
proof -
  assume s: "NUL \<notin> set s"
  define p where "p = length (takeWhile (\<lambda>c. c \<in> set clist) s)"
  have "set s \<subseteq> set clist \<longleftrightarrow> p = length s"
  proof -
    have "p = length s \<longleftrightarrow> takeWhile (\<lambda>c. c \<in> set clist) s = s"
      unfolding p_def by (metis takeWhile_eq_take take_all order_refl)
    then show ?thesis by (auto simp: takeWhile_eq_all_conv)
  qed
  moreover have "cchar s p \<noteq> NUL \<longleftrightarrow> p \<noteq> length s"
  proof -
    have "p \<le> length s" by (simp add: p_def length_takeWhile_le)
    moreover have "p < length s \<Longrightarrow> s ! p \<noteq> NUL" using s nth_mem by metis
    ultimately show ?thesis by (auto simp: cchar_def)
  qed
  ultimately show ?thesis
    using s by (simp add: cstr_skip_def trim_loop_length Let_def p_def [symmetric])
qed

lemma cstr_rfind_loop_result:
  assumes "NUL \<notin> set s" "n \<le> length s"
  shows "case cstr_rfind_loop s clist n of
      None \<Rightarrow> \<forall>i < n. s ! i \<notin> set clist
    | Some p \<Rightarrow> p < n \<and> s ! p \<in> set clist \<and> (\<forall>i. p < i \<and> i < n \<longrightarrow> s ! i \<notin> set clist)"
  using assms(2)
proof (induction n)
  case (Suc n)
  then have "s ! n \<noteq> NUL" using assms(1) by (metis Suc_le_lessD nth_mem)
  with Suc show ?case
    by (auto simp: strchr_in_text cchar_def less_Suc_eq split: option.splits)
qed simp

lemma cstr_rskip_loop_result:
  "NUL \<notin> set s \<Longrightarrow> n \<le> length s \<Longrightarrow>
     cstr_rskip_loop s clist n = (if set (take n s) \<subseteq> set clist then None else Some 0)"
proof (induction n)
  case (Suc n)
  then have "s ! n \<noteq> NUL" by (metis Suc_le_lessD nth_mem)
  with Suc show ?case by (auto simp: strchr_in_text cchar_def take_Suc_conv_app_nth)
qed simp

lemma cstr_find_stuck: "c \<noteq> NUL \<Longrightarrow> c \<notin> set clist \<Longrightarrow> cstr_find fuel (c # s) clist = None"
  by (induction fuel) (auto simp: cchar_def strchr_in_text)

section \<open>Properties\<close>

text \<open>
  Copying into a buffer of \<open>n\<close> bytes: \<open>set\<close> stores the text cut to \<open>n - 1\<close> characters, \<open>add\<close>
  appends what still fits, both with a terminator and without touching what follows the
  \<open>n\<close> bytes. \<open>rset\<close> is meant to keep the end of a text that is too long, but loses its last
  character.
\<close>

theorem cstr_copy_bounds:
  assumes "2 \<le> n" "n \<le> length b" "n < 2 ^ 64" "NUL \<notin> set s" "text_at 0 b = Some t" "length t < n"
  shows "(\<exists>b'. cstr_set b n s = Some b' \<and> text_at 0 b' = Some (take (n - 1) s) \<and> drop n b' = drop n b)
    \<and> (\<exists>b'. cstr_add b n s = Some b' \<and> text_at 0 b' = Some (t @ take (n - 1 - length t) s) \<and> drop n b' = drop n b)
    \<and> (\<exists>b'. cstr_rset b n s = Some b' \<and>
         text_at 0 b' = Some (if length s > n then butlast (drop (length s - n) s) else take (n - 1) s))"
proof (intro conjI)
  have set: "\<exists>b'. cstr_set b n s = Some b' \<and> text_at 0 b' = Some (take (n - 1) s) \<and> drop n b' = drop n b"
    if "NUL \<notin> set s" for s
  proof -
    have "drop n (take (n - 1) s @ NUL # drop (Suc (min (length s) (n - 1))) b) = drop n b"
      using assms(1) by (auto simp: drop_Cons' min_def)
    then show ?thesis
      using cstr_set_result [OF assms(1,2), of s] text_at_cut [OF that, of "n - 1"] by auto
  qed
  from set [OF assms(4)] show "\<exists>b'. cstr_set b n s = Some b' \<and> text_at 0 b' = Some (take (n - 1) s) \<and> drop n b' = drop n b" .
  have "NUL \<notin> set (t @ take (n - 1 - length t) s)"
    using assms(4,5) by (auto simp: text_at_split dest: in_set_takeD)
  from text_at_append [OF this] cstr_add_result [OF assms(5,6,1-3), of s]
  show "\<exists>b'. cstr_add b n s = Some b' \<and> text_at 0 b' = Some (t @ take (n - 1 - length t) s) \<and> drop n b' = drop n b"
    by auto
  have "take (n - 1) (drop (length s - n) s) = butlast (drop (length s - n) s)" if "length s > n"
    using that by (simp add: butlast_conv_take)
  then show "\<exists>b'. cstr_rset b n s = Some b' \<and>
      text_at 0 b' = Some (if length s > n then butlast (drop (length s - n) s) else take (n - 1) s)"
    using set [of "drop (length s - n) s"] set [OF assms(4)] notin_set_dropI [OF assms(4)]
    by (auto simp: cstr_rset_def Let_def)
qed

theorem cstr_copy_bounds_witness:
  "\<exists>b'. cstr_set (''a'' @ NUL # ''cdefgh'') 4 ''12345'' = Some b' \<and> text_at 0 b' = Some ''123'' \<and> drop 4 b' = ''efgh''"
proof -
  have "text_at 0 (''a'' @ NUL # ''cdefgh'') = Some ''a''" by (rule text_at_append) simp
  from cstr_copy_bounds [OF _ _ _ _ this, of 4 "''12345''"] show ?thesis by simp
qed

text \<open>
  Copies on the heap: \<open>dup\<close> and \<open>left\<close> return a terminated copy, except of the empty text: then
  the memory is returned as it was allocated, without a terminator.
\<close>

theorem cstr_dup_copies:
  assumes "NUL \<notin> set s" "length s < length mem" "Suc k < length mem'" "length mem < 2 ^ 64" "length mem' < 2 ^ 64"
  shows "map_option (text_at 0) (cstr_dup s mem) = Some (if s = [] then text_at 0 [hd mem] else Some s)
    \<and> map_option (text_at 0) (cstr_left s 0 mem) = Some (if s = [] then text_at 0 [hd mem] else Some s)
    \<and> map_option (text_at 0) (cstr_left s (Suc k) mem') = Some (Some (take (Suc k) s))"
proof -
  have "length s + 1 < 2 ^ 64" "Suc k + 1 < 2 ^ 64" using assms(2-5) by linarith+
  then have left: "cstr_left s 0 mem = cstr_dup s mem"
      "cstr_left s (Suc k) mem' = cstr_set (take (Suc (Suc k)) mem') (Suc (Suc k)) s"
    using size_add_less [of "length s" 1] size_add_less [of "Suc k" 1]
    by (simp_all add: cstr_left_def cstr_dup_def)
  show ?thesis
  proof (cases "s = []")
    case True
    moreover have "take 1 mem = [hd mem]" using assms(2) by (cases mem) auto
    ultimately show ?thesis using assms(3) unfolding left
      by (simp add: cstr_dup_def cstr_set_def poke_def) (cases mem', auto simp: text_at_def)
  next
    case False
    then have "cstr_set (take (Suc (length s)) mem) (Suc (length s)) s
        = Some (take (length s) s @ NUL # drop (Suc (length s)) (take (Suc (length s)) mem))"
      using cstr_set_result [of "Suc (length s)" "take (Suc (length s)) mem" s] assms(2) by (cases s) auto
    moreover have "cstr_set (take (Suc (Suc k)) mem') (Suc (Suc k)) s
        = Some (take (Suc k) s @ NUL # drop (Suc (min (length s) (Suc k))) (take (Suc (Suc k)) mem'))"
      using cstr_set_result [of "Suc (Suc k)" "take (Suc (Suc k)) mem'" s] assms(3) by simp
    ultimately show ?thesis
      using False assms(1) text_at_cut [OF assms(1)] unfolding left by (simp add: cstr_dup_def Let_def)
  qed
qed

text \<open>
  Editing in place: \<open>cut\<close> removes the characters of a range, \<open>chop\<close> those of a set at the end,
  \<open>strip\<close> at both ends, \<open>unquote\<close> the first matching pair of quotes. \<open>paste\<close> changes no text that
  fits its buffer.
\<close>

theorem cstr_edit:
  assumes "NUL \<notin> set t" "even (length clist)" "off + sz < 2 ^ 64" "length t < 2 ^ 64"
  shows "(\<exists>b. cstr_cut (t @ NUL # junk) off sz = Some b \<and> text_at 0 b = Some (take off t @ drop (off + sz) t))
    \<and> (\<exists>b. cstr_chop (t @ NUL # junk) clist = Some b \<and> text_at 0 b = Some (chopped clist t))
    \<and> (\<exists>p b. cstr_strip (t @ NUL # junk) clist = Some (p, b)
         \<and> text_at p b = Some (chopped clist (dropWhile (\<lambda>c. c \<in> set clist) t)))
    \<and> (t \<noteq> [] \<longrightarrow> (\<exists>p b. cstr_unquote (t @ NUL # junk) clist = Some (Some (p, b))
         \<and> text_at p b = Some (case unquoted t clist of None \<Rightarrow> t | Some u \<Rightarrow> u)))
    \<and> (length t \<le> mx \<longrightarrow> cstr_paste (t @ NUL # junk) mx off cp sz = Some (t @ NUL # junk))"
proof (intro conjI impI)
  let ?b = "t @ NUL # junk"
  show "\<exists>b. cstr_cut ?b off sz = Some b \<and> text_at 0 b = Some (take off t @ drop (off + sz) t)"
    using cstr_cut_result [of ?b t off sz] assms(1,3,4) by auto
  have chop: "\<exists>b. cstr_chop (u @ NUL # junk) clist = Some b \<and> text_at 0 b = Some (chopped clist u)"
    if "NUL \<notin> set u" for u
  proof -
    have "NUL \<notin> set (chopped clist u)" using that set_chopped by blast
    then show ?thesis using that by (simp add: cstr_chop_def chop_loop_result)
  qed
  from chop [OF assms(1)]
  show "\<exists>b. cstr_chop ?b clist = Some b \<and> text_at 0 b = Some (chopped clist t)" .
  define p where "p = trim_loop clist t"
  have p: "p \<le> length t" "drop p t = dropWhile (\<lambda>c. c \<in> set clist) t"
    using assms(1) by (simp_all add: p_def trim_loop_drop) (simp add: trim_loop_length length_takeWhile_le)
  from chop [OF notin_set_dropI [OF assms(1)], of p] obtain b where
    "cstr_chop (drop p t @ NUL # junk) clist = Some b" "text_at 0 b = Some (chopped clist (drop p t))" by auto
  then show "\<exists>p b. cstr_strip ?b clist = Some (p, b)
      \<and> text_at p b = Some (chopped clist (dropWhile (\<lambda>c. c \<in> set clist) t))"
    using assms(1) p text_at_pos [of p "take p t" b]
    by (simp add: cstr_strip_def cstr_trim_def p_def [symmetric] at_pos_def)
next
  assume t: "t \<noteq> []"
  have "text_at 1 (butlast t @ NUL # NUL # junk) = Some (butlast (tl t))"
  proof (cases "butlast t")
    case Nil
    with t show ?thesis by (cases t) (auto simp: text_at_def split: if_splits)
  next
    case (Cons c u)
    with t have "u = butlast (tl t)" by (cases t) (auto split: if_splits)
    moreover have "NUL \<notin> set u" using Cons assms(1) in_set_butlastD [of NUL t] by auto
    ultimately show ?thesis using Cons text_at_pos [of 1 "[c]"] by simp
  qed
  then show "\<exists>p b. cstr_unquote (t @ NUL # junk) clist = Some (Some (p, b))
      \<and> text_at p b = Some (case unquoted t clist of None \<Rightarrow> t | Some u \<Rightarrow> u)"
    using t assms unquote_loop_result [OF assms(1) t assms(2), of junk]
    by (cases "unquoted t clist") (auto simp: cstr_unquote_def dest: unquoted_Some)
next
  assume "length t \<le> mx"
  then show "cstr_paste (t @ NUL # junk) mx off cp sz = Some (t @ NUL # junk)"
    using assms(1) by (simp add: cstr_paste_def Let_def)
qed

theorem cstr_dup_copies_witness:
  "map_option (text_at 0) (cstr_dup ''abc'' ''xxxx'') = Some (Some ''abc'')
   \<and> map_option (text_at 0) (cstr_dup '''' ''xxxx'') = Some None"
  using cstr_dup_copies [of "''abc''" "''xxxx''" 0 "''yy''"] cstr_dup_copies [of "''''" "''xxxx''" 0 "''yy''"]
  by (simp add: text_at_def)

theorem cstr_edit_witness:
  "\<exists>b. cstr_chop (''ab  '' @ NUL # '''') ''  '' = Some b \<and> text_at 0 b = Some ''ab''"
proof -
  have "chopped ''  '' ''ab  '' = ''ab''" by (simp add: chopped_def)
  with cstr_edit [of "''ab  ''" "''  ''" 0 0 "''''"] show ?thesis by simp
qed

text \<open>
  Scanning: the number of characters from a set, the first and the last of them, the first
  outside it. \<open>find\<close> ends only if the first character is in the set or the text is empty;
  \<open>rskip\<close> returns the start of the text instead of the last character outside the set.
\<close>

theorem cstr_scan:
  assumes "NUL \<notin> set s"
  shows "cstr_ccount s clist = length (filter (\<lambda>c. c \<in> set clist) s)
    \<and> cstr_seek s clist = length (takeWhile (\<lambda>c. c \<notin> set clist) s)
    \<and> cstr_skip s clist =
        (if set s \<subseteq> set clist then None else Some (length (takeWhile (\<lambda>c. c \<in> set clist) s)))
    \<and> (case cstr_rfind s clist of
         None \<Rightarrow> set s \<inter> set clist = {}
       | Some p \<Rightarrow> p < length s \<and> s ! p \<in> set clist \<and> set (drop (Suc p) s) \<inter> set clist = {})
    \<and> cstr_rskip s clist = (if set s \<subseteq> set clist then None else Some 0)
    \<and> cstr_check s mx mn = (mn \<le> length s \<and> (s = [] \<or> length s \<le> mx))
    \<and> (s \<noteq> [] \<and> hd s \<notin> set clist \<longrightarrow> (\<forall>fuel. cstr_find fuel s clist = None))"
proof (intro conjI impI allI)
  show "cstr_skip s clist =
      (if set s \<subseteq> set clist then None else Some (length (takeWhile (\<lambda>c. c \<in> set clist) s)))"
    using assms by (rule cstr_skip_result)
  show "case cstr_rfind s clist of
      None \<Rightarrow> set s \<inter> set clist = {}
    | Some p \<Rightarrow> p < length s \<and> s ! p \<in> set clist \<and> set (drop (Suc p) s) \<inter> set clist = {}"
    using cstr_rfind_loop_result [OF assms order_refl, of clist] unfolding cstr_rfind_def
    by (auto simp: in_set_conv_nth split: option.splits)
  show "cstr_rskip s clist = (if set s \<subseteq> set clist then None else Some 0)"
    using cstr_rskip_loop_result [OF assms order_refl, of clist] by (auto simp: cstr_rskip_def)
  show "cstr_check s mx mn = (mn \<le> length s \<and> (s = [] \<or> length s \<le> mx))"
    by (auto simp: cstr_check_def cstr_check_loop_result)
  fix fuel assume "s \<noteq> [] \<and> hd s \<notin> set clist"
  then show "cstr_find fuel s clist = None"
    using assms by (cases s) (auto simp: cstr_find_stuck)
qed (simp_all add: assms cstr_ccount_filter cstr_seek_length)

theorem cstr_scan_witness:
  "cstr_skip ''  a'' '' '' = Some 2 \<and> (\<forall>fuel. cstr_find fuel ''ab'' ''b'' = None)"
  using cstr_scan [of "''  a''" "'' ''" 0 0] cstr_scan [of "''ab''" "''b''" 0 0] by simp

end
