(* ===== verification/Codec.thy ===== *)
theory Codec
  imports Buffer
begin

unbundle bit_operations_syntax

text \<open>
  The binary codecs of \<open>corelib/string.cpp\<close>: hexadecimal, base 64, and the checksums.

  Texts are lists of characters without the terminating NUL, binary data lists of bytes.
  \<open>bits\<close>, an \<open>unsigned\<close>, stays below \<open>2^25\<close> in these functions and is a natural number.
  What a function stores is the list it returns; the theorems compare its length with the
  space that the callers reserve.
\<close>

section \<open>Hexadecimal\<close>

definition isspace :: "char \<Rightarrow> bool" where
  "isspace c \<longleftrightarrow> (of_char c :: nat) = 32 \<or> 9 \<le> (of_char c :: nat) \<and> (of_char c :: nat) \<le> 13"

definition hexcode :: "char \<Rightarrow> int" where
  "hexcode ch =
     (let ch = of_char (to_upper ch) :: int
      in if 48 \<le> ch \<and> ch \<le> 57 then ch - 48
         else if 65 \<le> ch \<and> ch \<le> 70 then ch - 65 + 10
         else -1)"

fun hexcount :: "cstr \<Rightarrow> bool \<Rightarrow> nat" where
  "hexcount [] ws = 0"
| "hexcount (c # str) ws =
     (if ws \<and> isspace c then hexcount str ws
      else case str of
             [] \<Rightarrow> 0
           | d # str' \<Rightarrow> if hexcode c < 0 \<or> hexcode d < 0 then 0 else hexcount str' ws + 1)"

text \<open>\<open>snprintf(buf, 3, "%02x", byte)\<close>.\<close>

definition hexdigit :: "nat \<Rightarrow> char" where
  "hexdigit n = char_of (if n < 10 then 48 + n else 87 + n)"

definition hexbyte :: "byte \<Rightarrow> cstr" where
  "hexbyte b = [hexdigit (unat b div 16), hexdigit (unat b mod 16)]"

definition hex :: "byte list \<Rightarrow> cstr" where
  "hex binary = concat (map hexbyte binary)"

text \<open>The returned number of characters, and the bytes that are stored at \<open>bin\<close>.\<close>

fun hex2bin_loop :: "cstr \<Rightarrow> nat \<Rightarrow> nat \<Rightarrow> bool \<Rightarrow> nat \<times> byte list" where
  "hex2bin_loop [] out mx ws = (0, [])"
| "hex2bin_loop (c # str) out mx ws =
     (if ws \<and> isspace c then
        (case hex2bin_loop str out mx ws of (count, bin) \<Rightarrow> (count + 1, bin))
      else case str of
             [] \<Rightarrow> (0, [])
           | d # str' \<Rightarrow>
               (let hi = hexcode c; lo = hexcode d
                in if hi < 0 \<or> lo < 0 then (0, [])
                   else
                     (let b = word_of_int (push_bit 4 hi OR lo)
                      in if out + 1 > mx then (2, [b])
                         else case hex2bin_loop str' (out + 1) mx ws of (count, bin) \<Rightarrow> (count + 2, b # bin))))"

definition hex2bin :: "cstr \<Rightarrow> nat \<Rightarrow> bool \<Rightarrow> nat \<times> byte list" where
  "hex2bin str mx ws = hex2bin_loop str 0 mx ws"

text \<open>
  Formats: digits give a number of bytes, every other character stands for itself.
  \<open>strtol\<close> in base 10 saturates at \<open>LONG_MAX\<close>, and its result is cast to \<open>unsigned\<close>.
\<close>

definition isdigit :: "char \<Rightarrow> bool" where
  "isdigit c \<longleftrightarrow> 48 \<le> (of_char c :: nat) \<and> (of_char c :: nat) \<le> 57"

definition decimal :: "cstr \<Rightarrow> nat" where
  "decimal ds = foldl (\<lambda>n c. 10 * n + (of_char c - 48)) 0 ds"

definition skip_of :: "cstr \<Rightarrow> nat" where
  "skip_of format = min (decimal (takeWhile isdigit format)) (2 ^ 63 - 1) mod 2 ^ 32"

definition skip_end :: "cstr \<Rightarrow> cstr" where
  "skip_end format = dropWhile isdigit format"

lemma skip_end_shorter [termination_simp]:
  "isdigit c \<Longrightarrow> length (skip_end (c # format)) < Suc (length format)"
  by (simp add: skip_end_def length_dropWhile_le le_imp_less_Suc)

text \<open>
  Each function walks over the format: a character that is no digit, or a number. The product
  \<open>skip * 2\<close> is an \<open>unsigned\<close>.
\<close>

fun hexsize :: "cstr \<Rightarrow> nat" where
  "hexsize [] = 0"
| "hexsize (c # format) =
     (if isdigit c then skip_of (c # format) * 2 mod 2 ^ 32 + hexsize (skip_end (c # format))
      else 1 + hexsize format)"

text \<open>\<open>None\<close> if \<open>binary\<close> is read past its end; else the stored text and the count.\<close>

fun hexdump :: "byte list \<Rightarrow> cstr \<Rightarrow> (cstr \<times> nat) option" where
  "hexdump binary [] = Some ('''', 0)"
| "hexdump binary (c # format) =
     (if isdigit c then
        (let skip = skip_of (c # format)
         in if length binary < skip then None
            else map_option (\<lambda>(string, count). (hex (take skip binary) @ string, skip * 2 mod 2 ^ 32 + count))
                   (hexdump (drop skip binary) (skip_end (c # format))))
      else map_option (\<lambda>(string, count). (c # string, 1 + count)) (hexdump binary format))"

text \<open>
  The inner loop of \<open>hexpack\<close> stores \<open>hexcode(string[0]) * 16 + hexcode(string[1])\<close>;
  \<open>None\<close> if it reads past the terminator of \<open>string\<close>.
\<close>

fun hexpack_bytes :: "cstr \<Rightarrow> nat \<Rightarrow> (byte list \<times> cstr) option" where
  "hexpack_bytes string 0 = Some ([], string)"
| "hexpack_bytes (c # d # string) (Suc skip) =
     map_option (\<lambda>(binary, string). (word_of_int (hexcode c * 16 + hexcode d) # binary, string))
       (hexpack_bytes string skip)"
| "hexpack_bytes _ (Suc skip) = None"

text \<open>The bytes that are stored, and the count.\<close>

fun hexpack :: "cstr \<Rightarrow> cstr \<Rightarrow> (byte list \<times> nat) option" where
  "hexpack string [] = Some ([], 0)"
| "hexpack string (c # format) =
     (if isdigit c then
        (let skip = skip_of (c # format)
         in case hexpack_bytes string skip of
              None \<Rightarrow> None
            | Some (bytes, string) \<Rightarrow>
                map_option (\<lambda>(binary, count). (bytes @ binary, skip * 2 mod 2 ^ 32 + count))
                  (hexpack string (skip_end (c # format))))
      else
        case string of
          [] \<Rightarrow> Some ([], 0)
        | d # string' \<Rightarrow>
            if d \<noteq> c then Some ([], 0)
            else map_option (\<lambda>(binary, count). (binary, 1 + count)) (hexpack string' format))"

section \<open>Base 64\<close>

definition alphabet :: cstr where
  "alphabet = ''ABCDEFGHIJKLMNOPQRSTUVWXYZabcdefghijklmnopqrstuvwxyz0123456789+/''"

definition b64size :: "nat \<Rightarrow> nat" where
  "b64size sz = sz * 4 div 3 + 4"

fun encode_triples :: "byte list \<Rightarrow> nat \<Rightarrow> cstr \<times> byte list \<times> nat" where
  "encode_triples (x # y # z # bin) dsize =
     (if dsize > 4 then
        (let bits = push_bit 16 (unat x) OR push_bit 8 (unat y) OR unat z;
             out = [alphabet ! drop_bit 18 bits, alphabet ! (drop_bit 12 bits AND 0x3f),
                    alphabet ! (drop_bit 6 bits AND 0x3f), alphabet ! (bits AND 0x3f)];
             (rest, r) = encode_triples bin (dsize - 4)
         in (out @ rest, r))
      else ([], x # y # z # bin, dsize))"
| "encode_triples bin dsize = ([], bin, dsize)"

text \<open>The text that is stored, without the NUL, and the number of bytes that were encoded.\<close>

definition b64encode :: "byte list \<Rightarrow> nat \<Rightarrow> cstr \<times> nat" where
  "b64encode bin dsize =
     (let dsize = (if dsize = 0 then b64size (length bin) else dsize)
      in if dsize = 0 \<or> bin = [] then ('''', 0)
         else
           (let (out, rest, dsize') = encode_triples bin dsize; count = length bin - length rest
            in case rest of
                 [] \<Rightarrow> (out, count)
               | x # rest' \<Rightarrow>
                   if dsize' > 4 then
                     (let bits = push_bit 16 (unat x); c0 = alphabet ! drop_bit 18 bits
                      in case rest' of
                           [] \<Rightarrow> (out @ [c0, alphabet ! (drop_bit 12 bits AND 0x3f), CHR ''='', CHR ''=''], count + 1)
                         | y # _ \<Rightarrow>
                             (let bits = bits OR push_bit 8 (unat y)
                              in (out @ [c0, alphabet ! (drop_bit 12 bits AND 0x3f),
                                         alphabet ! (drop_bit 6 bits AND 0x3f), CHR ''=''], count + 2)))
                   else (out, count)))"

text \<open>The table that the decoders fill.\<close>

definition decoder :: "char \<Rightarrow> nat" where
  "decoder = fold (\<lambda>i d. d(alphabet ! i := i)) [0..<64] (\<lambda>c. 64)"

fun b64count_loop :: "cstr \<Rightarrow> bool \<Rightarrow> nat \<Rightarrow> nat \<Rightarrow> nat \<times> nat" where
  "b64count_loop [] ws bits count = (bits, count)"
| "b64count_loop (c # src) ws bits count =
     (if isspace c then (if ws then b64count_loop src ws bits count else (bits, count))
      else if c = CHR ''='' then (bits, count)
      else if decoder c = 64 then (bits, count)
      else
        (let bits = push_bit 6 bits + decoder c
         in if bits AND 0x1000000 \<noteq> 0 then b64count_loop src ws 1 (count + 3)
            else b64count_loop src ws bits count))"

fun b64count_end :: "nat \<times> nat \<Rightarrow> nat" where
  "b64count_end (bits, count) =
     (if bits AND 0x40000 \<noteq> 0 then count + 2
      else if bits AND 0x1000 \<noteq> 0 then count + 1
      else count)"

definition b64count :: "cstr \<Rightarrow> bool \<Rightarrow> nat" where
  "b64count src ws = b64count_end (b64count_loop src ws 1 0)"

abbreviation low_byte :: "nat \<Rightarrow> byte" where
  "low_byte n \<equiv> word_of_nat (n AND 0xff)"

text \<open>The loop of the decoder: the bytes stored so far, \<open>bits\<close>, \<open>size\<close> and \<open>count\<close>.\<close>

fun b64decode_loop :: "cstr \<Rightarrow> bool \<Rightarrow> byte list \<Rightarrow> nat \<Rightarrow> nat \<Rightarrow> nat \<Rightarrow> byte list \<times> nat \<times> nat \<times> nat" where
  "b64decode_loop [] ws dest bits sz count = (dest, bits, sz, count)"
| "b64decode_loop (c # src) ws dest bits sz count =
     (if isspace c then
        (if ws then b64decode_loop src ws dest bits sz (count + 1) else (dest, bits, sz, count))
      else if c = CHR ''='' then
        (dest, bits, sz, count + 1 + (if cchar src 0 = CHR ''='' then 1 else 0))
      else if decoder c = 64 then (dest, bits, sz, count)
      else
        (let count = count + 1; bits = push_bit 6 bits + decoder c
         in if bits AND 0x1000000 \<noteq> 0 then
              (if sz < 3 then (dest, 1, sz, count)
               else b64decode_loop src ws
                      (dest @ [low_byte (drop_bit 16 bits), low_byte (drop_bit 8 bits), low_byte bits]) 1 (sz - 3) count)
            else b64decode_loop src ws dest bits sz count))"

text \<open>What follows the loop.\<close>

fun b64decode_end :: "byte list \<times> nat \<times> nat \<times> nat \<Rightarrow> byte list \<times> nat" where
  "b64decode_end (dest, bits, sz, count) =
     (if bits AND 0x40000 \<noteq> 0 then
        (if sz \<ge> 2 then (dest @ [low_byte (drop_bit 10 bits), low_byte (drop_bit 2 bits)], count) else (dest, count))
      else if bits AND 0x1000 \<noteq> 0 \<and> sz \<noteq> 0 then (dest @ [low_byte (drop_bit 4 bits)], count)
      else (dest, count))"

definition b64decode :: "cstr \<Rightarrow> nat \<Rightarrow> bool \<Rightarrow> byte list \<times> nat" where
  "b64decode src sz ws = b64decode_end (b64decode_loop src ws [] 1 sz 0)"

text \<open>\<open>String::b64\<close> encodes into a string object that has room for this many characters.\<close>

definition b64 :: "byte list \<Rightarrow> nat \<times> cstr" where
  "b64 bin = (let dsize = length bin * 4 div 3 + 1 in (dsize, fst (b64encode bin 0)))"

section \<open>Checksums\<close>

definition crc24_bit :: "32 word \<Rightarrow> 32 word" where
  "crc24_bit crc = (let crc = push_bit 1 crc in if crc AND 0x1000000 \<noteq> 0 then crc XOR 0x1864cfb else crc)"

definition crc24_byte :: "byte \<Rightarrow> 32 word \<Rightarrow> 32 word" where
  "crc24_byte b crc = (crc24_bit ^^ 8) (crc XOR push_bit 16 (ucast b))"

definition crc24 :: "byte list \<Rightarrow> 32 word" where
  "crc24 binary = fold crc24_byte binary 0xb704ce AND 0xffffff"

definition crc16_bit :: "16 word \<Rightarrow> 16 word" where
  "crc16_bit crc = (if crc AND 1 \<noteq> 0 then drop_bit 1 crc XOR 0xa001 else drop_bit 1 crc)"

definition crc16_byte :: "byte \<Rightarrow> 16 word \<Rightarrow> 16 word" where
  "crc16_byte b crc = (crc16_bit ^^ 8) (crc XOR ucast b)"

definition crc16 :: "byte list \<Rightarrow> 16 word" where
  "crc16 binary = fold crc16_byte binary 0xffff"

section \<open>The hexadecimal codec\<close>

lemma of_hexdigit: "n < 16 \<Longrightarrow> (of_char (hexdigit n) :: nat) = (if n < 10 then 48 + n else 87 + n)"
  by (simp add: hexdigit_def)

lemma to_upper_hexdigit:
  "n < 16 \<Longrightarrow> (of_char (to_upper (hexdigit n)) :: nat) = (if n < 10 then 48 + n else 55 + n)"
  by (simp add: to_upper_def of_hexdigit)

lemma hexcode_hexdigit: "n < 16 \<Longrightarrow> hexcode (hexdigit n) = int n"
  using to_upper_hexdigit [of n] of_nat_of_char [of "to_upper (hexdigit n)", where ?'a = int, symmetric]
  by (simp add: hexcode_def Let_def)

lemma hexdigit_not_space: "n < 16 \<Longrightarrow> \<not> isspace (hexdigit n)"
  by (simp add: isspace_def of_hexdigit)

lemma hexbyte_digits: "unat (b :: byte) div 16 < 16" "unat b mod 16 < 16"
  using unsigned_less [of b, where ?'a = nat] by auto

lemma hex_pair_arith:
  "word_of_int (int (unat (b :: byte) div 16) * 16 + int (unat b mod 16)) = b"
proof -
  have "int (unat b div 16) * 16 + int (unat b mod 16) = int (unat b)"
    by (metis div_mult_mod_eq of_nat_add of_nat_mult of_nat_numeral)
  then show ?thesis by simp
qed

lemma push_bit_or_add:
  fixes a b :: nat
  assumes "b < 2 ^ n"
  shows "push_bit n a OR b = a * 2 ^ n + b"
proof -
  have "push_bit n a OR b = push_bit n a + b"
  proof (rule disjunctive_add [symmetric])
    fix m
    have "take_bit n b = b"
      using assms by (simp add: take_bit_nat_eq_self_iff)
    then show "\<not> bit (push_bit n a) m \<or> \<not> bit b m"
      by (metis bit_push_bit_iff_nat bit_take_bit_iff not_less)
  qed
  then show ?thesis by (simp add: push_bit_eq_mult)
qed

lemma hex_pair:
  "word_of_int (push_bit 4 (int (unat (b :: byte) div 16)) OR int (unat b mod 16)) = b"
proof -
  have "push_bit 4 (int (unat b div 16)) OR int (unat b mod 16)
      = int (push_bit 4 (unat b div 16) OR unat b mod 16)"
    by (simp add: of_nat_or_eq push_bit_of_nat)
  also have "\<dots> = int (unat b div 16) * 16 + int (unat b mod 16)"
    by (subst push_bit_or_add) (simp_all only: of_nat_add of_nat_mult, simp_all)
  finally show ?thesis by (simp only: hex_pair_arith)
qed

lemma hex_Cons: "hex (b # bin) = hexdigit (unat b div 16) # hexdigit (unat b mod 16) # hex bin"
  by (simp add: hex_def hexbyte_def)

lemma hex_Nil [simp]: "hex [] = ''''"
  by (simp add: hex_def)

lemma length_hex: "length (hex bin) = 2 * length bin"
  by (induction bin) (simp_all add: hex_Cons)

lemmas hexbyte_read =
  hex_Cons hexcode_hexdigit [OF hexbyte_digits(1)] hexcode_hexdigit [OF hexbyte_digits(2)]
  hexdigit_not_space [OF hexbyte_digits(1)] hexdigit_not_space [OF hexbyte_digits(2)]
  hex_pair hex_pair_arith

lemma hexcount_hex: "hexcount (hex bin) ws = length bin"
  by (induction bin) (simp_all add: hexbyte_read)

lemma hex2bin_loop_hex:
  "out \<le> mx \<Longrightarrow> hex2bin_loop (hex bin) out mx ws
     = (2 * length (take (Suc (mx - out)) bin), take (Suc (mx - out)) bin)"
proof (induction bin arbitrary: out)
  case (Cons b bin)
  show ?case
  proof (cases "out < mx")
    case True
    then have "Suc (mx - Suc out) = mx - out" by simp
    with True Cons.IH [of "Suc out"] show ?thesis
      by (simp add: hexbyte_read Let_def)
  next
    case False
    with Cons.prems have "mx - out = 0" "out = mx" by simp_all
    then show ?thesis by (simp add: hexbyte_read Let_def)
  qed
qed simp

lemma hexpack_bytes_hex:
  "hexpack_bytes (hex bin @ string) (length bin) = Some (bin, string)"
  by (induction bin) (simp_all add: hexbyte_read del: of_int_add of_int_mult)

lemma hexdump_hexpack:
  "hexdump binary format = Some (string, count) \<Longrightarrow>
     \<exists>n. hexpack string format = Some (take n binary, count) \<and> n \<le> length binary \<and> count = hexsize format"
proof (induction binary format arbitrary: string count rule: hexdump.induct)
  case (1 binary)
  then show ?case by (auto intro: exI [of _ 0])
next
  case (2 binary c format)
  show ?case
  proof (cases "isdigit c")
    case True
    define skip where "skip = skip_of (c # format)"
    from "2.prems" True obtain string' count' where
      d: "skip \<le> length binary" "hexdump (drop skip binary) (skip_end (c # format)) = Some (string', count')"
        "string = hex (take skip binary) @ string'" "count = skip * 2 mod 2 ^ 32 + count'"
      by (auto simp: skip_def Let_def not_less split: if_splits)
    have "\<not> length binary < skip" using d(1) by simp
    from "2.IH"(1) [OF True skip_def this d(2)] obtain n where
      n: "hexpack string' (skip_end (c # format)) = Some (take n (drop skip binary), count')"
        "n \<le> length (drop skip binary)" "count' = hexsize (skip_end (c # format))"
      by auto
    have "hexpack_bytes (hex (take skip binary) @ string') skip = Some (take skip binary, string')"
      using hexpack_bytes_hex [of "take skip binary" string'] d(1) by simp
    with True n d show ?thesis
      by (intro exI [of _ "skip + n"]) (simp add: skip_def [symmetric] take_add)
  next
    case False
    with "2.prems" obtain string' count' where
      d: "hexdump binary format = Some (string', count')" "string = c # string'" "count = 1 + count'"
      by auto
    with "2.IH"(2) [OF False d(1)] False show ?thesis
      by auto
  qed
qed

lemma hexdump_length:
  "hexdump binary format = Some (string, count) \<Longrightarrow> length binary < 2 ^ 31 \<Longrightarrow> length string = count"
proof (induction binary format arbitrary: string count rule: hexdump.induct)
  case (2 binary c format)
  then show ?case
    by (auto simp: Let_def length_hex not_less min_def split: if_splits)
qed simp

section \<open>Base 64\<close>

text \<open>The encoding of RFC 4648.\<close>

definition base64_triple :: "nat \<Rightarrow> nat \<Rightarrow> nat \<Rightarrow> nat list" where
  "base64_triple x y z = [x div 4, x mod 4 * 16 + y div 16, y mod 16 * 4 + z div 64, z mod 64]"

fun base64 :: "byte list \<Rightarrow> cstr" where
  "base64 (x # y # z # bin) =
     map ((!) alphabet) (base64_triple (unat x) (unat y) (unat z)) @ base64 bin"
| "base64 [x, y] = map ((!) alphabet) (take 3 (base64_triple (unat x) (unat y) 0)) @ ''=''"
| "base64 [x] = map ((!) alphabet) (take 2 (base64_triple (unat x) 0 0)) @ ''==''"
| "base64 [] = ''''"

lemma unat_byte: "unat (b :: byte) < 256"
  using unsigned_less [of b, where ?'a = nat] by simp

lemma bits_arith:
  fixes x y z :: nat
  assumes "x < 256" "y < 256" "z < 256"
  shows "push_bit 16 x OR push_bit 8 y OR z = 65536 * x + 256 * y + z"
proof -
  have "push_bit 8 (push_bit 8 x OR y) OR z = push_bit 16 x OR push_bit 8 y OR z"
    by (simp add: push_bit_or push_bit_push_bit or.assoc)
  moreover have "push_bit 8 (push_bit 8 x OR y) OR z = 65536 * x + 256 * y + z"
    using assms push_bit_or_add [of y 8 x] push_bit_or_add [of z 8] by simp
  ultimately show ?thesis by simp
qed

lemma and_63: "(n :: nat) AND 0x3f = n mod 64"
  using take_bit_eq_mask [of 6 n] by (simp add: mask_eq_exp_minus_1 take_bit_eq_mod)

lemma and_255: "(n :: nat) AND 0xff = n mod 256"
  using take_bit_eq_mask [of 8 n] by (simp add: mask_eq_exp_minus_1 take_bit_eq_mod)

lemma and_pow: "(n :: nat) AND 2 ^ k \<noteq> 0 \<longleftrightarrow> odd (n div 2 ^ k)"
  by (simp add: and_exp_eq_0_iff_not_bit bit_nat_def)

text \<open>Four digits in base 64, and how they are read back.\<close>

definition number64 :: "nat \<Rightarrow> nat \<Rightarrow> nat \<Rightarrow> nat \<Rightarrow> nat" where
  "number64 a b c d = 64 * (64 * (64 * a + b) + c) + d"

lemma number64_digits:
  assumes "b < 64" "c < 64" "d < 64"
  shows "number64 a b c d div 262144 = a" "number64 a b c d div 4096 mod 64 = b"
    "number64 a b c d div 64 mod 64 = c" "number64 a b c d mod 64 = d"
proof -
  have div1: "number64 a b c d div 64 = 64 * (64 * a + b) + c"
    using assms by (simp add: number64_def)
  have div2: "number64 a b c d div 4096 = 64 * a + b"
    using assms div1 div_mult2_eq [of "number64 a b c d" 64 64] by simp
  have "number64 a b c d div 262144 = (64 * a + b) div 64"
    using div2 div_mult2_eq [of "number64 a b c d" 4096 64] by simp
  then show "number64 a b c d div 262144 = a" using assms by simp
  show "number64 a b c d div 4096 mod 64 = b" "number64 a b c d div 64 mod 64 = c"
    unfolding div1 div2 mod_mult_self4 using assms by simp_all
  show "number64 a b c d mod 64 = d" unfolding number64_def mod_mult_self4 using assms by simp
qed

lemma number64_triple:
  "65536 * x + 256 * y + z
     = number64 (x div 4) (x mod 4 * 16 + y div 16) (y mod 16 * 4 + z div 64) (z mod 64)"
proof -
  have "65536 * (4 * a + b) + 256 * (16 * c + d) + (64 * e + f)
      = number64 a (b * 16 + c) (d * 4 + e) f" for a b c d e f
    by (simp add: number64_def)
  from this [of "x div 4" "x mod 4" "y div 16" "y mod 16" "z div 64" "z mod 64"] show ?thesis
    by simp
qed

lemma triple_digits:
  fixes x y z :: nat
  assumes "x < 256" "y < 256" "z < 256" and bits: "bits = 65536 * x + 256 * y + z"
  shows "[drop_bit 18 bits, drop_bit 12 bits AND 0x3f, drop_bit 6 bits AND 0x3f, bits AND 0x3f]
       = base64_triple x y z"
proof -
  have "x mod 4 * 16 + y div 16 < 64" "y mod 16 * 4 + z div 64 < 64" "z mod 64 < 64"
    using assms by auto
  from number64_digits [OF this, of "x div 4"] show ?thesis
    by (simp add: base64_triple_def and_63 drop_bit_eq_div bits number64_triple)
qed

lemma triple_less: "x < 256 \<Longrightarrow> y < 256 \<Longrightarrow> z < 256 \<Longrightarrow> d \<in> set (base64_triple x y z) \<Longrightarrow> d < 64"
  by (auto simp: base64_triple_def)

text \<open>What the encoder stores is the encoding of the bytes it counts, and fits \<open>dsize\<close>.\<close>

lemma encode_triples_base64:
  "encode_triples bin dsize = (out, rest, dsize') \<Longrightarrow>
     \<exists>front. bin = front @ rest \<and> dsize = dsize' + length out \<and> (dsize' > 4 \<longrightarrow> length rest < 3)
       \<and> (dsize > 0 \<longrightarrow> dsize' > 0) \<and> 3 dvd length front \<and> (\<forall>r. base64 (front @ r) = out @ base64 r)"
proof (induction bin dsize arbitrary: out rest dsize' rule: encode_triples.induct)
  case (1 x y z bin dsize)
  show ?case
  proof (cases "dsize > 4")
    case True
    define bits where "bits = push_bit 16 (unat x) OR push_bit 8 (unat y) OR unat z"
    obtain out' rest' d where e: "encode_triples bin (dsize - 4) = (out', rest', d)"
      by (cases "encode_triples bin (dsize - 4)") auto
    from "1.IH" [OF True refl refl e] obtain front where
      f: "bin = front @ rest'" "dsize - 4 = d + length out'" "d > 4 \<longrightarrow> length rest' < 3"
        "dsize - 4 > 0 \<longrightarrow> d > 0" "3 dvd length front" "\<forall>r. base64 (front @ r) = out' @ base64 r"
      by auto
    have "map ((!) alphabet) (base64_triple (unat x) (unat y) (unat z))
        = map ((!) alphabet) [drop_bit 18 bits, drop_bit 12 bits AND 0x3f, drop_bit 6 bits AND 0x3f, bits AND 0x3f]"
      unfolding bits_def
      by (rule arg_cong [OF triple_digits [symmetric]]) (simp_all add: unat_byte bits_arith)
    moreover have "3 dvd length (x # y # z # front)"
      using f(5) by simp presburger
    ultimately show ?thesis using "1.prems" True e f
      by (intro exI [of _ "x # y # z # front"]) (auto simp: bits_def [symmetric] Let_def)
  qed (use "1.prems" in \<open>auto intro: exI [of _ "[]"]\<close>)
qed auto

lemma base64_last:
  "base64 [x] = [alphabet ! drop_bit 18 (push_bit 16 (unat x)),
     alphabet ! (drop_bit 12 (push_bit 16 (unat x)) AND 0x3f), CHR ''='', CHR ''='']"
  "base64 [x, y] = [alphabet ! drop_bit 18 (push_bit 16 (unat x)),
     alphabet ! (drop_bit 12 (push_bit 16 (unat x) OR push_bit 8 (unat y)) AND 0x3f),
     alphabet ! (drop_bit 6 (push_bit 16 (unat x) OR push_bit 8 (unat y)) AND 0x3f), CHR ''='']"
proof -
  have bits1: "push_bit 16 (unat x) = 65536 * unat x + 256 * 0 + 0"
    by (simp add: push_bit_eq_mult)
  from triple_digits [OF unat_byte _ _ bits1]
  show "base64 [x] = [alphabet ! drop_bit 18 (push_bit 16 (unat x)),
     alphabet ! (drop_bit 12 (push_bit 16 (unat x)) AND 0x3f), CHR ''='', CHR ''='']"
    by (simp add: base64_triple_def)
  have bits2: "push_bit 16 (unat x) OR push_bit 8 (unat y) = 65536 * unat x + 256 * unat y + 0"
    using bits_arith [OF unat_byte unat_byte, of 0 x y] by simp
  have "drop_bit 18 (push_bit 16 (unat x)) = unat x div 4"
    using triple_digits [OF unat_byte _ _ bits1] by (simp add: base64_triple_def)
  with triple_digits [OF unat_byte unat_byte _ bits2]
  show "base64 [x, y] = [alphabet ! drop_bit 18 (push_bit 16 (unat x)),
     alphabet ! (drop_bit 12 (push_bit 16 (unat x) OR push_bit 8 (unat y)) AND 0x3f),
     alphabet ! (drop_bit 6 (push_bit 16 (unat x) OR push_bit 8 (unat y)) AND 0x3f), CHR ''='']"
    by (simp add: base64_triple_def)
qed

lemma length_base64: "length (base64 bin) = 4 * ((length bin + 2) div 3)"
proof (induction bin rule: base64.induct)
  case (1 x y z bin)
  have "(length (x # y # z # bin) + 2) div 3 = (length bin + 2) div 3 + 1"
    by simp
  with 1 show ?case by (simp add: base64_triple_def)
qed (simp_all add: base64_triple_def)

lemma b64encode_spec:
  assumes "b64encode bin dsize = (out, n)" and "sz = (if dsize = 0 then b64size (length bin) else dsize)"
  shows "out = base64 (take n bin) \<and> n \<le> length bin \<and> length out < sz
    \<and> (n < length bin \<longrightarrow> sz - length out \<le> 4 \<and> 3 dvd n)"
proof (cases "bin = []")
  case True
  with assms show ?thesis by (auto simp: b64encode_def b64size_def)
next
  case False
  from assms have pos: "sz > 0" by (auto simp: b64size_def)
  obtain front rest d where e: "encode_triples bin sz = (front, rest, d)"
    by (cases "encode_triples bin sz") auto
  from encode_triples_base64 [OF e] obtain bin' where
    f: "bin = bin' @ rest" "sz = d + length front" "d > 4 \<longrightarrow> length rest < 3" "d > 0"
      "3 dvd length bin'" "\<And>r. base64 (bin' @ r) = front @ base64 r"
    using pos by auto
  have b64: "b64encode bin dsize =
    (case rest of [] \<Rightarrow> (front, length bin')
     | x # rest' \<Rightarrow> if d > 4 then (front @ base64 rest, length bin) else (front, length bin'))"
    using pos False f(1,3)
    unfolding b64encode_def assms(2) [symmetric] Let_def e
    by (auto simp: base64_last simp del: base64.simps drop_bit_or split: list.split)
  show ?thesis
  proof (cases "rest = [] \<or> d \<le> 4")
    case True
    with b64 assms(1) have "out = front" "n = length bin'"
      by (auto split: list.splits)
    with True f show ?thesis using f(6) [of "[]"] by auto
  next
    case nonempty: False
    with f(3) have "0 < length rest" "length rest < 3" by auto
    then have "length rest = 1 \<or> length rest = 2" by linarith
    then have "length (base64 rest) = 4" by (auto simp only: length_base64) simp_all
    moreover from nonempty b64 assms(1) have "out = front @ base64 rest" "n = length bin"
      by (auto split: list.splits)
    ultimately show ?thesis using f nonempty by auto
  qed
qed

lemma length_base64_less: "length (base64 bin) < b64size (length bin)"
  unfolding length_base64 b64size_def by presburger

lemma length_base64_tight: "length (base64 bin) \<le> length bin * 4 div 3 + 1 \<longleftrightarrow> 3 dvd length bin"
  unfolding length_base64 by presburger

lemma b64encode_complete: "b64encode bin 0 = (base64 bin, length bin)"
proof -
  obtain out n where e: "b64encode bin 0 = (out, n)" by (cases "b64encode bin 0")
  have "b64size (length bin) = (if (0 :: nat) = 0 then b64size (length bin) else 0)" by simp
  from b64encode_spec [OF e this] have
    s: "out = base64 (take n bin)" "n \<le> length bin"
      "n < length bin \<longrightarrow> b64size (length bin) - length out \<le> 4 \<and> 3 dvd n"
    by blast+
  have "\<not> n < length bin"
  proof
    assume "n < length bin"
    with s obtain k where k: "n = 3 * k" "b64size (length bin) - length out \<le> 4"
      by (auto elim!: dvdE)
    have "(3 * k + 2) div 3 = k" by simp
    with s(1) k(1) \<open>n < length bin\<close> have "length out = 4 * k" by (simp add: length_base64)
    with k \<open>n < length bin\<close> show False by (simp add: b64size_def)
  qed
  with s e show ?thesis by simp
qed

section \<open>Decoding base 64\<close>

lemma fold_table:
  "distinct xs \<Longrightarrow> n \<le> length xs \<Longrightarrow> i < n \<Longrightarrow> fold (\<lambda>i d. d(xs ! i := i)) [0..<n] d0 (xs ! i) = i"
  by (induction n) (auto simp: nth_eq_iff_index_eq less_Suc_eq)

lemma distinct_alphabet: "distinct alphabet"
  by (simp add: alphabet_def)

lemma length_alphabet: "length alphabet = 64"
  by (simp add: alphabet_def)

lemma decoder_alphabet: "i < 64 \<Longrightarrow> decoder (alphabet ! i) = i"
  by (simp add: decoder_def fold_table distinct_alphabet length_alphabet)

lemma alphabet_plain: "list_all (\<lambda>c. c \<noteq> CHR ''='' \<and> \<not> isspace c) alphabet"
  by (simp add: alphabet_def isspace_def)

lemma alphabet_char: "i < 64 \<Longrightarrow> alphabet ! i \<noteq> CHR ''='' \<and> \<not> isspace (alphabet ! i)"
  using alphabet_plain by (simp add: list_all_length length_alphabet)

lemma bits24: "(n :: nat) AND 0x1000000 \<noteq> 0 \<longleftrightarrow> odd (n div 16777216)"
  using and_pow [of n 24] by simp

lemma push_bit_6: "push_bit 6 (n :: nat) = 64 * n"
  by (simp add: push_bit_eq_mult)

lemma decode_digit:
  assumes "d < 64" "64 * bits + d < 16777216"
  shows "b64decode_loop (alphabet ! d # src) ws dest bits sz count
      = b64decode_loop src ws dest (64 * bits + d) sz (count + 1)"
    and "b64count_loop (alphabet ! d # src) ws bits n = b64count_loop src ws (64 * bits + d) n"
  using assms alphabet_char [of d] decoder_alphabet [of d] bits24 [of "64 * bits + d"]
  by (simp_all add: push_bit_6 Let_def)

lemma number256_digits:
  fixes x y z :: nat
  assumes "N = 256 * (256 * (256 * k + x) + y) + z" "x < 256" "y < 256" "z < 256"
  shows "N div 16777216 = k" "N div 65536 mod 256 = x" "N div 256 mod 256 = y" "N mod 256 = z"
proof -
  have div1: "N div 256 = 256 * (256 * k + x) + y"
    using assms by simp
  have div2: "N div 65536 = 256 * k + x"
    using assms div1 div_mult2_eq [of N 256 256] by simp
  have "N div 16777216 = (256 * k + x) div 256"
    using div2 div_mult2_eq [of N 65536 256] by simp
  then show "N div 16777216 = k" using assms by simp
  show "N div 65536 mod 256 = x" "N div 256 mod 256 = y"
    unfolding div1 div2 mod_mult_self4 using assms by simp_all
  show "N mod 256 = z" unfolding assms(1) mod_mult_self4 using assms by simp
qed

lemma decode_last_digit:
  assumes "d < 64" "64 * bits + d = 256 * (256 * (256 + x) + y) + z" "x < 256" "y < 256" "z < 256"
  shows "sz \<ge> 3 \<Longrightarrow> b64decode_loop (alphabet ! d # src) ws dest bits sz count
      = b64decode_loop src ws (dest @ [word_of_nat x, word_of_nat y, word_of_nat z]) 1 (sz - 3) (count + 1)"
    and "b64count_loop (alphabet ! d # src) ws bits k = b64count_loop src ws 1 (k + 3)"
proof -
  define N where "N = 64 * bits + d"
  have N: "N = 256 * (256 * (256 * 1 + x) + y) + z" using assms by (simp add: N_def)
  note digits = number256_digits [OF N assms(3-5)]
  have "N AND 0x1000000 \<noteq> 0" using bits24 [of N] digits(1) by simp
  with assms(1) alphabet_char [OF assms(1)] decoder_alphabet [OF assms(1)] digits
  show "sz \<ge> 3 \<Longrightarrow> b64decode_loop (alphabet ! d # src) ws dest bits sz count
      = b64decode_loop src ws (dest @ [word_of_nat x, word_of_nat y, word_of_nat z]) 1 (sz - 3) (count + 1)"
    and "b64count_loop (alphabet ! d # src) ws bits k = b64count_loop src ws 1 (k + 3)"
    by (simp_all add: push_bit_6 Let_def and_255 drop_bit_eq_div N_def [symmetric])
qed

lemma decode_quad:
  assumes "a < 64" "b < 64" "c < 64" "d < 64"
    and eq: "64 * (64 * (64 * (64 * 1 + a) + b) + c) + d = 256 * (256 * (256 + x) + y) + z"
    and bytes: "x < 256" "y < 256" "z < 256"
  shows "sz \<ge> 3 \<Longrightarrow> b64decode_loop (map ((!) alphabet) [a, b, c, d] @ src) ws dest 1 sz count
      = b64decode_loop src ws (dest @ [word_of_nat x, word_of_nat y, word_of_nat z]) 1 (sz - 3) (count + 4)"
    and "b64count_loop (map ((!) alphabet) [a, b, c, d] @ src) ws 1 n = b64count_loop src ws 1 (n + 3)"
proof -
  have small: "64 * 1 + a < 16777216" "64 * (64 * 1 + a) + b < 16777216"
    "64 * (64 * (64 * 1 + a) + b) + c < 16777216"
    using assms by auto
  note digits = decode_digit [OF assms(1) small(1)] decode_digit [OF assms(2) small(2)]
    decode_digit [OF assms(3) small(3)] decode_last_digit [OF assms(4) eq bytes]
  show "b64decode_loop (map ((!) alphabet) [a, b, c, d] @ src) ws dest 1 sz count
      = b64decode_loop src ws (dest @ [word_of_nat x, word_of_nat y, word_of_nat z]) 1 (sz - 3) (count + 4)"
    if "sz \<ge> 3"
    using that by (simp only: list.map append.simps digits) (simp add: numeral_eq_Suc)
  show "b64count_loop (map ((!) alphabet) [a, b, c, d] @ src) ws 1 n = b64count_loop src ws 1 (n + 3)"
    by (simp only: list.map append.simps digits)
qed

lemma decode_triple:
  fixes x y z :: byte
  shows "sz \<ge> 3 \<Longrightarrow> b64decode_loop (base64 (x # y # z # bin)) ws dest 1 sz count
      = b64decode_loop (base64 bin) ws (dest @ [x, y, z]) 1 (sz - 3) (count + 4)"
    and "b64count_loop (base64 (x # y # z # bin)) ws 1 n = b64count_loop (base64 bin) ws 1 (n + 3)"
proof -
  obtain a b c d where t: "base64_triple (unat x) (unat y) (unat z) = [a, b, c, d]"
    and n: "65536 * unat x + 256 * unat y + unat z = number64 a b c d"
    by (simp add: base64_triple_def number64_triple)
  have less: "a < 64" "b < 64" "c < 64" "d < 64"
    using triple_less [OF unat_byte unat_byte unat_byte, of _ x y z] t by auto
  have eq: "64 * (64 * (64 * (64 * 1 + a) + b) + c) + d
      = 256 * (256 * (256 + unat x) + unat y) + unat z"
    using n by (simp add: number64_def)
  note quad = decode_quad [OF less eq unat_byte unat_byte unat_byte]
  show "b64decode_loop (base64 (x # y # z # bin)) ws dest 1 sz count
      = b64decode_loop (base64 bin) ws (dest @ [x, y, z]) 1 (sz - 3) (count + 4)" if "sz \<ge> 3"
    using quad(1) [OF that] by (simp add: t)
  show "b64count_loop (base64 (x # y # z # bin)) ws 1 n = b64count_loop (base64 bin) ws 1 (n + 3)"
    using quad(2) by (simp add: t)
qed

lemma bits18: "(n :: nat) AND 0x40000 \<noteq> 0 \<longleftrightarrow> odd (n div 262144)"
  using and_pow [of n 18] by simp

lemma bits12: "(n :: nat) AND 0x1000 \<noteq> 0 \<longleftrightarrow> odd (n div 4096)"
  using and_pow [of n 12] by simp

lemma decode_pad:
  "b64decode_loop (CHR ''='' # src) ws dest bits sz count
     = (dest, bits, sz, count + 1 + (if cchar src 0 = CHR ''='' then 1 else 0))"
  "b64count_loop (CHR ''='' # src) ws bits n = (bits, n)"
  by (simp_all add: isspace_def)

lemma base64_one: "base64 [x] = map ((!) alphabet) [unat x div 4, unat x mod 4 * 16] @ ''==''"
  by (simp add: base64_triple_def numeral_2_eq_2)

lemma decode_one:
  fixes x :: byte
  shows "sz \<ge> 1 \<Longrightarrow> b64decode_end (b64decode_loop (base64 [x]) ws dest 1 sz count) = (dest @ [x], count + 4)"
    and "b64count_end (b64count_loop (base64 [x]) ws 1 n) = n + 1"
proof -
  define bits where "bits = 64 * (64 * 1 + unat x div 4) + unat x mod 4 * 16"
  have bits: "bits = 4096 + 16 * unat x"
  proof -
    have "64 * (64 * 1 + q) + r * 16 = 4096 + 16 * (4 * q + r)" for q r :: nat by simp
    from this [of "unat x div 4" "unat x mod 4"] show ?thesis by (simp add: bits_def)
  qed
  have small: "unat x div 4 < 64" "64 * 1 + unat x div 4 < 16777216" "unat x mod 4 * 16 < 64"
      "64 * (64 * 1 + unat x div 4) + unat x mod 4 * 16 < 16777216"
    using unat_byte [of x] bits bits_def by auto
  note digits = decode_digit [OF small(1,2)] decode_digit [OF small(3,4)]
  have "bits div 262144 = 0" "bits div 4096 = 1" "bits div 16 mod 256 = unat x"
    using unat_byte [of x] by (simp_all add: bits)
  with bits18 [of bits] bits12 [of bits]
  have ends: "bits AND 0x40000 = 0" "bits AND 0x1000 \<noteq> 0" "low_byte (drop_bit 4 bits) = x"
    by (simp_all add: and_255 drop_bit_eq_div)
  show "b64decode_end (b64decode_loop (base64 [x]) ws dest 1 sz count) = (dest @ [x], count + 4)" if "sz \<ge> 1"
    unfolding base64_one list.map append.simps digits decode_pad bits_def [symmetric]
    using that ends by (simp add: cchar_def)
  show "b64count_end (b64count_loop (base64 [x]) ws 1 n) = n + 1"
    unfolding base64_one list.map append.simps digits decode_pad bits_def [symmetric]
    using ends by simp
qed

lemma base64_two: "base64 [x, y] =
  map ((!) alphabet) [unat x div 4, unat x mod 4 * 16 + unat y div 16, unat y mod 16 * 4] @ ''=''"
  by (simp add: base64_triple_def numeral_3_eq_3)

lemma decode_two:
  fixes x y :: byte
  shows "sz \<ge> 2 \<Longrightarrow> b64decode_end (b64decode_loop (base64 [x, y]) ws dest 1 sz count) = (dest @ [x, y], count + 4)"
    and "b64count_end (b64count_loop (base64 [x, y]) ws 1 n) = n + 2"
proof -
  define a b c where digits_def: "a = unat x div 4" "b = unat x mod 4 * 16 + unat y div 16" "c = unat y mod 16 * 4"
  define bits where "bits = 64 * (64 * (64 * 1 + a) + b) + c"
  have bits: "bits = 1024 * (256 + unat x) + 4 * unat y"
  proof -
    have "64 * (64 * (64 * 1 + q) + (r * 16 + s)) + t * 4 = 1024 * (256 + (4 * q + r)) + 4 * (16 * s + t)"
      for q r s t :: nat by simp
    from this [of "unat x div 4" "unat x mod 4" "unat y div 16" "unat y mod 16"] show ?thesis
      by (simp add: bits_def digits_def)
  qed
  have less: "a < 64" "b < 64" "c < 64"
    using unat_byte [of x] unat_byte [of y] by (auto simp: digits_def)
  then have small: "64 * 1 + a < 16777216" "64 * (64 * 1 + a) + b < 16777216"
      "64 * (64 * (64 * 1 + a) + b) + c < 16777216"
    by auto
  note digits = decode_digit [OF less(1) small(1)] decode_digit [OF less(2) small(2)]
    decode_digit [OF less(3) small(3)]
  have "bits div 1024 = 256 + unat x" "bits div 4 = 256 * (256 + unat x) + unat y"
    using unat_byte [of y] by (simp_all add: bits)
  moreover from this have "bits div 262144 = 1"
    using unat_byte [of x] div_mult2_eq [of bits 1024 256] by simp
  ultimately have "bits div 262144 = 1" "bits div 1024 mod 256 = unat x" "bits div 4 mod 256 = unat y"
    using unat_byte [of x] unat_byte [of y] by (simp_all only: mod_mult_self4) simp_all
  with bits18 [of bits]
  have ends: "bits AND 0x40000 \<noteq> 0" "low_byte (drop_bit 10 bits) = x" "low_byte (drop_bit 2 bits) = y"
    by (simp_all add: and_255 drop_bit_eq_div)
  show "b64decode_end (b64decode_loop (base64 [x, y]) ws dest 1 sz count) = (dest @ [x, y], count + 4)" if "sz \<ge> 2"
    unfolding base64_two list.map append.simps digits_def [symmetric] digits decode_pad bits_def [symmetric]
    using that ends by (simp add: cchar_def)
  show "b64count_end (b64count_loop (base64 [x, y]) ws 1 n) = n + 2"
    unfolding base64_two list.map append.simps digits_def [symmetric] digits decode_pad bits_def [symmetric]
    using ends by simp
qed

lemma decode_none: "b64decode_end (dest, 1, sz, count) = (dest, count)" "b64count_end (1, n) = n"
  using bits18 [of 1] bits12 [of 1] by simp_all

lemma b64decode_base64:
  "length bin \<le> sz \<Longrightarrow>
     b64decode_end (b64decode_loop (base64 bin) ws dest 1 sz count) = (dest @ bin, count + length (base64 bin))"
  "b64count_end (b64count_loop (base64 bin) ws 1 n) = n + length bin"
proof (induction bin arbitrary: dest sz count n rule: base64.induct)
  case (1 x y z bin)
  { case 1
    then have "sz \<ge> 3" "length bin \<le> sz - 3" by simp_all
    then have "b64decode_end (b64decode_loop (base64 (x # y # z # bin)) ws dest 1 sz count)
      = ((dest @ [x, y, z]) @ bin, count + 4 + length (base64 bin))"
      by (simp only: decode_triple "1.IH"(1))
    then show ?case by (simp add: base64_triple_def)
  next
    case 2
    show ?case by (simp only: decode_triple "1.IH"(2)) simp }
next
  case (2 x y)
  { case 1 then show ?case using decode_two(1) [of sz] by (simp add: length_base64 del: base64.simps)
  next case 2 show ?case by (simp only: decode_two) simp }
next
  case (3 x)
  { case 1 then show ?case using decode_one(1) [of sz] by (simp add: length_base64 del: base64.simps)
  next case 2 show ?case by (simp only: decode_one) simp }
next
  case 4
  { case 1 show ?case using decode_none by simp
  next case 2 show ?case using decode_none by simp }
qed

section \<open>Checksums\<close>

lemma xor_cancel: "a XOR m = b XOR m \<longleftrightarrow> a = b" "m XOR a = m XOR b \<longleftrightarrow> a = b"
  for a b m :: "'a::len word"
  by (metis xor.assoc xor_self_eq xor.right_neutral, metis xor.assoc xor_self_eq xor.left_neutral)

lemma word_parity_cases:
  fixes c d :: "'a::len word"
  assumes "odd c = odd d" "drop_bit 1 c = drop_bit 1 d"
  shows "c = d"
proof (rule bit_word_eqI)
  fix n
  show "bit c n = bit d n"
    using assms(1) arg_cong [OF assms(2), of "\<lambda>w. bit w (n - 1)"]
    by (cases n) (simp_all add: bit_0 bit_drop_bit_eq)
qed

lemma bit_16_word: "n \<ge> 16 \<Longrightarrow> \<not> bit (c :: 16 word) n"
  by (auto dest: bit_imp_le_length)

lemma crc16_bit_parity: "crc16_bit c = (if odd c then drop_bit 1 c XOR 0xa001 else drop_bit 1 c)"
  by (simp add: crc16_bit_def and_one_eq odd_iff_mod_2_eq_one)

lemma crc16_bit_top: "bit (crc16_bit c) 15 = odd c"
  by (simp add: crc16_bit_parity bit_drop_bit_eq bit_xor_iff bit_16_word)

lemma inj_crc16_bit: "inj crc16_bit"
proof (rule injI)
  fix c d assume eq: "crc16_bit c = crc16_bit d"
  then have odd: "odd c = odd d" using crc16_bit_top by metis
  with eq have "drop_bit 1 c = drop_bit 1 d"
    by (simp add: crc16_bit_parity xor_cancel split: if_splits)
  with odd show "c = d" by (rule word_parity_cases)
qed

lemma crc16_bits_eq: "(crc16_bit ^^ 8) c = (crc16_bit ^^ 8) d \<longleftrightarrow> c = d"
  using injD [OF inj_fn [OF inj_crc16_bit]] by blast

lemma crc16_byte_state: "crc16_byte b c = crc16_byte b d \<longleftrightarrow> c = d"
  by (simp only: crc16_byte_def crc16_bits_eq xor_cancel)

lemma ucast_byte_eq: "(ucast (b :: byte) :: 16 word) = ucast b' \<longleftrightarrow> b = b'"
proof
  assume eq: "(ucast b :: 16 word) = ucast b'"
  show "b = b'"
  proof (rule bit_word_eqI)
    fix n assume "n < LENGTH(8)"
    then show "bit b n = bit b' n"
      using arg_cong [OF eq, of "\<lambda>w. bit w n"] by (simp add: bit_ucast_iff)
  qed
qed simp

lemma crc16_byte_input: "crc16_byte b c = crc16_byte b' c \<longleftrightarrow> b = b'"
  by (simp only: crc16_byte_def crc16_bits_eq xor_cancel ucast_byte_eq)

lemma fold_crc16_state: "fold crc16_byte bin c = fold crc16_byte bin d \<longleftrightarrow> c = d"
  by (induction bin arbitrary: c d) (auto simp: crc16_byte_state)

lemma crc16_bits_shift:
  "(\<And>i. i < k \<Longrightarrow> \<not> bit c i) \<Longrightarrow> (crc16_bit ^^ k) c = drop_bit k c"
proof (induction k arbitrary: c)
  case (Suc k)
  have "\<not> bit c 0" using Suc.prems by simp
  then have "crc16_bit c = drop_bit 1 c"
    by (simp add: crc16_bit_parity bit_0)
  moreover have "(crc16_bit ^^ k) (drop_bit 1 c) = drop_bit k (drop_bit 1 c)"
    using Suc.prems by (intro Suc.IH) (simp add: bit_drop_bit_eq)
  ultimately show ?case by (simp add: funpow_Suc_right del: funpow.simps)
qed simp

lemma crc16_residue: "fold crc16_byte [ucast c, ucast (drop_bit 8 c)] c = 0"
proof -
  have low: "\<not> bit (c XOR ucast (ucast c :: byte)) i" if "i < 8" for i
    using that by (simp add: bit_xor_iff bit_ucast_iff)
  have "drop_bit 8 (c XOR ucast (ucast c :: byte)) = drop_bit 8 c"
    by (rule bit_word_eqI) (simp add: bit_xor_iff bit_ucast_iff bit_drop_bit_eq)
  then have "crc16_byte (ucast c) c = drop_bit 8 c"
    using crc16_bits_shift [OF low] by (simp add: crc16_byte_def)
  moreover have "drop_bit 8 c XOR ucast (ucast (drop_bit 8 c) :: byte) = 0"
    by (rule bit_word_eqI) (auto simp: bit_xor_iff bit_ucast_iff bit_drop_bit_eq dest: bit_imp_le_length)
  then have "crc16_byte (ucast (drop_bit 8 c)) (drop_bit 8 c) = 0"
    using crc16_bits_shift [of 8 0] by (simp add: crc16_byte_def)
  ultimately show ?thesis by simp
qed

text \<open>The 24 bit checksum lives in the low bits of a 32 bit word.\<close>

definition crc24_range :: "32 word \<Rightarrow> bool" where
  "crc24_range c \<longleftrightarrow> (\<forall>n \<ge> 24. \<not> bit c n)"

lemma bit_24_mask: "c AND 0x1000000 \<noteq> 0 \<longleftrightarrow> bit (c :: 32 word) 24"
  using and_exp_eq_0_iff_not_bit [of c 24] by simp

lemma shl_bits: "bit (c * 2) n \<longleftrightarrow> n \<noteq> 0 \<and> n < 32 \<and> bit (c :: 32 word) (n - 1)"
  using bit_double_iff [of c n] by (auto simp: mult.commute)

lemma crc24_bit_bits: "crc24_bit c = (if bit c 23 then push_bit 1 c XOR 0x1864cfb else push_bit 1 c)"
  using bit_24_mask [of "push_bit 1 c"] by (simp add: crc24_bit_def Let_def shl_bits)

lemma crc24_poly_bits: "bit (0x1864cfb :: 32 word) n \<Longrightarrow> n \<le> 24" "bit (0x1864cfb :: 32 word) 24"
proof -
  have "take_bit 25 (0x1864cfb :: 32 word) = 0x1864cfb" by simp
  then show "bit (0x1864cfb :: 32 word) n \<Longrightarrow> n \<le> 24"
    using bit_take_bit_iff [of 25 "0x1864cfb :: 32 word" n] by simp
  show "bit (0x1864cfb :: 32 word) 24" by simp
qed

lemma crc24_bit_range: "crc24_range c \<Longrightarrow> crc24_range (crc24_bit c)"
proof (unfold crc24_range_def, intro allI impI)
  fix n assume c: "\<forall>n\<ge>24. \<not> bit c n" and n: "24 \<le> (n :: nat)"
  show "\<not> bit (crc24_bit c) n"
  proof (cases "n = 24")
    case True
    then show ?thesis
      by (simp add: crc24_bit_bits bit_xor_iff shl_bits crc24_poly_bits(2))
  next
    case False
    with n c have "\<not> bit (push_bit 1 c) n" "\<not> bit (0x1864cfb :: 32 word) n"
      using crc24_poly_bits(1) [of n] by (auto simp: shl_bits)
    then show ?thesis by (simp add: crc24_bit_bits bit_xor_iff)
  qed
qed

lemma crc24_bit_low: "odd (crc24_bit c) = bit c 23"
  by (simp add: crc24_bit_bits bit_0 [symmetric] bit_xor_iff shl_bits)

lemma push_bit_1_eq: "crc24_range c \<Longrightarrow> crc24_range d \<Longrightarrow> push_bit 1 c = push_bit 1 d \<Longrightarrow> c = d"
proof (rule bit_word_eqI)
  fix n assume range: "crc24_range c" "crc24_range d" and eq: "push_bit 1 c = push_bit 1 d"
  show "bit c n = bit d n"
  proof (cases "n < 24")
    case True
    then show ?thesis using arg_cong [OF eq, of "\<lambda>w. bit w (Suc n)"] by (simp add: shl_bits)
  qed (use range in \<open>simp add: crc24_range_def\<close>)
qed

lemma inj_crc24_bit: "inj_on crc24_bit {c. crc24_range c}"
proof (rule inj_onI)
  fix c d assume range: "c \<in> {c. crc24_range c}" "d \<in> {c. crc24_range c}" and eq: "crc24_bit c = crc24_bit d"
  then have "bit c 23 = bit d 23" using crc24_bit_low by metis
  with eq have "push_bit 1 c = push_bit 1 d"
    by (simp add: crc24_bit_bits xor_cancel split: if_splits)
  with range show "c = d" by (simp add: push_bit_1_eq)
qed

lemma crc24_bits_range: "crc24_range c \<Longrightarrow> crc24_range ((crc24_bit ^^ k) c)"
  by (induction k) (simp_all add: crc24_bit_range)

lemma crc24_bits_eq:
  "crc24_range c \<Longrightarrow> crc24_range d \<Longrightarrow> (crc24_bit ^^ k) c = (crc24_bit ^^ k) d \<longleftrightarrow> c = d"
proof (induction k)
  case (Suc k)
  then show ?case
    using inj_onD [OF inj_crc24_bit, of "(crc24_bit ^^ k) c" "(crc24_bit ^^ k) d"]
    by (auto simp: crc24_bits_range)
qed simp

lemma crc24_mix_range: "crc24_range c \<Longrightarrow> crc24_range (c XOR push_bit 16 (ucast (b :: byte)))"
  by (auto simp: crc24_range_def bit_xor_iff bit_push_bit_iff bit_ucast_iff dest: bit_imp_le_length)

lemma crc24_byte_range: "crc24_range c \<Longrightarrow> crc24_range (crc24_byte b c)"
  by (simp add: crc24_byte_def crc24_bits_range crc24_mix_range)

lemma crc24_byte_state:
  "crc24_range c \<Longrightarrow> crc24_range d \<Longrightarrow> crc24_byte b c = crc24_byte b d \<longleftrightarrow> c = d"
  by (simp only: crc24_byte_def crc24_bits_eq crc24_mix_range xor_cancel)

lemma crc24_shift_eq: "(push_bit 16 (ucast (b :: byte)) :: 32 word) = push_bit 16 (ucast b') \<longleftrightarrow> b = b'"
proof
  assume eq: "(push_bit 16 (ucast b) :: 32 word) = push_bit 16 (ucast b')"
  show "b = b'"
  proof (rule bit_word_eqI)
    fix n assume "n < LENGTH(8)"
    then show "bit b n = bit b' n"
      using arg_cong [OF eq, of "\<lambda>w. bit w (n + 16)"] by (simp add: bit_ucast_iff bit_push_bit_iff)
  qed
qed simp

lemma crc24_byte_input: "crc24_range c \<Longrightarrow> crc24_byte b c = crc24_byte b' c \<longleftrightarrow> b = b'"
  by (simp only: crc24_byte_def crc24_bits_eq crc24_mix_range xor_cancel crc24_shift_eq)

lemma fold_crc24_range: "crc24_range c \<Longrightarrow> crc24_range (fold crc24_byte bin c)"
  by (induction bin arbitrary: c) (simp_all add: crc24_byte_range)

lemma fold_crc24_state:
  "crc24_range c \<Longrightarrow> crc24_range d \<Longrightarrow> fold crc24_byte bin c = fold crc24_byte bin d \<longleftrightarrow> c = d"
  by (induction bin arbitrary: c d) (auto simp: crc24_byte_state crc24_byte_range)

lemma crc24_range_take: "crc24_range c \<longleftrightarrow> take_bit 24 c = c"
proof
  assume "take_bit 24 c = c"
  then show "crc24_range c" unfolding crc24_range_def by (metis bit_take_bit_iff not_le)
next
  assume "crc24_range c"
  then show "take_bit 24 c = c"
    by (intro bit_word_eqI) (meson bit_take_bit_iff crc24_range_def not_le)
qed

lemma crc24_range_mask: "crc24_range c \<Longrightarrow> c AND 0xffffff = c"
  using take_bit_eq_mask [of 24 c] by (simp add: crc24_range_take mask_eq_exp_minus_1)

lemma crc24_init_range: "crc24_range 0xb704ce"
  by (simp add: crc24_range_take)

lemma crc24_fold: "crc24 bin = fold crc24_byte bin 0xb704ce"
  by (simp add: crc24_def crc24_range_mask fold_crc24_range crc24_init_range)

lemma crc24_bits_shift:
  "(\<And>i. i + k \<ge> 24 \<Longrightarrow> \<not> bit c i) \<Longrightarrow> (crc24_bit ^^ k) c = push_bit k c"
proof (induction k)
  case (Suc k)
  then have "(crc24_bit ^^ k) c = push_bit k c" by simp
  moreover have "\<not> bit (push_bit k c) 23"
    using Suc.prems [of "23 - k"] by (auto simp: bit_push_bit_iff)
  then have "crc24_bit (push_bit k c) = push_bit 1 (push_bit k c)"
    by (simp only: crc24_bit_bits) simp
  ultimately show ?case by (simp add: push_bit_push_bit)
qed simp

lemma crc24_residue:
  assumes "crc24_range c"
  shows "fold crc24_byte [ucast (drop_bit 16 c), ucast (drop_bit 8 c), ucast c] c = 0"
proof -
  have "crc24_byte (ucast (drop_bit (16 - k) c)) (push_bit k (take_bit (24 - k) c))
      = push_bit (k + 8) (take_bit (16 - k) c)" if "k \<le> 16" for k
  proof -
    have eq: "push_bit k (take_bit (24 - k) c) XOR push_bit 16 (ucast (ucast (drop_bit (16 - k) c) :: byte))
        = push_bit k (take_bit (16 - k) c)"
      using that by (intro bit_word_eqI)
        (auto simp: bit_xor_iff bit_push_bit_iff bit_take_bit_iff bit_ucast_iff bit_drop_bit_eq)
    show ?thesis
      unfolding crc24_byte_def eq
      by (subst crc24_bits_shift) (use that in \<open>auto simp: bit_push_bit_iff bit_take_bit_iff add.commute\<close>)
  qed
  note step = this
  have "take_bit 24 c = c"
    using assms by (simp add: crc24_range_take)
  with step [of 0] step [of 8] step [of 16] show ?thesis by simp
qed

section \<open>What the codecs guarantee\<close>

text \<open>
  \<open>hex2bin\<close> reads back what \<open>hex\<close> writes, with or without white space skipping, and
  \<open>hexcount\<close> gives the number of bytes. If there are more than \<open>max\<close> bytes, \<open>hex2bin\<close>
  stores one byte more than \<open>max\<close>.
\<close>

theorem hex_roundtrip:
  "hex2bin (hex bin) (length bin + k) ws = (length (hex bin), bin)
   \<and> hex2bin (hex (bin @ b # bin')) (length bin) ws = (2 * length bin + 2, bin @ [b])
   \<and> hexcount (hex bin) ws = length bin"
  by (simp add: hex2bin_def hex2bin_loop_hex length_hex hexcount_hex)

text \<open>
  \<open>hexpack\<close> reads back the bytes that \<open>hexdump\<close> writes with the same format, both count the
  characters that \<open>hexsize\<close> announces, and below \<open>2^31\<close> bytes that is the length of the text.
\<close>

theorem hexdump_roundtrip:
  assumes "hexdump binary format = Some (string, count)" and "length binary < 2 ^ 31"
  shows "(\<exists>n \<le> length binary. hexpack string format = Some (take n binary, count))
    \<and> count = hexsize format \<and> length string = count"
  using hexdump_hexpack [OF assms(1)] hexdump_length [OF assms] by auto

theorem hexdump_roundtrip_witness:
  "hexdump [10, 255] ''1-1'' = Some (''0a-ff'', 5) \<and> hexsize ''1-1'' = 5
   \<and> (\<exists>n \<le> length [10 :: byte, 255]. hexpack ''0a-ff'' ''1-1'' = Some (take n [10, 255], 5))"
proof -
  have "hexdump [10, 255] ''1-1'' = Some (''0a-ff'', 5)"
    by (simp add: isdigit_def skip_of_def skip_end_def decimal_def hex_def hexbyte_def hexdigit_def char_of_def bit_0)
  from this hexdump_roundtrip [OF this] show ?thesis by simp
qed

text \<open>
  C5: \<open>b64encode\<close> writes the encoding of RFC 4648 into a buffer of \<open>b64size\<close> bytes, \<open>b64count\<close>
  gives the number of bytes of such a text, and \<open>b64decode\<close> reads all of it back into a buffer
  that is large enough.
\<close>

theorem b64_roundtrip:
  "b64encode bin 0 = (base64 bin, length bin)
   \<and> length (base64 bin) < b64size (length bin)
   \<and> b64count (base64 bin) ws = length bin
   \<and> b64decode (base64 bin) (length bin + k) ws = (bin, length (base64 bin))"
  using b64decode_base64(1) [of bin "length bin + k" ws "[]" 0] b64decode_base64(2) [of bin ws 0]
  by (simp add: b64encode_complete b64count_def b64decode_def length_base64_less del: One_nat_def)

text \<open>
  C32: In a buffer of \<open>d + 1\<close> bytes \<open>b64encode\<close> stores the encoding of the bytes it counts, and leaves
  room for the terminator. \<open>String::b64\<close> reserves too little for its own result unless the
  number of bytes is a multiple of three.
\<close>

theorem b64_bounds:
  "fst (b64encode bin (Suc d)) = base64 (take (snd (b64encode bin (Suc d))) bin)
   \<and> length (fst (b64encode bin (Suc d))) \<le> d
   \<and> (length (snd (b64 bin)) \<le> fst (b64 bin) \<longleftrightarrow> 3 dvd length bin)"
proof -
  have size: "Suc d = (if Suc d = 0 then b64size (length bin) else Suc d)" by simp
  note spec = b64encode_spec [OF prod.collapse [symmetric] size]
  then have "length (fst (b64encode bin (Suc d))) \<le> d" by (metis less_Suc_eq_le)
  with spec show ?thesis
    using length_base64_tight [of bin] by (simp only: b64_def Let_def b64encode_complete fst_conv snd_conv)
qed

text \<open>
  A message that is followed by its checksum has checksum 0, and changing one byte of a message
  changes the checksum.
\<close>

theorem crc_detection:
  "crc16 (msg @ [ucast (crc16 msg), ucast (drop_bit 8 (crc16 msg))]) = 0
   \<and> crc24 (msg @ [ucast (drop_bit 16 (crc24 msg)), ucast (drop_bit 8 (crc24 msg)), ucast (crc24 msg)]) = 0
   \<and> (crc16 (xs @ b # ys) = crc16 (xs @ b' # ys) \<longleftrightarrow> b = b')
   \<and> (crc24 (xs @ b # ys) = crc24 (xs @ b' # ys) \<longleftrightarrow> b = b')"
  using crc16_residue [of "crc16 msg"] crc24_residue [of "crc24 msg"]
  by (simp add: crc16_def crc24_fold fold_crc16_state crc16_byte_input fold_crc24_state
      crc24_byte_input crc24_byte_range fold_crc24_range crc24_init_range)

end
