(* ===== verification/CString.thy ===== *)
theory CString
  imports Buffer
begin

text \<open>
  The string object \<open>String::cstring\<close> of \<open>corelib/string.cpp\<close> and the methods of \<open>String\<close> that
  edit it in place.

  A \<open>cstring\<close> has the number of characters it has room for, the length of its text, and a
  buffer that is one character longer than the room. The methods are modelled for a \<open>String\<close>
  that has such an object (with \<open>str == NULL\<close> they return at once) and is its only user; a
  write outside the buffer is \<open>None\<close>. Buffers that the code allocates are arguments, because
  \<open>malloc\<close> does not clear them. Sums and differences with a size or an offset of the caller
  wrap around as in the code (\<open>size_add\<close>, \<open>size_minus\<close>); the sum of two lengths of texts that
  are in memory, in \<open>cstring::add\<close>, cannot.
\<close>

section \<open>The string object\<close>

record cstring =
  cmax :: nat
  clen :: nat
  ctext :: "char list"

definition cstring_new :: "nat \<Rightarrow> char list \<Rightarrow> cstring option" where
  "cstring_new sz mem =
     do { t \<leftarrow> poke 0 NUL (take (sz + 1) mem); Some \<lparr>cmax = sz, clen = 0, ctext = t\<rparr> }"

definition cstring_fix :: "cstring \<Rightarrow> cstring option" where
  "cstring_fix c = do { t \<leftarrow> poke (clen c) NUL (ctext c); Some (c\<lparr>ctext := t\<rparr>) }"

definition cstring_clear :: "nat \<Rightarrow> cstring \<Rightarrow> cstring option" where
  "cstring_clear offset c =
     (if offset \<ge> clen c then Some c
      else do { t \<leftarrow> poke offset NUL (ctext c); Some (c\<lparr>ctext := t, clen := offset\<rparr>) })"

definition cstring_dec :: "nat \<Rightarrow> cstring \<Rightarrow> cstring option" where
  "cstring_dec offset c =
     (if clen c = 0 then Some c
      else if offset \<ge> clen c then
        do { t \<leftarrow> poke 0 NUL (ctext c); cstring_fix (c\<lparr>ctext := t, clen := 0\<rparr>) }
      else
        do { t \<leftarrow> poke (clen c - 1) NUL (ctext c); Some (c\<lparr>ctext := t, clen := clen c - 1\<rparr>) })"

definition cstring_inc :: "nat \<Rightarrow> cstring \<Rightarrow> cstring option" where
  "cstring_inc offset c =
     (let offset = (if offset = 0 then offset + 1 else offset)
      in if offset \<ge> clen c then
           do { t \<leftarrow> poke 0 NUL (ctext c); cstring_fix (c\<lparr>ctext := t, clen := 0\<rparr>) }
         else
           do {
             t \<leftarrow> memmove 0 offset (clen c - offset) (ctext c);
             cstring_fix (c\<lparr>ctext := t, clen := clen c - offset\<rparr>)
           })"

definition cstring_add :: "cstr \<Rightarrow> cstring \<Rightarrow> cstring option" where
  "cstring_add str c =
     (let sz = length str
      in if sz = 0 then Some c
         else
           (let sz = (if clen c + sz > cmax c then cmax c - clen c else sz)
            in if sz < 1 then Some c
               else
                 do {
                   t \<leftarrow> memcpy (clen c) (take sz str) (ctext c);
                   cstring_fix (c\<lparr>ctext := t, clen := clen c + sz\<rparr>)
                 }))"

definition cstring_add_char :: "char \<Rightarrow> cstring \<Rightarrow> cstring option" where
  "cstring_add_char ch c =
     (if ch = NUL then Some c
      else if clen c = cmax c then Some c
      else do { t \<leftarrow> poke (clen c) ch (ctext c); cstring_fix (c\<lparr>ctext := t, clen := clen c + 1\<rparr>) })"

fun set_at_loop :: "nat \<Rightarrow> cstr \<Rightarrow> nat \<Rightarrow> char list \<Rightarrow> (nat \<times> char list) option" where
  "set_at_loop offset [] sz t = Some (offset, t)"
| "set_at_loop offset (c # str) sz t =
     (if sz = 0 then Some (offset, t)
      else do { t \<leftarrow> poke offset c t; set_at_loop (offset + 1) str (sz - 1) t })"

definition cstring_set_at :: "nat \<Rightarrow> cstr \<Rightarrow> nat \<Rightarrow> cstring \<Rightarrow> cstring option" where
  "cstring_set_at offset str sz c =
     (if offset \<ge> cmax c \<or> offset > clen c then Some c
      else
        (let sz = (if size_add offset sz > cmax c then cmax c - offset else sz)
         in do {
              (offset, t) \<leftarrow> set_at_loop offset str sz (ctext c);
              if offset > clen c
              then do { t \<leftarrow> poke offset NUL t; Some (c\<lparr>ctext := t, clen := offset\<rparr>) }
              else Some (c\<lparr>ctext := t\<rparr>)
            }))"

text \<open>\<open>set\<close> from a text outside the buffer, and from a position inside it.\<close>

definition cstring_set :: "cstr \<Rightarrow> cstring \<Rightarrow> cstring option" where
  "cstring_set str c =
     (let sz = length str; sz = (if sz > cmax c then cmax c else sz)
      in do { t \<leftarrow> memcpy 0 (take sz str) (ctext c); cstring_fix (c\<lparr>ctext := t, clen := sz\<rparr>) })"

definition cstring_set_own :: "nat \<Rightarrow> cstring \<Rightarrow> cstring option" where
  "cstring_set_own pos c =
     do {
       sz \<leftarrow> strlen_at pos (ctext c);
       let sz = (if sz > cmax c then cmax c else sz);
       t \<leftarrow> (if pos = 0 then Some (ctext c) else memmove 0 pos sz (ctext c));
       cstring_fix (c\<lparr>ctext := t, clen := sz\<rparr>)
     }"

section \<open>Methods of String\<close>

definition String_clear :: "cstring \<Rightarrow> cstring option" where
  "String_clear c = cstring_set [] c"

fun String_chop_loop :: "cstr \<Rightarrow> char list \<Rightarrow> nat \<Rightarrow> nat" where
  "String_chop_loop clist t 0 = 0"
| "String_chop_loop clist t (Suc offset) =
     (if \<not> strchr_in clist (cchar t offset) then Suc offset else String_chop_loop clist t offset)"

definition String_chop :: "cstr \<Rightarrow> cstring \<Rightarrow> cstring option" where
  "String_chop clist c =
     (if clen c = 0 then Some c
      else
        (let offset = String_chop_loop clist (ctext c) (clen c)
         in if offset = 0 then String_clear c
            else if offset = clen c then Some c
            else cstring_fix (c\<lparr>clen := offset\<rparr>)))"

fun String_trim_loop :: "cstr \<Rightarrow> char list \<Rightarrow> nat \<Rightarrow> nat \<Rightarrow> nat" where
  "String_trim_loop clist t offset 0 = offset"
| "String_trim_loop clist t offset (Suc k) =
     (if \<not> strchr_in clist (cchar t offset) then offset else String_trim_loop clist t (offset + 1) k)"

definition String_trim :: "cstr \<Rightarrow> cstring \<Rightarrow> cstring option" where
  "String_trim clist c =
     (let offset = String_trim_loop clist (ctext c) 0 (clen c)
      in if offset = 0 then Some c
         else if offset = clen c then String_clear c
         else
           do {
             t \<leftarrow> memmove 0 offset (clen c - offset) (ctext c);
             cstring_fix (c\<lparr>ctext := t, clen := clen c - offset\<rparr>)
           })"

definition String_strip :: "cstr \<Rightarrow> cstring \<Rightarrow> cstring option" where
  "String_strip clist c = do { c \<leftarrow> String_trim clist c; String_chop clist c }"

definition String_cut :: "nat \<Rightarrow> nat \<Rightarrow> cstring \<Rightarrow> cstring option" where
  "String_cut offset sz c =
     (if offset \<ge> clen c then Some c
      else
        (let sz = (if sz = 0 then clen c else sz)
         in if size_add offset sz \<ge> clen c then cstring_fix (c\<lparr>clen := offset\<rparr>)
            else
              do {
                t \<leftarrow> memmove offset (size_add offset sz) (size_minus (clen c - offset) sz) (ctext c);
                cstring_fix (c\<lparr>ctext := t, clen := size_minus (clen c) sz\<rparr>)
              }))"

fun String_fill_loop :: "nat \<Rightarrow> char \<Rightarrow> cstring \<Rightarrow> cstring option" where
  "String_fill_loop 0 fill c = Some c"
| "String_fill_loop (Suc sz) fill c =
     (if clen c < cmax c
      then do { t \<leftarrow> poke (clen c) fill (ctext c); String_fill_loop sz fill (c\<lparr>ctext := t, clen := clen c + 1\<rparr>) }
      else Some c)"

definition String_fill :: "nat \<Rightarrow> char \<Rightarrow> cstring \<Rightarrow> cstring option" where
  "String_fill sz fill c = do { c \<leftarrow> String_fill_loop sz fill c; cstring_fix c }"

definition String_rsplit :: "nat \<Rightarrow> cstring \<Rightarrow> cstring option" where
  "String_rsplit pos c = (if pos > clen c \<or> pos = 0 then Some c else cstring_set_own pos c)"

definition String_split :: "nat \<Rightarrow> cstring \<Rightarrow> cstring option" where
  "String_split pos c =
     (if pos \<ge> clen c then Some c
      else do { t \<leftarrow> poke pos NUL (ctext c); cstring_fix (c\<lparr>ctext := t\<rparr>) })"

definition String_set_at :: "nat \<Rightarrow> cstr \<Rightarrow> nat \<Rightarrow> cstring \<Rightarrow> cstring option" where
  "String_set_at offset s sz c =
     (if s = [] then Some c
      else (let sz = (if sz = 0 then length s else sz) in cstring_set_at offset s sz c))"

definition String_set_overflow :: "cstr \<Rightarrow> char \<Rightarrow> nat \<Rightarrow> nat \<Rightarrow> cstring \<Rightarrow> cstring option" where
  "String_set_overflow s overflow offset sz c =
     (let len = length s
      in if s = [] \<or> offset \<ge> cmax c then Some c
         else
           (let sz = (if sz = 0 \<or> sz > cmax c - offset then cmax c - offset else sz)
            in if len \<le> sz then String_set_at offset s sz c
               else
                 do {
                   c \<leftarrow> String_set_at offset s sz c;
                   if len > sz \<and> overflow \<noteq> NUL
                   then do { t \<leftarrow> poke (offset + sz - 1) overflow (ctext c); Some (c\<lparr>ctext := t\<rparr>) }
                   else Some c
                 }))"

definition String_rset :: "cstr \<Rightarrow> char \<Rightarrow> nat \<Rightarrow> nat \<Rightarrow> cstring \<Rightarrow> cstring option" where
  "String_rset s overflow offset sz c =
     (let len = length s
      in if s = [] \<or> offset \<ge> cmax c then Some c
         else
           (let sz = (if sz = 0 \<or> sz > cmax c - offset then cmax c - offset else sz);
                s = (if len > sz then drop (len - sz) s else s)
            in do {
                 c \<leftarrow> String_set_at offset s sz c;
                 if overflow \<noteq> NUL \<and> len > sz
                 then do { t \<leftarrow> poke offset overflow (ctext c); Some (c\<lparr>ctext := t\<rparr>) }
                 else Some c
               }))"

text \<open>
  \<open>cow\<close>: make room for \<open>sz\<close> more characters. The memory for a new object is \<open>mem\<close>.
\<close>

definition String_cow :: "nat \<Rightarrow> char list \<Rightarrow> cstring \<Rightarrow> cstring option" where
  "String_cow sz mem c =
     (let sz = size_add sz (clen c)
      in if sz = 0 then Some c
         else if cmax c = 0 \<or> sz > cmax c then
           do {
             s \<leftarrow> cstring_new sz mem;
             old \<leftarrow> text_at 0 (ctext c);
             t \<leftarrow> cstr_set (ctext s) (cmax s + 1) old;
             Some (s\<lparr>ctext := t, clen := clen c\<rparr>)
           }
         else Some c)"

definition String_add_char :: "char \<Rightarrow> char list \<Rightarrow> cstring \<Rightarrow> cstring option" where
  "String_add_char ch mem c =
     (if ch = NUL then Some c else do { c \<leftarrow> String_cow 1 mem c; cstring_add [ch] c })"

definition String_add :: "cstr \<Rightarrow> char list \<Rightarrow> cstring \<Rightarrow> cstring option" where
  "String_add s mem c =
     (if s = [] then Some c else do { c \<leftarrow> String_cow (length s) mem c; cstring_add s c })"

definition String_paste :: "nat \<Rightarrow> cstr \<Rightarrow> nat \<Rightarrow> char list \<Rightarrow> cstring \<Rightarrow> cstring option" where
  "String_paste offset cp sz mem c =
     (let sz = (if sz = 0 then length cp else sz)
      in if sz = 0 then Some c
         else
           do {
             c \<leftarrow> String_cow sz mem c;
             t \<leftarrow> (if offset \<ge> clen c
                   then at_pos (clen c) (\<lambda>b. cstr_set b (size_add sz 1) cp) (ctext c)
                   else
                     do {
                       t \<leftarrow> memmove (size_add offset sz) offset (clen c - offset) (ctext c);
                       memcpy offset (take sz cp) t
                     });
             cstring_fix (c\<lparr>ctext := t, clen := size_add (clen c) sz\<rparr>)
           })"

section \<open>Scanning\<close>

text \<open>Pointers into the text are positions.\<close>

fun String_skip_loop :: "cstr \<Rightarrow> cstring \<Rightarrow> nat \<Rightarrow> nat \<Rightarrow> nat option" where
  "String_skip_loop clist c offset 0 = None"
| "String_skip_loop clist c offset (Suc k) =
     (if \<not> strchr_in clist (cchar (ctext c) offset) then Some offset else String_skip_loop clist c (offset + 1) k)"

definition String_skip :: "cstr \<Rightarrow> nat \<Rightarrow> cstring \<Rightarrow> nat option" where
  "String_skip clist offset c =
     (if clist = [] \<or> clen c = 0 \<or> offset > clen c then None
      else String_skip_loop clist c offset (clen c - offset))"

fun String_rskip_loop :: "cstr \<Rightarrow> cstring \<Rightarrow> nat \<Rightarrow> nat option" where
  "String_rskip_loop clist c 0 = None"
| "String_rskip_loop clist c (Suc offset) =
     (if \<not> strchr_in clist (cchar (ctext c) offset) then Some offset else String_rskip_loop clist c offset)"

definition String_rskip :: "cstr \<Rightarrow> nat \<Rightarrow> cstring \<Rightarrow> nat option" where
  "String_rskip clist offset c =
     (if clist = [] \<or> clen c = 0 then None
      else String_rskip_loop clist c (if offset > clen c then clen c else offset))"

fun String_rfind_loop :: "cstr \<Rightarrow> cstring \<Rightarrow> nat \<Rightarrow> nat option" where
  "String_rfind_loop clist c 0 = None"
| "String_rfind_loop clist c (Suc offset) =
     (if strchr_in clist (cchar (ctext c) offset) then Some offset else String_rfind_loop clist c offset)"

definition String_rfind :: "cstr \<Rightarrow> nat \<Rightarrow> cstring \<Rightarrow> nat option" where
  "String_rfind clist offset c =
     (if clist = [] then None
      else if clen c = 0 then Some 0
      else String_rfind_loop clist c (if offset > clen c then clen c else offset))"

fun String_find_loop :: "cstr \<Rightarrow> cstring \<Rightarrow> nat \<Rightarrow> nat \<Rightarrow> nat option" where
  "String_find_loop clist c offset 0 = None"
| "String_find_loop clist c offset (Suc k) =
     (if strchr_in clist (cchar (ctext c) offset) then Some offset else String_find_loop clist c (offset + 1) k)"

definition String_find :: "cstr \<Rightarrow> nat \<Rightarrow> cstring \<Rightarrow> nat option" where
  "String_find clist offset c =
     (if clist = [] \<or> clen c = 0 \<or> offset > clen c then None
      else String_find_loop clist c offset (clen c - offset))"

definition String_at :: "int \<Rightarrow> cstring \<Rightarrow> char" where
  "String_at offset c =
     (if offset \<ge> int (clen c) then NUL
      else if offset > -1 then cchar (ctext c) (nat offset)
      else if nat (- offset) \<ge> clen c then cchar (ctext c) 0
      else cchar (ctext c) (nat (int (clen c) + offset)))"

definition String_full :: "cstring \<Rightarrow> bool" where
  "String_full c \<longleftrightarrow> clen c = cmax c"

section \<open>The text of a string object\<close>

text \<open>
  \<open>str_of t junk\<close> is the object that holds the text \<open>t\<close> in front of other characters;
  \<open>holds c cap t\<close> is the invariant of an object with room for \<open>cap\<close> characters.
\<close>

definition str_of :: "cstr \<Rightarrow> char list \<Rightarrow> cstring" where
  "str_of t junk = \<lparr>cmax = length t + length junk, clen = length t, ctext = t @ NUL # junk\<rparr>"

definition holds :: "cstring \<Rightarrow> nat \<Rightarrow> cstr \<Rightarrow> bool" where
  "holds c cap t \<longleftrightarrow> NUL \<notin> set t \<and> (\<exists>junk. c = str_of t junk \<and> length t + length junk = cap)"

lemma str_of_fields [simp]:
  "cmax (str_of t junk) = length t + length junk" "clen (str_of t junk) = length t"
  "ctext (str_of t junk) = t @ NUL # junk"
  by (simp_all add: str_of_def)

lemma holdsE:
  assumes "holds c cap t"
  obtains junk where "c = str_of t junk" "cap = length t + length junk" "NUL \<notin> set t"
  using assms by (auto simp: holds_def)

lemma holds_exI: "r = Some (str_of u junk') \<Longrightarrow> NUL \<notin> set u \<Longrightarrow> length u + length junk' = cap \<Longrightarrow>
    \<exists>c'. r = Some c' \<and> holds c' cap u"
  by (auto simp: holds_def)

lemma holds_str_of [simp]: "holds (str_of t junk) cap t \<longleftrightarrow> NUL \<notin> set t \<and> length t + length junk = cap"
  by (auto simp: holds_def str_of_def)

lemma fix_text:
  "cmax c = length t + length junk \<Longrightarrow> clen c = length t \<Longrightarrow> ctext c = t @ x # junk \<Longrightarrow>
     cstring_fix c = Some (str_of t junk)"
  by (simp add: cstring_fix_def str_of_def)

lemma text_of: "holds c cap t \<Longrightarrow> text_at 0 (ctext c) = Some t \<and> clen c = length t \<and> length t \<le> cmax c"
  by (auto elim!: holdsE)

lemma new_holds: "sz < length mem \<Longrightarrow> \<exists>c. cstring_new sz mem = Some c \<and> holds c sz []"
  by (cases mem) (auto simp: cstring_new_def poke_def holds_def str_of_def intro!: exI [of _ "take sz _"])

text \<open>Ending the text earlier.\<close>

lemma shorten:
  assumes "cmax c = length t + length junk" "clen c = off" "ctext c = t @ NUL # junk" "off \<le> length t" "NUL \<notin> set t"
  shows "\<exists>c'. cstring_fix c = Some c' \<and> holds c' (length t + length junk) (take off t)"
proof -
  obtain x junk' where j: "drop off (t @ NUL # junk) = x # junk'" "length junk' + off = length t + length junk"
    using assms(4) by (cases "drop off (t @ NUL # junk)")
      (auto dest!: arg_cong [where f = length])
  then have "t @ NUL # junk = take off t @ x # junk'"
    using assms(4) append_take_drop_id [of off "t @ NUL # junk"] by simp
  then have "cstring_fix c = Some (str_of (take off t) junk')"
    using assms j by (intro fix_text) auto
  then show ?thesis
    using assms j by (intro holds_exI) (auto dest: in_set_takeD)
qed

lemma clear_holds:
  assumes "holds c cap t"
  shows "\<exists>c'. cstring_clear offset c = Some c' \<and> holds c' cap (take offset t)"
proof -
  from assms obtain junk where c: "c = str_of t junk" "cap = length t + length junk" "NUL \<notin> set t" by (rule holdsE)
  have "cstring_clear offset c = cstring_fix (c\<lparr>clen := offset\<rparr>)" if "offset < clen c"
    using that by (cases c) (simp add: cstring_clear_def cstring_fix_def)
  with shorten [of "c\<lparr>clen := offset\<rparr>" t junk offset] assms c show ?thesis
    by (cases "offset < length t") (auto simp: cstring_clear_def)
qed

lemma poke_front:
  "do { u \<leftarrow> poke 0 NUL (t @ NUL # junk); cstring_fix (c\<lparr>ctext := u, clen := 0\<rparr>) }
     = cstring_fix (c\<lparr>ctext := t @ NUL # junk, clen := 0\<rparr>)"
  by (cases t) (simp_all add: cstring_fix_def poke_def)

lemma empty_holds:
  assumes "holds c cap t"
  shows "\<exists>c'. do { u \<leftarrow> poke 0 NUL (ctext c); cstring_fix (c\<lparr>ctext := u, clen := 0\<rparr>) } = Some c' \<and> holds c' cap []"
proof -
  from assms obtain junk where c: "c = str_of t junk" "cap = length t + length junk" "NUL \<notin> set t" by (rule holdsE)
  with shorten [of "c\<lparr>ctext := t @ NUL # junk, clen := 0\<rparr>" t junk 0] show ?thesis
    by (simp add: poke_front)
qed

lemma dec_holds:
  assumes "holds c cap t"
  shows "\<exists>c'. cstring_dec offset c = Some c' \<and> holds c' cap (if offset \<ge> length t then [] else butlast t)"
proof -
  from assms obtain junk where c: "c = str_of t junk" "cap = length t + length junk" "NUL \<notin> set t" by (rule holdsE)
  have "cstring_dec offset c = cstring_clear (length t - 1) c" if "offset < length t"
    using that c by (auto simp: cstring_dec_def cstring_clear_def)
  then show ?thesis
    using clear_holds [OF assms, of "length t - 1"] empty_holds [OF assms] c assms
    by (cases "t = []") (auto simp: cstring_dec_def butlast_conv_take)
qed

text \<open>Removing characters from the front or the middle.\<close>

lemma remove_range:
  assumes "holds c cap t" "off + n < length t"
  shows "\<exists>c'. do { u \<leftarrow> memmove off (off + n) (clen c - off - n) (ctext c);
                   cstring_fix (c\<lparr>ctext := u, clen := clen c - n\<rparr>) } = Some c'
    \<and> holds c' cap (take off t @ drop (off + n) t)"
proof -
  from assms obtain junk where c: "c = str_of t junk" "cap = length t + length junk" "NUL \<notin> set t" by (blast elim: holdsE)
  have "t = take off t @ take n (drop off t) @ drop (off + n) t"
    by (metis append_take_drop_id drop_drop add.commute)
  from move_down [OF this, of off "off + n" "length t - off - n" "length t - n" junk] assms(2)
  obtain junk' where u: "do { b \<leftarrow> memmove off (off + n) (length t - off - n) (t @ NUL # junk); poke (length t - n) NUL b }
      = Some (take off t @ drop (off + n) t @ NUL # junk')" "length junk' = n + length junk"
    by auto
  have "do { u \<leftarrow> memmove off (off + n) (clen c - off - n) (ctext c); cstring_fix (c\<lparr>ctext := u, clen := clen c - n\<rparr>) }
      = map_option (\<lambda>u. c\<lparr>ctext := u, clen := clen c - n\<rparr>)
          (do { b \<leftarrow> memmove off (off + n) (length t - off - n) (t @ NUL # junk); poke (length t - n) NUL b })"
    by (simp add: c cstring_fix_def split: bind_split)
  also have "\<dots> = Some (str_of (take off t @ drop (off + n) t) junk')"
    unfolding u(1) using assms(2) c u(2) by (simp add: str_of_def)
  finally show ?thesis
    using assms(2) c u by (intro holds_exI) (auto dest: in_set_takeD in_set_dropD)
qed

lemma inc_holds:
  assumes "holds c cap t"
  shows "\<exists>c'. cstring_inc offset c = Some c' \<and> holds c' cap (drop (max 1 offset) t)"
proof -
  have "clen c = length t" using assms by (auto elim: holdsE)
  then show ?thesis
    using remove_range [OF assms, of 0 "max 1 offset"] empty_holds [OF assms]
    by (auto simp: cstring_inc_def Let_def max_def not_le Suc_le_eq)
qed

text \<open>Writing behind the text.\<close>

lemma append_holds:
  assumes "holds c cap t" "NUL \<notin> set s" "length t + length s \<le> cap"
  shows "\<exists>c'. do { u \<leftarrow> memcpy (clen c) s (ctext c); cstring_fix (c\<lparr>ctext := u, clen := clen c + length s\<rparr>) } = Some c'
    \<and> holds c' cap (t @ s)"
proof -
  from assms obtain junk where c: "c = str_of t junk" "cap = length t + length junk" "NUL \<notin> set t" by (blast elim: holdsE)
  have "memcpy (length t) s (t @ NUL # junk) = Some (t @ s @ drop (length s) (NUL # junk))"
    using assms(3) c by (intro memcpy_append) simp_all
  moreover obtain x junk' where j: "drop (length s) (NUL # junk) = x # junk'" "length junk' + length s = length junk"
    using assms(3) c by (cases "drop (length s) (NUL # junk)") (auto dest!: arg_cong [where f = length])
  moreover have "cstring_fix (c\<lparr>ctext := t @ s @ x # junk', clen := length t + length s\<rparr>) = Some (str_of (t @ s) junk')"
    using c j by (intro fix_text) auto
  ultimately show ?thesis
    using c j assms(2) by (intro holds_exI [of _ "t @ s" junk']) auto
qed

lemma add_holds:
  assumes "holds c cap t" "NUL \<notin> set s"
  shows "\<exists>c'. cstring_add s c = Some c' \<and> holds c' cap (t @ take (cap - length t) s)"
proof -
  let ?n = "min (length s) (cap - length t)"
  have c: "clen c = length t" "cmax c = cap" "length t \<le> cap" using assms by (auto elim!: holdsE)
  have n: "(if clen c + length s > cmax c then cmax c - clen c else length s) = ?n" using c by auto
  have "NUL \<notin> set (take ?n s)" using assms(2) by (auto dest: in_set_takeD)
  moreover have "length t + length (take ?n s) \<le> cap" "length (take ?n s) = ?n" using c by auto
  ultimately
  obtain c' where "do { u \<leftarrow> memcpy (clen c) (take ?n s) (ctext c); cstring_fix (c\<lparr>ctext := u, clen := clen c + ?n\<rparr>) } = Some c'"
    "holds c' cap (t @ take ?n s)"
    using append_holds [OF assms(1), of "take ?n s"] by metis
  moreover have "take ?n s = take (cap - length t) s" by (simp add: min_def)
  ultimately show ?thesis
    using assms(1) unfolding cstring_add_def Let_def n by (cases "?n = 0") auto
qed

lemma add_char_holds:
  assumes "holds c cap t"
  shows "\<exists>c'. cstring_add_char ch c = Some c' \<and> holds c' cap (if ch = NUL then t else t @ take (cap - length t) [ch])"
proof -
  have c: "clen c = length t" "cmax c = cap" "length t \<le> cap" using assms by (auto elim!: holdsE)
  have "cstring_add_char ch c = cstring_add [ch] c" if "ch \<noteq> NUL"
    using that c assms by (auto simp: cstring_add_char_def cstring_add_def memcpy_def poke_def upd_conv_take_nth_drop
        elim!: holdsE)
  with add_holds [OF assms, of "[ch]"] assms show ?thesis by (auto simp: cstring_add_char_def)
qed

lemma set_holds:
  assumes "holds c cap t" "NUL \<notin> set s"
  shows "\<exists>c'. cstring_set s c = Some c' \<and> holds c' cap (take cap s)"
proof -
  from assms obtain junk where c: "c = str_of t junk" "cap = length t + length junk" "NUL \<notin> set t" by (blast elim: holdsE)
  let ?u = "take cap s"
  have n: "(if length s > cmax c then cmax c else length s) = length ?u" "take (length ?u) s = ?u"
    using c by (auto simp: min_def)
  have "memcpy 0 ?u (t @ NUL # junk) = Some (?u @ drop (length ?u) (t @ NUL # junk))"
    using memcpy_append [of 0 "[]" ?u "t @ NUL # junk"] c by simp
  moreover obtain x junk' where j: "drop (length ?u) (t @ NUL # junk) = x # junk'" "length junk' + length ?u = cap"
    using c by (cases "drop (length ?u) (t @ NUL # junk)") (auto dest!: arg_cong [where f = length])
  moreover have "cstring_fix (c\<lparr>ctext := ?u @ x # junk', clen := length ?u\<rparr>) = Some (str_of ?u junk')"
    using c j by (intro fix_text) auto
  ultimately show ?thesis
    using c j assms(2) unfolding cstring_set_def Let_def n
    by (intro holds_exI [of _ ?u junk']) (auto dest: in_set_takeD)
qed

lemma String_clear_holds: "holds c cap t \<Longrightarrow> \<exists>c'. String_clear c = Some c' \<and> holds c' cap []"
  using set_holds [of c cap t "[]"] by (simp add: String_clear_def)

lemma set_at_loop_result:
  "offset + min sz (length s) \<le> length b \<Longrightarrow>
     set_at_loop offset s sz b
       = Some (offset + min sz (length s), take offset b @ take sz s @ drop (offset + min sz (length s)) b)"
proof (induction offset s sz b rule: set_at_loop.induct)
  case (2 offset c str sz t)
  show ?case
  proof (cases sz)
    case (Suc n)
    have "offset < length t" using 2 Suc by simp
    then have "take (Suc offset) (t[offset := c]) = take offset t @ [c]"
      "drop k (t[offset := c]) = drop k t" if "offset < k" for k
      using that by (simp_all add: take_Suc_conv_app_nth drop_update_cancel)
    with 2 Suc \<open>offset < length t\<close> show ?thesis
      by (auto simp: poke_def)
  qed simp
qed simp

lemma set_at_holds:
  assumes "holds c cap t" "NUL \<notin> set s" "offset + sz < 2 ^ 64"
  shows "\<exists>c'. cstring_set_at offset s sz c = Some c' \<and> holds c' cap
    (if offset \<ge> cap \<or> offset > length t then t
     else let u = take (min sz (cap - offset)) s in take offset t @ u @ drop (offset + length u) t)"
proof (cases "offset \<ge> cap \<or> offset > length t")
  case True
  with assms show ?thesis by (auto simp: cstring_set_at_def elim!: holdsE)
next
  case False
  from assms obtain junk where c: "c = str_of t junk" "cap = length t + length junk" "NUL \<notin> set t" by (blast elim: holdsE)
  define n where "n = min sz (cap - offset)"
  define u where "u = take n s"
  define e where "e = offset + length u"
  have n: "(if size_add offset sz > cmax c then cmax c - offset else sz) = n"
    using c False by (auto simp: n_def size_add_less [OF assms(3)])
  have e: "offset + min n (length s) = e" "e \<le> cap" using False by (auto simp: e_def u_def n_def)
  have loop: "set_at_loop offset s n (ctext c) = Some (e, take offset t @ u @ drop e (t @ NUL # junk))"
    using set_at_loop_result [of offset n s "t @ NUL # junk"] e False c by (simp add: u_def)
  have nul: "NUL \<notin> set (take offset t @ u @ drop e t)"
    using assms(2) c by (auto simp: u_def dest: in_set_takeD in_set_dropD)
  have "\<exists>c'. cstring_set_at offset s sz c = Some c' \<and> holds c' cap (take offset t @ u @ drop e t)"
  proof (cases "e > length t")
    case True
    obtain x junk' where j: "drop e (t @ NUL # junk) = x # junk'" "length junk' + e = cap"
      using c e by (cases "drop e (t @ NUL # junk)") (auto dest!: arg_cong [where f = length])
    have "poke e NUL (take offset t @ u @ x # junk') = Some (take offset t @ u @ NUL # junk')"
      using poke_append [of e "take offset t @ u" NUL x junk'] False by (simp add: e_def)
    then have "cstring_set_at offset s sz c = Some (str_of (take offset t @ u) junk')"
      using False True c j loop unfolding cstring_set_at_def Let_def n
      by (auto simp: str_of_def e_def)
    moreover have "drop e t = []" using True by simp
    ultimately show ?thesis using nul j False by (intro holds_exI) (auto simp: e_def)
  next
    case short: False
    then have "cstring_set_at offset s sz c = Some (str_of (take offset t @ u @ drop e t) junk)"
      using False c loop unfolding cstring_set_at_def Let_def n by (auto simp: str_of_def e_def)
    with short False nul c show ?thesis by (intro holds_exI) (auto simp: e_def)
  qed
  with False show ?thesis by (simp add: Let_def e_def u_def n_def)
qed

lemma set_own_holds:
  assumes "holds c cap t" "0 < pos" "pos \<le> length t"
  shows "\<exists>c'. cstring_set_own pos c = Some c' \<and> holds c' cap (drop pos t)"
proof -
  from assms obtain junk where c: "c = str_of t junk" "cap = length t + length junk" "NUL \<notin> set t" by (blast elim: holdsE)
  have "drop pos (t @ NUL # junk) = drop pos t @ NUL # junk" "NUL \<notin> set (drop pos t)"
    using assms(3) c by (auto dest: in_set_dropD)
  then have "strlen_at pos (ctext c) = Some (length t - pos)"
    using c text_at_append [of "drop pos t" junk] by (simp add: strlen_at_def text_at_def)
  then have own: "cstring_set_own pos c
      = do { u \<leftarrow> memmove 0 pos (length t - pos) (ctext c); cstring_fix (c\<lparr>ctext := u, clen := length t - pos\<rparr>) }"
    using assms c by (simp add: cstring_set_own_def Let_def) linarith
  show ?thesis
  proof (cases "pos < length t")
    case True
    then show ?thesis using remove_range [OF assms(1), of 0 pos] c own by simp
  next
    case False
    then have "cstring_set_own pos c = cstring_fix (c\<lparr>clen := 0\<rparr>)"
      using assms(3) c own by (simp add: memmove_def memcpy_def str_of_def)
    with False shorten [of "c\<lparr>clen := 0\<rparr>" t junk 0] c show ?thesis by simp
  qed
qed

lemma String_chop_loop_result:
  "NUL \<notin> set t \<Longrightarrow> String_chop_loop clist (t @ rest) (length t) = length (chopped clist t)"
proof (induction t arbitrary: rest rule: rev_induct)
  case (snoc c t)
  then show ?case
    using snoc.IH [of "c # rest"] by (auto simp: cchar_def strchr_in_text chopped_snoc)
qed (simp add: chopped_def)

lemma take_chopped: "take (length (chopped clist t)) t = chopped clist t"
proof (induction t rule: rev_induct)
  case (snoc c t)
  then show ?case using length_chopped [of clist t] by (auto simp: chopped_snoc)
qed (simp add: chopped_def)

lemma chop_holds:
  assumes "holds c cap t"
  shows "\<exists>c'. String_chop clist c = Some c' \<and> holds c' cap (chopped clist t)"
proof -
  from assms obtain junk where c: "c = str_of t junk" "cap = length t + length junk" "NUL \<notin> set t" by (blast elim: holdsE)
  have loop: "String_chop_loop clist (ctext c) (clen c) = length (chopped clist t)"
    using c by (simp add: String_chop_loop_result)
  show ?thesis
  proof (cases "chopped clist t = [] \<or> length (chopped clist t) = length t")
    case True
    then show ?thesis
      using String_clear_holds [OF assms] assms c loop take_chopped [of clist t]
      by (auto simp: String_chop_def Let_def)
  next
    case False
    then have "String_chop clist c = cstring_fix (c\<lparr>clen := length (chopped clist t)\<rparr>)"
      using c loop by (auto simp: String_chop_def Let_def chopped_def)
    with shorten [of "c\<lparr>clen := length (chopped clist t)\<rparr>" t junk "length (chopped clist t)"] c
    show ?thesis by (simp add: take_chopped length_chopped)
  qed
qed

lemma String_trim_loop_result:
  "NUL \<notin> set t \<Longrightarrow> String_trim_loop clist (pre @ t @ rest) (length pre) (length t)
     = length pre + length (takeWhile (\<lambda>c. c \<in> set clist) t)"
proof (induction t arbitrary: pre)
  case (Cons c t)
  then show ?case
    using Cons.IH [of "pre @ [c]"] by (auto simp: cchar_def strchr_in_text)
qed simp

lemma trim_holds:
  assumes "holds c cap t"
  shows "\<exists>c'. String_trim clist c = Some c' \<and> holds c' cap (dropWhile (\<lambda>c. c \<in> set clist) t)"
proof -
  from assms obtain junk where c: "c = str_of t junk" "cap = length t + length junk" "NUL \<notin> set t" by (blast elim: holdsE)
  define n where "n = length (takeWhile (\<lambda>c. c \<in> set clist) t)"
  have loop: "String_trim_loop clist (ctext c) 0 (clen c) = n"
    using c String_trim_loop_result [of t clist "[]"] by (simp add: n_def)
  have n: "n \<le> length t" "dropWhile (\<lambda>c. c \<in> set clist) t = drop n t"
    by (simp_all add: n_def length_takeWhile_le dropWhile_eq_drop)
  show ?thesis
    using remove_range [OF assms, of 0 n] String_clear_holds [OF assms] assms c n(1)
    unfolding String_trim_def loop Let_def n(2) by auto
qed

lemma strip_holds:
  assumes "holds c cap t"
  shows "\<exists>c'. String_strip clist c = Some c' \<and> holds c' cap (chopped clist (dropWhile (\<lambda>c. c \<in> set clist) t))"
proof -
  from trim_holds [OF assms] obtain c' where
    "String_trim clist c = Some c'" "holds c' cap (dropWhile (\<lambda>c. c \<in> set clist) t)" by auto
  with chop_holds [OF this(2)] show ?thesis by (simp add: String_strip_def)
qed

lemma cut_holds:
  assumes "holds c cap t" "length t \<le> off \<or> off + (if sz = 0 then length t else sz) < 2 ^ 64"
    and "length t < 2 ^ 64"
  shows "\<exists>c'. String_cut off sz c = Some c' \<and> holds c' cap (take off t @ (if sz = 0 then [] else drop (off + sz) t))"
proof -
  from assms(1) obtain junk where c: "c = str_of t junk" "cap = length t + length junk" "NUL \<notin> set t" by (rule holdsE)
  consider "off \<ge> length t" | "off < length t" "sz = 0 \<or> off + sz \<ge> length t" | "0 < sz" "off + sz < length t" by linarith
  then show ?thesis
  proof cases
    case 1
    then show ?thesis using assms(1) c by (simp add: String_cut_def)
  next
    case 2
    then have "size_add off (if sz = 0 then length t else sz) = off + (if sz = 0 then length t else sz)"
      using assms(2) by (intro size_add_less) auto
    then have "String_cut off sz c = cstring_fix (c\<lparr>clen := off\<rparr>)" using 2 c by (auto simp: String_cut_def)
    with 2 shorten [of "c\<lparr>clen := off\<rparr>" t junk off] c show ?thesis by auto
  next
    case 3
    then have "String_cut off sz c = do { u \<leftarrow> memmove off (off + sz) (clen c - off - sz) (ctext c);
        cstring_fix (c\<lparr>ctext := u, clen := clen c - sz\<rparr>) }"
      using c 3 size_add_less [of off sz] size_minus_le [of sz "length t - off"] size_minus_le [of sz "length t"] assms(2,3)
      by (simp add: String_cut_def)
    with 3 remove_range [OF assms(1) 3(2)] show ?thesis by simp
  qed
qed

lemma fill_holds:
  assumes "holds c cap t" "ch \<noteq> NUL"
  shows "\<exists>c'. String_fill n ch c = Some c' \<and> holds c' cap (t @ replicate (min n (cap - length t)) ch)"
proof -
  from assms obtain junk where c: "c = str_of t junk" "cap = length t + length junk" "NUL \<notin> set t" by (blast elim: holdsE)
  have loop: "\<exists>x junk'. String_fill_loop n ch \<lparr>cmax = length u + length v, clen = length u, ctext = u @ y # v\<rparr>
      = Some \<lparr>cmax = length u + length v, clen = length u + min n (length v),
              ctext = u @ replicate (min n (length v)) ch @ x # junk'\<rparr>
    \<and> length junk' + min n (length v) = length v" for u v y
  proof (induction n arbitrary: u v y)
    case (Suc n)
    show ?case
    proof (cases v)
      case (Cons z v')
      from Suc.IH [of "u @ [ch]" v' z] show ?thesis by (auto simp: Cons)
    qed auto
  qed auto
  from loop [of t junk NUL] obtain x junk' where
    l: "String_fill_loop n ch c = Some \<lparr>cmax = cap, clen = length t + min n (length junk),
        ctext = t @ replicate (min n (length junk)) ch @ x # junk'\<rparr>"
      "length junk' + min n (length junk) = length junk"
    using c by (auto simp: str_of_def)
  have "String_fill n ch c = Some (str_of (t @ replicate (min n (length junk)) ch) junk')"
    unfolding String_fill_def l(1) using c l(2) by (simp add: cstring_fix_def poke_def str_of_def list_update_append)
  with c l assms(2) show ?thesis by (intro holds_exI) auto
qed

lemma rsplit_holds:
  assumes "holds c cap t"
  shows "\<exists>c'. String_rsplit pos c = Some c' \<and> holds c' cap (if pos \<le> length t then drop pos t else t)"
proof -
  have "clen c = length t" using assms by (auto elim: holdsE)
  then show ?thesis
    using set_own_holds [OF assms, of pos] assms by (cases "pos = 0") (auto simp: String_rsplit_def)
qed

text \<open>The text after \<open>set\<close> at an offset; \<open>sz = 0\<close> stands for the whole text.\<close>

definition spliced :: "nat \<Rightarrow> nat \<Rightarrow> cstr \<Rightarrow> nat \<Rightarrow> cstr \<Rightarrow> cstr" where
  "spliced cap offset s sz t =
     (if s = [] \<or> offset \<ge> cap \<or> offset > length t then t
      else let u = take (min (if sz = 0 then length s else sz) (cap - offset)) s
           in take offset t @ u @ drop (offset + length u) t)"

lemma String_set_at_holds:
  assumes "holds c cap t" "NUL \<notin> set s" "offset + (if sz = 0 then length s else sz) < 2 ^ 64"
  shows "\<exists>c'. String_set_at offset s sz c = Some c' \<and> holds c' cap (spliced cap offset s sz t)"
  using set_at_holds [OF assms] assms
  by (auto simp: String_set_at_def spliced_def Let_def)

lemma poke_holds:
  assumes "holds c cap t" "ch \<noteq> NUL" "i \<noteq> length t" "i \<le> cap"
  shows "\<exists>c'. do { u \<leftarrow> poke i ch (ctext c); Some (c\<lparr>ctext := u\<rparr>) } = Some c' \<and> holds c' cap (t[i := ch])"
proof -
  from assms obtain junk where c: "c = str_of t junk" "cap = length t + length junk" "NUL \<notin> set t" by (blast elim: holdsE)
  have "do { u \<leftarrow> poke i ch (ctext c); Some (c\<lparr>ctext := u\<rparr>) } = Some (str_of (t[i := ch]) (junk[i - length t - 1 := ch]))"
    if "length t < i"
    using that assms c by (cases "i - length t") (auto simp: poke_def str_of_def list_update_append list_update_beyond)
  moreover have "do { u \<leftarrow> poke i ch (ctext c); Some (c\<lparr>ctext := u\<rparr>) } = Some (str_of (t[i := ch]) junk)"
    if "i < length t"
    using that assms c by (auto simp: poke_def str_of_def list_update_append)
  moreover have "NUL \<notin> set (t[i := ch])" using c assms(2) by (intro notin_update) auto
  ultimately show ?thesis using c assms(3) by (cases "i < length t") auto
qed

text \<open>The field that \<open>set\<close> with an overflow mark, and \<open>rset\<close>, write.\<close>

definition field_size :: "nat \<Rightarrow> nat \<Rightarrow> nat \<Rightarrow> nat" where
  "field_size cap offset sz = (if sz = 0 \<or> sz > cap - offset then cap - offset else sz)"

definition set_marked :: "nat \<Rightarrow> cstr \<Rightarrow> char \<Rightarrow> nat \<Rightarrow> nat \<Rightarrow> cstr \<Rightarrow> cstr" where
  "set_marked cap s ch offset sz t =
     (let n = field_size cap offset sz; u = spliced cap offset s n t
      in if offset < cap \<and> n < length s \<and> ch \<noteq> NUL then u[offset + n - 1 := ch] else u)"

definition rset_marked :: "nat \<Rightarrow> cstr \<Rightarrow> char \<Rightarrow> nat \<Rightarrow> nat \<Rightarrow> cstr \<Rightarrow> cstr" where
  "rset_marked cap s ch offset sz t =
     (let n = field_size cap offset sz; u = spliced cap offset (drop (length s - n) s) n t
      in if offset < cap \<and> n < length s \<and> ch \<noteq> NUL then u[offset := ch] else u)"

lemma spliced_length:
  assumes "offset < cap" "0 < n" "n \<le> length s" "n \<le> cap - offset" "length t \<le> cap"
  shows "length (spliced cap offset s n t) = (if offset \<le> length t then max (length t) (offset + n) else length t)"
  using assms by (auto simp: spliced_def Let_def min_def max_def)

lemma field_size_bounds: "offset < cap \<Longrightarrow> 0 < field_size cap offset sz \<and> offset + field_size cap offset sz \<le> cap"
  by (auto simp: field_size_def)

lemma set_overflow_holds:
  assumes "holds c cap t" "NUL \<notin> set s" "cap < 2 ^ 64"
  shows "\<exists>c'. String_set_overflow s ch offset sz c = Some c' \<and> holds c' cap (set_marked cap s ch offset sz t)"
proof (cases "s = [] \<or> offset \<ge> cap")
  case True
  have "cmax c = cap" using assms(1) by (auto elim!: holdsE)
  with True have "String_set_overflow s ch offset sz c = Some c" "set_marked cap s ch offset sz t = t"
    by (auto simp: String_set_overflow_def set_marked_def spliced_def)
  with assms(1) show ?thesis by simp
next
  case F: False
  have c: "cmax c = cap" "length t \<le> cap" using assms(1) by (auto elim!: holdsE)
  define n where "n = field_size cap offset sz"
  have n: "0 < n" "offset + n \<le> cap" using F field_size_bounds by (auto simp: n_def)
  with String_set_at_holds [OF assms(1,2), of offset n] assms(3) obtain c' where
    c': "String_set_at offset s n c = Some c'" "holds c' cap (spliced cap offset s n t)" by auto
  show ?thesis
  proof (cases "n < length s \<and> ch \<noteq> NUL")
    case True
    with F n c spliced_length [of offset cap n s t]
    have "offset + n - 1 \<noteq> length (spliced cap offset s n t)" "offset + n - 1 \<le> cap" by auto
    from poke_holds [OF c'(2) _ this] True F c c' show ?thesis
      unfolding String_set_overflow_def set_marked_def Let_def n_def [symmetric] field_size_def [symmetric] c(1)
      by auto
  next
    case False
    with F c c' show ?thesis
      unfolding String_set_overflow_def set_marked_def Let_def n_def [symmetric] field_size_def [symmetric] c(1)
      by auto
  qed
qed

lemma rset_holds:
  assumes "holds c cap t" "NUL \<notin> set s" "cap < 2 ^ 64"
  shows "\<exists>c'. String_rset s ch offset sz c = Some c' \<and> holds c' cap (rset_marked cap s ch offset sz t)"
proof (cases "s = [] \<or> offset \<ge> cap")
  case True
  have "cmax c = cap" using assms(1) by (auto elim!: holdsE)
  with True have "String_rset s ch offset sz c = Some c" "rset_marked cap s ch offset sz t = t"
    by (auto simp: String_rset_def rset_marked_def spliced_def)
  with assms(1) show ?thesis by simp
next
  case F: False
  have c: "cmax c = cap" "length t \<le> cap" using assms(1) by (auto elim!: holdsE)
  define n where "n = field_size cap offset sz"
  define s' where "s' = drop (length s - n) s"
  have n: "0 < n" "offset + n \<le> cap" using F field_size_bounds by (auto simp: n_def)
  have s': "(if length s > n then drop (length s - n) s else s) = s'" by (auto simp: s'_def)
  have "NUL \<notin> set s'" using assms(2) by (auto simp: s'_def dest: in_set_dropD)
  with String_set_at_holds [OF assms(1) this, of offset n] n assms(3) obtain c' where
    c': "String_set_at offset s' n c = Some c'" "holds c' cap (spliced cap offset s' n t)" by auto
  show ?thesis
  proof (cases "n < length s \<and> ch \<noteq> NUL")
    case True
    then have "length s' = n" by (auto simp: s'_def)
    with True F n c spliced_length [of offset cap n s' t]
    have "offset \<noteq> length (spliced cap offset s' n t)" "offset \<le> cap" by (auto simp: max_def split: if_splits)
    from poke_holds [OF c'(2) _ this] True F c c' show ?thesis
      unfolding String_rset_def rset_marked_def Let_def n_def [symmetric] field_size_def [symmetric] c(1) s' s'_def [symmetric]
      by auto
  next
    case False
    with F c c' show ?thesis
      unfolding String_rset_def rset_marked_def Let_def n_def [symmetric] field_size_def [symmetric] c(1) s' s'_def [symmetric]
      by (auto simp: s'_def)
  qed
qed

text \<open>Making room.\<close>

definition grown :: "nat \<Rightarrow> nat \<Rightarrow> nat" where
  "grown cap n = (if cap = 0 \<or> n > cap then n else cap)"

lemma cow_holds:
  assumes "holds c cap t" "0 < n" "length t + n < length mem" "length mem < 2 ^ 64"
  shows "\<exists>c'. String_cow n mem c = Some c' \<and> holds c' (grown cap (length t + n)) t"
proof -
  from assms obtain junk where c: "c = str_of t junk" "cap = length t + length junk" "NUL \<notin> set t" by (blast elim: holdsE)
  define sz where "sz = n + length t"
  have add: "size_add n (length t) = sz" unfolding sz_def using assms(3,4) by (intro size_add_less) linarith
  show ?thesis
  proof (cases "cap = 0 \<or> sz > cap")
    case True
    have "sz < length mem" "0 < sz" using assms by (simp_all add: sz_def)
    then obtain s where s: "cstring_new sz mem = Some s" "holds s sz []" using new_holds by blast
    then obtain v where v: "s = str_of [] v" "length v = sz" by (auto elim!: holdsE)
    have "cstr_set (NUL # v) (sz + 1) t = Some (t @ NUL # drop (length t) v)"
      using cstr_set_result [of "sz + 1" "NUL # v" t] v assms(2) by (simp add: sz_def)
    then have "String_cow n mem c = Some (str_of t (drop (length t) v))"
    proof -
      have "size_add n (clen c) = sz" "cmax c = cap" "text_at 0 (ctext c) = Some t" "clen c = length t" "cmax s = sz" "ctext s = NUL # v"
        using c v add by simp_all
      with True \<open>0 < sz\<close> \<open>cstr_set (NUL # v) (sz + 1) t = _\<close> v s show ?thesis
        by (auto simp: String_cow_def str_of_def) (simp_all add: sz_def)
    qed
    with True v c show ?thesis
      by (intro holds_exI) (auto simp: grown_def sz_def)
  next
    case False
    then have "String_cow n mem c = Some c"
      using c by (auto simp: String_cow_def add Let_def)
    with False assms show ?thesis by (auto simp: grown_def sz_def add.commute)
  qed
qed

lemma String_add_holds:
  assumes "holds c cap t" "NUL \<notin> set s" "length t + length s < length mem" "length mem < 2 ^ 64"
  shows "\<exists>c'. String_add s mem c = Some c' \<and> holds c' (if s = [] then cap else grown cap (length t + length s)) (t @ s)"
proof (cases "s = []")
  case False
  with cow_holds [OF assms(1) _ assms(3,4)] obtain c' where
    c': "String_cow (length s) mem c = Some c'" "holds c' (grown cap (length t + length s)) t" by auto
  moreover have "take (grown cap (length t + length s) - length t) s = s"
    by (auto simp: grown_def)
  ultimately show ?thesis
    using add_holds [OF c'(2) assms(2)] False by (simp add: String_add_def)
qed (use assms in \<open>simp add: String_add_def\<close>)

lemma String_add_char_holds:
  assumes "holds c cap t" "length t + 1 < length mem" "length mem < 2 ^ 64"
  shows "\<exists>c'. String_add_char ch mem c = Some c'
    \<and> holds c' (if ch = NUL then cap else grown cap (length t + 1)) (if ch = NUL then t else t @ [ch])"
  using String_add_holds [OF assms(1), of "[ch]" mem] assms
  by (auto simp: String_add_char_def String_add_def)

lemma paste_holds:
  assumes "holds c cap t" "NUL \<notin> set cp" "sz \<le> length cp" and n: "n = (if sz = 0 then length cp else sz)"
    and mem: "length t + n < length mem" "length mem < 2 ^ 64"
  shows "\<exists>c'. String_paste offset cp sz mem c = Some c'
    \<and> holds c' (if n = 0 then cap else grown cap (length t + n)) (take offset t @ take n cp @ drop offset t)"
proof (cases "n = 0")
  case False
  with cow_holds [OF assms(1) _ mem] obtain c1 where
    c1: "String_cow n mem c = Some c1" "holds c1 (grown cap (length t + n)) t" by auto
  from c1(2) obtain junk where c: "c1 = str_of t junk" "grown cap (length t + n) = length t + length junk" "NUL \<notin> set t"
    by (rule holdsE)
  have room: "n \<le> length junk" using c(2) by (auto simp: grown_def split: if_splits)
  have cp: "n \<le> length cp" "length (take n cp) = n" using assms(3) n by (auto split: if_splits)
  have add: "size_add n 1 = n + 1" "size_add (length t) n = length t + n"
    "offset < length t \<Longrightarrow> size_add offset n = offset + n"
    using mem by (intro size_add_less; linarith)+
  let ?t = "take offset t @ take n cp @ drop offset t"
  have "\<exists>u x junk'. (if offset \<ge> clen c1 then at_pos (clen c1) (\<lambda>b. cstr_set b (size_add n 1) cp) (ctext c1)
      else do { u \<leftarrow> memmove (size_add offset n) offset (clen c1 - offset) (ctext c1); memcpy offset (take n cp) u }) = Some u
      \<and> u = ?t @ x # junk' \<and> length junk' + n = length junk"
  proof (cases "offset \<ge> length t")
    case True
    have "cstr_set (NUL # junk) (n + 1) cp = Some (take n cp @ NUL # drop n junk)"
      using cstr_set_result [of "n + 1" "NUL # junk" cp] False room cp by (simp add: min_def)
    then show ?thesis
      using True c room by (auto simp: add(1) [unfolded One_nat_def] at_pos_def intro!: exI [of _ NUL] exI [of _ "drop n junk"])
  next
    case inside: False
    obtain x junk' where j: "drop (n - 1) junk = x # junk'" "length junk' + n = length junk"
      using room False by (cases "drop (n - 1) junk") (auto dest!: arg_cong [where f = length])
    have "memmove (offset + n) offset (length t - offset) (t @ NUL # junk)
        = Some (take (offset + n) (t @ NUL # junk) @ drop offset t @ x # junk')"
      using inside room False j(1) by (simp add: memmove_def memcpy_def drop_Cons')
    moreover have "memcpy offset (take n cp) (take (offset + n) (t @ NUL # junk) @ drop offset t @ x # junk')
        = Some (?t @ x # junk')"
      using inside room cp by (auto simp: memcpy_def min_def)
    ultimately show ?thesis using inside c j(2) by (auto simp: add)
  qed
  then obtain x junk' where
    u: "(if offset \<ge> clen c1 then at_pos (clen c1) (\<lambda>b. cstr_set b (size_add n 1) cp) (ctext c1)
      else do { u \<leftarrow> memmove (size_add offset n) offset (clen c1 - offset) (ctext c1); memcpy offset (take n cp) u })
      = Some (?t @ x # junk')" "length junk' + n = length junk"
    by auto
  have "cstring_fix (c1\<lparr>ctext := ?t @ x # junk', clen := size_add (clen c1) n\<rparr>) = Some (str_of ?t junk')"
    using c u(2) cp room by (intro fix_text) (auto simp: add)
  then have "String_paste offset cp sz mem c = Some (str_of ?t junk')"
    unfolding String_paste_def Let_def n [symmetric] c1(1) bind.bind_lunit u(1) using False by simp
  then show ?thesis
    using False c u(2) assms(2) cp by (intro holds_exI) (auto dest: in_set_takeD in_set_dropD)
qed (use assms in \<open>auto simp: String_paste_def\<close>)

section \<open>Programs that edit a string\<close>

datatype str_op =
    Clear nat | ClearAll | Dec nat | Inc nat | Add cstr | AddChar char | SetAt nat cstr nat | Set cstr
  | Chop cstr | Trim cstr | Strip cstr | Cut nat nat | Fill nat char | Rsplit nat
  | SetMarked cstr char nat nat | Rset cstr char nat nat
  | Append cstr "char list" | AppendChar char "char list" | Paste nat cstr nat "char list"

fun str_exec :: "str_op \<Rightarrow> cstring \<Rightarrow> cstring option" where
  "str_exec (Clear n) = cstring_clear n"
| "str_exec ClearAll = String_clear"
| "str_exec (Dec n) = cstring_dec n"
| "str_exec (Inc n) = cstring_inc n"
| "str_exec (Add s) = cstring_add s"
| "str_exec (AddChar ch) = cstring_add_char ch"
| "str_exec (SetAt off s n) = String_set_at off s n"
| "str_exec (Set s) = cstring_set s"
| "str_exec (Chop cl) = String_chop cl"
| "str_exec (Trim cl) = String_trim cl"
| "str_exec (Strip cl) = String_strip cl"
| "str_exec (Cut off n) = String_cut off n"
| "str_exec (Fill n ch) = String_fill n ch"
| "str_exec (Rsplit n) = String_rsplit n"
| "str_exec (SetMarked s ch off n) = String_set_overflow s ch off n"
| "str_exec (Rset s ch off n) = String_rset s ch off n"
| "str_exec (Append s mem) = String_add s mem"
| "str_exec (AppendChar ch mem) = String_add_char ch mem"
| "str_exec (Paste off s n mem) = String_paste off s n mem"

text \<open>What the operations do to the room and the text.\<close>

fun str_spec :: "str_op \<Rightarrow> nat \<times> cstr \<Rightarrow> nat \<times> cstr" where
  "str_spec (Clear n) (cap, t) = (cap, take n t)"
| "str_spec ClearAll (cap, t) = (cap, [])"
| "str_spec (Dec n) (cap, t) = (cap, if n \<ge> length t then [] else butlast t)"
| "str_spec (Inc n) (cap, t) = (cap, drop (max 1 n) t)"
| "str_spec (Add s) (cap, t) = (cap, t @ take (cap - length t) s)"
| "str_spec (AddChar ch) (cap, t) = (cap, if ch = NUL then t else t @ take (cap - length t) [ch])"
| "str_spec (SetAt off s n) (cap, t) = (cap, spliced cap off s n t)"
| "str_spec (Set s) (cap, t) = (cap, take cap s)"
| "str_spec (Chop cl) (cap, t) = (cap, chopped cl t)"
| "str_spec (Trim cl) (cap, t) = (cap, dropWhile (\<lambda>c. c \<in> set cl) t)"
| "str_spec (Strip cl) (cap, t) = (cap, chopped cl (dropWhile (\<lambda>c. c \<in> set cl) t))"
| "str_spec (Cut off n) (cap, t) = (cap, take off t @ (if n = 0 then [] else drop (off + n) t))"
| "str_spec (Fill n ch) (cap, t) = (cap, t @ replicate (min n (cap - length t)) ch)"
| "str_spec (Rsplit n) (cap, t) = (cap, if n \<le> length t then drop n t else t)"
| "str_spec (SetMarked s ch off n) (cap, t) = (cap, set_marked cap s ch off n t)"
| "str_spec (Rset s ch off n) (cap, t) = (cap, rset_marked cap s ch off n t)"
| "str_spec (Append s mem) (cap, t) = (if s = [] then cap else grown cap (length t + length s), t @ s)"
| "str_spec (AppendChar ch mem) (cap, t) =
     (if ch = NUL then (cap, t) else (grown cap (length t + 1), t @ [ch]))"
| "str_spec (Paste off s n mem) (cap, t) =
     (let k = (if n = 0 then length s else n)
      in (if k = 0 then cap else grown cap (length t + k), take off t @ take k s @ drop off t))"

text \<open>
  What the operations ask of their arguments: texts without NUL, a size of \<open>paste\<close> that is at
  most the length of its text, memory that is as large as requested, and for \<open>cut\<close> and
  \<open>set\<close> at an offset that offset and size together are a \<open>size_t\<close>. Rooms and memory are
  smaller than the address space.
\<close>

fun str_pre :: "str_op \<Rightarrow> nat \<times> cstr \<Rightarrow> bool" where
  "str_pre (Add s) (cap, t) \<longleftrightarrow> NUL \<notin> set s"
| "str_pre (SetAt off s n) (cap, t) \<longleftrightarrow> NUL \<notin> set s \<and> off + (if n = 0 then length s else n) < 2 ^ 64"
| "str_pre (Cut off n) (cap, t) \<longleftrightarrow>
     length t < 2 ^ 64 \<and> (length t \<le> off \<or> off + (if n = 0 then length t else n) < 2 ^ 64)"
| "str_pre (Set s) (cap, t) \<longleftrightarrow> NUL \<notin> set s"
| "str_pre (Fill n ch) (cap, t) \<longleftrightarrow> ch \<noteq> NUL"
| "str_pre (SetMarked s ch off n) (cap, t) \<longleftrightarrow> NUL \<notin> set s \<and> cap < 2 ^ 64"
| "str_pre (Rset s ch off n) (cap, t) \<longleftrightarrow> NUL \<notin> set s \<and> cap < 2 ^ 64"
| "str_pre (Append s mem) (cap, t) \<longleftrightarrow> NUL \<notin> set s \<and> length t + length s < length mem \<and> length mem < 2 ^ 64"
| "str_pre (AppendChar ch mem) (cap, t) \<longleftrightarrow> length t + 1 < length mem \<and> length mem < 2 ^ 64"
| "str_pre (Paste off s n mem) (cap, t) \<longleftrightarrow>
     NUL \<notin> set s \<and> n \<le> length s \<and> length t + (if n = 0 then length s else n) < length mem
     \<and> length mem < 2 ^ 64"
| "str_pre _ (cap, t) \<longleftrightarrow> True"

lemmas str_holds =
  clear_holds String_clear_holds dec_holds inc_holds add_holds add_char_holds String_set_at_holds
  set_holds chop_holds trim_holds strip_holds cut_holds fill_holds rsplit_holds set_overflow_holds
  rset_holds String_add_holds String_add_char_holds paste_holds [OF _ _ _ refl]

lemma str_exec_step:
  assumes "holds c cap t" "str_pre opn (cap, t)"
  shows "\<exists>c'. str_exec opn c = Some c' \<and> holds c' (fst (str_spec opn (cap, t))) (snd (str_spec opn (cap, t)))"
proof (cases opn)
  case (Inc n)
  then show ?thesis using inc_holds [OF assms(1), of n] by simp
next
  case (AppendChar ch mem)
  then show ?thesis using String_add_char_holds [OF assms(1), of mem ch] assms by (cases "ch = NUL") simp_all
next
  case (Paste off s n mem)
  then show ?thesis using paste_holds [OF assms(1), of s n _ mem off, OF _ _ refl] assms by (auto simp: Let_def)
qed (use assms in \<open>auto simp: str_holds split del: if_split\<close>)

fun str_pre_all :: "str_op list \<Rightarrow> nat \<times> cstr \<Rightarrow> bool" where
  "str_pre_all [] s = True"
| "str_pre_all (opn # ops) s = (str_pre opn s \<and> str_pre_all ops (str_spec opn s))"

fun str_run :: "str_op list \<Rightarrow> cstring \<Rightarrow> cstring option" where
  "str_run [] c = Some c"
| "str_run (opn # ops) c = do { c \<leftarrow> str_exec opn c; str_run ops c }"

lemma str_run_holds:
  "holds c cap t \<Longrightarrow> str_pre_all ops (cap, t) \<Longrightarrow>
     \<exists>c'. str_run ops c = Some c' \<and> holds c' (fst (fold str_spec ops (cap, t))) (snd (fold str_spec ops (cap, t)))"
proof (induction ops arbitrary: c cap t)
  case (Cons opn ops)
  then obtain c' where c': "str_exec opn c = Some c'"
    "holds c' (fst (str_spec opn (cap, t))) (snd (str_spec opn (cap, t)))"
    using str_exec_step [of c cap t opn] by auto
  from Cons.IH [OF c'(2)] Cons.prems c'(1) show ?case by simp
qed simp



text \<open>
  With an offset and a size whose sum wraps around, \<open>cut\<close> takes the branch for a range inside
  the text: it moves characters up instead of removing them, or writes the terminator outside
  the buffer; \<open>set\<close> writes behind its buffer.
\<close>

theorem String_size_wraps:
  "map_option (text_at 0 \<circ> ctext) (String_cut 1 (2 ^ 64 - 1) (str_of ''abc'' ''x'')) = Some (Some ''aabc'')
   \<and> String_cut 1 (2 ^ 64 - 1) (str_of ''abc'' []) = None
   \<and> String_set_at 1 ''12345'' (2 ^ 64 - 1) (str_of ''abc'' []) = None"
  by (simp add: String_cut_def String_set_at_def cstring_set_at_def size_add_def size_minus_def cstring_fix_def
      memmove_def memcpy_def poke_def text_at_def Let_def)

text \<open>
  \<open>split\<close> ends the text at a position but keeps the old length: the object then has a length
  that is not that of its text, and appending to it goes behind the terminator.
\<close>

theorem String_split_stale:
  assumes "holds c cap t" "pos < length t"
  shows "\<exists>c'. String_split pos c = Some c' \<and> text_at 0 (ctext c') = Some (take pos t) \<and> clen c' = length t
    \<and> (\<forall>s c''. cstring_add s c' = Some c'' \<longrightarrow> text_at 0 (ctext c'') = Some (take pos t))"
proof -
  from assms obtain junk where c: "c = str_of t junk" "cap = length t + length junk" "NUL \<notin> set t" by (blast elim: holdsE)
  define b where "b = take pos t @ NUL # drop (Suc pos) t @ NUL # junk"
  have len: "length b = length t + 1 + length junk" "take (Suc pos) b = take pos t @ [NUL]"
    using assms(2) by (simp_all add: b_def)
  have "poke pos NUL (t @ NUL # junk) = Some b"
    using assms(2) by (simp add: poke_def b_def upd_conv_take_nth_drop)
  moreover have "poke (length t) NUL b = Some b"
    using assms(2) poke_append [of "length t" "take pos t @ NUL # drop (Suc pos) t" NUL NUL junk] by (simp add: b_def)
  ultimately have split: "String_split pos c = Some (c\<lparr>ctext := b\<rparr>)"
    using c assms(2) by (simp add: String_split_def cstring_fix_def)
  have read: "text_at 0 u = Some (take pos t)" if "take (Suc pos) u = take pos t @ [NUL]" for u
  proof -
    have "u = take pos t @ NUL # drop (Suc pos) u"
      using append_take_drop_id [of "Suc pos" u] that by simp
    then show ?thesis using c(3) text_at_cut [of t pos] by metis
  qed
  have "text_at 0 (ctext c'') = Some (take pos t)" if "cstring_add s (c\<lparr>ctext := b\<rparr>) = Some c''" for s c''
  proof -
    have "take (Suc pos) (ctext c'') = take (Suc pos) b"
      using that assms(2) c len(1)
      by (auto simp: cstring_add_def Let_def cstring_fix_def memcpy_def poke_def take_update_cancel
          split: if_splits bind_splits)
    then show ?thesis using len(2) by (intro read) simp
  qed
  with split read [OF len(2)] c show ?thesis by auto
qed

theorem String_split_stale_witness:
  "\<exists>c'. String_split 1 (str_of ''abc'' ''xx'') = Some c' \<and> text_at 0 (ctext c') = Some ''a'' \<and> clen c' = 3"
  using String_split_stale [of "str_of ''abc'' ''xx''" 5 "''abc''" 1] by auto

section \<open>Searching in a string\<close>

lemma cchar_text: "holds c cap t \<Longrightarrow> i < length t \<Longrightarrow> cchar (ctext c) i = t ! i \<and> t ! i \<noteq> NUL"
  by (auto simp: cchar_def nth_append elim!: holdsE dest: nth_mem)

lemma strchr_text: "holds c cap t \<Longrightarrow> i < length t \<Longrightarrow> strchr_in clist (cchar (ctext c) i) \<longleftrightarrow> t ! i \<in> set clist"
  using cchar_text [of c cap t i] by (simp add: strchr_in_text)

text \<open>The first and the last position of a range with a property.\<close>

definition first_at :: "(nat \<Rightarrow> bool) \<Rightarrow> nat \<Rightarrow> nat \<Rightarrow> nat option" where
  "first_at P a b = List.find P [a..<b]"

definition last_at :: "(nat \<Rightarrow> bool) \<Rightarrow> nat \<Rightarrow> nat option" where
  "last_at P b = List.find P (rev [0..<b])"

lemma find_loop_text:
  "holds c cap t \<Longrightarrow> offset + k = length t \<Longrightarrow>
     String_find_loop clist c offset k = first_at (\<lambda>i. t ! i \<in> set clist) offset (length t)
     \<and> String_skip_loop clist c offset k = first_at (\<lambda>i. t ! i \<notin> set clist) offset (length t)"
proof (induction k arbitrary: offset)
  case (Suc k)
  then have "[offset..<length t] = offset # [Suc offset..<length t]" by (simp add: upt_conv_Cons)
  with Suc show ?case by (simp add: first_at_def strchr_text)
qed (simp add: first_at_def)

lemma rfind_loop_text:
  "holds c cap t \<Longrightarrow> offset \<le> length t \<Longrightarrow>
     String_rfind_loop clist c offset = last_at (\<lambda>i. t ! i \<in> set clist) offset
     \<and> String_rskip_loop clist c offset = last_at (\<lambda>i. t ! i \<notin> set clist) offset"
  by (induction offset) (simp_all add: last_at_def strchr_text)

lemma first_at_iff:
  "first_at P a b = Some p \<longleftrightarrow> a \<le> p \<and> p < b \<and> P p \<and> (\<forall>i. a \<le> i \<and> i < p \<longrightarrow> \<not> P i)"
proof (induction "b - a" arbitrary: a)
  case (Suc k)
  then have "[a..<b] = a # [Suc a..<b]" "first_at P (Suc a) b = Some p \<longleftrightarrow>
      Suc a \<le> p \<and> p < b \<and> P p \<and> (\<forall>i. Suc a \<le> i \<and> i < p \<longrightarrow> \<not> P i)"
    by (simp_all add: upt_conv_Cons)
  then show ?case
    using Suc(2) by (auto simp: first_at_def) (metis le_eq_less_or_eq less_eq_Suc_le)+
qed (simp add: first_at_def)

lemma last_at_iff:
  "last_at P b = Some p \<longleftrightarrow> p < b \<and> P p \<and> (\<forall>i. p < i \<and> i < b \<longrightarrow> \<not> P i)"
  by (induction b) (auto simp: last_at_def less_Suc_eq)

text \<open>
  Searching a string: \<open>find\<close> and \<open>skip\<close> give the first position from an offset on whose
  character is in a set or outside it, \<open>rfind\<close> and \<open>rskip\<close> the last one in front of an offset,
  and \<open>at\<close> reads a character, counted from the end if the position is negative.
\<close>

theorem String_search:
  assumes "holds c cap t" "clist \<noteq> []" "t \<noteq> []" "offset \<le> length t"
  shows "(String_find clist offset c = Some p \<longleftrightarrow>
       offset \<le> p \<and> p < length t \<and> t ! p \<in> set clist \<and> (\<forall>i. offset \<le> i \<and> i < p \<longrightarrow> t ! i \<notin> set clist))
    \<and> (String_skip clist offset c = Some p \<longleftrightarrow>
       offset \<le> p \<and> p < length t \<and> t ! p \<notin> set clist \<and> (\<forall>i. offset \<le> i \<and> i < p \<longrightarrow> t ! i \<in> set clist))
    \<and> (String_rfind clist offset c = Some p \<longleftrightarrow>
       p < offset \<and> t ! p \<in> set clist \<and> (\<forall>i. p < i \<and> i < offset \<longrightarrow> t ! i \<notin> set clist))
    \<and> (String_rskip clist offset c = Some p \<longleftrightarrow>
       p < offset \<and> t ! p \<notin> set clist \<and> (\<forall>i. p < i \<and> i < offset \<longrightarrow> t ! i \<in> set clist))
    \<and> (\<forall>i < length t. String_at (int i) c = t ! i \<and> String_at (- int (length t - i)) c = t ! i)"
proof -
  have c: "clen c = length t" using assms(1) by (auto elim: holdsE)
  have loops: "String_find clist offset c = first_at (\<lambda>i. t ! i \<in> set clist) offset (length t)"
    "String_skip clist offset c = first_at (\<lambda>i. t ! i \<notin> set clist) offset (length t)"
    "String_rfind clist offset c = last_at (\<lambda>i. t ! i \<in> set clist) offset"
    "String_rskip clist offset c = last_at (\<lambda>i. t ! i \<notin> set clist) offset"
    using assms c find_loop_text [OF assms(1), of offset "length t - offset" clist]
      rfind_loop_text [OF assms(1,4), of clist]
    by (simp_all add: String_find_def String_skip_def String_rfind_def String_rskip_def)
  have "String_at (int i) c = t ! i \<and> String_at (- int (length t - i)) c = t ! i" if "i < length t" for i
    using that c cchar_text [OF assms(1), of i] cchar_text [OF assms(1), of 0]
    by (cases "i = 0") (auto simp: String_at_def of_nat_diff)
  then show ?thesis unfolding loops first_at_iff last_at_iff by blast
qed

theorem String_search_witness:
  "String_find ''c'' 1 (str_of ''abcabc'' []) = Some 2 \<and> String_at (-1) (str_of ''abcabc'' []) = CHR ''c''"
proof -
  have h: "holds (str_of ''abcabc'' []) 6 ''abcabc''" by simp
  have "String_find ''c'' 1 (str_of ''abcabc'' []) = Some 2"
    using String_search [OF h, of "''c''" 1 2] by (auto simp: less_Suc_eq)
  moreover have "String_at (-1) (str_of ''abcabc'' []) = CHR ''c''"
    using String_search [OF h, of "''c''" 1 2] by (auto dest: spec [of _ 5])
  ultimately show ?thesis by simp
qed

end
