(* ===== verification/StringRef.thy ===== *)
theory StringRef
  imports CString
begin

text \<open>
  \<open>String\<close> objects of \<open>corelib/string.cpp\<close> that share string objects by reference count.

  The state has the string objects by address with their counters, the addresses of those that
  have been deallocated, and for each \<open>String\<close> its pointer \<open>str\<close>. \<open>CountedObject\<close> comes from
  \<open>corelib/object.cpp\<close>. Memory that \<open>malloc\<close> returns is an argument \<open>mem\<close>; \<open>None\<close> is a write
  outside a buffer.
\<close>

section \<open>State and operations\<close>

record strings =
  cells :: "addr \<Rightarrow> cstring"
  counts :: "addr \<Rightarrow> nat"
  gone :: "addr list"
  nxt :: addr
  strs :: "ptr list"

definition CountedObject_retain :: "addr \<Rightarrow> strings \<Rightarrow> strings" where
  "CountedObject_retain a s = s\<lparr>counts := (counts s)(a := counts s a + 1)\<rparr>"

definition CountedObject_release :: "addr \<Rightarrow> strings \<Rightarrow> strings" where
  "CountedObject_release a s =
     (if counts s a > 1 then s\<lparr>counts := (counts s)(a := counts s a - 1)\<rparr>
      else s\<lparr>gone := a # gone s\<rparr>)"

definition is_copied :: "addr \<Rightarrow> strings \<Rightarrow> bool" where
  "is_copied a s \<longleftrightarrow> counts s a > 1"

definition String_create :: "nat \<Rightarrow> char list \<Rightarrow> strings \<Rightarrow> (addr \<times> strings) option" where
  "String_create sz mem s =
     do {
       c \<leftarrow> cstring_new sz mem;
       Some (nxt s, s\<lparr>cells := (cells s)(nxt s := c), counts := (counts s)(nxt s := 0), nxt := nxt s + 1\<rparr>)
     }"

definition String_new :: "strings \<Rightarrow> strings" where
  "String_new s = s\<lparr>strs := strs s @ [None]\<rparr>"

definition String_new_copy :: "nat \<Rightarrow> strings \<Rightarrow> strings" where
  "String_new_copy i s =
     (let p = strs s ! i; s = s\<lparr>strs := strs s @ [p]\<rparr>
      in case p of None \<Rightarrow> s | Some a \<Rightarrow> CountedObject_retain a s)"

definition String_release :: "nat \<Rightarrow> strings \<Rightarrow> strings" where
  "String_release i s =
     (let s' = (case strs s ! i of None \<Rightarrow> s | Some a \<Rightarrow> CountedObject_release a s)
      in s'\<lparr>strs := (strs s')[i := None]\<rparr>)"

definition String_assign :: "nat \<Rightarrow> nat \<Rightarrow> strings \<Rightarrow> strings" where
  "String_assign i j s =
     (let p = strs s ! i; q = strs s ! j
      in if p = q then s
         else
           (let s = (case q of None \<Rightarrow> s | Some b \<Rightarrow> CountedObject_retain b s);
                s = (case p of None \<Rightarrow> s | Some a \<Rightarrow> CountedObject_release a s)
            in s\<lparr>strs := (strs s)[i := q]\<rparr>))"

text \<open>\<open>set(const char *)\<close> writes into the object that the string has, shared or not.\<close>

definition String_set :: "nat \<Rightarrow> cstr \<Rightarrow> char list \<Rightarrow> strings \<Rightarrow> strings option" where
  "String_set i t mem s =
     do {
       (a, s) \<leftarrow> (case strs s ! i of
           Some a \<Rightarrow> Some (a, s)
         | None \<Rightarrow>
             do {
               (a, s) \<leftarrow> String_create (length t) mem s;
               Some (a, CountedObject_retain a (s\<lparr>strs := (strs s)[i := Some a]\<rparr>))
             });
       c \<leftarrow> cstring_set t (cells s a);
       Some (s\<lparr>cells := (cells s)(a := c)\<rparr>)
     }"

definition String_assign_text :: "nat \<Rightarrow> cstr \<Rightarrow> char list \<Rightarrow> strings \<Rightarrow> strings option" where
  "String_assign_text i t mem s = String_set i t mem (String_release i s)"

text \<open>\<open>cow\<close> gives the string an object of its own with room for \<open>sz\<close> more characters.\<close>

definition String_cow :: "nat \<Rightarrow> nat \<Rightarrow> char list \<Rightarrow> strings \<Rightarrow> strings option" where
  "String_cow i sz mem s =
     (let p = strs s ! i; sz = (case p of None \<Rightarrow> sz | Some a \<Rightarrow> sz + clen (cells s a))
      in if sz = 0 then Some s
         else if (case p of None \<Rightarrow> True
                  | Some a \<Rightarrow> cmax (cells s a) = 0 \<or> is_copied a s \<or> sz > cmax (cells s a)) then
           do {
             (b, s) \<leftarrow> String_create sz mem s;
             c \<leftarrow> (case p of
                 None \<Rightarrow> Some ((cells s b)\<lparr>clen := 0\<rparr>)
               | Some a \<Rightarrow>
                   do {
                     old \<leftarrow> text_at 0 (ctext (cells s a));
                     t \<leftarrow> cstr_set (ctext (cells s b)) (cmax (cells s b) + 1) old;
                     Some ((cells s b)\<lparr>ctext := t, clen := clen (cells s a)\<rparr>)
                   });
             let s = CountedObject_retain b (s\<lparr>cells := (cells s)(b := c)\<rparr>);
             let s = (case p of None \<Rightarrow> s | Some a \<Rightarrow> CountedObject_release a s);
             Some (s\<lparr>strs := (strs s)[i := Some b]\<rparr>)
           }
         else Some s)"

definition String_append :: "nat \<Rightarrow> cstr \<Rightarrow> char list \<Rightarrow> strings \<Rightarrow> strings option" where
  "String_append i t mem s =
     (if t = [] then Some s
      else case strs s ! i of
        None \<Rightarrow> String_set i t mem s
      | Some a \<Rightarrow>
          do {
            s \<leftarrow> String_cow i (length t) mem s;
            b \<leftarrow> strs s ! i;
            c \<leftarrow> cstring_add t (cells s b);
            Some (s\<lparr>cells := (cells s)(b := c)\<rparr>)
          })"

text \<open>A method that edits the object of the string without \<open>cow\<close>.\<close>

definition String_edit :: "nat \<Rightarrow> str_op \<Rightarrow> strings \<Rightarrow> strings option" where
  "String_edit i opn s =
     (case strs s ! i of
        None \<Rightarrow> Some s
      | Some a \<Rightarrow> do { c \<leftarrow> str_exec opn (cells s a); Some (s\<lparr>cells := (cells s)(a := c)\<rparr>) })"

text \<open>\<open>paste\<close> into a string without an object: the new object is not retained.\<close>

definition String_paste_null :: "nat \<Rightarrow> cstr \<Rightarrow> char list \<Rightarrow> strings \<Rightarrow> strings option" where
  "String_paste_null i cp mem s =
     (if cp = [] then Some s
      else
        do {
          (a, s) \<leftarrow> String_create (length cp) mem s;
          t \<leftarrow> cstr_set (ctext (cells s a)) (length cp + 1) cp;
          c \<leftarrow> cstring_fix ((cells s a)\<lparr>ctext := t, clen := length cp\<rparr>);
          Some (s\<lparr>cells := (cells s)(a := c), strs := (strs s)[i := Some a]\<rparr>)
        })"

section \<open>The texts of a family of strings\<close>

definition str_val :: "strings \<Rightarrow> ptr \<Rightarrow> cstr \<Rightarrow> bool" where
  "str_val s p t = (case p of None \<Rightarrow> t = []
     | Some a \<Rightarrow> a < nxt s \<and> a \<notin> set (gone s) \<and> (\<exists>cap. holds (cells s a) cap t))"

definition strs_ok :: "strings \<Rightarrow> bool" where
  "strs_ok s \<longleftrightarrow> (\<forall>a < nxt s. a \<notin> set (gone s) \<longrightarrow> counts s a = count_list (strs s) (Some a))
     \<and> (\<forall>a. Some a \<in> set (strs s) \<longrightarrow> a < nxt s \<and> a \<notin> set (gone s)) \<and> (\<forall>a \<in> set (gone s). a < nxt s)"

definition texts :: "strings \<Rightarrow> cstr list \<Rightarrow> bool" where
  "texts s ts \<longleftrightarrow> strs_ok s \<and> list_all2 (str_val s) (strs s) ts"

section \<open>The counters\<close>

definition retain_ref :: "ptr \<Rightarrow> strings \<Rightarrow> strings" where
  "retain_ref p s = (case p of None \<Rightarrow> s | Some a \<Rightarrow> CountedObject_retain a s)"

definition release_ref :: "ptr \<Rightarrow> strings \<Rightarrow> strings" where
  "release_ref p s = (case p of None \<Rightarrow> s | Some a \<Rightarrow> CountedObject_release a s)"

lemma ref_fields [simp]:
  "cells (retain_ref p s) = cells s" "cells (release_ref p s) = cells s"
  "strs (retain_ref p s) = strs s" "strs (release_ref p s) = strs s"
  "nxt (retain_ref p s) = nxt s" "nxt (release_ref p s) = nxt s"
  "gone (retain_ref p s) = gone s"
  "counts (retain_ref p s) a = counts s a + of_bool (p = Some a)"
  by (auto simp: retain_ref_def release_ref_def CountedObject_retain_def CountedObject_release_def split: option.split)

lemma release_counts:
  "counts (release_ref p s) a = counts s a - of_bool (p = Some a \<and> counts s a > 1)"
  "set (gone (release_ref p s)) = set (gone s) \<union> {a. p = Some a \<and> \<not> counts s a > 1}"
  by (auto simp: release_ref_def CountedObject_release_def split: option.split)

lemma strs_ok_count: "strs_ok s \<Longrightarrow> a < nxt s \<Longrightarrow> a \<notin> set (gone s) \<Longrightarrow> counts s a = count_list (strs s) (Some a)"
  by (simp add: strs_ok_def)

lemma strs_ok_live: "strs_ok s \<Longrightarrow> Some a \<in> set (strs s) \<Longrightarrow> a < nxt s \<and> a \<notin> set (gone s)"
  by (simp add: strs_ok_def)

text \<open>Pointing a string to another object, or to none.\<close>

lemma ok_assign:
  assumes ok: "strs_ok s" and i: "i < length (strs s)" and pq: "strs s ! i \<noteq> q"
    and q: "\<And>b. q = Some b \<Longrightarrow> b < nxt s \<and> b \<notin> set (gone s)"
  shows "strs_ok ((release_ref (strs s ! i) (retain_ref q s))\<lparr>strs := (strs s)[i := q]\<rparr>)"
proof -
  let ?s = "(release_ref (strs s ! i) (retain_ref q s))\<lparr>strs := (strs s)[i := q]\<rparr>"
  let ?n = "\<lambda>a. count_list (strs s) (Some a)"
  have upd: "count_list ((strs s)[i := q]) (Some a) = ?n a + of_bool (q = Some a) - of_bool (strs s ! i = Some a)" for a
    using i by (rule count_update)
  have live: "a < nxt s \<and> a \<notin> set (gone s)" if "strs s ! i = Some a" for a
    using ok i that by (metis nth_mem strs_ok_live)
  have pos: "0 < ?n a" if "strs s ! i = Some a" for a
    using i that by (metis count_list_0_iff gr0I nth_mem)
  have gone: "a \<in> set (gone ?s) \<longleftrightarrow> a \<in> set (gone s) \<or> strs s ! i = Some a \<and> \<not> ?n a > 1" for a
    using live [of a] ok pq by (auto simp: release_counts strs_ok_count)
  have "counts ?s a = count_list (strs ?s) (Some a)" if "a < nxt s" "a \<notin> set (gone ?s)" for a
    using that gone [of a] pos [of a] pq ok by (auto simp: release_counts upd strs_ok_count)
  moreover have "a < nxt s \<and> a \<notin> set (gone ?s)" if "Some a \<in> set ((strs s)[i := q])" for a
  proof -
    have n: "0 < count_list ((strs s)[i := q]) (Some a)" using that by (metis count_list_0_iff gr0I)
    have "a < nxt s \<and> a \<notin> set (gone s)"
      using that q [of a] ok set_update_subset_insert [of "strs s" i q] by (auto dest: strs_ok_live)
    moreover have "\<not> (strs s ! i = Some a \<and> \<not> ?n a > 1)" using n pq pos [of a] by (auto simp: upd)
    ultimately show ?thesis using gone [of a] by simp
  qed
  moreover have "\<forall>a \<in> set (gone ?s). a < nxt s"
  proof
    fix a assume "a \<in> set (gone ?s)"
    with gone [of a] live [of a] ok show "a < nxt s" by (auto simp: strs_ok_def)
  qed
  ultimately show ?thesis unfolding strs_ok_def by simp
qed

lemma ok_copy:
  assumes "strs_ok s" "i < length (strs s)"
  shows "strs_ok (String_new_copy i s)"
proof -
  have "Some a \<in> set (strs s)" if "strs s ! i = Some a" for a using assms(2) that by (metis nth_mem)
  then show ?thesis
    using assms by (auto simp: strs_ok_def String_new_copy_def CountedObject_retain_def Let_def split: option.split)
qed

lemma ok_create:
  assumes "strs_ok s" "String_create n mem s = Some (a, s')"
  shows "strs_ok s'" "a = nxt s" "nxt s' = nxt s + 1" "gone s' = gone s" "strs s' = strs s"
    "cells s' = (cells s)(a := cells s' a)" "a \<notin> set (gone s')" "cstring_new n mem = Some (cells s' a)"
proof -
  from assms(2) show "a = nxt s" "nxt s' = nxt s + 1" "gone s' = gone s" "strs s' = strs s"
    "cells s' = (cells s)(a := cells s' a)" "cstring_new n mem = Some (cells s' a)"
    by (auto simp: String_create_def split: bind_splits)
  moreover have "counts s' = (counts s)(nxt s := 0)"
    using assms(2) by (auto simp: String_create_def split: bind_splits)
  moreover have "Some (nxt s) \<notin> set (strs s)" "nxt s \<notin> set (gone s)" using assms(1) by (auto simp: strs_ok_def)
  ultimately show "strs_ok s'" "a \<notin> set (gone s')"
    using assms(1) by (auto simp: strs_ok_def less_Suc_eq count_list_0_iff)
qed

text \<open>Every string that is not concerned keeps its text.\<close>

lemma texts_update:
  assumes ts: "texts s ts" and ok: "strs_ok s'" and strs: "strs s' = (strs s)[i := q]" and i: "i < length (strs s)"
    and q: "case q of None \<Rightarrow> u = [] | Some b \<Rightarrow> \<exists>cap. holds (cells s' b) cap u"
    and cells: "\<And>j a. j < length (strs s) \<Longrightarrow> j \<noteq> i \<Longrightarrow> strs s ! j = Some a \<Longrightarrow> cells s' a = cells s a"
  shows "texts s' (ts[i := u])"
proof -
  have len: "length (strs s) = length ts" using ts by (auto simp: texts_def dest: list_all2_lengthD)
  have "str_val s' (strs s' ! j) (ts[i := u] ! j)" if j: "j < length ts" for j
  proof -
    have live: "a < nxt s' \<and> a \<notin> set (gone s')" if "strs s' ! j = Some a" for a
      using ok strs_ok_live [OF ok] j that by (metis len length_list_update nth_mem strs)
    have old: "str_val s (strs s ! j) (ts ! j)" using ts j by (simp add: texts_def list_all2_conv_all_nth)
    show ?thesis
    proof (cases "j = i")
      case True
      with q live i len strs show ?thesis by (auto simp: str_val_def split: option.splits)
    next
      case False
      with old live cells [of j] j len strs show ?thesis by (auto simp: str_val_def split: option.splits)
    qed
  qed
  then show ?thesis using ok len strs by (simp add: texts_def list_all2_conv_all_nth)
qed

section \<open>Operations on texts\<close>

lemma texts_length: "texts s ts \<Longrightarrow> length (strs s) = length ts"
  by (auto simp: texts_def dest: list_all2_lengthD)

lemma texts_holds: "texts s ts \<Longrightarrow> i < length ts \<Longrightarrow> strs s ! i = Some a \<Longrightarrow> \<exists>cap. holds (cells s a) cap (ts ! i)"
  by (auto simp: texts_def list_all2_conv_all_nth str_val_def split: option.splits)

lemma texts_null: "texts s ts \<Longrightarrow> i < length ts \<Longrightarrow> strs s ! i = None \<Longrightarrow> ts ! i = []"
  by (auto simp: texts_def list_all2_conv_all_nth str_val_def split: option.splits)

lemma texts_ok: "texts s ts \<Longrightarrow> strs_ok s"
  by (simp add: texts_def)

lemma nth_live: "strs_ok s \<Longrightarrow> i < length (strs s) \<Longrightarrow> strs s ! i = Some a \<Longrightarrow> a < nxt s \<and> a \<notin> set (gone s)"
  by (metis nth_mem strs_ok_live)

lemma copy_texts:
  assumes "texts s ts" "i < length ts"
  shows "texts (String_new_copy i s) (ts @ [ts ! i])"
proof -
  have len: "length (strs s) = length ts" using assms(1) by (rule texts_length)
  have f: "strs (String_new_copy i s) = strs s @ [strs s ! i]" "cells (String_new_copy i s) = cells s"
    "nxt (String_new_copy i s) = nxt s" "gone (String_new_copy i s) = gone s"
    by (auto simp: String_new_copy_def CountedObject_retain_def Let_def split: option.split)
  have "str_val (String_new_copy i s) = str_val s" by (intro ext) (simp add: str_val_def f split: option.split)
  then show ?thesis
    using assms len ok_copy [of s i] by (auto simp: texts_def f list_all2_conv_all_nth nth_append less_Suc_eq)
qed

lemma assign_eq:
  "String_assign i j s = (if strs s ! i = strs s ! j then s
     else (release_ref (strs s ! i) (retain_ref (strs s ! j) s))\<lparr>strs := (strs s)[i := strs s ! j]\<rparr>)"
proof -
  have "strs (release_ref (strs s ! i) (retain_ref (strs s ! j) s)) = strs s" by simp
  then show ?thesis by (simp add: String_assign_def Let_def release_ref_def retain_ref_def cong: option.case_cong)
qed

lemma assign_texts:
  assumes "texts s ts" "i < length ts" "j < length ts"
  shows "texts (String_assign i j s) (ts[i := ts ! j])"
proof (cases "strs s ! i = strs s ! j")
  case True
  then have "str_val s (strs s ! i) (ts ! j)" using assms by (simp add: texts_def list_all2_conv_all_nth)
  moreover have len: "length (strs s) = length ts" using assms(1) by (rule texts_length)
  ultimately show ?thesis
    using True assms by (auto simp: assign_eq texts_def list_all2_conv_all_nth nth_list_update)
next
  case False
  have len: "length (strs s) = length ts" using assms(1) by (rule texts_length)
  have "strs_ok ((release_ref (strs s ! i) (retain_ref (strs s ! j) s))\<lparr>strs := (strs s)[i := strs s ! j]\<rparr>)"
    using False assms len nth_live [OF texts_ok [OF assms(1)], of j] by (intro ok_assign) (auto dest: texts_ok)
  then show ?thesis
    using False assms len texts_holds [OF assms(1,3)] texts_null [OF assms(1,3)]
    by (auto simp: assign_eq intro!: texts_update [OF assms(1)] split: option.split)
qed

lemma release_eq:
  "String_release i s = (release_ref (strs s ! i) (retain_ref None s))\<lparr>strs := (strs s)[i := None]\<rparr>"
  by (simp add: String_release_def Let_def release_ref_def retain_ref_def CountedObject_release_def split: option.split)

lemma release_texts:
  assumes "texts s ts" "i < length ts"
  shows "texts (String_release i s) (ts[i := []])"
proof (cases "strs s ! i")
  case None
  then have "(strs s)[i := None] = strs s" by (metis list_update_id)
  with None have "String_release i s = s" by (simp add: String_release_def)
  then show ?thesis using None assms texts_null [OF assms] by (metis list_update_id)
next
  case (Some a)
  have len: "length (strs s) = length ts" using assms(1) by (rule texts_length)
  have "strs_ok (String_release i s)"
    unfolding release_eq using Some assms len by (intro ok_assign) (auto dest: texts_ok)
  then show ?thesis
    using assms len by (intro texts_update [OF assms(1), where q = None]) (auto simp: release_eq)
qed

text \<open>Writing into an object that no other string uses.\<close>

lemma own_cell:
  assumes "strs_ok s" "i < length (strs s)" "strs s ! i = Some a" "\<not> is_copied a s"
    "j < length (strs s)" "j \<noteq> i"
  shows "strs s ! j \<noteq> Some a"
proof
  assume "strs s ! j = Some a"
  have "count_list (strs s) (Some a) \<le> 1"
    using assms nth_live [OF assms(1-3)] by (simp add: is_copied_def strs_ok_count)
  moreover have "count_list ((strs s)[i := None]) (Some a) = count_list (strs s) (Some a) - 1"
    using assms by (simp add: count_update)
  moreover have "Some a \<in> set ((strs s)[i := None])"
    using assms \<open>strs s ! j = Some a\<close> by (metis length_list_update nth_list_update_neq nth_mem)
  ultimately show False by (metis count_list_0_iff diff_is_0_eq)
qed

lemma write_texts:
  assumes "texts s ts" "i < length ts" "strs s ! i = Some a" "\<not> is_copied a s" "holds c cap t"
  shows "texts (s\<lparr>cells := (cells s)(a := c)\<rparr>) (ts[i := t])"
proof -
  have len: "length (strs s) = length ts" using assms(1) by (rule texts_length)
  have "strs s ! j \<noteq> Some a" if "j < length (strs s)" "j \<noteq> i" for j
    using own_cell [of s i a j] assms len that by (auto dest: texts_ok)
  moreover have "(strs s)[i := Some a] = strs s" using assms(3) by (metis list_update_id)
  moreover have "strs_ok (s\<lparr>cells := (cells s)(a := c)\<rparr>)" using texts_ok [OF assms(1)] by (simp add: strs_ok_def)
  ultimately show ?thesis
    using assms len by (intro texts_update [OF assms(1), where q = "Some a"]) auto
qed

lemma set_new_texts:
  assumes "texts s ts" "i < length ts" "strs s ! i = None" "NUL \<notin> set t" "length t < length mem"
  shows "\<exists>s'. String_set i t mem s = Some s' \<and> texts s' (ts[i := t])"
proof -
  have len: "length (strs s) = length ts" using assms(1) by (rule texts_length)
  have ok: "strs_ok s" using assms(1) by (rule texts_ok)
  obtain c where c: "cstring_new (length t) mem = Some c" "holds c (length t) []" using new_holds assms(5) by blast
  then obtain s1 where s1: "String_create (length t) mem s = Some (nxt s, s1)"
    by (auto simp: String_create_def)
  note create = ok_create [OF ok s1]
  from set_holds [OF c(2) assms(4)] c create(8) obtain c' where
    c': "cstring_set t (cells s1 (nxt s)) = Some c'" "holds c' (length t) t" by auto
  let ?s2 = "(release_ref (strs s1 ! i) (retain_ref (Some (nxt s)) s1))\<lparr>strs := (strs s1)[i := Some (nxt s)]\<rparr>"
  have s2: "?s2 = CountedObject_retain (nxt s) (s1\<lparr>strs := (strs s1)[i := Some (nxt s)]\<rparr>)"
    using assms(3) create(5) by (simp add: release_ref_def retain_ref_def CountedObject_retain_def)
  define s3 where "s3 = ?s2\<lparr>cells := (cells ?s2)(nxt s := c')\<rparr>"
  have f: "cells s3 = (cells s)(nxt s := c')" "strs s3 = (strs s)[i := Some (nxt s)]"
    using create(5,6) by (simp_all add: s3_def fun_upd_idem_iff) (metis fun_upd_upd)
  have "strs_ok ?s2"
    using create len assms by (intro ok_assign) auto
  then have ok3: "strs_ok s3" by (simp add: strs_ok_def s3_def)
  have fresh: "strs s ! j \<noteq> Some (nxt s)" if "j < length (strs s)" for j
    using nth_live [OF ok that] by auto
  have "texts s3 (ts[i := t])"
    by (rule texts_update [OF assms(1) ok3 f(2)]) (use assms(2) len f(1) c'(2) fresh in auto)
  moreover have "String_set i t mem s = Some s3"
    using assms(3) s1 c' s2 by (simp add: String_set_def CountedObject_retain_def s3_def)
  ultimately show ?thesis by blast
qed

lemma assign_text_texts:
  assumes "texts s ts" "i < length ts" "NUL \<notin> set t" "length t < length mem"
  shows "\<exists>s'. String_assign_text i t mem s = Some s' \<and> texts s' (ts[i := t])"
proof -
  have "strs (String_release i s) ! i = None"
    using assms texts_length [OF assms(1)] by (simp add: release_eq)
  with set_new_texts [OF release_texts [OF assms(1,2)], of i t mem] assms show ?thesis
    by (simp add: String_assign_text_def)
qed

lemma cow_texts:
  assumes "texts s ts" "i < length ts" "strs s ! i = Some a" "0 < n" "length (ts ! i) + n < length mem"
  shows "\<exists>s' b cap. String_cow i n mem s = Some s' \<and> texts s' ts \<and> strs s' ! i = Some b \<and> \<not> is_copied b s'
    \<and> holds (cells s' b) cap (ts ! i) \<and> length (ts ! i) + n \<le> cap"
proof -
  have len: "length (strs s) = length ts" using assms(1) by (rule texts_length)
  have ok: "strs_ok s" using assms(1) by (rule texts_ok)
  from texts_holds [OF assms(1-3)] obtain cap where h: "holds (cells s a) cap (ts ! i)" ..
  then have f: "clen (cells s a) = length (ts ! i)" "cmax (cells s a) = cap" "text_at 0 (ctext (cells s a)) = Some (ts ! i)"
    "NUL \<notin> set (ts ! i)"
    by (auto elim!: holdsE)
  define sz where "sz = n + length (ts ! i)"
  show ?thesis
  proof (cases "cap = 0 \<or> is_copied a s \<or> sz > cap")
    case False
    then have "String_cow i n mem s = Some s" using assms(3,4) f by (simp add: String_cow_def sz_def)
    with False assms h show ?thesis by (auto simp: sz_def)
  next
    case True
    have "sz < length mem" "0 < sz" using assms by (simp_all add: sz_def)
    then obtain c where c: "cstring_new sz mem = Some c" "holds c sz []" using new_holds by blast
    then obtain s1 where s1: "String_create sz mem s = Some (nxt s, s1)" by (auto simp: String_create_def)
    note create = ok_create [OF ok s1]
    from c obtain v where v: "c = str_of [] v" "length v = sz" by (auto elim!: holdsE)
    have "a \<noteq> nxt s" using nth_live [OF ok _ assms(3)] assms(2) len by auto
    then have a: "cells s1 a = cells s a" "cells s1 (nxt s) = c" using create(6,8) c by (metis fun_upd_other, simp)
    have t: "cstr_set (NUL # v) (sz + 1) (ts ! i) = Some (ts ! i @ NUL # drop (length (ts ! i)) v)"
      using cstr_set_result [of "sz + 1" "NUL # v" "ts ! i"] v assms(4) by (simp add: sz_def)
    let ?c = "str_of (ts ! i) (drop (length (ts ! i)) v)"
    let ?s1 = "s1\<lparr>cells := (cells s1)(nxt s := ?c)\<rparr>"
    define s3 where "s3 = (release_ref (strs ?s1 ! i) (retain_ref (Some (nxt s)) ?s1))\<lparr>strs := (strs ?s1)[i := Some (nxt s)]\<rparr>"
    have c': "c\<lparr>ctext := ts ! i @ NUL # drop (length (ts ! i)) v, clen := length (ts ! i)\<rparr> = ?c"
      using v by (simp add: str_of_def sz_def)
    have "ctext c = NUL # v" "cmax c = sz" using v by simp_all
    then have cow: "String_cow i n mem s = Some s3"
      using True \<open>0 < sz\<close> s1 a t f c' create(5) assms(3)
      unfolding String_cow_def s3_def release_ref_def retain_ref_def CountedObject_retain_def CountedObject_release_def
      by (simp add: sz_def [symmetric])
    have f3: "cells s3 = (cells s)(nxt s := ?c)" "strs s3 = (strs s)[i := Some (nxt s)]"
      using create(5,6) by (simp_all add: s3_def) (metis fun_upd_upd)
    have fresh: "strs s ! j \<noteq> Some (nxt s)" if "j < length (strs s)" for j
      using nth_live [OF ok that] by auto
    have "strs_ok ?s1" using create(1) by (simp add: strs_ok_def)
    then have ok3: "strs_ok s3"
      unfolding s3_def using create(2-5,7) assms(2) len fresh by (intro ok_assign) auto
    have "texts s3 (ts[i := ts ! i])"
      by (rule texts_update [OF assms(1) ok3 f3(2)])
        (use assms(2) len f3(1) f(4) v fresh in \<open>auto simp: sz_def\<close>)
    moreover have "strs s3 ! i = Some (nxt s)" using f3(2) assms(2) len by simp
    moreover have "\<not> is_copied (nxt s) s3"
    proof -
      have "count_list (strs s) (Some (nxt s)) = 0"
        using fresh by (auto simp: count_list_0_iff in_set_conv_nth)
      moreover have "counts s3 (nxt s) = count_list (strs s3) (Some (nxt s))"
        using nth_live [OF ok3] \<open>strs s3 ! i = Some (nxt s)\<close> assms(2) len f3(2) by (intro strs_ok_count [OF ok3]) auto
      ultimately show ?thesis
        using f3(2) assms(2) len fresh [of i] by (simp add: is_copied_def count_update)
    qed
    moreover have "holds (cells s3 (nxt s)) sz (ts ! i)" using f3(1) f(4) v by (simp add: sz_def)
    ultimately show ?thesis using cow by (auto simp: sz_def)
  qed
qed

lemma append_texts:
  assumes "texts s ts" "i < length ts" "NUL \<notin> set t" "length (ts ! i) + length t < length mem"
  shows "\<exists>s'. String_append i t mem s = Some s' \<and> texts s' (ts[i := ts ! i @ t])"
proof (cases "t = []")
  case True
  then show ?thesis using assms by (simp add: String_append_def)
next
  case False
  show ?thesis
  proof (cases "strs s ! i")
    case None
    with set_new_texts [OF assms(1,2) None assms(3), of mem] texts_null [OF assms(1,2)] False assms(4)
    show ?thesis by (simp add: String_append_def)
  next
    case (Some a)
    with cow_texts [OF assms(1,2) Some, of "length t" mem] False assms(4) obtain s' b cap where
      s': "String_cow i (length t) mem s = Some s'" "texts s' ts" "strs s' ! i = Some b" "\<not> is_copied b s'"
        "holds (cells s' b) cap (ts ! i)" "length (ts ! i) + length t \<le> cap" by auto
    from add_holds [OF s'(5) assms(3)] s'(6) obtain c where
      "cstring_add t (cells s' b) = Some c" "holds c cap (ts ! i @ t)" by auto
    with write_texts [OF s'(2) assms(2) s'(3,4)] s' Some False show ?thesis
      by (auto simp: String_append_def)
  qed
qed

section \<open>Programs on strings\<close>

datatype sref_op =
    NewString | CopyOf nat | Release nat | Assign nat nat | AssignText nat cstr "char list"
  | AppendText nat cstr "char list"

fun sref_exec :: "sref_op \<Rightarrow> strings \<Rightarrow> strings option" where
  "sref_exec NewString s = Some (String_new s)"
| "sref_exec (CopyOf i) s = Some (String_new_copy i s)"
| "sref_exec (Release i) s = Some (String_release i s)"
| "sref_exec (Assign i j) s = Some (String_assign i j s)"
| "sref_exec (AssignText i t mem) s = String_assign_text i t mem s"
| "sref_exec (AppendText i t mem) s = String_append i t mem s"

fun sref_spec :: "sref_op \<Rightarrow> cstr list \<Rightarrow> cstr list" where
  "sref_spec NewString ts = ts @ [[]]"
| "sref_spec (CopyOf i) ts = ts @ [ts ! i]"
| "sref_spec (Release i) ts = ts[i := []]"
| "sref_spec (Assign i j) ts = ts[i := ts ! j]"
| "sref_spec (AssignText i t mem) ts = ts[i := t]"
| "sref_spec (AppendText i t mem) ts = ts[i := ts ! i @ t]"

fun sref_pre :: "sref_op \<Rightarrow> cstr list \<Rightarrow> bool" where
  "sref_pre NewString ts \<longleftrightarrow> True"
| "sref_pre (CopyOf i) ts \<longleftrightarrow> i < length ts"
| "sref_pre (Release i) ts \<longleftrightarrow> i < length ts"
| "sref_pre (Assign i j) ts \<longleftrightarrow> i < length ts \<and> j < length ts"
| "sref_pre (AssignText i t mem) ts \<longleftrightarrow> i < length ts \<and> NUL \<notin> set t \<and> length t < length mem"
| "sref_pre (AppendText i t mem) ts \<longleftrightarrow>
     i < length ts \<and> NUL \<notin> set t \<and> length (ts ! i) + length t < length mem"

lemma new_texts: "texts s ts \<Longrightarrow> texts (String_new s) (ts @ [[]])"
proof -
  assume ts: "texts s ts"
  have "str_val (String_new s) = str_val s"
    by (intro ext) (simp add: str_val_def String_new_def split: option.split)
  with ts texts_length [OF ts] show ?thesis
    by (auto simp: texts_def String_new_def strs_ok_def list_all2_conv_all_nth nth_append less_Suc_eq str_val_def)
qed

lemma sref_step:
  "texts s ts \<Longrightarrow> sref_pre opn ts \<Longrightarrow> \<exists>s'. sref_exec opn s = Some s' \<and> texts s' (sref_spec opn ts)"
  by (cases opn) (auto simp: new_texts copy_texts release_texts assign_texts assign_text_texts append_texts)

fun sref_pre_all :: "sref_op list \<Rightarrow> cstr list \<Rightarrow> bool" where
  "sref_pre_all [] ts = True"
| "sref_pre_all (opn # ops) ts = (sref_pre opn ts \<and> sref_pre_all ops (sref_spec opn ts))"

fun sref_run :: "sref_op list \<Rightarrow> strings \<Rightarrow> strings option" where
  "sref_run [] s = Some s"
| "sref_run (opn # ops) s = do { s \<leftarrow> sref_exec opn s; sref_run ops s }"

lemma sref_run_texts:
  "texts s ts \<Longrightarrow> sref_pre_all ops ts \<Longrightarrow> \<exists>s'. sref_run ops s = Some s' \<and> texts s' (fold sref_spec ops ts)"
proof (induction ops arbitrary: s ts)
  case (Cons opn ops)
  then obtain s' where "sref_exec opn s = Some s'" "texts s' (sref_spec opn ts)" using sref_step by force
  with Cons.IH [of s' "sref_spec opn ts"] Cons.prems show ?case by simp
qed simp

definition no_strings :: strings where
  "no_strings = \<lparr>cells = \<lambda>a. str_of [] [], counts = \<lambda>a. 0, gone = [], nxt = 0, strs = []\<rparr>"

definition c_text :: "strings \<Rightarrow> nat \<Rightarrow> cstr option" where
  "c_text s i = (case strs s ! i of None \<Rightarrow> Some [] | Some a \<Rightarrow> text_at 0 (ctext (cells s a)))"

lemma texts_c_text: "texts s ts \<Longrightarrow> i < length ts \<Longrightarrow> c_text s i = Some (ts ! i)"
  using texts_holds [of s ts i] texts_null [of s ts i]
  by (auto simp: c_text_def elim!: holdsE split: option.split)

text \<open>
  C3: Strings as values: under any sequence of constructions, copies, assignments, releases and
  appends, each \<open>String\<close> has its own text, although copies share one object. No object that a
  string refers to has been deallocated, and the counters count the strings.
\<close>

theorem String_values:
  assumes "sref_pre_all ops []"
  shows "\<exists>s. sref_run ops no_strings = Some s \<and> length (strs s) = length (fold sref_spec ops [])
    \<and> (\<forall>i < length (strs s). c_text s i = Some (fold sref_spec ops [] ! i)
         \<and> (\<forall>a. strs s ! i = Some a \<longrightarrow> a \<notin> set (gone s) \<and> counts s a = count_list (strs s) (Some a)))"
proof -
  have "texts no_strings []" by (simp add: texts_def strs_ok_def no_strings_def)
  from sref_run_texts [OF this assms] obtain s where
    s: "sref_run ops no_strings = Some s" "texts s (fold sref_spec ops [])" by auto
  have len: "length (strs s) = length (fold sref_spec ops [])" using s(2) by (rule texts_length)
  have "a \<notin> set (gone s) \<and> counts s a = count_list (strs s) (Some a)" if "i < length (strs s)" "strs s ! i = Some a" for i a
    using nth_live [OF texts_ok [OF s(2)] that] strs_ok_count [OF texts_ok [OF s(2)], of a] by auto
  with s len texts_c_text [OF s(2)] show ?thesis by auto
qed

theorem String_values_witness:
  "\<exists>s. sref_run [NewString, AssignText 0 ''ab'' ''xxxxx'', CopyOf 0, AppendText 1 ''c'' ''yyyyyy''] no_strings = Some s
     \<and> c_text s 0 = Some ''ab'' \<and> c_text s 1 = Some ''abc''"
  using String_values [of "[NewString, AssignText 0 ''ab'' ''xxxxx'', CopyOf 0, AppendText 1 ''c'' ''yyyyyy'']"]
  by auto

text \<open>
  The methods that edit in place do not make a private copy first: they change the text of
  every \<open>String\<close> that shares the object. And \<open>paste\<close> into an empty \<open>String\<close> does not retain
  its new object: copying the \<open>String\<close> and releasing the copy deallocates it while the first
  \<open>String\<close> still refers to it.
\<close>

theorem String_sharing_defects:
  assumes "texts s ts" "i < length ts" "j < length ts" "k < length ts"
    and "strs s ! i = Some a" "strs s ! j = Some a" "str_pre opn (cmax (cells s a), ts ! i)"
    and "strs s ! k = None" "cp \<noteq> []" "NUL \<notin> set cp" "length cp < length mem"
  shows "(\<exists>s'. String_edit i opn s = Some s'
       \<and> c_text s' j = Some (snd (str_spec opn (cmax (cells s a), ts ! i))))
    \<and> (\<exists>s' b. String_paste_null k cp mem s = Some s' \<and> strs s' ! k = Some b \<and> c_text s' k = Some cp
       \<and> b \<in> set (gone (String_release (length ts) (String_new_copy k s'))))"
proof
  from texts_holds [OF assms(1,2,5)] obtain cap where "holds (cells s a) cap (ts ! i)" ..
  moreover from this have "cmax (cells s a) = cap" by (auto elim: holdsE)
  ultimately obtain c' where "str_exec opn (cells s a) = Some c'"
    "holds c' (fst (str_spec opn (cap, ts ! i))) (snd (str_spec opn (cap, ts ! i)))"
    using str_exec_step [of "cells s a" cap "ts ! i" opn] assms(7) by auto
  with assms(5,6) \<open>cmax (cells s a) = cap\<close>
  show "\<exists>s'. String_edit i opn s = Some s' \<and> c_text s' j = Some (snd (str_spec opn (cmax (cells s a), ts ! i)))"
    by (auto simp: String_edit_def c_text_def elim!: holdsE)
next
  have len: "length (strs s) = length ts" using assms(1) by (rule texts_length)
  have ok: "strs_ok s" using assms(1) by (rule texts_ok)
  obtain c where c: "cstring_new (length cp) mem = Some c" "holds c (length cp) []" using new_holds assms(11) by blast
  then obtain v where v: "c = str_of [] v" "length v = length cp" by (auto elim!: holdsE)
  define s1 where "s1 = s\<lparr>cells := (cells s)(nxt s := c), counts := (counts s)(nxt s := 0), nxt := nxt s + 1\<rparr>"
  have s1: "String_create (length cp) mem s = Some (nxt s, s1)" using c by (simp add: String_create_def s1_def)
  have t: "cstr_set (NUL # v) (Suc (length cp)) cp = Some (cp @ NUL # drop (length cp) v)"
    using cstr_set_result [of "Suc (length cp)" "NUL # v" cp] v assms(9) by (simp add: Suc_le_eq)
  have fixed: "cstring_fix (c\<lparr>ctext := cp @ NUL # drop (length cp) v, clen := length cp\<rparr>) = Some (str_of cp (drop (length cp) v))"
    by (rule fix_text) (use v in auto)
  define s2 where "s2 = s1\<lparr>cells := (cells s1)(nxt s := str_of cp (drop (length cp) v)), strs := (strs s1)[k := Some (nxt s)]\<rparr>"
  have "String_paste_null k cp mem s = Some s2"
    using assms(9) s1 t fixed v by (simp add: String_paste_null_def s2_def) (simp add: s1_def)
  moreover have "strs s2 ! k = Some (nxt s)" using assms(4) len by (simp add: s2_def s1_def)
  moreover have "c_text s2 k = Some cp" using assms(4,10) len by (simp add: s2_def s1_def c_text_def)
  moreover have "nxt s \<in> set (gone (String_release (length ts) (String_new_copy k s2)))"
    using assms(4) len
    by (simp add: String_release_def String_new_copy_def CountedObject_retain_def CountedObject_release_def
        s2_def s1_def Let_def nth_append)
  ultimately show "\<exists>s' b. String_paste_null k cp mem s = Some s' \<and> strs s' ! k = Some b \<and> c_text s' k = Some cp
      \<and> b \<in> set (gone (String_release (length ts) (String_new_copy k s')))"
    by blast
qed

text \<open>Two strings that share the text \<open>ab\<close>, and an empty one.\<close>

definition shared_strings :: strings where
  "shared_strings = \<lparr>cells = \<lambda>a. str_of ''ab'' [], counts = (\<lambda>a. 0)(0 := 2), gone = [], nxt = 1, strs = [Some 0, Some 0, None]\<rparr>"

theorem String_sharing_defects_witness:
  "\<exists>s'. String_edit 0 (Cut 0 1) shared_strings = Some s' \<and> c_text s' 1 = Some ''b''"
proof -
  have "texts shared_strings [''ab'', ''ab'', []]"
    by (auto simp: texts_def strs_ok_def shared_strings_def str_val_def)
  from String_sharing_defects [OF this, of 0 1 2 0 "Cut 0 1" "''x''" "''yy''"] show ?thesis
    by (simp add: shared_strings_def)
qed

end
