(* ===== verification/Pager.thy ===== *)
theory Pager
  imports Linked Buffer
begin

text \<open>
  The page allocator \<open>memalloc\<close> of \<open>corelib/memory.cpp\<close>: memory is handed out from pages that
  are only given back together.

  The chain of pages is a list, first page first. A page is its address and the offset \<open>used\<close> of
  its first free byte; the page header (\<open>page_t\<close>, 16 bytes) is at its start. The sizes are those of a
  64 bit system with \<open>posix_memalign\<close>. \<open>malloc\<close> and \<open>posix_memalign\<close> are parameters of the model:
  their answer may depend on the pages in use and on how often they were called. An operation returns
  the exception it throws or its result, together with the state it leaves.
\<close>

section \<open>Pages\<close>

record mempage =
  base :: addr
  used :: nat

record memalloc =
  pagesize :: nat
  align :: nat
  pcount :: nat
  plimit :: nat
  pages :: "mempage list"
  calls :: nat

datatype pager_error = LengthError | RuntimeError | BadAlloc | RangeError | NullDereference

record system =
  malloc :: "(addr \<times> nat) list \<Rightarrow> nat \<Rightarrow> nat \<Rightarrow> addr option"
  posix_memalign :: "(addr \<times> nat) list \<Rightarrow> nat \<Rightarrow> nat \<Rightarrow> nat \<Rightarrow> addr option"

abbreviation sizeof_ptr :: nat where
  "sizeof_ptr \<equiv> 8"

abbreviation sizeof_page :: nat where
  "sizeof_page \<equiv> 16"

definition memalloc_new :: "nat \<Rightarrow> nat \<Rightarrow> memalloc" where
  "memalloc_new paging ps =
     (let ps = (if ps = 0 then paging
                else if ps > paging then ((ps + paging - 1) div paging) * paging else ps);
          al = (if ps \<ge> paging then sizeof_ptr else 0);
          al = (if al \<in> {2, 4, 8, 16} then al else 0)
      in \<lparr>pagesize = ps, align = al, pcount = 0, plimit = 0, pages = [], calls = 0\<rparr>)"

definition memalloc_copy :: "memalloc \<Rightarrow> memalloc" where
  "memalloc_copy m =
     \<lparr>pagesize = pagesize m, align = align m, pcount = 0, plimit = 0, pages = [], calls = 0\<rparr>"

definition memalloc_purge :: "memalloc \<Rightarrow> memalloc" where
  "memalloc_purge m = m\<lparr>pages := [], pcount := 0\<rparr>"

definition memalloc_assign :: "memalloc \<Rightarrow> memalloc \<Rightarrow> memalloc \<times> memalloc" where
  "memalloc_assign m source =
     (let m = memalloc_purge m
      in (m\<lparr>pagesize := pagesize source, align := align source, pcount := pcount source,
            pages := pages source, plimit := plimit source\<rparr>,
          source\<lparr>pcount := 0, pages := []\<rparr>))"

text \<open>\<open>None\<close> is the division by zero.\<close>

definition memalloc_utilization :: "memalloc \<Rightarrow> nat option" where
  "memalloc_utilization m =
     (let alloc = sum_list (map (\<lambda>_. pagesize m) (pages m));
          used = sum_list (map used (pages m))
      in if used = 0 then Some 0
         else if alloc div 100 = 0 then None else Some (used div (alloc div 100)))"

definition memalloc_live :: "memalloc \<Rightarrow> (addr \<times> nat) list" where
  "memalloc_live m = map (\<lambda>p. (base p, pagesize m)) (pages m)"

definition page_memory :: "system \<Rightarrow> memalloc \<Rightarrow> addr option" where
  "page_memory e m =
     (case (if align m \<noteq> 0 then posix_memalign e (memalloc_live m) (calls m) (align m) (pagesize m)
            else None) of
        Some a \<Rightarrow> Some a
      | None \<Rightarrow> malloc e (memalloc_live m) (calls m) (pagesize m))"

definition memalloc_pager :: "system \<Rightarrow> memalloc \<Rightarrow> (pager_error + mempage) \<times> memalloc" where
  "memalloc_pager e m =
     (if plimit m \<noteq> 0 \<and> pcount m \<ge> plimit m then (Inl RuntimeError, m)
      else
        (let m' = m\<lparr>calls := calls m + 1\<rparr>
         in case page_memory e m of
              None \<Rightarrow> (Inl BadAlloc, m')
            | Some a \<Rightarrow>
                (let u = sizeof_page + (if a mod sizeof_ptr \<noteq> 0 then sizeof_ptr - a mod sizeof_ptr else 0);
                     p = \<lparr>base = a, used = u\<rparr>
                 in (Inr p, m'\<lparr>pcount := (pcount m + 1) mod 2 ^ 32, pages := p # pages m\<rparr>))))"

text \<open>The loop that rounds the size up, and the search for a page with enough space.\<close>

function size_pad :: "nat \<Rightarrow> nat" where
  "size_pad n = (if n mod sizeof_ptr \<noteq> 0 then size_pad (n + 1) else n)"
  by auto
termination
  by (relation "measure (\<lambda>n. (sizeof_ptr - n mod sizeof_ptr) mod sizeof_ptr)") (auto simp: mod_Suc)

declare size_pad.simps [simp del]

fun page_fit :: "nat \<Rightarrow> nat \<Rightarrow> mempage list \<Rightarrow> nat option" where
  "page_fit ps n [] = None"
| "page_fit ps n (p # pl) =
     (if n \<le> size_minus ps (used p) then Some 0 else map_option Suc (page_fit ps n pl))"

text \<open>Taking the memory from the page at a position in the chain.\<close>

definition page_take :: "nat \<Rightarrow> nat \<Rightarrow> memalloc \<Rightarrow> addr \<times> memalloc" where
  "page_take i n m =
     (let p = pages m ! i
      in (base p + used p, m\<lparr>pages := (pages m)[i := p\<lparr>used := (used p + n) mod 2 ^ 32\<rparr>]\<rparr>))"

definition memalloc_alloc :: "system \<Rightarrow> nat \<Rightarrow> memalloc \<Rightarrow> (pager_error + addr) \<times> memalloc" where
  "memalloc_alloc e n m =
     (if n > size_minus (pagesize m) sizeof_page then (Inl LengthError, m)
      else
        (let n = size_pad n
         in case page_fit (pagesize m) n (pages m) of
              Some i \<Rightarrow> apfst Inr (page_take i n m)
            | None \<Rightarrow>
                (case memalloc_pager e m of
                   (Inl err, m) \<Rightarrow> (Inl err, m)
                 | (Inr _, m) \<Rightarrow> apfst Inr (page_take 0 n m))))"

section \<open>What the allocator relies on\<close>

definition extent :: "addr \<times> nat \<Rightarrow> addr set" where
  "extent b = {fst b..<fst b + snd b}"

definition apart :: "addr \<times> nat \<Rightarrow> addr \<times> nat \<Rightarrow> bool" where
  "apart b c \<longleftrightarrow> fst b + snd b \<le> fst c \<or> fst c + snd c \<le> fst b"

text \<open>
  New memory is not null, aligned for pointers, inside the address space and apart from the memory
  in use.
\<close>

definition fresh_memory :: "(addr \<times> nat) list \<Rightarrow> nat \<Rightarrow> addr \<Rightarrow> bool" where
  "fresh_memory live n a \<longleftrightarrow>
     a \<noteq> 0 \<and> sizeof_ptr dvd a \<and> a + n \<le> 2 ^ 64 \<and> (\<forall>b \<in> set live. apart (a, n) b)"

definition system_ok :: "system \<Rightarrow> bool" where
  "system_ok e \<longleftrightarrow>
     (\<forall>live k n a. malloc e live k n = Some a \<longrightarrow> fresh_memory live n a)
     \<and> (\<forall>live k al n a. posix_memalign e live k al n = Some a \<longrightarrow> fresh_memory live n a)"

text \<open>A system that hands out memory behind the pages in use.\<close>

definition bump :: "(addr \<times> nat) list \<Rightarrow> nat \<Rightarrow> addr option" where
  "bump live n =
     (let a = size_pad (foldr (\<lambda>b. max (fst b + snd b)) live 4096)
      in if a + n \<le> 2 ^ 64 then Some a else None)"

definition bump_system :: system where
  "bump_system = \<lparr>malloc = \<lambda>live _ n. bump live n, posix_memalign = \<lambda>live _ _ n. bump live n\<rparr>"

section \<open>The invariant of the allocator\<close>

text \<open>
  The size of a page is a multiple of the pointer size and large enough for the page header. The
  constructor does not check this: see \<open>memalloc_overflow\<close>.
\<close>

definition good_pagesize :: "memalloc \<Rightarrow> bool" where
  "good_pagesize m \<longleftrightarrow> sizeof_page \<le> pagesize m \<and> sizeof_ptr dvd pagesize m \<and> pagesize m < 2 ^ 32"

definition page_ok :: "memalloc \<Rightarrow> mempage \<Rightarrow> bool" where
  "page_ok m p \<longleftrightarrow>
     base p \<noteq> 0 \<and> sizeof_ptr dvd base p \<and> base p + pagesize m \<le> 2 ^ 64
     \<and> sizeof_page \<le> used p \<and> used p \<le> pagesize m \<and> sizeof_ptr dvd used p"

definition memalloc_inv :: "memalloc \<Rightarrow> bool" where
  "memalloc_inv m \<longleftrightarrow>
     good_pagesize m
     \<and> (\<forall>p \<in> set (pages m). page_ok m p)
     \<and> sorted_wrt apart (memalloc_live m)
     \<and> pcount m = length (pages m) mod 2 ^ 32"

text \<open>The memory that was handed out or holds page headers.\<close>

definition used_area :: "memalloc \<Rightarrow> addr set" where
  "used_area m = (\<Union>p \<in> set (pages m). {base p..<base p + used p})"

definition block_ok :: "memalloc \<Rightarrow> addr \<times> nat \<Rightarrow> bool" where
  "block_ok m b \<longleftrightarrow>
     sizeof_ptr dvd fst b
     \<and> (\<exists>p \<in> set (pages m). base p + sizeof_page \<le> fst b \<and> fst b + snd b \<le> base p + used p)"

lemma size_pad_dvd: "sizeof_ptr dvd size_pad n"
  by (induction n rule: size_pad.induct) (subst size_pad.simps, auto)

lemma size_pad_ge: "n \<le> size_pad n"
  by (induction n rule: size_pad.induct) (subst size_pad.simps, auto)

lemma size_pad_id: "sizeof_ptr dvd n \<Longrightarrow> size_pad n = n"
  by (subst size_pad.simps) auto

lemma size_pad_le: "n \<le> k \<Longrightarrow> sizeof_ptr dvd k \<Longrightarrow> size_pad n \<le> k"
proof (induction n rule: size_pad.induct)
  case (1 n)
  show ?case
  proof (cases "sizeof_ptr dvd n")
    case False
    then have "n + 1 \<le> k" using 1 by (cases "n = k") auto
    then show ?thesis using 1 False by (subst size_pad.simps) auto
  qed (simp add: size_pad_id 1)
qed

lemma size_pad_0 [simp]: "size_pad n = 0 \<longleftrightarrow> n = 0"
  using size_pad_ge [of n] by (cases "n = 0") (auto simp: size_pad_id)

lemma bump_bound: "b \<in> set live \<Longrightarrow> fst b + snd b \<le> foldr (\<lambda>b. max (fst b + snd b)) live (k :: nat)"
  by (induction live) auto

lemma bump_fresh: "bump live n = Some a \<Longrightarrow> fresh_memory live n a"
proof -
  assume b: "bump live n = Some a"
  let ?t = "foldr (\<lambda>b. max (fst b + snd b)) live 4096 :: nat"
  have a: "a = size_pad ?t" "a + n \<le> 2 ^ 64" using b by (auto simp: bump_def Let_def split: if_splits)
  have "4096 \<le> ?t" by (induction live) auto
  then have "a \<noteq> 0" using a size_pad_ge [of ?t] by simp
  moreover have "fst b + snd b \<le> a" if "b \<in> set live" for b
    using bump_bound [OF that, of 4096] size_pad_ge [of ?t] a by simp
  ultimately show ?thesis
    using a size_pad_dvd by (auto simp: fresh_memory_def apart_def)
qed

lemma bump_system_ok: "system_ok bump_system"
  by (auto simp: system_ok_def bump_system_def intro: bump_fresh)

lemma page_memory_fresh: "system_ok e \<Longrightarrow> page_memory e m = Some a \<Longrightarrow> fresh_memory (memalloc_live m) (pagesize m) a"
  by (auto simp: page_memory_def system_ok_def split: option.splits if_splits)

section \<open>The interface of allocators\<close>

text \<open>
  A client of an allocator relies on this: a block that is handed out is well placed and outside the
  area in use, and what is in use stays so.
\<close>

locale region_allocator =
  fixes alloc :: "nat \<Rightarrow> 'm \<Rightarrow> ('e + addr) \<times> 'm"
    and inv :: "'m \<Rightarrow> bool"
    and area :: "'m \<Rightarrow> addr set"
    and placed :: "'m \<Rightarrow> addr \<times> nat \<Rightarrow> bool"
  assumes alloc_inv: "inv m \<Longrightarrow> alloc n m = (r, m') \<Longrightarrow> inv m'"
    and alloc_fresh: "inv m \<Longrightarrow> alloc n m = (Inr a, m') \<Longrightarrow> extent (a, n) \<inter> area m = {}"
    and alloc_placed: "inv m \<Longrightarrow> alloc n m = (Inr a, m') \<Longrightarrow> placed m' (a, n)"
    and alloc_keeps: "inv m \<Longrightarrow> alloc n m = (r, m') \<Longrightarrow> placed m b \<Longrightarrow> placed m' b"
    and placed_area: "placed m b \<Longrightarrow> extent b \<subseteq> area m"
begin

lemma alloc_apart: "inv m \<Longrightarrow> placed m b \<Longrightarrow> alloc n m = (Inr a, m') \<Longrightarrow> extent b \<inter> extent (a, n) = {}"
  using alloc_fresh placed_area by blast

lemma alloc_apart_all:
  "inv m \<Longrightarrow> \<forall>b \<in> set bs. placed m b \<Longrightarrow> alloc n m = (Inr a, m') \<Longrightarrow>
     sorted_wrt (\<lambda>b c. extent b \<inter> extent c = {}) bs \<Longrightarrow>
     (\<forall>b \<in> set (bs @ [(a, n)]). placed m' b) \<and> sorted_wrt (\<lambda>b c. extent b \<inter> extent c = {}) (bs @ [(a, n)])"
  using alloc_placed alloc_keeps alloc_apart by (auto simp: sorted_wrt_append)

end

section \<open>Allocation keeps the invariant\<close>

lemma page_fit_Some: "page_fit ps n pl = Some i \<Longrightarrow> i < length pl \<and> n \<le> size_minus ps (used (pl ! i))"
  by (induction pl arbitrary: i) (auto split: if_splits)

lemma page_fit_None: "page_fit ps n pl = None \<longleftrightarrow> (\<forall>p \<in> set pl. size_minus ps (used p) < n)"
  by (induction pl) auto

lemma live_update [simp]: "i < length (pages m) \<Longrightarrow>
   memalloc_live (m\<lparr>pages := (pages m)[i := (pages m ! i)\<lparr>used := u\<rparr>]\<rparr>) = memalloc_live m"
  by (simp add: memalloc_live_def list_eq_iff_nth_eq nth_list_update)

lemma page_take_inv:
  assumes m: "memalloc_inv m" "i < length (pages m)"
    and n: "sizeof_ptr dvd n" "used (pages m ! i) + n \<le> pagesize m"
    and t: "page_take i n m = (a, m')"
  shows "memalloc_inv m'"
proof -
  have ok: "page_ok m (pages m ! i)" using m by (auto simp: memalloc_inv_def)
  have u: "(used (pages m ! i) + n) mod 2 ^ 32 = used (pages m ! i) + n"
    using n m by (auto simp: memalloc_inv_def good_pagesize_def)
  have m': "m' = m\<lparr>pages := (pages m)[i := (pages m ! i)\<lparr>used := used (pages m ! i) + n\<rparr>]\<rparr>"
    using t u by (simp add: page_take_def Let_def)
  have "page_ok m (p\<lparr>used := used p + n\<rparr>)" if "p = pages m ! i" for p
    using ok n that by (auto simp: page_ok_def)
  moreover have "page_ok m' p = page_ok m p" for p by (simp add: page_ok_def m')
  ultimately have "\<forall>p \<in> set (pages m'). page_ok m' p"
    using m by (auto simp: m' memalloc_inv_def dest!: set_update_subset_insert [THEN subsetD])
  then show ?thesis
    using m by (auto simp: m' memalloc_inv_def good_pagesize_def)
qed

lemma page_take_block:
  assumes m: "memalloc_inv m" "i < length (pages m)"
    and n: "used (pages m ! i) + n \<le> pagesize m" "k \<le> n"
    and t: "page_take i n m = (a, m')"
  shows "block_ok m' (a, k)" "block_ok m b \<Longrightarrow> block_ok m' b"
    "a = base (pages m ! i) + used (pages m ! i)"
proof -
  let ?p = "pages m ! i"
  have ok: "page_ok m ?p" using m by (auto simp: memalloc_inv_def)
  have u: "(used ?p + n) mod 2 ^ 32 = used ?p + n"
    using n m by (auto simp: memalloc_inv_def good_pagesize_def)
  have a: "a = base ?p + used ?p" "pages m' = (pages m)[i := ?p\<lparr>used := used ?p + n\<rparr>]"
    using t u by (auto simp: page_take_def Let_def)
  then show "a = base ?p + used ?p" by simp
  have "?p\<lparr>used := used ?p + n\<rparr> \<in> set (pages m')" using m a by (simp add: set_update_memI)
  then show "block_ok m' (a, k)"
    using ok a n unfolding block_ok_def page_ok_def by (intro conjI bexI) auto
  assume b: "block_ok m b"
  then obtain p where p: "p \<in> set (pages m)" "base p + sizeof_page \<le> fst b" "fst b + snd b \<le> base p + used p"
    by (auto simp: block_ok_def)
  then obtain j where j: "j < length (pages m)" "p = pages m ! j" by (auto simp: in_set_conv_nth)
  have "j < length (pages m')" using j a by simp
  then have q: "pages m' ! j \<in> set (pages m')" by simp
  have q': "base (pages m' ! j) = base p" "used p \<le> used (pages m' ! j)"
    using j a by (cases "j = i"; simp)+
  show "block_ok m' b" unfolding block_ok_def
    using q' p b by (intro conjI bexI [OF _ q]) (auto simp: block_ok_def)
qed

lemma area_below: "memalloc_inv m \<Longrightarrow> i < length (pages m) \<Longrightarrow>
   {base (pages m ! i) + used (pages m ! i)..<base (pages m ! i) + pagesize m} \<inter> used_area m = {}"
proof -
  assume m: "memalloc_inv m" "i < length (pages m)"
  have "{base (pages m ! i) + used (pages m ! i)..<base (pages m ! i) + pagesize m}
      \<inter> {base (pages m ! j)..<base (pages m ! j) + used (pages m ! j)} = {}"
    if j: "j < length (pages m)" for j
  proof (cases "i = j")
    case False
    have "apart (memalloc_live m ! min i j) (memalloc_live m ! max i j)"
      using m j False
      by (auto simp: memalloc_inv_def sorted_wrt_iff_nth_less memalloc_live_def min_def max_def
          simp del: nth_map)
    moreover have "used (pages m ! j) \<le> pagesize m" "used (pages m ! i) \<le> pagesize m"
      using m j by (auto simp: memalloc_inv_def page_ok_def)
    ultimately show ?thesis
      using m j by (auto simp: apart_def memalloc_live_def min_def max_def split: if_splits)
  qed auto
  then have "\<forall>p \<in> set (pages m). {base (pages m ! i) + used (pages m ! i)..<base (pages m ! i) + pagesize m}
      \<inter> {base p..<base p + used p} = {}"
    by (simp add: all_set_conv_all_nth)
  then show ?thesis unfolding used_area_def by blast
qed

lemma pager_inv:
  assumes "system_ok e" "memalloc_inv m" "memalloc_pager e m = (r, m')"
  shows "memalloc_inv m'"
    and "r = Inr p \<Longrightarrow> pages m' = p # pages m \<and> used p = sizeof_page"
    and "block_ok m b \<Longrightarrow> block_ok m' b"
    and "pagesize m' = pagesize m"
    and "r = Inr p \<Longrightarrow> {base p + sizeof_page..<base p + pagesize m} \<inter> used_area m = {}"
proof -
  have new: "m' = m\<lparr>calls := calls m + 1, pcount := (pcount m + 1) mod 2 ^ 32, pages := p # pages m\<rparr>
      \<and> used p = sizeof_page \<and> fresh_memory (memalloc_live m) (pagesize m) (base p)" if "r = Inr p" for p
    using assms that page_memory_fresh [OF assms(1), of m]
    by (auto simp: memalloc_pager_def Let_def fresh_memory_def split: if_splits option.splits)
  have old: "m' = m \<or> m' = m\<lparr>calls := calls m + 1\<rparr>" if "r = Inl x" for x
    using assms that by (auto simp: memalloc_pager_def Let_def split: if_splits option.splits)
  show inv: "memalloc_inv m'"
  proof (cases r)
    case (Inl x)
    with old [OF Inl] assms(2) show ?thesis
      by (auto simp: memalloc_inv_def good_pagesize_def page_ok_def memalloc_live_def)
  next
    case (Inr p)
    with new [OF Inr] assms(2) show ?thesis
      by (auto simp: memalloc_inv_def good_pagesize_def page_ok_def memalloc_live_def fresh_memory_def mod_Suc_eq)
  qed
  show "pages m' = p # pages m \<and> used p = sizeof_page" if "r = Inr p"
    using new [OF that] by simp
  show "block_ok m' b" if "block_ok m b"
    using that old new by (cases r) (fastforce simp: block_ok_def)+
  show "pagesize m' = pagesize m"
    using old new by (cases r) (fastforce simp: block_ok_def)+
  show "{base p + sizeof_page..<base p + pagesize m} \<inter> used_area m = {}" if "r = Inr p"
  proof -
    have "apart (base p, pagesize m) (base q, pagesize m) \<and> used q \<le> pagesize m" if "q \<in> set (pages m)" for q
      using that new [OF \<open>r = Inr p\<close>] assms(2)
      by (auto simp: fresh_memory_def memalloc_live_def memalloc_inv_def page_ok_def)
    then show ?thesis by (fastforce simp: used_area_def apart_def)
  qed
qed

lemma alloc_Inr:
  assumes e: "system_ok e" and m: "memalloc_inv m" and r: "memalloc_alloc e n m = (Inr a, m')"
  obtains m1 i where "memalloc_inv m1" "i < length (pages m1)"
    "used (pages m1 ! i) + size_pad n \<le> pagesize m1" "page_take i (size_pad n) m1 = (a, m')"
    "\<And>b. block_ok m b \<Longrightarrow> block_ok m1 b" "pagesize m1 = pagesize m"
    "{base (pages m1 ! i) + used (pages m1 ! i)..<base (pages m1 ! i) + pagesize m1} \<inter> used_area m = {}"
proof -
  have ps: "sizeof_page \<le> pagesize m" "sizeof_ptr dvd pagesize m" "pagesize m < 2 ^ 32"
    using m by (auto simp: memalloc_inv_def good_pagesize_def)
  then have sm: "size_minus (pagesize m) k = pagesize m - k" if "k \<le> pagesize m" for k
    using that by (intro size_minus_le) simp_all
  have n: "n \<le> pagesize m - sizeof_page"
    using r sm [OF ps(1)] by (auto simp: memalloc_alloc_def split: if_splits)
  show thesis
  proof (cases "page_fit (pagesize m) (size_pad n) (pages m)")
    case (Some i)
    then have t: "page_take i (size_pad n) m = (a, m')"
      using r n sm [OF ps(1)] by (auto simp: memalloc_alloc_def Let_def apfst_def map_prod_def split: prod.splits)
    have i: "i < length (pages m)" "size_pad n \<le> size_minus (pagesize m) (used (pages m ! i))"
      using page_fit_Some [OF Some] by auto
    then have "page_ok m (pages m ! i)" using m by (auto simp: memalloc_inv_def)
    then have u: "used (pages m ! i) \<le> pagesize m" by (simp add: page_ok_def)
    show thesis
      by (rule that [of m i]) (use m i t area_below [OF m i(1)] u sm [OF u] in auto)
  next
    case None
    obtain p m1 where p: "memalloc_pager e m = (Inr p, m1)" "page_take 0 (size_pad n) m1 = (a, m')"
      using r n sm [OF ps(1)] None
      by (auto simp: memalloc_alloc_def Let_def apfst_def map_prod_def split: prod.splits sum.splits)
    note pi = pager_inv [OF e m p(1)]
    have "size_pad n \<le> pagesize m - sizeof_page"
      using n ps by (intro size_pad_le dvd_diff_nat) auto
    then show thesis
      using pi(2,5) [OF refl] ps(1) by (intro that [of m1 0]) (auto simp: pi(1,3,4) p(2))
  qed
qed

lemma alloc_Inl:
  assumes "system_ok e" "memalloc_inv m" "memalloc_alloc e n m = (Inl x, m')"
  shows "memalloc_inv m'" "block_ok m b \<Longrightarrow> block_ok m' b"
  using assms pager_inv(1,3) [OF assms(1,2)]
  by (auto simp: memalloc_alloc_def Let_def apfst_def map_prod_def split: if_splits option.splits prod.splits sum.splits)

lemma block_area: "block_ok m b \<Longrightarrow> extent b \<subseteq> used_area m"
  by (cases b) (auto simp: block_ok_def extent_def used_area_def subset_iff intro!: bexI)

lemma alloc_block:
  assumes "system_ok e" "memalloc_inv m" "memalloc_alloc e n m = (Inr a, m')"
  shows "memalloc_inv m'" "block_ok m' (a, n)" "block_ok m b \<Longrightarrow> block_ok m' b"
    "extent (a, n) \<inter> used_area m = {}"
proof -
  obtain m1 i where i: "memalloc_inv m1" "i < length (pages m1)"
    "used (pages m1 ! i) + size_pad n \<le> pagesize m1" "page_take i (size_pad n) m1 = (a, m')"
    "\<And>b. block_ok m b \<Longrightarrow> block_ok m1 b"
    "{base (pages m1 ! i) + used (pages m1 ! i)..<base (pages m1 ! i) + pagesize m1} \<inter> used_area m = {}"
    using alloc_Inr [OF assms] by metis
  note t = page_take_block [OF i(1-3) size_pad_ge i(4)]
  show "memalloc_inv m'" by (rule page_take_inv [OF i(1,2) size_pad_dvd i(3,4)])
  show "block_ok m' (a, n)" by (rule t(1))
  show "block_ok m b \<Longrightarrow> block_ok m' b" by (intro t(2) i(5))
  have "extent (a, n) \<subseteq> {base (pages m1 ! i) + used (pages m1 ! i)..<base (pages m1 ! i) + pagesize m1}"
    using t(3) i(3) size_pad_ge [of n] by (auto simp: extent_def)
  with i(6) show "extent (a, n) \<inter> used_area m = {}" by blast
qed

interpretation pager: region_allocator "memalloc_alloc e" "\<lambda>m. system_ok e \<and> memalloc_inv m" used_area block_ok
    for e :: system
proof (unfold_locales, goal_cases)
  case (1 m n r m')
  then show ?case using alloc_block(1) alloc_Inl(1) by (cases r) blast+
next
  case (4 m n r m' b)
  then show ?case using alloc_block(3) alloc_Inl(2) by (cases r) blast+
qed (use alloc_block(2,4) block_area in blast)+

section \<open>Allocations of a client\<close>

fun alloc_all :: "system \<Rightarrow> nat list \<Rightarrow> memalloc \<Rightarrow> (addr \<times> nat) list \<times> memalloc" where
  "alloc_all e [] m = ([], m)"
| "alloc_all e (n # ns) m =
     (case memalloc_alloc e n m of
        (Inl _, m) \<Rightarrow> alloc_all e ns m
      | (Inr a, m) \<Rightarrow> apfst (Cons (a, n)) (alloc_all e ns m))"

lemma alloc_all_inv:
  assumes "system_ok e" "memalloc_inv m" "\<forall>b \<in> set bs. block_ok m b"
    "sorted_wrt (\<lambda>b c. extent b \<inter> extent c = {}) bs" "alloc_all e ns m = (cs, m')"
  shows "memalloc_inv m' \<and> (\<forall>b \<in> set (bs @ cs). block_ok m' b)
    \<and> sorted_wrt (\<lambda>b c. extent b \<inter> extent c = {}) (bs @ cs)"
  using assms
proof (induction ns arbitrary: bs cs m)
  case (Cons n ns)
  obtain r m1 where a: "memalloc_alloc e n m = (r, m1)" by (cases "memalloc_alloc e n m")
  have i: "system_ok e \<and> memalloc_inv m" using Cons.prems by simp
  have i1: "memalloc_inv m1" using pager.alloc_inv [OF i a] by simp
  show ?case
  proof (cases r)
    case (Inl x)
    then show ?thesis
      using Cons.IH [OF Cons.prems(1) i1 _ Cons.prems(4)] Cons.prems(3,5) a pager.alloc_keeps [OF i a] by auto
  next
    case (Inr p)
    obtain ds where ds: "alloc_all e ns m1 = (ds, m')" "cs = (p, n) # ds"
      using Cons.prems(5) a Inr by (cases "alloc_all e ns m1") auto
    note n = pager.alloc_apart_all [OF i Cons.prems(3) a [unfolded Inr] Cons.prems(4)]
    show ?thesis
      using Cons.IH [OF Cons.prems(1) i1 conjunct1 [OF n] conjunct2 [OF n] ds(1)] ds(2) by simp
  qed
qed simp

lemma new_inv: "good_pagesize m \<Longrightarrow> pages m = [] \<Longrightarrow> pcount m = 0 \<Longrightarrow> memalloc_inv m"
  by (simp add: memalloc_inv_def memalloc_live_def)

text \<open>
  The constructor makes such a page size from 0 and from every size that is not below the page size of the system,
  as long as the result is less than \<open>2 ^ 32\<close>.
\<close>

lemma memalloc_new_pagesize:
  assumes "ps = 0 \<or> paging \<le> ps" "sizeof_page \<le> paging" "sizeof_ptr dvd paging" "ps + paging < 2 ^ 32"
  shows "good_pagesize (memalloc_new paging ps)"
proof -
  let ?n = "(ps + paging - 1) div paging"
  have "paging \<le> ?n * paging" if "paging < ps"
  proof -
    have "1 \<le> ?n" using that assms(2) div_le_mono [of paging "ps + paging - 1" paging] by simp
    then show ?thesis by simp
  qed
  then have "sizeof_page \<le> ?n * paging" if "paging < ps" using that assms(2) by (meson order_trans)
  moreover have "?n * paging < 2 ^ 32"
    using div_times_less_eq_dividend [of "ps + paging - 1" paging] assms(4) by linarith
  moreover have "paging < 2 ^ 32" using assms(4) by linarith
  ultimately show ?thesis
    using assms(1-3) by (auto simp: memalloc_new_def good_pagesize_def Let_def)
qed

text \<open>C15: Whatever sizes are requested from a new \<open>memalloc\<close> whose page size is a multiple of the pointer size, holds the
  page header and is less than \<open>2 ^ 32\<close> (as for the default and for every size from the system's page size on,
  \<open>memalloc_new_pagesize\<close>; other sizes let blocks leave their page, \<open>memalloc_overflow\<close>), and whatever requests fail: every block that
  \<open>_alloc\<close> hands out is aligned for pointers and lies inside one of the pages behind its header, and
  no two blocks overlap.\<close>

theorem memalloc_blocks:
  assumes "system_ok e" "good_pagesize (memalloc_new paging ps)"
    "alloc_all e ns (memalloc_new paging ps) = (bs, m)"
  shows "(\<forall>b \<in> set bs. sizeof_ptr dvd fst b
            \<and> (\<exists>p \<in> set (pages m). base p + sizeof_page \<le> fst b \<and> fst b + snd b \<le> base p + pagesize m))
    \<and> (\<forall>i < length bs. \<forall>j < i. extent (bs ! j) \<inter> extent (bs ! i) = {})"
proof -
  have "memalloc_inv (memalloc_new paging ps)"
    using assms(2) by (intro new_inv) (auto simp: memalloc_new_def Let_def)
  from alloc_all_inv [OF assms(1) this _ _ assms(3), of "[]"]
  have i: "memalloc_inv m" "\<forall>b \<in> set bs. block_ok m b" "sorted_wrt (\<lambda>b c. extent b \<inter> extent c = {}) bs"
    by auto
  moreover have "used p \<le> pagesize m" if "p \<in> set (pages m)" for p
    using i(1) that by (auto simp: memalloc_inv_def page_ok_def)
  ultimately show ?thesis
    by (fastforce simp: block_ok_def sorted_wrt_iff_nth_less)
qed

text \<open>\<open>_alloc\<close> fails for three reasons only: the size does not fit into a page, the page limit is
  reached, or the system has no memory; in the last two cases no page in use had space. Otherwise
  it succeeds.\<close>

theorem memalloc_alloc_errors:
  assumes "memalloc_inv m" "memalloc_alloc e n m = (r, m')"
  shows "(r = Inl LengthError \<longleftrightarrow> pagesize m < n + sizeof_page)
    \<and> (r = Inl RuntimeError \<longleftrightarrow> n + sizeof_page \<le> pagesize m \<and> plimit m \<noteq> 0 \<and> plimit m \<le> pcount m
         \<and> (\<forall>p \<in> set (pages m). pagesize m < used p + n))
    \<and> (r = Inl BadAlloc \<longleftrightarrow> n + sizeof_page \<le> pagesize m \<and> \<not> (plimit m \<noteq> 0 \<and> plimit m \<le> pcount m)
         \<and> (\<forall>p \<in> set (pages m). pagesize m < used p + n) \<and> page_memory e m = None)
    \<and> (r \<in> {Inl LengthError, Inl RuntimeError, Inl BadAlloc} \<or> (\<exists>a. r = Inr a))"
proof -
  have ps: "sizeof_page \<le> pagesize m" "sizeof_ptr dvd pagesize m" "pagesize m < 2 ^ 32"
    using assms by (auto simp: memalloc_inv_def good_pagesize_def)
  then have sm: "size_minus (pagesize m) k = pagesize m - k" if "k \<le> pagesize m" for k
    using that by (intro size_minus_le) simp_all
  have "size_minus (pagesize m) (used p) < size_pad n \<longleftrightarrow> pagesize m < used p + n" if "p \<in> set (pages m)" for p
  proof -
    have p: "used p \<le> pagesize m" "sizeof_ptr dvd used p"
      using assms that by (auto simp: memalloc_inv_def page_ok_def)
    then have "size_pad n \<le> pagesize m - used p \<longleftrightarrow> n \<le> pagesize m - used p"
      using size_pad_le [of n "pagesize m - used p"] size_pad_ge [of n] ps(2) by (auto intro: dvd_diff_nat)
    then show ?thesis using sm [OF p(1)] p(1) by linarith
  qed
  then have fit: "page_fit (pagesize m) (size_pad n) (pages m) = None \<longleftrightarrow> (\<forall>p \<in> set (pages m). pagesize m < used p + n)"
    by (simp add: page_fit_None)
  show ?thesis
    using assms(2) sm [OF ps(1)] ps(1)
    unfolding fit [symmetric]
    by (auto simp: memalloc_alloc_def memalloc_pager_def Let_def apfst_def map_prod_def
        split: if_splits option.splits prod.splits)
qed

lemmas pager_eval = memalloc_new_def memalloc_alloc_def memalloc_pager_def page_memory_def bump_system_def
  bump_def memalloc_live_def page_take_def size_minus_def size_pad.simps Let_def

theorem memalloc_blocks_witness:
  "alloc_all bump_system [10, 300, 100, 200, 20] (memalloc_new 4096 256)
     = ([(4112, 10), (4128, 100), (4368, 200), (4568, 20)],
        \<lparr>pagesize = 256, align = 0, pcount = 2, plimit = 0,
          pages = [\<lparr>base = 4352, used = 240\<rparr>, \<lparr>base = 4096, used = 136\<rparr>], calls = 2\<rparr>)
   \<and> extent (4112, 10) \<inter> extent (4128, 100) = {}"
proof -
  have r: "alloc_all bump_system [10, 300, 100, 200, 20] (memalloc_new 4096 256)
     = ([(4112, 10), (4128, 100), (4368, 200), (4568, 20)],
        \<lparr>pagesize = 256, align = 0, pcount = 2, plimit = 0,
          pages = [\<lparr>base = 4352, used = 240\<rparr>, \<lparr>base = 4096, used = 136\<rparr>], calls = 2\<rparr>)"
    by (simp add: pager_eval memalloc_utilization_def)
  have g: "good_pagesize (memalloc_new 4096 256)" by (simp add: pager_eval good_pagesize_def)
  from memalloc_blocks [OF bump_system_ok g r] r show ?thesis
    by (auto simp: extent_def)
qed

theorem memalloc_alloc_errors_witness:
  "fst (memalloc_alloc bump_system 241 (memalloc_new 4096 256)) = Inl LengthError"
proof -
  have i: "memalloc_inv (memalloc_new 4096 256)" by (rule new_inv) (simp_all add: pager_eval good_pagesize_def)
  obtain r m' where r: "memalloc_alloc bump_system 241 (memalloc_new 4096 256) = (r, m')" by fastforce
  have "pagesize (memalloc_new 4096 256) < 241 + sizeof_page" by (simp add: pager_eval)
  with memalloc_alloc_errors [OF i r] have "r = Inl LengthError" by blast
  with r show ?thesis by simp
qed

text \<open>
  A page size that is not a multiple of the pointer size: the first block is rounded up behind the
  end of the page, then \<open>pagesize - used\<close> wraps around and the next block lies outside the page. And
  the utilization of a small page is a division by zero.
\<close>

lemma memalloc_overflow:
  "alloc_all bump_system [84, 8] (memalloc_new 4096 100)
     = ([(4112, 84), (4200, 8)],
        \<lparr>pagesize = 100, align = 0, pcount = 1, plimit = 0, pages = [\<lparr>base = 4096, used = 112\<rparr>], calls = 1\<rparr>)"
  by (simp add: pager_eval memalloc_utilization_def)

lemma memalloc_utilization_zero:
  "memalloc_utilization (snd (memalloc_alloc bump_system 8 (memalloc_new 4096 64))) = None"
  by (simp add: pager_eval memalloc_utilization_def)

end
