(* ===== verification/PagedList.thy ===== *)
theory PagedList
  imports Pager "HOL-Library.Multiset" "HOL-Library.Monad_Syntax"
begin

text \<open>
  Lists in paged memory of \<open>corelib/memory.cpp\<close>: \<open>ObjectPager\<close>, a list of objects of one size, and
  \<open>StringPager\<close>, a list of texts.

  Both keep their members in a single linked list (the store of \<open>Linked\<close>), with a pointer to the
  last member and a cached array of pointers. \<open>payload\<close> is the pointer in a member (\<open>mem\<close> or \<open>text\<close>),
  \<open>cells\<close> the memory of the arrays of pointers, \<open>bytes\<close> the characters of the texts. All of it
  lies in the blocks of the allocator. Reading through a null pointer is the error
  \<open>NullDereference\<close>; an iteration that does not end is \<open>None\<close>.
\<close>

section \<open>State\<close>

record paged =
  mem :: memalloc
  store :: heap
  payload :: "addr \<Rightarrow> ptr"
  cells :: "addr \<Rightarrow> ptr"
  members :: nat
  root :: ptr
  last_member :: ptr
  idx :: ptr

record object_pager = paged +
  typesize :: nat

record string_pager = paged +
  bytes :: "addr \<Rightarrow> char"

abbreviation sizeof_member :: nat where
  "sizeof_member \<equiv> 24"

text \<open>The next step of an operation unless an exception was thrown.\<close>

definition and_then :: "('e + 'a) \<times> 's \<Rightarrow> ('a \<Rightarrow> 's \<Rightarrow> ('e + 'b) \<times> 's) \<Rightarrow> ('e + 'b) \<times> 's" where
  "and_then r f = (case r of (Inl x, s) \<Rightarrow> (Inl x, s) | (Inr a, s) \<Rightarrow> f a s)"

definition allocate :: "system \<Rightarrow> nat \<Rightarrow> 'a paged_scheme \<Rightarrow> (pager_error + addr) \<times> 'a paged_scheme" where
  "allocate e n s = (case memalloc_alloc e n (mem s) of (r, m) \<Rightarrow> (r, s\<lparr>mem := m\<rparr>))"

section \<open>What both classes share\<close>

text \<open>A new member that is constructed with the root, and one that is appended behind the last.\<close>

definition prepend_member :: "addr \<Rightarrow> ptr \<Rightarrow> 'a paged_scheme \<Rightarrow> 'a paged_scheme" where
  "prepend_member a p s =
     (case LinkedObject_new_root (store s) a (root s) of
        (h, r) \<Rightarrow> s\<lparr>store := h, root := r, payload := (payload s)(a := p)\<rparr>)"

definition append_member :: "addr \<Rightarrow> ptr \<Rightarrow> 'a paged_scheme \<Rightarrow> (pager_error + unit) \<times> 'a paged_scheme" where
  "append_member a p s =
     (let s' = s\<lparr>idx := None, members := (members s + 1) mod 2 ^ 32\<rparr>
      in if members s \<noteq> 0
         then (case last_member s of
                 None \<Rightarrow> (Inl NullDereference, s')
               | Some l \<Rightarrow>
                   (let h = LinkedObject_new (store s) a
                    in (Inr (), s'\<lparr>store := h\<lparr>Next := (Next h)(l := Some a)\<rparr>,
                                   payload := (payload s)(a := p), last_member := Some a\<rparr>)))
         else (Inr (), (prepend_member a p s')\<lparr>last_member := Some a\<rparr>))"

definition push_member :: "addr \<Rightarrow> ptr \<Rightarrow> 'a paged_scheme \<Rightarrow> 'a paged_scheme" where
  "push_member a p s =
     (let s = prepend_member a p s;
          s = (if last_member s = None then s\<lparr>last_member := Some a\<rparr> else s)
      in s\<lparr>members := (members s + 1) mod 2 ^ 32\<rparr>)"

definition pull_member :: "'a paged_scheme \<Rightarrow> (pager_error + ptr) \<times> 'a paged_scheme" where
  "pull_member s =
     (case root s of
        None \<Rightarrow> (Inl NullDereference, s)
      | Some r \<Rightarrow>
          (let s' = s\<lparr>members := (members s + 2 ^ 32 - 1) mod 2 ^ 32, idx := None\<rparr>
           in (Inr (payload s r),
               (if members s' = 0 then s'\<lparr>root := None, last_member := None\<rparr>
                else s'\<lparr>root := Next (store s) r\<rparr>))))"

partial_function (option) pop_scan :: "(addr \<Rightarrow> ptr) \<Rightarrow> ptr \<Rightarrow> ptr \<Rightarrow> ptr option" where
  "pop_scan nxt lst np =
     (case np of
        None \<Rightarrow> Some None
      | Some n \<Rightarrow> if nxt n = lst then Some (Some n) else pop_scan nxt lst (nxt n))"

definition pop_member :: "'a paged_scheme \<Rightarrow> ((pager_error + ptr) \<times> 'a paged_scheme) option" where
  "pop_member s =
     (let s = s\<lparr>idx := None\<rparr>
      in if root s = last_member s
         then Some (case last_member s of
                      None \<Rightarrow> (Inl NullDereference, s)
                    | Some l \<Rightarrow> (Inr (payload s l), s\<lparr>root := None, last_member := None, members := 0\<rparr>))
         else do {
           np \<leftarrow> pop_scan (Next (store s)) (last_member s) (root s);
           Some (case np of
                   None \<Rightarrow> (Inr None, s)
                 | Some n \<Rightarrow>
                     (case last_member s of
                        None \<Rightarrow> (Inl NullDereference, s)
                      | Some l \<Rightarrow>
                          (Inr (payload s l),
                           s\<lparr>last_member := Some n,
                             store := (store s)\<lparr>Next := (Next (store s))(n := None)\<rparr>,
                             members := (members s + 2 ^ 32 - 1) mod 2 ^ 32\<rparr>)))
         })"

text \<open>\<open>n\<close> times \<open>next\<close> on a \<open>linked_pointer\<close>.\<close>

fun walk :: "(addr \<Rightarrow> ptr) \<Rightarrow> nat \<Rightarrow> ptr \<Rightarrow> pager_error + ptr" where
  "walk nxt 0 p = Inr p"
| "walk nxt (Suc n) p = (case p of None \<Rightarrow> Inl NullDereference | Some a \<Rightarrow> walk nxt n (nxt a))"

definition get_member :: "nat \<Rightarrow> 'a paged_scheme \<Rightarrow> pager_error + ptr" where
  "get_member n s =
     (case walk (Next (store s)) n (root s) of
        Inl x \<Rightarrow> Inl x
      | Inr None \<Rightarrow> Inl NullDereference
      | Inr (Some a) \<Rightarrow> Inr (payload s a))"

definition clear_members :: "'a paged_scheme \<Rightarrow> 'a paged_scheme" where
  "clear_members s =
     s\<lparr>mem := memalloc_purge (mem s), members := 0, root := None, last_member := None, idx := None\<rparr>"

partial_function (option) fill_cells ::
    "(addr \<Rightarrow> ptr) \<Rightarrow> (addr \<Rightarrow> ptr) \<Rightarrow> ptr \<Rightarrow> addr \<Rightarrow> (addr \<Rightarrow> ptr) \<Rightarrow> (addr \<Rightarrow> ptr) option" where
  "fill_cells nxt pay p cell c =
     (case p of
        None \<Rightarrow> Some (c(cell := None))
      | Some a \<Rightarrow> fill_cells nxt pay (nxt a) (cell + sizeof_ptr) (c(cell := pay a)))"

definition list_members :: "system \<Rightarrow> 'a paged_scheme \<Rightarrow> ((pager_error + addr) \<times> 'a paged_scheme) option" where
  "list_members e s =
     (case idx s of
        Some ix \<Rightarrow> Some (Inr ix, s)
      | None \<Rightarrow>
          (case allocate e (sizeof_ptr * ((members s + 1) mod 2 ^ 32)) s of
             (Inl x, s) \<Rightarrow> Some (Inl x, s)
           | (Inr ix, s) \<Rightarrow> do {
               c \<leftarrow> fill_cells (Next (store s)) (payload s) (root s) ix (cells s);
               Some (Inr ix, s\<lparr>idx := Some ix, cells := c\<rparr>)
             }))"

section \<open>ObjectPager\<close>

definition ObjectPager_new :: "nat \<Rightarrow> nat \<Rightarrow> nat \<Rightarrow> object_pager" where
  "ObjectPager_new paging objsize sz =
     \<lparr>mem = memalloc_new paging sz, store = empty_heap, payload = \<lambda>_. None, cells = \<lambda>_. None,
       members = 0, root = None, last_member = None, idx = None, typesize = objsize\<rparr>"

text \<open>The protected result of an operation on an empty list: \<open>invalid\<close> gives a null pointer.\<close>

definition ObjectPager_invalid :: "pager_error + ptr" where
  "ObjectPager_invalid = Inr None"

definition ObjectPager_get :: "nat \<Rightarrow> object_pager \<Rightarrow> pager_error + ptr" where
  "ObjectPager_get ind s = (if ind \<ge> members s then ObjectPager_invalid else get_member ind s)"

definition ObjectPager_clear :: "object_pager \<Rightarrow> object_pager" where
  "ObjectPager_clear s = clear_members s"

definition ObjectPager_pull :: "object_pager \<Rightarrow> (pager_error + ptr) \<times> object_pager" where
  "ObjectPager_pull s = (if members s = 0 then (ObjectPager_invalid, s) else pull_member s)"

definition ObjectPager_push :: "system \<Rightarrow> object_pager \<Rightarrow> (pager_error + addr) \<times> object_pager" where
  "ObjectPager_push e s =
     and_then (allocate e sizeof_member s) (\<lambda>a s.
       and_then (allocate e (typesize s) (push_member a None s)) (\<lambda>b s.
         (Inr b, s\<lparr>payload := (payload s)(a := Some b), idx := None\<rparr>)))"

definition ObjectPager_pop :: "object_pager \<Rightarrow> ((pager_error + ptr) \<times> object_pager) option" where
  "ObjectPager_pop s = (if root s = None then Some (ObjectPager_invalid, s) else pop_member s)"

definition ObjectPager_add :: "system \<Rightarrow> object_pager \<Rightarrow> (pager_error + addr) \<times> object_pager" where
  "ObjectPager_add e s =
     and_then (allocate e sizeof_member s) (\<lambda>a s.
       and_then (append_member a None s) (\<lambda>_ s.
         and_then (allocate e (typesize s) s) (\<lambda>b s.
           (Inr b, s\<lparr>payload := (payload s)(a := Some b)\<rparr>))))"

definition ObjectPager_list :: "system \<Rightarrow> object_pager \<Rightarrow> ((pager_error + addr) \<times> object_pager) option" where
  "ObjectPager_list e s = list_members e s"

section \<open>StringPager\<close>

definition StringPager_new :: "nat \<Rightarrow> nat \<Rightarrow> string_pager" where
  "StringPager_new paging sz =
     \<lparr>mem = memalloc_new paging sz, store = empty_heap, payload = \<lambda>_. None, cells = \<lambda>_. None,
       members = 0, root = None, last_member = None, idx = None, bytes = \<lambda>_. NUL\<rparr>"

definition strcpy :: "addr \<Rightarrow> cstr \<Rightarrow> (addr \<Rightarrow> char) \<Rightarrow> addr \<Rightarrow> char" where
  "strcpy a t b x =
     (if a \<le> x \<and> x < a + length t then t ! (x - a) else if x = a + length t then NUL else b x)"

text \<open>A null pointer as text argument is the empty text.\<close>

definition text_arg :: "cstr option \<Rightarrow> cstr" where
  "text_arg text = (case text of None \<Rightarrow> [] | Some t \<Rightarrow> t)"

definition StringPager_get :: "nat \<Rightarrow> string_pager \<Rightarrow> pager_error + ptr" where
  "StringPager_get ind s = (if ind \<ge> members s then Inl RangeError else get_member ind s)"

text \<open>
  The guard of \<open>set\<close> has no statement of its own: the loop that looks for the member is run only when
  the index is out of range.
\<close>

definition StringPager_set :: "system \<Rightarrow> nat \<Rightarrow> cstr \<Rightarrow> string_pager \<Rightarrow> (pager_error + unit) \<times> string_pager" where
  "StringPager_set e ind text s =
     (case (if ind \<ge> members s then walk (Next (store s)) ind (root s) else Inr (root s)) of
        Inl x \<Rightarrow> (Inl x, s)
      | Inr p \<Rightarrow>
          and_then (allocate e (length text + 1) s) (\<lambda>b s.
            (case p of
               None \<Rightarrow> (Inl NullDereference, s\<lparr>bytes := strcpy b text (bytes s)\<rparr>)
             | Some a \<Rightarrow> (Inr (), s\<lparr>bytes := strcpy b text (bytes s), payload := (payload s)(a := Some b)\<rparr>))))"

definition StringPager_clear :: "string_pager \<Rightarrow> string_pager" where
  "StringPager_clear s = clear_members s"

definition StringPager_pull :: "string_pager \<Rightarrow> (pager_error + ptr) \<times> string_pager" where
  "StringPager_pull s = (if members s = 0 then (Inl RuntimeError, s) else pull_member s)"

definition StringPager_push :: "system \<Rightarrow> cstr option \<Rightarrow> string_pager \<Rightarrow> (pager_error + unit) \<times> string_pager" where
  "StringPager_push e text s =
     (let t = text_arg text
      in and_then (allocate e sizeof_member s) (\<lambda>a s.
           and_then (allocate e (length t + 1) s) (\<lambda>b s.
             (Inr (), (push_member a (Some b) (s\<lparr>bytes := strcpy b t (bytes s)\<rparr>))\<lparr>idx := None\<rparr>))))"

definition StringPager_pop :: "string_pager \<Rightarrow> ((pager_error + ptr) \<times> string_pager) option" where
  "StringPager_pop s = (if root s = None then Some (Inl RuntimeError, s) else pop_member s)"

definition StringPager_add :: "system \<Rightarrow> cstr option \<Rightarrow> string_pager \<Rightarrow> (pager_error + unit) \<times> string_pager" where
  "StringPager_add e text s =
     (let t = text_arg text
      in and_then (allocate e sizeof_member s) (\<lambda>a s.
           and_then (allocate e (length t + 1) s) (\<lambda>b s.
             append_member a (Some b) (s\<lparr>bytes := strcpy b t (bytes s)\<rparr>))))"

fun StringPager_push_list :: "system \<Rightarrow> cstr list \<Rightarrow> string_pager \<Rightarrow> (pager_error + unit) \<times> string_pager" where
  "StringPager_push_list e [] s = (Inr (), s)"
| "StringPager_push_list e (t # ts) s =
     and_then (StringPager_push e (Some t) s) (\<lambda>_ s. StringPager_push_list e ts s)"

fun StringPager_add_list :: "system \<Rightarrow> cstr list \<Rightarrow> string_pager \<Rightarrow> (pager_error + unit) \<times> string_pager" where
  "StringPager_add_list e [] s = (Inr (), s)"
| "StringPager_add_list e (t # ts) s =
     and_then (StringPager_add e (Some t) s) (\<lambda>_ s. StringPager_add_list e ts s)"

definition StringPager_set_list :: "system \<Rightarrow> cstr list \<Rightarrow> string_pager \<Rightarrow> (pager_error + unit) \<times> string_pager" where
  "StringPager_set_list e ts s = StringPager_add_list e ts (StringPager_clear s)"

definition StringPager_list :: "system \<Rightarrow> string_pager \<Rightarrow> ((pager_error + addr) \<times> string_pager) option" where
  "StringPager_list e s = list_members e s"

text \<open>Reading a text up to its terminator; the text of a member.\<close>

partial_function (option) read_text :: "(addr \<Rightarrow> char) \<Rightarrow> addr \<Rightarrow> cstr option" where
  "read_text b a = (if b a = NUL then Some [] else do { t \<leftarrow> read_text b (a + 1); Some (b a # t) })"

definition member_text :: "string_pager \<Rightarrow> addr \<Rightarrow> cstr option" where
  "member_text s a = (case payload s a of None \<Rightarrow> None | Some b \<Rightarrow> read_text (bytes s) b)"

text \<open>
  \<open>sort\<close>. The collation of texts depends on the locale and \<open>qsort\<close> does not say how it orders equal
  members: both are parameters. \<open>None\<close> is undefined behaviour: the loop ends before it has collected
  as many members as \<open>qsort\<close> is told to sort, or a text cannot be read.
\<close>

fun collect :: "(addr \<Rightarrow> ptr) \<Rightarrow> nat \<Rightarrow> ptr \<Rightarrow> addr list" where
  "collect nxt 0 p = []"
| "collect nxt (Suc n) p = (case p of None \<Rightarrow> [] | Some a \<Rightarrow> a # collect nxt n (nxt a))"

fun keyed :: "('a \<Rightarrow> 'b option) \<Rightarrow> 'a list \<Rightarrow> ('a \<times> 'b) list option" where
  "keyed f [] = Some []"
| "keyed f (x # xs) = do { y \<leftarrow> f x; ys \<leftarrow> keyed f xs; Some ((x, y) # ys) }"

type_synonym qsort_fun = "(addr \<times> cstr \<Rightarrow> addr \<times> cstr \<Rightarrow> int) \<Rightarrow> (addr \<times> cstr) list \<Rightarrow> (addr \<times> cstr) list"

definition ncompare :: "(cstr \<Rightarrow> cstr \<Rightarrow> int) \<Rightarrow> addr \<times> cstr \<Rightarrow> addr \<times> cstr \<Rightarrow> int" where
  "ncompare collate n1 n2 = collate (snd n1) (snd n2)"

fun enlist_all :: "addr list \<Rightarrow> heap \<Rightarrow> ptr \<Rightarrow> heap \<times> ptr" where
  "enlist_all [] h r = (h, r)"
| "enlist_all (a # as) h r = (case enlist_all as h r of (h, r) \<Rightarrow> LinkedObject_enlist h a r)"

definition StringPager_sort :: "qsort_fun \<Rightarrow> (cstr \<Rightarrow> cstr \<Rightarrow> int) \<Rightarrow> string_pager \<Rightarrow> string_pager option" where
  "StringPager_sort qsort collate s =
     (if members s = 0 then Some s
      else do {
        let xs = collect (Next (store s)) (members s) (root s);
        kts \<leftarrow> (if length xs = members s then keyed (member_text s) xs else None);
        let sorted = map fst (qsort (ncompare collate) kts);
        let (h, r) = enlist_all sorted (store s) None;
        Some (s\<lparr>store := h, root := r, idx := None\<rparr>)
      })"

text \<open>\<open>join\<close>: the text that is collected in a new \<open>String\<close>.\<close>

partial_function (option) join_loop ::
    "(addr \<Rightarrow> ptr) \<Rightarrow> (addr \<Rightarrow> cstr option) \<Rightarrow> cstr \<Rightarrow> cstr \<Rightarrow> ptr \<Rightarrow> cstr \<Rightarrow> cstr option" where
  "join_loop nxt txt middle suffix mp tmp =
     (case mp of
        None \<Rightarrow> Some tmp
      | Some a \<Rightarrow> do {
          t \<leftarrow> txt a;
          let tmp = tmp @ t;
          let tmp = (if nxt a \<noteq> None \<and> middle \<noteq> [] then tmp @ middle
                     else if nxt a = None \<and> suffix \<noteq> [] then tmp @ suffix
                     else tmp);
          join_loop nxt txt middle suffix (nxt a) tmp
        })"

definition StringPager_join :: "cstr option \<Rightarrow> cstr option \<Rightarrow> cstr option \<Rightarrow> string_pager \<Rightarrow> cstr option" where
  "StringPager_join prefix middle suffix s =
     (if members s = 0 then Some []
      else join_loop (Next (store s)) (member_text s) (text_arg middle) (text_arg suffix) (root s)
             (text_arg prefix))"

text \<open>
  \<open>split\<close>, for the case sensitive search: \<open>prior\<close> is the rest of the text. A match is overwritten by a
  terminator, therefore nothing is left of the text behind an empty match.
\<close>

fun strstr :: "cstr \<Rightarrow> cstr \<Rightarrow> nat option" where
  "strstr [] n = (if n = [] then Some 0 else None)"
| "strstr (c # cs) n = (if take (length n) (c # cs) = n then Some 0 else map_option Suc (strstr cs n))"

function split_loop :: "system \<Rightarrow> cstr \<Rightarrow> cstr \<Rightarrow> bool \<Rightarrow> nat \<Rightarrow> string_pager \<Rightarrow> (pager_error + nat) \<times> string_pager" where
  "split_loop e text prior found cnt s =
     (if prior = [] then (Inr cnt, s)
      else
        (case strstr prior text of
           None \<Rightarrow>
             (if found then and_then (StringPager_add e (Some prior) s) (\<lambda>_ s. (Inr (cnt + 1), s))
              else (Inr cnt, s))
         | Some k \<Rightarrow>
             (let rest = (if text = [] then [] else drop (k + length text) prior)
              in if k > 0
                 then and_then (StringPager_add e (Some (take k prior)) s)
                        (\<lambda>_ s. split_loop e text rest True (cnt + 1) s)
                 else split_loop e text rest True cnt s)))"
  by pat_completeness auto
termination
  by (relation "measure (\<lambda>(e, text, prior, found, cnt, s). length prior)") (auto split: if_splits)

declare split_loop.simps [simp del]

definition StringPager_split :: "system \<Rightarrow> cstr \<Rightarrow> cstr \<Rightarrow> string_pager \<Rightarrow> (pager_error + nat) \<times> string_pager" where
  "StringPager_split e text string s = split_loop e text string False 0 s"

section \<open>The invariant\<close>

definition paged_ok :: "'a paged_scheme \<Rightarrow> addr list \<Rightarrow> bool" where
  "paged_ok s ns \<longleftrightarrow>
     chain (Next (store s)) (root s) ns
     \<and> last_member s = (if ns = [] then None else Some (last ns))
     \<and> members s = length ns \<and> length ns < 2 ^ 32
     \<and> (\<forall>ix. idx s = Some ix \<longrightarrow>
          (\<forall>i < length ns. cells s (ix + sizeof_ptr * i) = payload s (ns ! i))
          \<and> cells s (ix + sizeof_ptr * length ns) = None)"

definition holds_text :: "(addr \<Rightarrow> char) \<Rightarrow> addr \<Rightarrow> cstr \<Rightarrow> bool" where
  "holds_text b a t \<longleftrightarrow> NUL \<notin> set t \<and> (\<forall>i < length t. b (a + i) = t ! i) \<and> b (a + length t) = NUL"

text \<open>The blocks of a list: members, texts and the array of pointers.\<close>

definition idx_blocks :: "'a paged_scheme \<Rightarrow> (addr \<times> nat) list" where
  "idx_blocks s = (case idx s of None \<Rightarrow> [] | Some ix \<Rightarrow> [(ix, sizeof_ptr * (members s + 1))])"

fun item_blocks :: "addr \<times> addr \<times> cstr \<Rightarrow> (addr \<times> nat) list" where
  "item_blocks (n, b, t) = [(n, sizeof_member), (b, length t + 1)]"

definition separate :: "(addr \<times> nat) list \<Rightarrow> bool" where
  "separate bs \<longleftrightarrow> sorted_wrt (\<lambda>b c. extent b \<inter> extent c = {}) bs"

definition string_ok :: "string_pager \<Rightarrow> (addr \<times> addr \<times> cstr) list \<Rightarrow> bool" where
  "string_ok s its \<longleftrightarrow>
     memalloc_inv (mem s) \<and> paged_ok s (map fst its)
     \<and> (\<forall>(n, b, t) \<in> set its. payload s n = Some b \<and> holds_text (bytes s) b t)
     \<and> (\<forall>b \<in> set (idx_blocks s @ concat (map item_blocks its)). block_ok (mem s) b)
     \<and> separate (idx_blocks s @ concat (map item_blocks its))"

abbreviation texts :: "(addr \<times> addr \<times> cstr) list \<Rightarrow> cstr list" where
  "texts its \<equiv> map (\<lambda>it. snd (snd it)) its"

lemma extent_disjoint_addr: "extent (a, n) \<inter> extent (b, k) = {} \<Longrightarrow> 0 < n \<Longrightarrow> 0 < k \<Longrightarrow> a \<noteq> b"
  by (auto simp: extent_def)

lemma separate_append [simp]:
  "separate (bs @ cs) \<longleftrightarrow> separate bs \<and> separate cs \<and> (\<forall>b \<in> set bs. \<forall>c \<in> set cs. extent b \<inter> extent c = {})"
  by (simp add: separate_def sorted_wrt_append)

lemma separate_Cons [simp]:
  "separate (b # cs) \<longleftrightarrow> (\<forall>c \<in> set cs. extent b \<inter> extent c = {}) \<and> separate cs"
  by (auto simp: separate_def)

lemma separate_Nil [simp]: "separate []"
  by (simp add: separate_def)

lemma holds_text_strcpy: "NUL \<notin> set t \<Longrightarrow> holds_text (strcpy a t b) a t"
  by (simp add: holds_text_def strcpy_def)

lemma holds_text_other:
  "holds_text b c u \<Longrightarrow> extent (a, length t + 1) \<inter> extent (c, length u + 1) = {} \<Longrightarrow> holds_text (strcpy a t b) c u"
proof -
  assume h: "holds_text b c u" and d: "extent (a, length t + 1) \<inter> extent (c, length u + 1) = {}"
  have "strcpy a t b (c + i) = b (c + i)" if "i \<le> length u" for i
  proof -
    have "c + i \<in> extent (c, length u + 1)" using that by (simp add: extent_def)
    then have "c + i \<notin> extent (a, length t + 1)" using d by blast
    then show ?thesis by (auto simp: extent_def strcpy_def)
  qed
  then show ?thesis using h by (simp add: holds_text_def)
qed

lemma read_text_holds: "holds_text b a t \<Longrightarrow> read_text b a = Some t"
proof (induction t arbitrary: a)
  case Nil
  then show ?case by (subst read_text.simps) (simp add: holds_text_def)
next
  case (Cons c t)
  have "b (Suc a + i) = t ! i" if "i < length t" for i
    using Cons.prems that by (auto simp: holds_text_def dest: spec [of _ "Suc i"])
  then have "holds_text b (Suc a) t" using Cons.prems by (auto simp: holds_text_def)
  moreover have "b a = c" "c \<noteq> NUL" using Cons.prems by (auto simp: holds_text_def dest: spec [of _ 0])
  ultimately show ?case using Cons.IH by (subst read_text.simps) simp
qed

section \<open>Allocation in a list\<close>

lemma allocate_frame: "allocate e n s = (r, s') \<Longrightarrow> s' = s\<lparr>mem := mem s'\<rparr> \<and> memalloc_alloc e n (mem s) = (r, mem s')"
  by (auto simp: allocate_def split: prod.splits)

lemma paged_ok_mem [simp]: "paged_ok (s\<lparr>mem := m\<rparr>) ns = paged_ok s ns"
  by (simp add: paged_ok_def)

lemma idx_blocks_mem [simp]: "idx_blocks (s\<lparr>mem := m\<rparr>) = idx_blocks s"
  by (simp add: idx_blocks_def split: option.split)

lemma allocate_ok:
  assumes "system_ok e" "string_ok s its" "allocate e n s = (r, s')"
  shows "string_ok s' its"
    and "memalloc_inv (mem s')"
    and "s' = s\<lparr>mem := mem s'\<rparr>"
    and "block_ok (mem s) b \<Longrightarrow> block_ok (mem s') b"
    and "r = Inr a \<Longrightarrow> block_ok (mem s') (a, n)"
    and "r = Inr a \<Longrightarrow> block_ok (mem s) b \<Longrightarrow> extent b \<inter> extent (a, n) = {}"
proof -
  note a = allocate_frame [OF assms(3)]
  have i: "system_ok e \<and> memalloc_inv (mem s)" using assms by (simp add: string_ok_def)
  note pa = conjunct2 [OF a]
  show i': "memalloc_inv (mem s')" using pager.alloc_inv [OF i pa] by simp
  show s': "s' = s\<lparr>mem := mem s'\<rparr>" using a by simp
  show k: "block_ok (mem s) b \<Longrightarrow> block_ok (mem s') b" for b using pager.alloc_keeps [OF i pa] by blast
  show "r = Inr a \<Longrightarrow> block_ok (mem s') (a, n)" using pager.alloc_placed [OF i] pa by blast
  show "r = Inr a \<Longrightarrow> block_ok (mem s) b \<Longrightarrow> extent b \<inter> extent (a, n) = {}"
    using pager.alloc_apart [OF i] pa by blast
  show "string_ok s' its"
    using assms(2) i' k by (subst s') (auto simp: string_ok_def simp del: separate_append)
qed

section \<open>The list operations keep the invariant\<close>

lemma prepend_chain:
  "chain (Next (store s)) (root s) ns \<Longrightarrow> a \<notin> set ns \<Longrightarrow>
     chain (Next (store (prepend_member a p s))) (root (prepend_member a p s)) (a # ns)"
  by (simp add: prepend_member_def LinkedObject_new_root_def LinkedObject_enlist_def)

lemma prepend_frame:
  "\<exists>h. prepend_member a p s = s\<lparr>store := h, root := Some a, payload := (payload s)(a := p)\<rparr>"
  by (auto simp: prepend_member_def LinkedObject_new_root_def LinkedObject_enlist_def)

lemma append_member_ok:
  assumes s: "paged_ok s ns" and a: "a \<notin> set ns" "Suc (length ns) < 2 ^ 32"
  obtains h r where
    "append_member a p s = (Inr (), s\<lparr>idx := None, members := Suc (length ns), store := h, root := r,
        payload := (payload s)(a := p), last_member := Some a\<rparr>)"
    "chain (Next h) r (ns @ [a])"
proof (cases "ns = []")
  case True
  then have m: "members s = 0" "root s = None" using s by (auto simp: paged_ok_def)
  show thesis
    by (rule that [where h = "(store s)\<lparr>Next := (Next (store s))(a := None)\<rparr>" and r = "Some a"])
      (simp_all add: True m append_member_def prepend_member_def LinkedObject_new_root_def LinkedObject_enlist_def)
next
  case False
  then have m: "members s = length ns" "last_member s = Some (last ns)"
    and c: "chain (Next (store s)) (root s) ns" using s by (auto simp: paged_ok_def)
  have mm: "(length ns + 1) mod 2 ^ 32 = Suc (length ns)" using a by simp
  show thesis
    by (rule that [where h = "(store s)\<lparr>Next := ((Next (store s))(a := None))(last ns := Some a)\<rparr>" and r = "root s"])
      (use False m mm chain_extend [OF path_upd_fresh [THEN iffD2, OF a(1) c] False a(1)] in \<open>simp_all add: append_member_def LinkedObject_new_def\<close>)
qed

lemma pull_member_ok:
  assumes "paged_ok s (a # ns)"
  obtains s' where "pull_member s = (Inr (payload s a), s')"
    "s' = s\<lparr>members := length ns, idx := None, root := root s', last_member := last_member s'\<rparr>" "paged_ok s' ns"
proof -
  have r: "root s = Some a" "chain (Next (store s)) (Next (store s) a) ns" "members s = Suc (length ns)"
    "last_member s = Some (last (a # ns))" "Suc (length ns) < 2 ^ 32"
    using assms by (auto simp: paged_ok_def)
  have m: "(members s + 2 ^ 32 - 1) mod 2 ^ 32 = length ns" using r by simp
  show thesis
    by (rule that [OF prod.collapse [symmetric, of "pull_member s", THEN trans]])
      (use r m in \<open>auto simp: pull_member_def paged_ok_def Let_def\<close>)
qed

lemma pop_scan_chain:
  "chain nxt p (ns @ [a, b]) \<Longrightarrow> pop_scan nxt (Some b) p = Some (Some a)"
proof (induction ns arbitrary: p)
  case Nil
  then show ?case by (subst pop_scan.simps) auto
next
  case (Cons n ns)
  then have "p = Some n" "chain nxt (nxt n) (ns @ [a, b])" by auto
  moreover have "nxt n \<noteq> Some b"
    using chain_distinct [OF Cons.prems] calculation(2) by (cases ns) auto
  ultimately show ?case using Cons.IH by (subst pop_scan.simps) auto
qed

lemma pop_member_ok:
  assumes s: "paged_ok s (ns @ [b])"
  obtains s' where "pop_member s = Some (Inr (payload s b), s')"
    "s' = s\<lparr>idx := None, root := root s', last_member := last_member s', members := length ns,
        store := store s'\<rparr>" "paged_ok s' ns"
proof (cases ns rule: rev_cases)
  case Nil
  then have "root s = Some b" "last_member s = Some b" using s by (auto simp: paged_ok_def)
  then show thesis
    by (intro that [of "s\<lparr>idx := None, root := None, last_member := None, members := 0\<rparr>"])
      (auto simp: Nil pop_member_def paged_ok_def)
next
  case (snoc ms a)
  have c: "chain (Next (store s)) (root s) (ms @ [a, b])" and l: "last_member s = Some b"
    and m: "members s = Suc (length ns)" "length ns < 2 ^ 32"
    using s snoc by (auto simp: paged_ok_def)
  have d: "distinct (ms @ [a, b])" by (rule chain_distinct [OF c])
  have "root s \<noteq> Some b" using c d by (cases ms) auto
  moreover have "chain ((Next (store s))(a := None)) (root s) ns"
    using c d snoc by (auto simp: path_simps)
  moreover have "(members s + 2 ^ 32 - 1) mod 2 ^ 32 = length ns" using m by simp
  ultimately show thesis
    using l m snoc pop_scan_chain [OF c]
    by (intro that [of "s\<lparr>idx := None, last_member := Some a, members := length ns,
          store := (store s)\<lparr>Next := (Next (store s))(a := None)\<rparr>\<rparr>"])
      (auto simp: pop_member_def paged_ok_def)
qed

lemma walk_chain: "chain nxt p ns \<Longrightarrow> i < length ns \<Longrightarrow> walk nxt i p = Inr (Some (ns ! i))"
  by (induction ns arbitrary: p i) (auto simp: nth_Cons split: nat.split)

lemma get_member_ok: "paged_ok s ns \<Longrightarrow> i < length ns \<Longrightarrow> get_member i s = Inr (payload s (ns ! i))"
  using walk_chain [of "Next (store s)" "root s" ns i] by (simp add: get_member_def paged_ok_def)

lemma fill_cells_chain:
  assumes "chain nxt p ns"
  obtains c' where "fill_cells nxt pay p cell c = Some c'"
    "\<And>i. i < length ns \<Longrightarrow> c' (cell + sizeof_ptr * i) = pay (ns ! i)"
    "c' (cell + sizeof_ptr * length ns) = None" "\<And>x. x < cell \<Longrightarrow> c' x = c x"
  using assms
proof (induction ns arbitrary: p cell c thesis)
  case Nil
  show ?case by (rule Nil.prems(1) [of "c(cell := None)"]) (use Nil.prems(2) in \<open>auto simp: fill_cells.simps\<close>)
next
  case (Cons n ns)
  have p: "p = Some n" "chain nxt (nxt n) ns" using Cons.prems(2) by auto
  obtain c' where c': "fill_cells nxt pay (nxt n) (cell + sizeof_ptr) (c(cell := pay n)) = Some c'"
    "\<And>i. i < length ns \<Longrightarrow> c' (cell + sizeof_ptr + sizeof_ptr * i) = pay (ns ! i)"
    "c' (cell + sizeof_ptr + sizeof_ptr * length ns) = None"
    "\<And>x. x < cell + sizeof_ptr \<Longrightarrow> c' x = (c(cell := pay n)) x"
    using Cons.IH [OF _ p(2)] by blast
  show ?case
  proof (rule Cons.prems(1) [of c'])
    show "fill_cells nxt pay p cell c = Some c'" using c'(1) p by (subst fill_cells.simps) simp
    show "c' (cell + sizeof_ptr * i) = pay ((n # ns) ! i)" if "i < length (n # ns)" for i
      using that c'(2) [of "i - 1"] c'(4) [of cell] by (cases i) (auto simp: add.assoc)
  qed (use c'(3,4) in \<open>auto simp: algebra_simps\<close>)
qed

section \<open>StringPager refines a list of texts\<close>

lemma string_node_fresh:
  assumes "system_ok e" "string_ok s its" "allocate e n s = (Inr a, s')" "0 < n"
  shows "a \<notin> fst ` set its"
proof
  assume "a \<in> fst ` set its"
  then obtain b t where "(a, b, t) \<in> set its" by auto
  then have "block_ok (mem s) (a, sizeof_member)" using assms(2) by (fastforce simp: string_ok_def)
  from allocate_ok(6) [OF assms(1-3) refl this] show False using assms(4) by (auto simp: extent_def)
qed

lemma string_okD:
  assumes "string_ok s its"
  shows "memalloc_inv (mem s)" "paged_ok s (map fst its)" "separate (concat (map item_blocks its))"
    "b \<in> set (concat (map item_blocks its)) \<Longrightarrow> block_ok (mem s) b"
    "(n, a, t) \<in> set its \<Longrightarrow> payload s n = Some a" "(n, a, t) \<in> set its \<Longrightarrow> holds_text (bytes s) a t"
  using assms by (auto simp: string_ok_def)

text \<open>Two allocations for a new text: its member and its characters.\<close>

lemma string_alloc2:
  assumes e: "system_ok e" and s: "string_ok s its" and t: "NUL \<notin> set t"
    and a: "allocate e sizeof_member s = (Inr a, s1)" and b: "allocate e (length t + 1) s1 = (Inr b, s2)"
  defines "s3 \<equiv> s2\<lparr>bytes := strcpy b t (bytes s)\<rparr>"
  shows "a \<notin> fst ` set its" "memalloc_inv (mem s2)" "s2 = s\<lparr>mem := mem s2\<rparr>"
    "(n, c, u) \<in> set its \<Longrightarrow> holds_text (bytes s3) c u" "holds_text (bytes s3) b t"
    "\<forall>x \<in> set (concat (map item_blocks its) @ item_blocks (a, b, t)). block_ok (mem s2) x"
    "separate (concat (map item_blocks its) @ item_blocks (a, b, t))"
    "separate (item_blocks (a, b, t) @ concat (map item_blocks its))"
proof -
  note A = allocate_ok [OF e s a]
  note B = allocate_ok [OF e A(1) b]
  show "a \<notin> fst ` set its" by (rule string_node_fresh [OF e s a]) simp
  show "memalloc_inv (mem s2)" by (rule B(2))
  show "s2 = s\<lparr>mem := mem s2\<rparr>" by (subst B(3), subst A(3)) simp
  have ok: "block_ok (mem s) x" if "x \<in> set (concat (map item_blocks its))" for x
    by (rule string_okD(4) [OF s that])
  have ab: "extent (a, sizeof_member) \<inter> extent (b, length t + 1) = {}"
    by (rule B(6) [OF refl A(5) [OF refl]])
  have xb: "extent x \<inter> extent (b, length t + 1) = {}" if "x \<in> set (concat (map item_blocks its))" for x
    by (rule B(6) [OF refl A(4) [OF ok [OF that]]])
  have xa: "extent x \<inter> extent (a, sizeof_member) = {}" if "x \<in> set (concat (map item_blocks its))" for x
    by (rule A(6) [OF refl ok [OF that]])
  show "\<forall>x \<in> set (concat (map item_blocks its) @ item_blocks (a, b, t)). block_ok (mem s2) x"
    using ok A(4,5) B(4,5) by (auto simp del: set_concat)
  show "separate (concat (map item_blocks its) @ item_blocks (a, b, t))"
    using string_okD(3) [OF s] ab xa xb by (simp del: set_concat)
  show "separate (item_blocks (a, b, t) @ concat (map item_blocks its))"
    using string_okD(3) [OF s] ab xa xb by (simp del: set_concat) (metis inf_commute)
  show "holds_text (bytes s3) b t" using t by (simp add: s3_def holds_text_strcpy)
  show "holds_text (bytes s3) c u" if "(n, c, u) \<in> set its"
  proof -
    have "(c, length u + 1) \<in> set (concat (map item_blocks its))" using that by (auto intro!: bexI)
    from xb [OF this] string_okD(6) [OF s that] show ?thesis
      by (simp add: s3_def holds_text_other inf_commute)
  qed
qed

abbreviation alloc_errors :: "pager_error set" where
  "alloc_errors \<equiv> {LengthError, RuntimeError, BadAlloc}"

lemma allocate_errors: "allocate e n s = (Inl x, s') \<Longrightarrow> x \<in> alloc_errors"
  by (auto simp: allocate_def memalloc_alloc_def memalloc_pager_def Let_def apfst_def map_prod_def
      split: if_splits option.splits prod.splits sum.splits)

lemma new_text_cases:
  assumes e: "system_ok e" and s: "string_ok s its" and t: "NUL \<notin> set t"
    and r: "and_then (allocate e sizeof_member s) (\<lambda>a s. and_then (allocate e (length t + 1) s) (\<lambda>b s. f a b s)) = (r, s')"
  obtains x where "r = Inl x" "x \<in> alloc_errors" "string_ok s' its"
  | a b s1 s2 where "allocate e sizeof_member s = (Inr a, s1)" "allocate e (length t + 1) s1 = (Inr b, s2)"
      "f a b s2 = (r, s')"
proof -
  obtain r1 s1 where a: "allocate e sizeof_member s = (r1, s1)" by (cases "allocate e sizeof_member s")
  note A = allocate_ok [OF e s a]
  show thesis
  proof (cases r1)
    case (Inl x)
    then show thesis using r a A(1) allocate_errors [OF a [unfolded Inl]]
      by (intro that(1) [of x]) (auto simp: and_then_def)
  next
    case (Inr p)
    obtain r2 s2 where b: "allocate e (length t + 1) s1 = (r2, s2)" by (cases "allocate e (length t + 1) s1")
    note B = allocate_ok [OF e A(1) b]
    show thesis
    proof (cases r2)
      case (Inl x)
      then show thesis using r a b \<open>r1 = Inr p\<close> B(1) allocate_errors [OF b [unfolded Inl]]
        by (intro that(1) [of x]) (auto simp: and_then_def)
    next
      case (Inr q)
      then show thesis using r a b \<open>r1 = Inr p\<close> by (intro that(2)) (auto simp: and_then_def)
    qed
  qed
qed

lemma StringPager_add_ok:
  assumes e: "system_ok e" and s: "string_ok s its" and t: "NUL \<notin> set (text_arg text)"
    and n: "Suc (length its) < 2 ^ 32" and r: "StringPager_add e text s = (r, s')"
  shows "(\<exists>x \<in> alloc_errors. r = Inl x \<and> string_ok s' its)
    \<or> r = Inr () \<and> (\<exists>a b. string_ok s' (its @ [(a, b, text_arg text)]))"
proof -
  let ?t = "text_arg text"
  from r [unfolded StringPager_add_def Let_def] show ?thesis
  proof (cases rule: new_text_cases [OF e s t, consumes 1])
    case (2 a b s1 s2)
    note N = string_alloc2 [OF e s t 2(1,2)]
    let ?s3 = "s2\<lparr>bytes := strcpy b ?t (bytes s)\<rparr>"
    have s2: "bytes s2 = bytes s" "payload s2 = payload s" by (subst N(3), simp)+
    have p: "paged_ok ?s3 (map fst its)"
      using string_okD(2) [OF s] by (subst N(3)) (simp add: paged_ok_def)
    obtain h rt where m: "append_member a (Some b) ?s3 = (Inr (), ?s3\<lparr>idx := None, members := Suc (length its),
        store := h, root := rt, payload := (payload ?s3)(a := Some b), last_member := Some a\<rparr>)"
      "chain (Next h) rt (map fst its @ [a])"
      by (rule append_member_ok [OF p, of a "Some b"]) (use N(1) n in auto)
    have "n \<noteq> a" if "(n, c, u) \<in> set its" for n c u using N(1) that by force
    then have "string_ok s' (its @ [(a, b, ?t)])"
      using 2(3) m N(2-7) n string_okD(5) [OF s] s2
      by (auto simp: string_ok_def paged_ok_def idx_blocks_def simp del: separate_append)
    then show ?thesis using 2(3) m s2 by auto
  qed auto
qed

lemma StringPager_push_ok:
  assumes e: "system_ok e" and s: "string_ok s its" and t: "NUL \<notin> set (text_arg text)"
    and n: "Suc (length its) < 2 ^ 32" and r: "StringPager_push e text s = (r, s')"
  shows "(\<exists>x \<in> alloc_errors. r = Inl x \<and> string_ok s' its)
    \<or> r = Inr () \<and> (\<exists>a b. string_ok s' ((a, b, text_arg text) # its))"
proof -
  let ?t = "text_arg text"
  from r [unfolded StringPager_push_def Let_def] show ?thesis
  proof (cases rule: new_text_cases [OF e s t, consumes 1])
    case (2 a b s1 s2)
    note N = string_alloc2 [OF e s t 2(1,2)]
    let ?s3 = "s2\<lparr>bytes := strcpy b ?t (bytes s)\<rparr>"
    have s2: "bytes s2 = bytes s" "payload s2 = payload s" by (subst N(3), simp)+
    have p: "paged_ok ?s3 (map fst its)"
      using string_okD(2) [OF s] by (subst N(3)) (simp add: paged_ok_def)
    obtain h where h: "prepend_member a (Some b) ?s3 = ?s3\<lparr>store := h, root := Some a, payload := (payload s)(a := Some b)\<rparr>"
      using prepend_frame [of a "Some b" ?s3] s2 by auto
    have c: "chain (Next h) (Some a) (a # map fst its)"
      using prepend_chain [of ?s3 "map fst its" a "Some b"] p N(1) unfolding h by (simp add: paged_ok_def)
    have "n \<noteq> a" if "(n, c, u) \<in> set its" for n c u using N(1) that by force
    then have "string_ok s' ((a, b, ?t) # its)"
      using 2(3) h c p N(2,4-6,8) n string_okD(5) [OF s] s2
      by (auto simp: string_ok_def paged_ok_def idx_blocks_def push_member_def Let_def simp del: separate_append)
    then show ?thesis using 2(3) s2 by auto
  qed auto
qed

lemma StringPager_pull_ok:
  assumes s: "string_ok s ((n, b, t) # its)"
  obtains s' where "StringPager_pull s = (Inr (Some b), s')" "string_ok s' its" "holds_text (bytes s') b t"
proof -
  obtain s' where p: "pull_member s = (Inr (payload s n), s')"
    "s' = s\<lparr>members := length (map fst its), idx := None, root := root s', last_member := last_member s'\<rparr>"
    "paged_ok s' (map fst its)"
    using pull_member_ok [of s n "map fst its"] string_okD(2) [OF s] by auto
  have f: "mem s' = mem s" "payload s' = payload s" "bytes s' = bytes s" "idx s' = None" by (subst p(2), simp)+
  have "string_ok s' its"
    using s p(3) unfolding string_ok_def idx_blocks_def f by auto
  moreover have "members s \<noteq> 0" using string_okD(2) [OF s] by (simp add: paged_ok_def)
  ultimately show thesis
    using p(1) string_okD(5,6) [OF s, of n b t] f by (intro that [of s']) (auto simp: StringPager_pull_def)
qed

lemma StringPager_pop_ok:
  assumes s: "string_ok s (its @ [(n, b, t)])"
  obtains s' where "StringPager_pop s = Some (Inr (Some b), s')" "string_ok s' its" "holds_text (bytes s') b t"
proof -
  obtain s' where p: "pop_member s = Some (Inr (payload s n), s')"
    "s' = s\<lparr>idx := None, root := root s', last_member := last_member s', members := length (map fst its),
        store := store s'\<rparr>" "paged_ok s' (map fst its)"
    using pop_member_ok [of s "map fst its" n] string_okD(2) [OF s] by auto
  have f: "mem s' = mem s" "payload s' = payload s" "bytes s' = bytes s" "idx s' = None" by (subst p(2), simp)+
  have "string_ok s' its"
    using s p(3) unfolding string_ok_def idx_blocks_def f by auto
  moreover have "root s \<noteq> None" using string_okD(2) [OF s] by (cases "root s") (auto simp: paged_ok_def)
  ultimately show thesis
    using p(1) string_okD(5,6) [OF s, of n b t] f by (intro that [of s']) (auto simp: StringPager_pop_def)
qed

lemma purge_inv: "memalloc_inv m \<Longrightarrow> memalloc_inv (memalloc_purge m)"
  by (simp add: memalloc_inv_def memalloc_purge_def good_pagesize_def memalloc_live_def)

lemma StringPager_clear_ok: "string_ok s its \<Longrightarrow> string_ok (StringPager_clear s) []"
  by (simp add: string_ok_def StringPager_clear_def clear_members_def paged_ok_def idx_blocks_def purge_inv)

lemma StringPager_get_ok:
  "string_ok s its \<Longrightarrow> i < length its \<Longrightarrow> its ! i = (n, b, t) \<Longrightarrow> StringPager_get i s = Inr (Some b)"
  using get_member_ok [of s "map fst its" i] string_okD(2,5) [of s its]
  by (fastforce simp: StringPager_get_def paged_ok_def in_set_conv_nth)

lemma StringPager_list_ok:
  assumes e: "system_ok e" and s: "string_ok s its" and n: "Suc (length its) < 2 ^ 32"
  obtains x s' where "StringPager_list e s = Some (Inl x, s')" "x \<in> alloc_errors" "string_ok s' its"
  | ix s' where "StringPager_list e s = Some (Inr ix, s')" "string_ok s' its" "idx s' = Some ix"
proof (cases "idx s")
  case (Some ix)
  then show thesis using s by (intro that(2) [of ix s]) (simp_all add: StringPager_list_def list_members_def)
next
  case None
  let ?n = "sizeof_ptr * Suc (length its)"
  have "members s = length its" using string_okD(2) [OF s] by (auto simp: paged_ok_def)
  then have m: "members s = length its" "sizeof_ptr * ((members s + 1) mod 2 ^ 32) = ?n" using n by simp_all
  obtain r s1 where a: "allocate e ?n s = (r, s1)" by (cases "allocate e ?n s")
  note A = allocate_ok [OF e s a]
  show thesis
  proof (cases r)
    case (Inl x)
    then show thesis using a A(1) allocate_errors [OF a [unfolded Inl]] None m(2)
      by (intro that(1) [of x s1]) (auto simp: StringPager_list_def list_members_def)
  next
    case (Inr ix)
    have f: "members s1 = members s" by (subst A(3), simp)
    have "chain (Next (store s1)) (root s1) (map fst its)" using string_okD(2) [OF A(1)] by (simp add: paged_ok_def)
    then obtain c where c: "fill_cells (Next (store s1)) (payload s1) (root s1) ix (cells s1) = Some c"
      "\<And>i. i < length (map fst its) \<Longrightarrow> c (ix + sizeof_ptr * i) = payload s1 (map fst its ! i)"
      "c (ix + sizeof_ptr * length (map fst its)) = None"
      by (rule fill_cells_chain [where pay = "payload s1" and cell = ix and c = "cells s1"]) blast
    have blk: "block_ok (mem s1) (ix, ?n)" using A(5) Inr by simp
    have sep: "extent (ix, ?n) \<inter> extent b = {}" if "b \<in> set (concat (map item_blocks its))" for b
      using A(6) [OF Inr string_okD(4) [OF s that]] by blast
    have "string_ok (s1\<lparr>idx := Some ix, cells := c\<rparr>) its"
      using A(1) c m blk sep unfolding string_ok_def
      by (auto simp: paged_ok_def idx_blocks_def f simp del: set_concat)
    then show thesis using a c(1) Inr None m(2)
      by (intro that(2) [of ix "s1\<lparr>idx := Some ix, cells := c\<rparr>"]) (simp_all add: StringPager_list_def list_members_def)
  qed
qed

section \<open>Programs over a StringPager\<close>

text \<open>
  A program is a list of operations. What it sees of an operation is the text behind the pointer it
  gets, the texts of the array up to the null pointer, or the exception.
\<close>

partial_function (option) read_array :: "(addr \<Rightarrow> char) \<Rightarrow> (addr \<Rightarrow> ptr) \<Rightarrow> addr \<Rightarrow> cstr list option" where
  "read_array b c ix =
     (case c ix of
        None \<Rightarrow> Some []
      | Some p \<Rightarrow> do { t \<leftarrow> read_text b p; ts \<leftarrow> read_array b c (ix + sizeof_ptr); Some (t # ts) })"

datatype sp_op = Add "cstr option" | Push "cstr option" | Pull | Pop | Get nat | AsList | Clear

datatype sp_out = Done | Text cstr | Texts "cstr list" | Fail pager_error

definition seen_text :: "string_pager \<Rightarrow> pager_error + ptr \<Rightarrow> sp_out option" where
  "seen_text s r =
     (case r of
        Inl x \<Rightarrow> Some (Fail x)
      | Inr None \<Rightarrow> None
      | Inr (Some p) \<Rightarrow> map_option Text (read_text (bytes s) p))"

definition seen_unit :: "pager_error + unit \<Rightarrow> sp_out" where
  "seen_unit r = (case r of Inl x \<Rightarrow> Fail x | Inr _ \<Rightarrow> Done)"

fun sp_exec :: "system \<Rightarrow> sp_op \<Rightarrow> string_pager \<Rightarrow> (sp_out \<times> string_pager) option" where
  "sp_exec e (Add text) s = Some (apfst seen_unit (StringPager_add e text s))"
| "sp_exec e (Push text) s = Some (apfst seen_unit (StringPager_push e text s))"
| "sp_exec e Pull s = (case StringPager_pull s of (r, s) \<Rightarrow> map_option (\<lambda>x. (x, s)) (seen_text s r))"
| "sp_exec e Pop s =
     do { (r, s) \<leftarrow> StringPager_pop s; map_option (\<lambda>x. (x, s)) (seen_text s r) }"
| "sp_exec e (Get i) s = map_option (\<lambda>x. (x, s)) (seen_text s (StringPager_get i s))"
| "sp_exec e AsList s =
     do { (r, s) \<leftarrow> StringPager_list e s;
          case r of Inl x \<Rightarrow> Some (Fail x, s)
                  | Inr ix \<Rightarrow> map_option (\<lambda>ts. (Texts ts, s)) (read_array (bytes s) (cells s) ix) }"
| "sp_exec e Clear s = Some (Done, StringPager_clear s)"

fun sp_run :: "system \<Rightarrow> sp_op list \<Rightarrow> string_pager \<Rightarrow> (sp_out list \<times> string_pager) option" where
  "sp_run e [] s = Some ([], s)"
| "sp_run e (p # ps) s =
     do { (x, s) \<leftarrow> sp_exec e p s; (xs, s) \<leftarrow> sp_run e ps s; Some (x # xs, s) }"

text \<open>The specification: what an operation shows and leaves of a list of texts.\<close>

fun sp_spec :: "sp_op \<Rightarrow> cstr list \<Rightarrow> sp_out \<times> cstr list" where
  "sp_spec (Add text) ts = (Done, ts @ [text_arg text])"
| "sp_spec (Push text) ts = (Done, text_arg text # ts)"
| "sp_spec Pull ts = (case ts of [] \<Rightarrow> (Fail RuntimeError, []) | t # ts \<Rightarrow> (Text t, ts))"
| "sp_spec Pop ts = (if ts = [] then (Fail RuntimeError, []) else (Text (last ts), butlast ts))"
| "sp_spec (Get i) ts = (if i < length ts then Text (ts ! i) else Fail RangeError, ts)"
| "sp_spec AsList ts = (Texts ts, ts)"
| "sp_spec Clear ts = (Done, [])"

fun sp_allocates :: "sp_op \<Rightarrow> bool" where
  "sp_allocates (Add _) = True"
| "sp_allocates (Push _) = True"
| "sp_allocates AsList = True"
| "sp_allocates _ = False"

text \<open>An operation that allocates may also fail and leave the list as it is.\<close>

definition sp_agrees :: "sp_op \<Rightarrow> cstr list \<Rightarrow> sp_out \<Rightarrow> cstr list \<Rightarrow> bool" where
  "sp_agrees p ts x ts' \<longleftrightarrow>
     (x, ts') = sp_spec p ts \<or> sp_allocates p \<and> x \<in> Fail ` alloc_errors \<and> ts' = ts"

fun sp_trace :: "sp_op list \<Rightarrow> cstr list \<Rightarrow> sp_out list \<Rightarrow> cstr list \<Rightarrow> bool" where
  "sp_trace [] ts xs us \<longleftrightarrow> xs = [] \<and> us = ts"
| "sp_trace (p # ps) ts xs us \<longleftrightarrow>
     (\<exists>x ys ts'. xs = x # ys \<and> sp_agrees p ts x ts' \<and> sp_trace ps ts' ys us)"

fun sp_pre :: "sp_op \<Rightarrow> bool" where
  "sp_pre (Add text) \<longleftrightarrow> NUL \<notin> set (text_arg text)"
| "sp_pre (Push text) \<longleftrightarrow> NUL \<notin> set (text_arg text)"
| "sp_pre _ \<longleftrightarrow> True"

lemma read_array_ok:
  assumes "\<And>i. i < length its \<Longrightarrow> \<exists>n b t. its ! i = (n, b, t) \<and> c (ix + sizeof_ptr * i) = Some b \<and> holds_text bs b t"
    and "c (ix + sizeof_ptr * length its) = None"
  shows "read_array bs c ix = Some (texts its)"
  using assms
proof (induction its arbitrary: ix)
  case Nil
  then show ?case by (subst read_array.simps) simp
next
  case (Cons it its)
  obtain n b t where it: "it = (n, b, t)" "c ix = Some b" "holds_text bs b t" using Cons.prems(1) [of 0] by auto
  have "read_array bs c (ix + sizeof_ptr) = Some (texts its)"
    using Cons.prems(1) [of "Suc _"] Cons.prems(2) by (intro Cons.IH) (auto simp: algebra_simps)
  then show ?case using it by (subst read_array.simps) (simp add: read_text_holds)
qed

definition sp_step_ok :: "system \<Rightarrow> sp_op \<Rightarrow> string_pager \<Rightarrow> (addr \<times> addr \<times> cstr) list \<Rightarrow> bool" where
  "sp_step_ok e p s its \<longleftrightarrow>
     (\<exists>x s' its'. sp_exec e p s = Some (x, s') \<and> string_ok s' its' \<and> sp_agrees p (texts its) x (texts its')
        \<and> length its' \<le> Suc (length its))"

lemma sp_step_okI:
  "sp_exec e p s = Some (x, s') \<Longrightarrow> string_ok s' its' \<Longrightarrow> sp_agrees p (texts its) x (texts its') \<Longrightarrow>
     length its' \<le> Suc (length its) \<Longrightarrow> sp_step_ok e p s its"
  by (auto simp: sp_step_ok_def)

lemma sp_step_pull:
  assumes s: "string_ok s its"
  shows "sp_step_ok e Pull s its"
proof (cases its)
  case Nil
  then have "members s = 0" using string_okD(2) [OF s] by (simp add: paged_ok_def)
  then show ?thesis using s Nil
    by (intro sp_step_okI [of _ _ _ "Fail RuntimeError" s its]) (auto simp: StringPager_pull_def seen_text_def sp_agrees_def)
next
  case (Cons it its')
  obtain m b t where it: "it = (m, b, t)" by (cases it)
  from s Cons it obtain s' where "StringPager_pull s = (Inr (Some b), s')" "string_ok s' its'" "holds_text (bytes s') b t"
    by (auto elim: StringPager_pull_ok)
  then show ?thesis using Cons it
    by (intro sp_step_okI [of _ _ _ "Text t" s' its']) (simp_all add: seen_text_def sp_agrees_def read_text_holds)
qed

lemma sp_step_pop:
  assumes s: "string_ok s its"
  shows "sp_step_ok e Pop s its"
proof (cases its rule: rev_cases)
  case Nil
  then have "root s = None" using string_okD(2) [OF s] by (simp add: paged_ok_def)
  then show ?thesis using s Nil
    by (intro sp_step_okI [of _ _ _ "Fail RuntimeError" s its]) (auto simp: StringPager_pop_def seen_text_def sp_agrees_def)
next
  case (snoc its' it)
  obtain m b t where it: "it = (m, b, t)" by (cases it)
  from s snoc it obtain s' where "StringPager_pop s = Some (Inr (Some b), s')" "string_ok s' its'" "holds_text (bytes s') b t"
    by (auto elim: StringPager_pop_ok)
  then show ?thesis using snoc it
    by (intro sp_step_okI [of _ _ _ "Text t" s' its']) (simp_all add: seen_text_def sp_agrees_def read_text_holds)
qed

lemma sp_step_get:
  assumes s: "string_ok s its"
  shows "sp_step_ok e (Get i) s its"
proof (cases "i < length its")
  case True
  obtain m b t where it: "its ! i = (m, b, t)" by (cases "its ! i")
  then have "(m, b, t) \<in> set its" using True nth_mem by force
  then have "read_text (bytes s) b = Some t" using string_okD(6) [OF s] read_text_holds by blast
  then show ?thesis using True it s StringPager_get_ok [OF s True it]
    by (intro sp_step_okI [of _ _ _ "Text t" s its]) (simp_all add: seen_text_def sp_agrees_def)
next
  case False
  then have "StringPager_get i s = Inl RangeError"
    using string_okD(2) [OF s] by (auto simp: StringPager_get_def paged_ok_def)
  then show ?thesis using False s
    by (intro sp_step_okI [of _ _ _ "Fail RangeError" s its]) (auto simp: seen_text_def sp_agrees_def)
qed

lemma sp_step_list:
  assumes e: "system_ok e" and s: "string_ok s its" and n: "Suc (length its) < 2 ^ 32"
  shows "sp_step_ok e AsList s its"
  using e s n
proof (cases rule: StringPager_list_ok)
  case (1 x s')
  then show ?thesis by (intro sp_step_okI [of _ _ _ "Fail x" s' its]) (auto simp: sp_agrees_def)
next
  case (2 ix s')
  have "read_array (bytes s') (cells s') ix = Some (texts its)"
  proof (rule read_array_ok)
    fix i assume i: "i < length its"
    obtain m b t where it: "its ! i = (m, b, t)" by (cases "its ! i")
    then have "(m, b, t) \<in> set its" using i nth_mem by force
    then show "\<exists>n b t. its ! i = (n, b, t) \<and> cells s' (ix + sizeof_ptr * i) = Some b \<and> holds_text (bytes s') b t"
      using string_okD(2,5,6) [OF 2(2)] 2(3) i it by (auto simp: paged_ok_def)
  qed (use string_okD(2) [OF 2(2)] 2(3) in \<open>auto simp: paged_ok_def\<close>)
  then show ?thesis using 2 by (intro sp_step_okI [of _ _ _ "Texts (texts its)" s' its]) (simp_all add: sp_agrees_def)
qed

lemma sp_exec_ok:
  assumes e: "system_ok e" and s: "string_ok s its" and p: "sp_pre p" and n: "Suc (length its) < 2 ^ 32"
  shows "sp_step_ok e p s its"
proof (cases p)
  case (Add tx)
  obtain r s' where r: "StringPager_add e tx s = (r, s')" by fastforce
  with StringPager_add_ok [OF e s _ n r] p Add show ?thesis
    by (fastforce simp: sp_step_ok_def sp_agrees_def seen_unit_def)
next
  case (Push tx)
  obtain r s' where r: "StringPager_push e tx s = (r, s')" by fastforce
  with StringPager_push_ok [OF e s _ n r] p Push show ?thesis
    by (fastforce simp: sp_step_ok_def sp_agrees_def seen_unit_def)
next
  case Clear
  then show ?thesis using StringPager_clear_ok [OF s]
    by (intro sp_step_okI [of _ _ _ Done "StringPager_clear s" "[]"]) (simp_all add: sp_agrees_def)
qed (use sp_step_pull sp_step_pop sp_step_get sp_step_list e s n in auto)

lemma sp_run_ok:
  assumes "system_ok e" "string_ok s its" "list_all sp_pre ps" "length its + length ps < 2 ^ 32 - 1"
  shows "\<exists>xs s' its'. sp_run e ps s = Some (xs, s') \<and> string_ok s' its' \<and> sp_trace ps (texts its) xs (texts its')"
  using assms
proof (induction ps arbitrary: s its)
  case (Cons p ps)
  have "sp_step_ok e p s its" using Cons.prems by (intro sp_exec_ok) auto
  then obtain x s1 its1 where p: "sp_exec e p s = Some (x, s1)" "string_ok s1 its1"
    "sp_agrees p (texts its) x (texts its1)" "length its1 \<le> Suc (length its)" by (auto simp: sp_step_ok_def)
  have "\<exists>xs s' its'. sp_run e ps s1 = Some (xs, s') \<and> string_ok s' its' \<and> sp_trace ps (texts its1) xs (texts its')"
    using Cons.prems p by (intro Cons.IH) auto
  then show ?case using p by fastforce
qed auto

lemma StringPager_new_ok: "good_pagesize (memalloc_new paging sz) \<Longrightarrow> string_ok (StringPager_new paging sz) []"
  by (auto simp: string_ok_def StringPager_new_def paged_ok_def idx_blocks_def empty_heap_def memalloc_new_def Let_def
      intro!: new_inv)

text \<open>C13: On a new \<open>StringPager\<close> whose page size is a multiple of the pointer size, holds the page header and is less
  than \<open>2 ^ 32\<close> (as for the default and for every size from the system's page size on, \<open>memalloc_new_pagesize\<close>; other sizes
  let blocks leave their page, \<open>memalloc_overflow\<close>), every program of \<open>add\<close>, \<open>push\<close>, \<open>pull\<close>, \<open>pop\<close>, \<open>get\<close>, \<open>list\<close> and \<open>clear\<close> with less than
  \<open>2 ^ 32 - 1\<close> steps runs to its end and sees exactly what the same operations on a list of texts give, except that an
  operation that needs memory may fail, and then leaves the list unchanged. At the end the members,
  texts and the array of pointers do not overlap in the memory of the pages.\<close>

theorem StringPager_refines_list:
  assumes "system_ok e" "good_pagesize (memalloc_new paging sz)" "list_all sp_pre ps" "length ps < 2 ^ 32 - 1"
  shows "\<exists>xs s its. sp_run e ps (StringPager_new paging sz) = Some (xs, s) \<and> sp_trace ps [] xs (texts its)
    \<and> string_ok s its"
  using sp_run_ok [OF assms(1) StringPager_new_ok [OF assms(2)] assms(3)] assms(4) by auto

theorem StringPager_refines_list_witness:
  "\<exists>xs s its. sp_run bump_system [Add (Some ''b''), Push (Some ''a''), AsList, Pop, Get 1, Pull, Pull, Add None]
      (StringPager_new 4096 256) = Some (xs, s)
    \<and> sp_trace [Add (Some ''b''), Push (Some ''a''), AsList, Pop, Get 1, Pull, Pull, Add None] [] xs (texts its)
    \<and> string_ok s its"
  by (rule StringPager_refines_list [OF bump_system_ok])
    (simp_all add: good_pagesize_def memalloc_new_def text_arg_def)

section \<open>Sorting\<close>

definition qsort_ok :: "qsort_fun \<Rightarrow> bool" where
  "qsort_ok q \<longleftrightarrow>
     (\<forall>f xs. mset (q f xs) = mset xs
        \<and> ((\<forall>x y. f x y \<le> 0 \<or> f y x \<le> 0) \<and> (\<forall>x y z. f x y \<le> 0 \<longrightarrow> f y z \<le> 0 \<longrightarrow> f x z \<le> 0)
             \<longrightarrow> sorted_wrt (\<lambda>x y. f x y \<le> 0) (q f xs)))"

definition collate_ok :: "(cstr \<Rightarrow> cstr \<Rightarrow> int) \<Rightarrow> bool" where
  "collate_ok c \<longleftrightarrow>
     (\<forall>x y. c x y \<le> 0 \<or> c y x \<le> 0) \<and> (\<forall>x y z. c x y \<le> 0 \<longrightarrow> c y z \<le> 0 \<longrightarrow> c x z \<le> 0)"

lemma collect_chain: "chain nxt p ns \<Longrightarrow> collect nxt (length ns) p = ns"
  by (induction ns arbitrary: p) auto

lemma keyed_map: "(\<And>x. x \<in> set xs \<Longrightarrow> f x = Some (g x)) \<Longrightarrow> keyed f xs = Some (map (\<lambda>x. (x, g x)) xs)"
  by (induction xs) auto

lemma enlist_all_chain: "distinct as \<Longrightarrow> \<exists>h' r. enlist_all as h None = (h', r) \<and> chain (Next h') r as"
  by (induction as) (fastforce simp: LinkedObject_enlist_def)+

lemma mset_map_preimage: "mset (map f xs) = mset ys \<Longrightarrow> \<exists>xs'. mset xs' = mset xs \<and> map f xs' = ys"
proof (induction ys arbitrary: xs)
  case (Cons y ys)
  then have "y \<in> set (map f xs)" by (metis list.set_intros(1) set_mset_mset)
  then obtain us x vs where xs: "xs = us @ x # vs" "y = f x" by (auto dest!: split_list)
  then have "mset (map f (us @ vs)) = mset ys" using Cons.prems by simp
  from Cons.IH [OF this] obtain zs where "mset zs = mset (us @ vs)" "map f zs = ys" by auto
  then show ?case using xs by (intro exI [of _ "x # zs"]) auto
qed simp

lemma StringPager_sort_ok:
  assumes s: "string_ok s its" and q: "qsort_ok q"
  obtains s' its' where "StringPager_sort q collate s = Some s'" "mset its' = mset its"
    "collate_ok collate \<Longrightarrow> sorted_wrt (\<lambda>t u. collate t u \<le> 0) (texts its')"
    "s' = s\<lparr>store := store s', root := root s', idx := idx s'\<rparr>"
    "chain (Next (store s')) (root s') (map fst its')"
proof (cases "its = []")
  case True
  then have "members s = 0" using string_okD(2) [OF s] by (simp add: paged_ok_def)
  then show thesis using True string_okD(2) [OF s]
    by (intro that [of s "[]"]) (auto simp: StringPager_sort_def paged_ok_def)
next
  case False
  have p: "chain (Next (store s)) (root s) (map fst its)" "members s = length its"
    using string_okD(2) [OF s] by (auto simp: paged_ok_def)
  have col: "collect (Next (store s)) (members s) (root s) = map fst its"
    using collect_chain [OF p(1)] p(2) by simp
  have dist: "distinct (map fst its)" by (rule chain_distinct [OF p(1)])
  let ?kt = "\<lambda>it. (fst it, snd (snd it))"
  have tx: "member_text s (fst it) = Some (snd (snd it))" if "it \<in> set its" for it
    using string_okD(5,6) [OF s] that read_text_holds by (cases it) (auto simp: member_text_def)
  have "keyed (member_text s) (map fst its) = Some (map ?kt its)"
    using tx by (induction its) auto
  moreover obtain its' where its': "mset its' = mset its" "map ?kt its' = q (ncompare collate) (map ?kt its)"
    using mset_map_preimage [of ?kt its "q (ncompare collate) (map ?kt its)"] q by (auto simp: qsort_ok_def)
  have nodes: "map fst (q (ncompare collate) (map ?kt its)) = map fst its'"
    unfolding its'(2) [symmetric] by simp
  have "distinct (map fst its')" using dist its'(1) by (metis mset_eq_imp_distinct_iff mset_map)
  then obtain h r where h: "enlist_all (map fst its') (store s) None = (h, r)" "chain (Next h) r (map fst its')"
    using enlist_all_chain by blast
  moreover have "sorted_wrt (\<lambda>t u. collate t u \<le> 0) (texts its')" if "collate_ok collate"
  proof -
    have "\<forall>x y. ncompare collate x y \<le> 0 \<or> ncompare collate y x \<le> 0"
      "\<forall>x y z. ncompare collate x y \<le> 0 \<longrightarrow> ncompare collate y z \<le> 0 \<longrightarrow> ncompare collate x z \<le> 0"
      using that by (simp_all add: collate_ok_def ncompare_def)
    then have "sorted_wrt (\<lambda>x y. ncompare collate x y \<le> 0) (q (ncompare collate) (map ?kt its))"
      using q by (simp add: qsort_ok_def)
    then have "sorted_wrt (\<lambda>x y. ncompare collate x y \<le> 0) (map ?kt its')" using its'(2) by simp
    then show ?thesis by (simp add: sorted_wrt_map ncompare_def)
  qed
  ultimately show thesis using False p(2) its'(1) col nodes
    by (intro that [of "s\<lparr>store := h, root := r, idx := None\<rparr>" its']) (auto simp: StringPager_sort_def Let_def)
qed

text \<open>\<open>sort\<close> puts the same members into the order of the collation; texts, the number of members and the
  pointer to the last member stay as they are.\<close>

theorem StringPager_sort_sorted:
  assumes "string_ok s its" "qsort_ok q" "collate_ok collate"
  shows "\<exists>s' its'. StringPager_sort q collate s = Some s' \<and> mset its' = mset its
    \<and> sorted_wrt (\<lambda>t u. collate t u \<le> 0) (texts its')
    \<and> chain (Next (store s')) (root s') (map fst its')
    \<and> payload s' = payload s \<and> bytes s' = bytes s \<and> members s' = length its'
    \<and> last_member s' = last_member s"
proof -
  obtain s' its' where r: "StringPager_sort q collate s = Some s'" "mset its' = mset its"
    "sorted_wrt (\<lambda>t u. collate t u \<le> 0) (texts its')"
    "s' = s\<lparr>store := store s', root := root s', idx := idx s'\<rparr>"
    "chain (Next (store s')) (root s') (map fst its')"
    using StringPager_sort_ok [OF assms(1,2)] assms(3) by blast
  have "payload s' = payload s" "bytes s' = bytes s" "last_member s' = last_member s" "members s' = members s"
    by (subst r(4), simp)+
  then show ?thesis
    using r(1-3,5) string_okD(2) [OF assms(1)] mset_eq_length [OF r(2)]
    by (intro exI [of _ s'] exI [of _ its']) (simp add: paged_ok_def)
qed

text \<open>A chain that is cut behind one of its members, to which a new member is appended.\<close>

lemma chain_cut:
  assumes "chain nxt p (us @ l # vs)" "a \<notin> set (us @ l # vs)"
  shows "chain (nxt(a := None, l := Some a)) p (us @ [l, a])"
proof -
  have "distinct (us @ l # vs)" by (rule chain_distinct [OF assms(1)])
  then show ?thesis using assms by (auto simp: path_append)
qed

lemma get_member_end:
  assumes "chain (Next (store s)) (root s) ns" "length ns \<le> i"
  shows "get_member i s = Inl NullDereference"
proof -
  have "walk nxt i p = Inr None \<or> walk nxt i p = Inl NullDereference" if "chain nxt p ns" for nxt p
    using that assms(2)
  proof (induction ns arbitrary: p i)
    case Nil
    then show ?case by (cases i) auto
  next
    case (Cons n ns)
    then show ?case by (cases i) auto
  qed
  from this [OF assms(1)] show ?thesis by (auto simp: get_member_def)
qed

text \<open>After \<open>sort\<close> the pointer to the last member is stale: \<open>add\<close> cuts off the members that come behind
  the former last member in the new order, while they are still counted. When there is
  one, \<open>get\<close> of an index in range runs into the null pointer at the end.\<close>

theorem StringPager_sort_add:
  assumes e: "system_ok e" and s: "string_ok s its" and q: "qsort_ok q" and its: "its \<noteq> []"
    and n: "Suc (length its) < 2 ^ 32"
    and s1: "StringPager_sort q collate s = Some s1" and s2: "StringPager_add e (Some t) s1 = (Inr (), s2)"
  shows "\<exists>us vs a. chain (Next (store s1)) (root s1) (us @ fst (last its) # vs)
    \<and> mset (us @ fst (last its) # vs) = mset (map fst its)
    \<and> chain (Next (store s2)) (root s2) (us @ [fst (last its), a])
    \<and> members s2 = Suc (length its)
    \<and> (vs \<noteq> [] \<longrightarrow> StringPager_get (length its) s2 = Inl NullDereference)"
proof -
  let ?l = "fst (last its)"
  obtain its' where i: "mset its' = mset its" "s1 = s\<lparr>store := store s1, root := root s1, idx := idx s1\<rparr>"
    "chain (Next (store s1)) (root s1) (map fst its')"
    by (rule StringPager_sort_ok [OF s q, of collate]) (use s1 in auto)
  have "mem s1 = mem s" "last_member s1 = last_member s" "members s1 = members s" by (subst i(2), simp)+
  then have f: "mem s1 = mem s" "last_member s1 = Some ?l" "members s1 = length its"
    using string_okD(2) [OF s] its by (auto simp: paged_ok_def last_map)
  have "?l \<in> set (map fst its')" using its i(1) by (metis last_in_set image_eqI list.set_map set_mset_mset)
  then obtain us vs where ns: "map fst its' = us @ ?l # vs" by (meson split_list)
  obtain a b s1a s1b where a: "allocate e sizeof_member s1 = (Inr a, s1a)" "allocate e (length t + 1) s1a = (Inr b, s1b)"
    "append_member a (Some b) (s1b\<lparr>bytes := strcpy b t (bytes s1b)\<rparr>) = (Inr (), s2)"
    using s2 by (auto simp: StringPager_add_def and_then_def text_arg_def split: prod.splits sum.splits)
  have fr: "s1b = s1\<lparr>mem := mem s1b\<rparr>"
    by (subst allocate_frame [OF a(2), THEN conjunct1], subst allocate_frame [OF a(1), THEN conjunct1]) simp
  have g: "store s1b = store s1" "root s1b = root s1" "last_member s1b = Some ?l" "members s1b = length its"
    by (subst fr, simp add: f)+
  have fa: "memalloc_alloc e sizeof_member (mem s) = (Inr a, mem s1a)" using allocate_frame [OF a(1)] f(1) by simp
  have "a \<noteq> m" if "m \<in> set (map fst its')" for m
  proof -
    have "m \<in> fst ` set its" using that mset_eq_setD [OF i(1)] by simp
    then obtain c u where "(m, c, u) \<in> set its" by auto
    then have "block_ok (mem s) (m, sizeof_member)" by (intro string_okD(4) [OF s]) (auto intro!: bexI)
    then have "extent (m, sizeof_member) \<inter> extent (a, sizeof_member) = {}"
      using pager.alloc_apart [OF conjI [OF e string_okD(1) [OF s]] _ fa] by blast
    then show ?thesis by (auto simp: extent_def)
  qed
  then have c: "chain ((Next (store s1))(a := None, ?l := Some a)) (root s1) (us @ [?l, a])"
    using i(3) unfolding ns by (intro chain_cut) auto
  have s2': "Next (store s2) = (Next (store s1))(a := None, ?l := Some a)" "root s2 = root s1" "members s2 = Suc (length its)"
    using a(3) g its n by (auto simp: append_member_def LinkedObject_new_def)
  have len: "length us + Suc (length vs) = length its" using mset_eq_length [OF i(1)] arg_cong [OF ns, of length] by simp
  have "StringPager_get (length its) s2 = Inl NullDereference" if "vs \<noteq> []"
    using get_member_end [of s2 "us @ [?l, a]" "length its"] c s2' len that
    by (cases vs) (auto simp: StringPager_get_def)
  moreover have "mset (us @ ?l # vs) = mset (map fst its)" using i(1) by (metis mset_map ns)
  ultimately show ?thesis using i(3) c unfolding ns s2' by (intro exI [of _ us] exI [of _ vs] exI [of _ a]) blast
qed

text \<open>An instance: sorting by insertion, and a comparison of lengths as collation.\<close>

fun insert_by :: "('a \<Rightarrow> 'a \<Rightarrow> int) \<Rightarrow> 'a \<Rightarrow> 'a list \<Rightarrow> 'a list" where
  "insert_by f x [] = [x]"
| "insert_by f x (y # ys) = (if f x y \<le> 0 then x # y # ys else y # insert_by f x ys)"

fun sort_by :: "('a \<Rightarrow> 'a \<Rightarrow> int) \<Rightarrow> 'a list \<Rightarrow> 'a list" where
  "sort_by f [] = []"
| "sort_by f (x # xs) = insert_by f x (sort_by f xs)"

definition by_length :: "cstr \<Rightarrow> cstr \<Rightarrow> int" where
  "by_length x y = int (length x) - int (length y)"

lemma insert_by_mset [simp]: "mset (insert_by f x xs) = add_mset x (mset xs)"
  by (induction xs) auto

lemma sort_by_mset [simp]: "mset (sort_by f xs) = mset xs"
  by (induction xs) auto

lemma insert_by_set [simp]: "set (insert_by f x xs) = insert x (set xs)"
  by (induction xs) auto

lemma insert_by_sorted:
  assumes "\<forall>x y. f x y \<le> 0 \<or> f y x \<le> 0" "\<forall>x y z. f x y \<le> 0 \<longrightarrow> f y z \<le> 0 \<longrightarrow> f x z \<le> 0"
    "sorted_wrt (\<lambda>x y. f x y \<le> 0) xs"
  shows "sorted_wrt (\<lambda>x y. f x y \<le> 0) (insert_by f x xs)"
  using assms(3)
proof (induction xs)
  case (Cons y ys)
  then show ?case using assms(1,2) by (auto split: if_splits)
qed simp

lemma sort_by_sorted:
  assumes "\<forall>x y. f x y \<le> 0 \<or> f y x \<le> 0" "\<forall>x y z. f x y \<le> 0 \<longrightarrow> f y z \<le> 0 \<longrightarrow> f x z \<le> 0"
  shows "sorted_wrt (\<lambda>x y. f x y \<le> 0) (sort_by f xs)"
  by (induction xs) (simp_all add: insert_by_sorted [OF assms])

lemma sort_by_ok: "qsort_ok sort_by"
  unfolding qsort_ok_def using sort_by_sorted by (intro allI conjI impI) (simp, blast)

lemma by_length_ok: "collate_ok by_length"
  by (auto simp: collate_ok_def by_length_def)

definition two_texts :: string_pager where
  "two_texts = snd (StringPager_add bump_system (Some ''a'') (snd (StringPager_add bump_system (Some ''bb'')
     (StringPager_new 4096 256))))"

lemmas string_eval = StringPager_add_def StringPager_new_def allocate_def and_then_def pager_eval text_arg_def
  append_member_def prepend_member_def LinkedObject_new_root_def LinkedObject_new_def LinkedObject_enlist_def

lemma two_texts_ok:
  obtains its where "string_ok two_texts its" "texts its = [''bb'', ''a'']"
proof -
  let ?s0 = "StringPager_new 4096 256"
  have s0: "string_ok ?s0 []"
    by (rule StringPager_new_ok) (simp add: good_pagesize_def memalloc_new_def)
  obtain s1 where s1: "StringPager_add bump_system (Some ''bb'') ?s0 = (Inr (), s1)"
    by (simp add: string_eval)
  obtain a b where ok1: "string_ok s1 [(a, b, ''bb'')]"
    using StringPager_add_ok [OF bump_system_ok s0 _ _ s1] by (auto simp: text_arg_def)
  have "fst (StringPager_add bump_system (Some ''a'') (snd (StringPager_add bump_system (Some ''bb'') ?s0))) = Inr ()"
    by (simp add: string_eval)
  then have s2: "StringPager_add bump_system (Some ''a'') s1 = (Inr (), two_texts)"
    by (simp add: s1 two_texts_def prod_eq_iff)
  obtain c d where "string_ok two_texts [(a, b, ''bb''), (c, d, ''a'')]"
    using StringPager_add_ok [OF bump_system_ok ok1 _ _ s2] by (auto simp: text_arg_def)
  then show thesis by (rule that) simp
qed

theorem StringPager_sort_sorted_witness:
  "\<exists>s' its'. StringPager_sort sort_by by_length two_texts = Some s' \<and> mset (texts its') = {#''a'', ''bb''#}
    \<and> sorted_wrt (\<lambda>t u. by_length t u \<le> 0) (texts its')
    \<and> chain (Next (store s')) (root s') (map fst its')"
proof -
  obtain its where its: "string_ok two_texts its" "texts its = [''bb'', ''a'']" by (rule two_texts_ok)
  obtain s' its' where r: "StringPager_sort sort_by by_length two_texts = Some s'" "mset its' = mset its"
    "sorted_wrt (\<lambda>t u. by_length t u \<le> 0) (texts its')" "chain (Next (store s')) (root s') (map fst its')"
    using StringPager_sort_sorted [OF its(1) sort_by_ok by_length_ok] by blast
  have "mset (texts its') = mset (texts its)" using r(2) by simp
  then show ?thesis using r its by (intro exI [of _ s'] exI [of _ its']) simp
qed

theorem StringPager_sort_add_witness:
  "\<exists>s1 s2 us vs l a. StringPager_sort sort_by by_length two_texts = Some s1
    \<and> StringPager_add bump_system (Some ''c'') s1 = (Inr (), s2)
    \<and> chain (Next (store s1)) (root s1) (us @ l # vs) \<and> chain (Next (store s2)) (root s2) (us @ [l, a])
    \<and> (vs \<noteq> [] \<longrightarrow> StringPager_get 2 s2 = Inl NullDereference)"
proof -
  obtain its where its: "string_ok two_texts its" "texts its = [''bb'', ''a'']" by (rule two_texts_ok)
  then have len: "length its = 2" "its \<noteq> []" by (metis length_map length_Cons list.size(3) numeral_2_eq_2, auto)
  obtain s1 where s1: "StringPager_sort sort_by by_length two_texts = Some s1"
    "s1 = two_texts\<lparr>store := store s1, root := root s1, idx := idx s1\<rparr>"
    using StringPager_sort_ok [OF its(1) sort_by_ok, of by_length] by blast
  have "mem s1 = mem two_texts" "members s1 = members two_texts" "last_member s1 = last_member two_texts"
    by (subst s1(2), simp)+
  then have "fst (StringPager_add bump_system (Some ''c'') s1) = Inr ()"
    by (simp add: two_texts_def string_eval)
  then obtain s2 where s2: "StringPager_add bump_system (Some ''c'') s1 = (Inr (), s2)" by (metis prod.collapse)
  show ?thesis
    using StringPager_sort_add [OF bump_system_ok its(1) sort_by_ok len(2) _ s1(1) s2] s1(1) s2 len by fastforce
qed

section \<open>Defects\<close>

text \<open>\<open>set\<close> with an index in range always replaces the text of the first member.\<close>

lemma StringPager_set_first:
  assumes "string_ok s its" "ind < length its" "StringPager_set e ind t s = (Inr (), s')"
  shows "\<exists>b. payload s' = (payload s)(fst (hd its) := Some b)"
proof -
  have "root s = Some (fst (hd its))" "members s = length its"
    using string_okD(2) [OF assms(1)] assms(2) by (cases its; auto simp: paged_ok_def)+
  then show ?thesis
    using assms(2,3) by (auto simp: StringPager_set_def and_then_def allocate_def split: prod.splits sum.splits)
qed

text \<open>With the default page size of 256 bytes the array of thirty members does not fit into a page.\<close>

lemma StringPager_list_thirty:
  assumes "pagesize (mem s) = 256" "30 \<le> members s" "members s < 2 ^ 32 - 1" "idx s = None"
  shows "StringPager_list e s = Some (Inl LengthError, s)"
proof -
  have "size_minus 256 16 = 240" by (simp add: size_minus_def)
  then have "allocate e (sizeof_ptr * ((members s + 1) mod 2 ^ 32)) s = (Inl LengthError, s)"
    using assms(1-3) by (simp add: allocate_def memalloc_alloc_def)
  then show ?thesis using assms(4) by (simp add: StringPager_list_def list_members_def)
qed

section \<open>Splitting and joining\<close>

text \<open>Texts with a separator between them.\<close>

fun joined :: "cstr \<Rightarrow> cstr list \<Rightarrow> cstr" where
  "joined sep [] = []"
| "joined sep [t] = t"
| "joined sep (t # ts) = t @ sep @ joined sep ts"

lemma join_loop_chain:
  assumes "chain nxt mp (map fst its)" "\<And>it. it \<in> set its \<Longrightarrow> txt (fst it) = Some (snd (snd it))"
  shows "join_loop nxt txt mid suf mp tmp =
    Some (tmp @ joined mid (texts its) @ (if its = [] then [] else suf))"
  using assms
proof (induction its arbitrary: mp tmp)
  case Nil
  then show ?case by (subst join_loop.simps) simp
next
  case (Cons it its)
  have mp: "mp = Some (fst it)" "chain nxt (nxt (fst it)) (map fst its)" using Cons.prems(1) by auto
  have IH: "join_loop nxt txt mid suf (nxt (fst it)) tmp' =
      Some (tmp' @ joined mid (texts its) @ (if its = [] then [] else suf))" for tmp'
    using Cons.prems(2) by (intro Cons.IH [OF mp(2)]) auto
  show ?case
  proof (cases its)
    case Nil
    then show ?thesis using mp Cons.prems(2) [of it] IH by (subst join_loop.simps) (auto simp: Let_def)
  next
    case (Cons it' its')
    then show ?thesis using mp Cons.prems(2) [of it] IH by (subst join_loop.simps) (auto simp: Let_def)
  qed
qed

lemma StringPager_join_ok:
  assumes s: "string_ok s its"
  shows "StringPager_join prefix middle suffix s =
    Some (if its = [] then [] else text_arg prefix @ (joined (text_arg middle) (texts its)) @ text_arg suffix)"
proof -
  have c: "chain (Next (store s)) (root s) (map fst its)" "members s = length its"
    using string_okD(2) [OF s] by (auto simp: paged_ok_def)
  have "member_text s (fst it) = Some (snd (snd it))" if "it \<in> set its" for it
    using string_okD(5,6) [OF s] that read_text_holds by (cases it) (auto simp: member_text_def)
  from join_loop_chain [OF c(1) this] c(2) show ?thesis by (simp add: StringPager_join_def)
qed

lemma strstr_first: "sep \<noteq> [] \<Longrightarrow> hd sep \<notin> set t \<Longrightarrow> strstr (t @ sep @ rest) sep = Some (length t)"
proof (induction t)
  case Nil
  then show ?case by (cases sep) auto
next
  case (Cons c t)
  then show ?case by (cases sep) auto
qed

lemma strstr_none: "sep \<noteq> [] \<Longrightarrow> hd sep \<notin> set t \<Longrightarrow> strstr t sep = None"
  by (induction t) (auto simp: neq_Nil_conv)

definition separable :: "cstr \<Rightarrow> cstr list \<Rightarrow> bool" where
  "separable sep ts \<longleftrightarrow> sep \<noteq> [] \<and> (\<forall>t \<in> set ts. t \<noteq> [] \<and> hd sep \<notin> set t \<and> NUL \<notin> set t)"

definition appended :: "string_pager \<Rightarrow> (addr \<times> addr \<times> cstr) list \<Rightarrow> cstr list \<Rightarrow> bool" where
  "appended s its ts \<longleftrightarrow> (\<exists>its'. string_ok s (its @ its') \<and> texts its' = ts)"

lemma appended_Nil: "string_ok s its \<Longrightarrow> appended s its []"
  by (simp add: appended_def)

lemma appended_Cons: "appended s (its @ [(p, b, t)]) ts \<Longrightarrow> appended s its (t # ts)"
  unfolding appended_def by (metis (no_types, lifting) append.assoc append_Cons append_Nil list.simps(9) snd_conv)

lemma split_loop_ok:
  assumes "system_ok e" "string_ok s its" "separable sep ts" "found \<or> length ts \<noteq> 1"
    "length its + length ts < 2 ^ 32 - 1" "split_loop e sep (joined sep ts) found cnt s = (r, s')"
  shows "r = Inr (cnt + length ts) \<and> appended s' its ts
    \<or> (\<exists>x \<in> alloc_errors. r = Inl x \<and> (\<exists>k. appended s' its (take k ts)))"
  using assms(2-)
proof (induction ts arbitrary: its s found cnt)
  case Nil
  then show ?case by (auto simp: split_loop.simps appended_Nil)
next
  case (Cons t ts)
  note IH = Cons.IH and len = Cons.prems(4)
  have sep: "sep \<noteq> []" and t: "t \<noteq> []" "hd sep \<notin> set t" "NUL \<notin> set t" and ts: "separable sep ts"
    using Cons.prems(2) by (auto simp: separable_def)
  obtain r1 s1 where a: "StringPager_add e (Some t) s = (r1, s1)" by fastforce
  have add: "(\<exists>x \<in> alloc_errors. r1 = Inl x \<and> string_ok s1 its) \<or> r1 = Inr () \<and> (\<exists>a b. string_ok s1 (its @ [(a, b, t)]))"
    using StringPager_add_ok [OF assms(1) Cons.prems(1) _ _ a] t Cons.prems(4) by (auto simp: text_arg_def)
  have step: "(r, s') = and_then (r1, s1) (\<lambda>_ s. if ts = [] then (Inr (cnt + 1), s)
      else split_loop e sep (joined sep ts) True (cnt + 1) s)"
  proof (cases ts)
    case Nil
    then show ?thesis
      using Cons.prems(3,5) t strstr_none [OF sep t(2)] a by (simp add: split_loop.simps [of e sep t] and_then_def)
  next
    case (Cons u us)
    then have "(joined sep (t # ts)) = t @ sep @ (joined sep ts)" by simp
    then show ?thesis
      using \<open>split_loop e sep (joined sep (t # ts)) found cnt s = (r, s')\<close> t sep Cons a
        strstr_first [OF sep t(2), of "joined sep ts"]
      by (simp add: split_loop.simps [of e sep "t @ sep @ _"] and_then_def)
  qed
  from add show ?case
  proof
    assume "\<exists>x \<in> alloc_errors. r1 = Inl x \<and> string_ok s1 its"
    then show ?thesis using step by (auto simp: and_then_def intro!: exI [of _ 0] appended_Nil)
  next
    assume "r1 = Inr () \<and> (\<exists>a b. string_ok s1 (its @ [(a, b, t)]))"
    then obtain p b where ok: "r1 = Inr ()" "string_ok s1 (its @ [(p, b, t)])" by auto
    show ?thesis
    proof (cases "ts = []")
      case True
      then show ?thesis using step ok appended_Cons [OF appended_Nil] by (auto simp: and_then_def)
    next
      case False
      then have "split_loop e sep (joined sep ts) True (cnt + 1) s1 = (r, s')"
        using step ok by (simp add: and_then_def)
      from IH [OF ok(2) ts _ _ this] have "r = Inr (cnt + 1 + length ts) \<and> appended s' (its @ [(p, b, t)]) ts
        \<or> (\<exists>x \<in> alloc_errors. r = Inl x \<and> (\<exists>k. appended s' (its @ [(p, b, t)]) (take k ts)))"
        using len by simp
      then show ?thesis using appended_Cons take_Suc_Cons by (metis add_Suc_right add_Suc_shift length_Cons plus_1_eq_Suc add.assoc)
    qed
  qed
qed

text \<open>Splitting a text at a separator and joining the pieces gives the text back: for at least two pieces
  that are not empty and do not contain the first character of the separator, \<open>split\<close> appends exactly the
  pieces and counts them, unless memory runs out, and \<open>join\<close> restores the text.\<close>

theorem StringPager_split_join:
  assumes "system_ok e" "good_pagesize (memalloc_new paging sz)" "separable sep ts" "2 \<le> length ts" "length ts < 2 ^ 32 - 1"
    "StringPager_split e sep (joined sep ts) (StringPager_new paging sz) = (r, s)"
  shows "(\<exists>x. r = Inl x \<and> x \<in> alloc_errors)
    \<or> r = Inr (length ts) \<and> (\<exists>its. string_ok s its \<and> texts its = ts)
        \<and> StringPager_join None (Some sep) None s = Some (joined sep ts)"
proof -
  have "r = Inr (0 + length ts) \<and> appended s [] ts \<or> (\<exists>x \<in> alloc_errors. r = Inl x \<and> (\<exists>k. appended s [] (take k ts)))"
    by (rule split_loop_ok [OF assms(1) StringPager_new_ok [OF assms(2)] assms(3) _ _ assms(6) [unfolded StringPager_split_def]])
      (use assms(4,5) in auto)
  moreover have "StringPager_join None (Some sep) None s = Some (joined sep ts)" if "string_ok s its" "texts its = ts" for its
    using StringPager_join_ok [OF that(1), of None "Some sep" None] that(2) assms(4) by (auto simp: text_arg_def)
  ultimately show ?thesis by (auto simp: appended_def)
qed

theorem StringPager_split_join_witness:
  "\<exists>r s. StringPager_split bump_system '', '' ''ab, c, def'' (StringPager_new 4096 256) = (r, s) \<and> r = Inr 3
    \<and> StringPager_join None (Some '', '') None s = Some ''ab, c, def''"
proof -
  obtain r s where rs: "StringPager_split bump_system '', '' (joined '', '' [''ab'', ''c'', ''def'']) (StringPager_new 4096 256) = (r, s)"
    by fastforce
  have "r = Inr 3"
    using rs by (simp add: StringPager_split_def split_loop.simps string_eval) (simp add: numeral_3_eq_3)
  moreover have "good_pagesize (memalloc_new 4096 256)" by (simp add: pager_eval good_pagesize_def)
  ultimately show ?thesis
    using StringPager_split_join [OF bump_system_ok _ _ _ _ rs] rs by (auto simp: separable_def)
qed

end
