(* ===== verification/Keydata.thy ===== *)
theory Keydata
  imports Buffer "HOL-Library.Monad_Syntax"
begin

text \<open>
  Configuration files of \<open>corelib/keydata.cpp\<close>: \<open>keydata\<close>, a section of keys and values, and
  \<open>keyfile\<close>, the sections of a file with its defaults.

  The ordered lists of a section and of a file are lists (\<open>Linked\<close> shows that an \<open>OrderedIndex\<close> behaves
  like one), a pointer to a section is its position, and allocation in the pages of the file (\<open>Pager\<close>)
  is assumed to succeed. The line buffer of \<open>load\<close> is modelled byte by byte with the functions of \<open>Buffer\<close>.
  The file that is read is its remaining text, with a flag that says whether reading beyond the text
  is the end of the file or a read error.
\<close>

section \<open>Sections\<close>

record keydata =
  name :: cstr
  entries :: "(cstr \<times> cstr) list"

record keyfile =
  defaults :: "keydata option"
  sections :: "keydata list"
  errcode :: int

abbreviation EBADF :: int where
  "EBADF \<equiv> 9"

text \<open>\<open>strcasecmp\<close> in the C locale.\<close>

definition eq_case :: "cstr \<Rightarrow> cstr \<Rightarrow> bool" where
  "eq_case a b \<longleftrightarrow> map to_lower a = map to_lower b"

fun keydata_get_loop :: "cstr \<Rightarrow> (cstr \<times> cstr) list \<Rightarrow> cstr option" where
  "keydata_get_loop key [] = None"
| "keydata_get_loop key ((i, v) # keys) = (if eq_case key i then Some v else keydata_get_loop key keys)"

definition keydata_get :: "cstr \<Rightarrow> keydata \<Rightarrow> cstr option" where
  "keydata_get key d = keydata_get_loop key (entries d)"

text \<open>The loop that takes the first entry with the key out of the list.\<close>

fun delist_key :: "cstr \<Rightarrow> (cstr \<times> cstr) list \<Rightarrow> (cstr \<times> cstr) list" where
  "delist_key key [] = []"
| "delist_key key ((i, v) # keys) = (if eq_case key i then keys else (i, v) # delist_key key keys)"

definition keydata_clear :: "cstr \<Rightarrow> keydata \<Rightarrow> keydata" where
  "keydata_clear key d = d\<lparr>entries := delist_key key (entries d)\<rparr>"

definition keyvalue_new :: "cstr \<Rightarrow> cstr option \<Rightarrow> cstr \<times> cstr" where
  "keyvalue_new kv dv = (kv, case dv of Some v \<Rightarrow> v | None \<Rightarrow> [])"

definition keydata_set :: "cstr \<Rightarrow> cstr option \<Rightarrow> keydata \<Rightarrow> keydata" where
  "keydata_set key v d = d\<lparr>entries := delist_key key (entries d) @ [keyvalue_new key v]\<rparr>"

section \<open>Files of sections\<close>

definition keydata_new :: "cstr \<Rightarrow> keydata" where
  "keydata_new i = \<lparr>name = i, entries = []\<rparr>"

definition keydata_new_defaults :: keydata where
  "keydata_new_defaults = \<lparr>name = ''-'', entries = []\<rparr>"

definition keyfile_new :: keyfile where
  "keyfile_new = \<lparr>defaults = None, sections = [], errcode = 0\<rparr>"

fun keyfile_get_loop :: "cstr \<Rightarrow> keydata list \<Rightarrow> nat option" where
  "keyfile_get_loop key [] = None"
| "keyfile_get_loop key (d # keys) = (if eq_case key (name d) then Some 0 else map_option Suc (keyfile_get_loop key keys))"

definition keyfile_get :: "cstr \<Rightarrow> keyfile \<Rightarrow> nat option" where
  "keyfile_get key f = keyfile_get_loop key (sections f)"

definition keyfile_create :: "cstr \<Rightarrow> keyfile \<Rightarrow> nat \<times> keyfile" where
  "keyfile_create i f =
     (let secs = (case keyfile_get i f of
                    Some p \<Rightarrow> take p (sections f) @ drop (Suc p) (sections f)
                  | None \<Rightarrow> sections f)
      in (length secs, f\<lparr>sections := secs @ [keydata_new i]\<rparr>))"

definition keyfile_release :: "keyfile \<Rightarrow> keyfile" where
  "keyfile_release f = f\<lparr>defaults := None, sections := []\<rparr>"

definition keyfile_assign :: "keyfile \<Rightarrow> keyfile \<Rightarrow> keyfile \<times> keyfile" where
  "keyfile_assign f source =
     (\<lparr>defaults = defaults source, sections = sections source, errcode = errcode source\<rparr>, keyfile_new)"

text \<open>\<open>set\<close> on the section at a position, and on the defaults.\<close>

definition section_set :: "nat \<Rightarrow> cstr \<Rightarrow> cstr option \<Rightarrow> keyfile \<Rightarrow> keyfile" where
  "section_set p key v f = f\<lparr>sections := (sections f)[p := keydata_set key v (sections f ! p)]\<rparr>"

definition defaults_set :: "cstr \<Rightarrow> cstr option \<Rightarrow> keyfile \<Rightarrow> keyfile" where
  "defaults_set key v f = f\<lparr>defaults := map_option (keydata_set key v) (defaults f)\<rparr>"

text \<open>The section with a name, created when there is none.\<close>

definition section_for :: "cstr \<Rightarrow> keyfile \<Rightarrow> nat \<times> keyfile" where
  "section_for i f = (case keyfile_get i f of Some p \<Rightarrow> (p, f) | None \<Rightarrow> keyfile_create i f)"

fun section_set_all :: "nat \<Rightarrow> (cstr \<times> cstr) list \<Rightarrow> keyfile \<Rightarrow> keyfile" where
  "section_set_all p [] f = f"
| "section_set_all p ((i, v) # vp) f = section_set_all p vp (section_set p i (Some v) f)"

definition keyfile_load_keydata :: "keydata \<Rightarrow> keyfile \<Rightarrow> keyfile" where
  "keyfile_load_keydata d f = (case section_for (name d) f of (p, f) \<Rightarrow> section_set_all p (entries d) f)"

fun defaults_set_all :: "(cstr \<times> cstr) list \<Rightarrow> keyfile \<Rightarrow> keyfile" where
  "defaults_set_all [] f = f"
| "defaults_set_all ((i, v) # vp) f = defaults_set_all vp (defaults_set i (Some v) f)"

fun load_sections :: "keydata list \<Rightarrow> keyfile \<Rightarrow> keyfile" where
  "load_sections [] f = f"
| "load_sections (d # kp) f =
     load_sections kp (case section_for (name d) f of (p, f) \<Rightarrow> section_set_all p (entries d) f)"

definition with_defaults :: "keyfile \<Rightarrow> keyfile" where
  "with_defaults f = (if defaults f = None then f\<lparr>defaults := Some keydata_new_defaults\<rparr> else f)"

definition keyfile_load_keyfile :: "keyfile \<Rightarrow> keyfile \<Rightarrow> keyfile" where
  "keyfile_load_keyfile copy f =
     load_sections (sections copy)
       (case defaults copy of None \<Rightarrow> f | Some d \<Rightarrow> defaults_set_all (entries d) (with_defaults f))"

section \<open>Saving\<close>

abbreviation quote_char :: char where
  "quote_char \<equiv> CHR 0x22"

abbreviation newline :: char where
  "newline \<equiv> CHR 0x0A"

definition save_entry :: "cstr \<times> cstr \<Rightarrow> cstr" where
  "save_entry kv =
     (case kv of (i, v) \<Rightarrow>
        if quote_char \<in> set v then i @ ''='' @ v @ [newline]
        else i @ ''='' @ [quote_char] @ v @ [quote_char, newline])"

definition save_section :: "keydata \<Rightarrow> cstr" where
  "save_section d = ''['' @ name d @ '']'' @ [newline] @ concat (map save_entry (entries d)) @ [newline]"

definition save_text :: "keyfile \<Rightarrow> cstr" where
  "save_text f =
     concat (map save_entry (case defaults f of None \<Rightarrow> [] | Some d \<Rightarrow> entries d)) @ [newline]
     @ concat (map save_section (sections f))"

text \<open>\<open>save\<close>: whether the file could be opened is a parameter; the result is what it then holds.\<close>

definition keyfile_save :: "bool \<Rightarrow> cstr \<Rightarrow> keyfile \<Rightarrow> (bool \<times> cstr option) \<times> keyfile" where
  "keyfile_save opens fname f =
     (if fname = [] then ((False, None), f)
      else if \<not> opens then ((False, None), f\<lparr>errcode := EBADF\<rparr>)
      else ((True, Some (save_text f)), f))"

section \<open>Loading\<close>

record in_file =
  content :: cstr
  bad :: bool
  eof :: bool
  err :: bool

definition is_space :: "char \<Rightarrow> bool" where
  "is_space c \<longleftrightarrow> c = CHR '' '' \<or> (9 \<le> (of_char c :: nat) \<and> (of_char c :: nat) \<le> 13)"

definition is_alnum :: "char \<Rightarrow> bool" where
  "is_alnum c \<longleftrightarrow>
     (48 \<le> (of_char c :: nat) \<and> (of_char c :: nat) \<le> 57)
     \<or> (65 \<le> (of_char c :: nat) \<and> (of_char c :: nat) \<le> 90)
     \<or> (97 \<le> (of_char c :: nat) \<and> (of_char c :: nat) \<le> 122)"

text \<open>
  \<open>fgets\<close>: at most \<open>sz - 1\<close> characters up to the end of the line. The flag of the result says that
  it did not return a null pointer.
\<close>

fun line_of :: "nat \<Rightarrow> cstr \<Rightarrow> cstr" where
  "line_of 0 s = []"
| "line_of (Suc n) [] = []"
| "line_of (Suc n) (c # s) = (if c = newline then [c] else c # line_of n s)"

definition fgets :: "nat \<Rightarrow> nat \<Rightarrow> in_file \<Rightarrow> char list \<Rightarrow> (bool \<times> in_file \<times> char list) option" where
  "fgets pos sz fp b =
     (let l = line_of (sz - 1) (content fp); rest = drop (length l) (content fp);
          hit = rest = [] \<and> length l < sz - 1 \<and> (l = [] \<or> last l \<noteq> newline);
          fp' = fp\<lparr>content := rest, eof := eof fp \<or> (hit \<and> \<not> bad fp), err := err fp \<or> (hit \<and> bad fp)\<rparr>
      in if hit \<and> (l = [] \<or> bad fp) then Some (False, fp', b)
         else do { b \<leftarrow> memcpy pos (l @ [NUL]) b; Some (True, fp', b) })"

text \<open>\<open>strchr\<close> for a character that is not the terminator.\<close>

fun index_of :: "char \<Rightarrow> cstr \<Rightarrow> nat option" where
  "index_of c [] = None"
| "index_of c (x # s) = (if x = c then Some 0 else map_option Suc (index_of c s))"

definition blanks :: cstr where
  "blanks = [CHR '' '', CHR 0x09]"

definition value_blanks :: cstr where
  "value_blanks = [CHR '' '', CHR 0x09, CHR 0x0D, CHR 0x0A]"

definition line_ends :: cstr where
  "line_ends = [CHR 0x0D, CHR 0x0A, CHR 0x09, CHR '' '']"

definition quotes :: cstr where
  "quotes = [CHR 0x22, CHR 0x22, CHR 0x27, CHR 0x27, CHR ''{'', CHR ''}'', CHR ''('', CHR '')'']"

text \<open>A function that returns a pointer into the buffer, applied from a position on.\<close>

definition from_pos :: "nat \<Rightarrow> (char list \<Rightarrow> (nat \<times> char list) option) \<Rightarrow> char list \<Rightarrow> (nat \<times> char list) option" where
  "from_pos p f b = map_option (\<lambda>(q, b'). (p + q, take p b @ b')) (f (drop p b))"

text \<open>What is done with the line in the buffer; \<open>None\<close> as section stands for the defaults.\<close>

definition parse_section :: "nat \<Rightarrow> cstr \<Rightarrow> char list \<Rightarrow> nat option \<Rightarrow> keyfile \<Rightarrow> (nat option \<times> keyfile \<times> char list) option" where
  "parse_section lp s b sec f =
     (case index_of (CHR '']'') s of
        None \<Rightarrow> Some (sec, f, b)
      | Some k \<Rightarrow> do {
          b \<leftarrow> poke (lp + k) NUL b;
          (q, b) \<leftarrow> from_pos (lp + 1) (\<lambda>b. cstr_strip b blanks) b;
          i \<leftarrow> text_at q b;
          let (p, f) = section_for i f;
          Some (Some p, f, b)
        })"

definition parse_entry :: "nat \<Rightarrow> cstr \<Rightarrow> char list \<Rightarrow> nat option \<Rightarrow> keyfile \<Rightarrow> (nat option \<times> keyfile \<times> char list) option" where
  "parse_entry lp s b sec f =
     (case index_of (CHR ''='') s of
        None \<Rightarrow> Some (sec, f, b)
      | Some k \<Rightarrow> do {
          b \<leftarrow> poke (lp + k) NUL b;
          (q, b) \<leftarrow> from_pos lp (\<lambda>b. cstr_strip b blanks) b;
          key \<leftarrow> text_at q b;
          (r, b) \<leftarrow> from_pos (lp + k + 1) (\<lambda>b. cstr_strip b value_blanks) b;
          u \<leftarrow> cstr_unquote (drop r b) quotes;
          (v, b) \<leftarrow> (case u of
                        None \<Rightarrow> Some (None, b)
                      | Some (q, b') \<Rightarrow> do { v \<leftarrow> text_at q b'; Some (Some v, take r b @ b') });
          Some (sec, (case sec of Some p \<Rightarrow> section_set p key v f | None \<Rightarrow> defaults_set key v f), b)
        })"

definition parse_line :: "char list \<Rightarrow> nat option \<Rightarrow> keyfile \<Rightarrow> (nat option \<times> keyfile \<times> char list) option" where
  "parse_line b sec f =
     do {
       t \<leftarrow> text_at 0 b;
       let lp = length (takeWhile is_space t);
       let s = drop lp t;
       if s = [] then Some (sec, f, b)
       else if hd s = CHR ''['' then parse_section lp s b sec f
       else if \<not> is_alnum (hd s) \<or> CHR ''='' \<notin> set s then Some (sec, f, b)
       else parse_entry lp s b sec f
     }"

text \<open>
  One turn of the loop: \<open>Inl\<close> goes on with the next state, \<open>Inr\<close> leaves the loop. The state is the
  position and size for \<open>fgets\<close>, the file, the buffer, the section and the key file.
\<close>

record load_state =
  lpos :: nat
  lsize :: nat
  input :: in_file
  linebuf :: "char list"
  sect :: "nat option"
  kfile :: keyfile

definition load_read :: "load_state \<Rightarrow> (in_file \<times> keyfile \<times> char list) option" where
  "load_read s =
     do {
       b \<leftarrow> poke (lpos s) NUL (linebuf s);
       (ok, fp, b) \<leftarrow> fgets (lpos s) (lsize s) (input s) b;
       if ok
       then do { b \<leftarrow> at_pos (lpos s) (\<lambda>b. cstr_chop b line_ends) b; Some (fp, kfile s, b) }
       else do { b \<leftarrow> poke (lpos s) NUL b; Some (fp, (kfile s)\<lparr>errcode := (if err fp then 1 else 0)\<rparr>, b) }
     }"

definition load_line :: "load_state \<Rightarrow> in_file \<Rightarrow> keyfile \<Rightarrow> char list \<Rightarrow> (load_state + keyfile) option" where
  "load_line s fp f b =
     do {
       n \<leftarrow> strlen_at (lpos s) b;
       if n \<noteq> 0 \<and> cchar b (lpos s + n - 1) = CHR 0x5C
       then Some (Inl (s\<lparr>lpos := lpos s + n - 1, lsize := length b - (lpos s + n - 1), input := fp, linebuf := b, kfile := f\<rparr>))
       else if cchar b 0 = NUL \<and> eof fp then Some (Inr f)
       else do {
         (sec, f, b) \<leftarrow> parse_line b (sect s) f;
         Some (Inl (s\<lparr>lpos := 0, lsize := length b, input := fp, linebuf := b, sect := sec, kfile := f\<rparr>))
       }
     }"

definition load_step :: "load_state \<Rightarrow> (load_state + keyfile) option" where
  "load_step s = do { (fp, f, b) \<leftarrow> load_read s; load_line s fp f b }"

partial_function (option) load_loop :: "load_state \<Rightarrow> keyfile option" where
  "load_loop s = do { r \<leftarrow> load_step s; case r of Inl s \<Rightarrow> load_loop s | Inr f \<Rightarrow> Some f }"

text \<open>\<open>load\<close>: the buffer is not initialised; whether and what is opened is a parameter.\<close>

definition keyfile_load :: "char list \<Rightarrow> in_file option \<Rightarrow> cstr \<Rightarrow> keyfile \<Rightarrow> keyfile option" where
  "keyfile_load buf opened fname f =
     (if fname = [] then Some f
      else
        (case opened of
           None \<Rightarrow> Some (f\<lparr>errcode := EBADF\<rparr>)
         | Some fp \<Rightarrow>
             load_loop \<lparr>lpos = 0, lsize = length buf, input = fp, linebuf = buf, sect = None,
               kfile = with_defaults (f\<lparr>errcode := 0\<rparr>)\<rparr>))"

section \<open>The effect of a line\<close>

definition stripped :: "cstr \<Rightarrow> cstr \<Rightarrow> cstr" where
  "stripped clist t = chopped clist (dropWhile (\<lambda>c. c \<in> set clist) t)"

definition unquoted_value :: "cstr \<Rightarrow> cstr option" where
  "unquoted_value v = (if v = [] then None else Some (case unquoted v quotes of None \<Rightarrow> v | Some u \<Rightarrow> u))"

definition set_in :: "nat option \<Rightarrow> cstr \<Rightarrow> cstr option \<Rightarrow> keyfile \<Rightarrow> keyfile" where
  "set_in sec key v f = (case sec of Some p \<Rightarrow> section_set p key v f | None \<Rightarrow> defaults_set key v f)"

definition line_effect :: "cstr \<Rightarrow> nat option \<times> keyfile \<Rightarrow> nat option \<times> keyfile" where
  "line_effect t st =
     (case st of (sec, f) \<Rightarrow>
       let s = dropWhile is_space t
       in if s = [] then (sec, f)
          else if hd s = CHR ''[''
          then (case index_of (CHR '']'') s of
                  None \<Rightarrow> (sec, f)
                | Some k \<Rightarrow> (case section_for (stripped blanks (tl (take k s))) f of (p, f) \<Rightarrow> (Some p, f)))
          else if \<not> is_alnum (hd s) then (sec, f)
          else (case index_of (CHR ''='') s of
                  None \<Rightarrow> (sec, f)
                | Some k \<Rightarrow> (sec, set_in sec (stripped blanks (take k s))
                    (unquoted_value (stripped value_blanks (drop (Suc k) s))) f)))"

lemma index_of_Some: "index_of c s = Some k \<Longrightarrow> s = take k s @ c # drop (Suc k) s \<and> k < length s"
  by (induction s arbitrary: k) (auto split: if_splits)

lemma index_of_None: "index_of c s = None \<longleftrightarrow> c \<notin> set s"
  by (induction s) auto

lemma index_of_append: "c \<notin> set a \<Longrightarrow> index_of c (a @ c # s) = Some (length a)"
  by (induction a) auto

lemma NUL_stripped: "NUL \<notin> set t \<Longrightarrow> NUL \<notin> set (stripped clist t)"
  unfolding stripped_def using set_chopped set_dropWhileD by fastforce

lemma strip_result:
  assumes "NUL \<notin> set t"
  obtains p mid where "cstr_strip (t @ NUL # junk) clist = Some (p, mid @ junk)" "length mid = Suc (length t)"
    "p \<le> length t" "text_at p (mid @ junk) = Some (stripped clist t)"
proof -
  let ?p = "trim_loop clist t"
  have p: "?p \<le> length t" "drop ?p t = dropWhile (\<lambda>c. c \<in> set clist) t"
    using assms by (simp_all add: trim_loop_drop) (simp add: trim_loop_length length_takeWhile_le)
  let ?u = "drop ?p t"
  have u: "NUL \<notin> set ?u" by (meson assms in_set_dropD)
  let ?c = "chopped clist ?u"
  let ?mid = "take ?p t @ ?c @ NUL # replicate (length ?u - length ?c) NUL"
  have "cstr_chop (?u @ NUL # junk) clist = Some (?c @ NUL # replicate (length ?u - length ?c) NUL @ junk)"
    using chop_loop_result [OF u] u by (simp add: cstr_chop_def)
  then have "cstr_strip (t @ NUL # junk) clist = Some (?p, ?mid @ junk)"
    using assms p(1) by (simp add: cstr_strip_def cstr_trim_def at_pos_def Let_def)
  moreover have "length ?mid = Suc (length t)" using p(1) length_chopped [of clist ?u] by simp
  moreover have "text_at ?p (?mid @ junk) = Some (stripped clist t)"
  proof -
    have "NUL \<notin> set ?c" using u set_chopped by blast
    then have "text_at 0 (?c @ NUL # replicate (length ?u - length ?c) NUL @ junk) = Some ?c" by simp
    then show ?thesis using p text_at_pos [of ?p "take ?p t"] by (simp add: stripped_def)
  qed
  ultimately show thesis by (rule that [OF _ _ p(1)])
qed

lemma unquote_result:
  assumes "NUL \<notin> set t"
  obtains "t = []" "cstr_unquote (t @ NUL # junk) quotes = Some None"
  | q b where "t \<noteq> []" "cstr_unquote (t @ NUL # junk) quotes = Some (Some (q, b))" "length b = length t + Suc (length junk)"
      "text_at q b = Some (case unquoted t quotes of None \<Rightarrow> t | Some u \<Rightarrow> u)" "NUL \<in> set b"
proof (cases "t = []")
  case True
  then show thesis using that(1) by (simp add: cstr_unquote_def strlen_at_def text_at_def)
next
  case False
  have l: "unquote_loop (t @ NUL # junk) (length t) quotes =
    (case unquoted t quotes of None \<Rightarrow> Some (0, t @ NUL # junk) | Some u \<Rightarrow> Some (1, butlast t @ NUL # NUL # junk))"
    using assms False by (intro unquote_loop_result) (auto simp: quotes_def)
  show thesis
  proof (cases "unquoted t quotes")
    case None
    then show thesis using l False assms by (intro that(2) [of 0 "t @ NUL # junk"]) (auto simp: cstr_unquote_def)
  next
    case (Some u)
    have u: "u = butlast (tl t)" by (rule unquoted_Some [OF Some])
    have "text_at 1 (butlast t @ NUL # NUL # junk) = Some u"
    proof (cases "butlast t")
      case Nil
      with False u show ?thesis by (cases t) (auto simp: text_at_def split: if_splits)
    next
      case (Cons c w)
      with False u have "w = u" by (cases t) (auto split: if_splits)
      moreover have "NUL \<notin> set w" using Cons assms in_set_butlastD [of NUL t] by auto
      ultimately show ?thesis using Cons text_at_pos [of 1 "[c]"] by simp
    qed
    then show thesis using l False assms Some
      by (intro that(2) [of 1 "butlast t @ NUL # NUL # junk"]) (auto simp: cstr_unquote_def)
  qed
qed

lemma text_at_drop: "text_at p b = text_at 0 (drop p b)"
  by (simp add: text_at_def)

lemma from_pos_strip:
  assumes "NUL \<notin> set t" "p = length w"
  obtains q mid where "from_pos p (\<lambda>b. cstr_strip b clist) (w @ t @ NUL # junk) = Some (q, w @ mid @ junk)"
    "length mid = Suc (length t)" "text_at q (w @ mid @ junk) = Some (stripped clist t)"
    "q \<le> p + length t" "p \<le> q"
proof -
  obtain q mid where m: "cstr_strip (t @ NUL # junk) clist = Some (q, mid @ junk)" "length mid = Suc (length t)"
    "q \<le> length t" "text_at q (mid @ junk) = Some (stripped clist t)"
    by (rule strip_result [OF assms(1)])
  have "text_at (p + q) (w @ mid @ junk) = Some (stripped clist t)"
    using m(4) assms(2) unfolding text_at_drop [of "p + q"] text_at_drop [of q] by simp
  then show thesis using m assms(2) by (intro that [of "p + q" mid]) (simp_all add: from_pos_def)
qed

lemma parse_section_effect:
  assumes s: "NUL \<notin> set s" "s \<noteq> []" "hd s = CHR ''[''" and b: "b = w @ s @ NUL # junk"
  shows "\<exists>b'. parse_section (length w) s b sec f =
      (case index_of (CHR '']'') s of
         None \<Rightarrow> Some (sec, f, b')
       | Some k \<Rightarrow> (case section_for (stripped blanks (tl (take k s))) f of (p, f) \<Rightarrow> Some (Some p, f, b')))
    \<and> length b' = length b"
proof (cases "index_of (CHR '']'') s")
  case None
  then show ?thesis by (simp add: parse_section_def)
next
  case (Some k)
  note k = index_of_Some [OF Some]
  have "k \<noteq> 0" using k s(2,3) by (cases s; cases k) auto
  then have "take k s = CHR ''['' # tl (take k s)" using s by (cases s; cases k) auto
  then obtain x where x: "take k s = CHR ''['' # x" "tl (take k s) = x" "length x + 1 = k"
    using k \<open>k \<noteq> 0\<close> by (metis length_Cons length_take min_absorb2 less_imp_le Suc_eq_plus1)
  define rest where "rest = drop (Suc k) s @ NUL # junk"
  have b1: "b = w @ take k s @ CHR '']'' # rest"
    using k b unfolding rest_def by (metis append.assoc append_Cons)
  have "poke (length w + k) NUL ((w @ take k s) @ CHR '']'' # rest) = Some ((w @ take k s) @ NUL # rest)"
    using k by (intro poke_append) simp
  then have pk: "poke (length w + k) NUL b = Some ((w @ [CHR ''['']) @ x @ NUL # rest)"
    using b1 x by simp
  have nx: "NUL \<notin> set x" using s(1) x(1) by (metis in_set_takeD list.set_intros(2))
  obtain q mid where m: "from_pos (length w + 1) (\<lambda>b. cstr_strip b blanks) ((w @ [CHR ''['']) @ x @ NUL # rest)
      = Some (q, (w @ [CHR ''['']) @ mid @ rest)" "length mid = Suc (length x)"
    "text_at q ((w @ [CHR ''['']) @ mid @ rest) = Some (stripped blanks x)"
    by (rule from_pos_strip [OF nx, of "length w + 1" "w @ [CHR ''['']" blanks rest]) auto
  have "length ((w @ [CHR ''['']) @ mid @ rest) = length b"
    using b1 x m(2) k by simp
  then show ?thesis using Some pk m x(2)
    by (intro exI [of _ "(w @ [CHR ''['']) @ mid @ rest"]) (simp add: parse_section_def split: prod.split)
qed

lemma parse_entry_effect:
  assumes s: "NUL \<notin> set s" "index_of (CHR ''='') s = Some k" and b: "b = w @ s @ NUL # junk"
  shows "\<exists>b'. parse_entry (length w) s b sec f =
      Some (sec, set_in sec (stripped blanks (take k s))
        (unquoted_value (stripped value_blanks (drop (Suc k) s))) f, b')
    \<and> length b' = length b \<and> NUL \<in> set b'"
proof -
  let ?a = "take k s" and ?v = "drop (Suc k) s" and ?cl = "value_blanks"
  note k = index_of_Some [OF s(2)]
  have na: "NUL \<notin> set ?a" and nv: "NUL \<notin> set ?v" using s(1) by (auto dest: in_set_takeD in_set_dropD)
  have b1: "b = w @ ?a @ CHR ''='' # ?v @ NUL # junk" using k b by (metis append.assoc append_Cons)
  have "poke (length w + k) NUL ((w @ ?a) @ CHR ''='' # ?v @ NUL # junk) = Some ((w @ ?a) @ NUL # ?v @ NUL # junk)"
    using k by (intro poke_append) simp
  then have pk: "poke (length w + k) NUL b = Some (w @ ?a @ NUL # ?v @ NUL # junk)" using b1 by simp
  obtain q mid where m: "from_pos (length w) (\<lambda>b. cstr_strip b blanks) (w @ ?a @ NUL # ?v @ NUL # junk)
      = Some (q, w @ mid @ ?v @ NUL # junk)" "length mid = Suc (length ?a)"
    "text_at q (w @ mid @ ?v @ NUL # junk) = Some (stripped blanks ?a)"
    by (rule from_pos_strip [OF na refl])
  have "length w + k + 1 = length (w @ mid)" using m(2) k by simp
  then obtain r mid2 where m2: "from_pos (length w + k + 1) (\<lambda>b. cstr_strip b ?cl) ((w @ mid) @ ?v @ NUL # junk)
      = Some (r, (w @ mid) @ mid2 @ junk)" "length mid2 = Suc (length ?v)"
    "text_at r ((w @ mid) @ mid2 @ junk) = Some (stripped ?cl ?v)" "r \<le> length w + k + 1 + length ?v"
    by (rule from_pos_strip [OF nv])
  let ?b3 = "(w @ mid) @ mid2 @ junk"
  obtain junk3 where j: "drop r ?b3 = stripped ?cl ?v @ NUL # junk3" and ns: "NUL \<notin> set (stripped ?cl ?v)"
    using m2(3) unfolding text_at_drop [of r] text_at_split by blast
  have len: "length ?b3 = length b" using b1 m(2) m2(2) k by simp
  from ns show ?thesis
  proof (cases rule: unquote_result [where junk = junk3])
    case 1
    then have "parse_entry (length w) s b sec f = Some (sec, set_in sec (stripped blanks ?a) None f, ?b3)"
      using s(2) pk m(1,3) m2(1) j by (simp add: parse_entry_def set_in_def)
    moreover have "NUL \<in> set ?b3" by (metis j in_set_dropD in_set_conv_decomp)
    ultimately show ?thesis using 1(1) len by (intro exI [of _ ?b3]) (simp add: unquoted_value_def)
  next
    case (2 p b')
    then have "parse_entry (length w) s b sec f = Some (sec, set_in sec (stripped blanks ?a)
        (unquoted_value (stripped ?cl ?v)) f, take r ?b3 @ b')"
      using s(2) pk m(1,3) m2(1) j by (simp add: parse_entry_def set_in_def unquoted_value_def)
    moreover have "length (take r ?b3 @ b') = length b"
      using 2(3) len arg_cong [OF j, of length] by (metis add_Suc_right append_take_drop_id length_Cons length_append)
    ultimately show ?thesis using 2(5) by (intro exI [of _ "take r ?b3 @ b'"]) simp
  qed
qed

lemma parse_line_effect:
  assumes t: "NUL \<notin> set t" and b: "b = t @ NUL # junk"
  shows "\<exists>sec' f' b'. parse_line b sec f = Some (sec', f', b') \<and> line_effect t (sec, f) = (sec', f')
    \<and> length b' = length b"
proof -
  define w where "w = takeWhile is_space t"
  define s where "s = dropWhile is_space t"
  have s: "drop (length w) t = s" by (simp add: dropWhile_eq_drop w_def s_def)
  have b': "b = w @ s @ NUL # junk" using b by (simp add: w_def s_def)
  have ns: "NUL \<notin> set s" using t set_dropWhileD by (fastforce simp: s_def)
  have tx: "text_at 0 b = Some t" using t b by simp
  have p: "parse_line b sec f =
      (if s = [] then Some (sec, f, b)
       else if hd s = CHR ''['' then parse_section (length w) s b sec f
       else if \<not> is_alnum (hd s) \<or> CHR ''='' \<notin> set s then Some (sec, f, b)
       else parse_entry (length w) s b sec f)"
    by (simp only: parse_line_def tx Option.bind.simps Let_def w_def [symmetric] s)
  note e = line_effect_def [of t "(sec, f)", folded s_def]
  consider "s = []" | "s \<noteq> []" "hd s = CHR ''[''" | "s \<noteq> []" "hd s \<noteq> CHR ''[''" by blast
  then show ?thesis
  proof cases
    case 2
    from parse_section_effect [OF ns 2 b', of sec f] 2 p show ?thesis
      by (auto simp: e split: option.splits prod.splits)
  next
    case 3
    show ?thesis
    proof (cases "index_of (CHR ''='') s")
      case None
      then have "CHR ''='' \<notin> set s" by (simp add: index_of_None)
      then show ?thesis using 3 p None by (simp add: e)
    next
      case (Some k)
      then have "CHR ''='' \<in> set s" using index_of_None [of "CHR ''=''" s] by auto
      then show ?thesis using 3 p Some parse_entry_effect [OF ns Some b', of sec f] by (auto simp: e)
    qed
  qed (use p in \<open>simp add: e\<close>)
qed

section \<open>Loading ends\<close>

definition load_ok :: "nat \<Rightarrow> load_state \<Rightarrow> bool" where
  "load_ok n s \<longleftrightarrow> length (linebuf s) = n \<and> lpos s + lsize s = n \<and> 2 \<le> lsize s \<and> \<not> bad (input s)"

lemma text_exists: "NUL \<in> set b \<Longrightarrow> \<exists>t junk. b = t @ NUL # junk \<and> NUL \<notin> set t"
  by (meson split_list_first)

lemma chop_result:
  assumes "NUL \<notin> set t"
  obtains mid where "cstr_chop (t @ NUL # junk) clist = Some (chopped clist t @ NUL # mid @ junk)"
    "length (chopped clist t) + length mid = length t" "NUL \<notin> set (chopped clist t)"
  using assms chop_loop_result [OF assms, of clist junk] length_chopped [of clist t] set_chopped [of clist t]
  by (intro that [of "replicate (length t - length (chopped clist t)) NUL"]) (auto simp: cstr_chop_def)

lemma line_of_take: "\<exists>k. line_of n s = take k s \<and> k \<le> n \<and> k \<le> length s \<and> (n \<noteq> 0 \<longrightarrow> s \<noteq> [] \<longrightarrow> k \<noteq> 0)"
proof (induction n s rule: line_of.induct)
  case (3 n c s)
  show ?case
  proof (cases "c = newline")
    case True
    then show ?thesis by (intro exI [of _ 1]) auto
  next
    case False
    with 3 obtain k where "line_of n s = take k s" "k \<le> n" "k \<le> length s" by blast
    then show ?thesis using False by (intro exI [of _ "Suc k"]) auto
  qed
qed auto

lemma fgets_ok:
  assumes "pos + sz = length b" "2 \<le> sz" "\<not> bad fp"
  obtains "content fp = []" "fgets pos sz fp b = Some (False, fp\<lparr>eof := True\<rparr>, b)"
  | l fp' where "content fp \<noteq> []" "fgets pos sz fp b = Some (True, fp', take pos b @ l @ NUL # drop (pos + Suc (length l)) b)"
      "length (content fp') < length (content fp)" "\<not> bad fp'" "length l < sz"
proof (cases "content fp = []")
  case True
  then have "line_of (sz - 1) (content fp) = []" using assms(2) by (cases "sz - 1") auto
  then show thesis using True assms(2,3) by (intro that(1)) (auto simp: fgets_def)
next
  case False
  obtain k where k: "line_of (sz - 1) (content fp) = take k (content fp)" "k \<le> sz - 1" "k \<le> length (content fp)" "k \<noteq> 0"
    using line_of_take [of "sz - 1" "content fp"] False assms(2) by auto
  let ?l = "take k (content fp)"
  obtain fp' where f: "fgets pos sz fp b = do { b \<leftarrow> memcpy pos (?l @ [NUL]) b; Some (True, fp', b) }"
    "content fp' = drop k (content fp)" "\<not> bad fp'"
    using k False assms(3) by (auto simp: fgets_def Let_def)
  have "memcpy pos (?l @ [NUL]) b = Some (take pos b @ ?l @ NUL # drop (pos + Suc (length ?l)) b)"
    using k assms(1,2) by (simp add: memcpy_def)
  then show thesis using f k False assms(2) by (intro that(2) [of fp' ?l]) auto
qed

definition load_measure :: "load_state \<Rightarrow> nat" where
  "load_measure s = 2 * length (content (input s)) + (if lpos s = 0 then 0 else 1)"

lemma load_read_ok:
  assumes s: "load_ok n s"
  obtains fp f b where "load_read s = Some (fp, f, b)" "length b = n" "NUL \<in> set (drop (lpos s) b)" "\<not> bad fp"
    "content (input s) = [] \<and> content fp = [] \<and> eof fp \<and> b ! lpos s = NUL
      \<or> length (content fp) < length (content (input s))"
proof -
  let ?p = "lpos s"
  have p: "?p < length (linebuf s)" "?p + lsize s = length (linebuf s)" "2 \<le> lsize s" "\<not> bad (input s)" "length (linebuf s) = n"
    using s by (auto simp: load_ok_def)
  define b0 where "b0 = (linebuf s)[?p := NUL]"
  have b0: "poke ?p NUL (linebuf s) = Some b0" "length b0 = n" using p by (auto simp: poke_def b0_def)
  have pb: "?p + lsize s = length b0" using p b0 by simp
  from pb p(3,4) show thesis
  proof (cases rule: fgets_ok)
    case 1
    have "poke ?p NUL b0 = Some (b0[?p := NUL])" using p b0 by (simp add: poke_def)
    moreover have "NUL \<in> set (drop ?p (b0[?p := NUL]))" using p b0 by (simp add: drop_update_swap set_update_memI)
    ultimately show thesis using 1 b0 p
      by (intro that [of "(input s)\<lparr>eof := True\<rparr>" _ "b0[?p := NUL]"]) (auto simp: load_read_def)
  next
    case (2 l fp)
    have "NUL \<in> set (l @ NUL # drop (?p + Suc (length l)) b0)" by simp
    then obtain t junk where t: "l @ NUL # drop (?p + Suc (length l)) b0 = t @ NUL # junk" "NUL \<notin> set t"
      using text_exists by meson
    obtain mid where m: "cstr_chop (t @ NUL # junk) line_ends = Some (chopped line_ends t @ NUL # mid @ junk)"
      "length (chopped line_ends t) + length mid = length t"
      by (rule chop_result [OF t(2)])
    let ?b = "take ?p b0 @ chopped line_ends t @ NUL # mid @ junk"
    have "length l + Suc (n - (?p + Suc (length l))) = length t + Suc (length junk)"
      using arg_cong [OF t(1), of length] b0(2) by simp
    then have "length ?b = n" using m(2) b0(2) 2(5) p by simp
    moreover have "load_read s = Some (fp, kfile s, ?b)"
      using b0 2(2) t m(1) p by (simp add: load_read_def at_pos_def)
    ultimately show thesis using 2 b0 p by (intro that [of fp "kfile s" ?b]) auto
  qed
qed

lemma load_line_ok:
  assumes s: "load_ok n s" and b: "length b = n" "NUL \<in> set (drop (lpos s) b)" "\<not> bad fp"
  obtains (stop) f' where "load_line s fp f b = Some (Inr f')"
  | (go_on) s' where "load_line s fp f b = Some (Inl s')" "load_ok n s'" "input s' = fp"
      "lpos s' = 0 \<or> b ! lpos s \<noteq> NUL" "\<not> (b ! 0 = NUL \<and> eof fp \<and> lpos s = 0)"
proof -
  let ?p = "lpos s"
  have p: "?p < n" "2 \<le> n" using s by (auto simp: load_ok_def)
  obtain t junk where t: "drop ?p b = t @ NUL # junk" "NUL \<notin> set t" using text_exists [OF b(2)] by meson
  have len: "strlen_at ?p b = Some (length t)"
    using t by (simp add: strlen_at_def text_at_drop [of ?p])
  have lt: "?p + length t < n" using arg_cong [OF t(1), of length] b(1) p by simp
  have bp: "b ! ?p = (if t = [] then NUL else hd t)"
    using t(1) p b(1) by (metis add.right_neutral append_Nil hd_append2 hd_drop_conv_nth list.sel(1))
  consider "t \<noteq> []" "cchar b (?p + length t - 1) = CHR 0x5C" | "\<not> (t \<noteq> [] \<and> cchar b (?p + length t - 1) = CHR 0x5C)" "cchar b 0 = NUL" "eof fp"
    | "\<not> (t \<noteq> [] \<and> cchar b (?p + length t - 1) = CHR 0x5C)" "\<not> (cchar b 0 = NUL \<and> eof fp)" by blast
  then show thesis
  proof cases
    case 1
    have "b ! ?p \<noteq> NUL" using 1(1) bp t(2) by (metis hd_in_set)
    moreover have "?p = 0 \<Longrightarrow> b ! 0 \<noteq> NUL" using calculation by simp
    ultimately show thesis using 1 len b lt s
      by (intro go_on [of "s\<lparr>lpos := ?p + length t - 1, lsize := length b - (?p + length t - 1), input := fp, linebuf := b, kfile := f\<rparr>"])
        (auto simp: load_line_def load_ok_def)
  next
    case 2
    then show thesis using len by (intro stop [of f]) (auto simp: load_line_def)
  next
    case 3
    obtain u junk' where u: "b = u @ NUL # junk'" "NUL \<notin> set u"
      using text_exists b(2) by (meson in_set_dropD)
    obtain sec' f' b' where e: "parse_line b (sect s) f = Some (sec', f', b')" "length b' = length b"
      using parse_line_effect [OF u(2,1), of "sect s" f] by blast
    have "\<not> (b ! 0 = NUL \<and> eof fp)" using 3(2) p b(1) by (auto simp: cchar_def)
    then show thesis using 3 len e b p by (intro go_on) (auto simp: load_line_def load_ok_def)
  qed
qed

lemma load_step_ok:
  assumes s: "load_ok n s"
  shows "\<exists>r. load_step s = Some r \<and> (\<forall>s'. r = Inl s' \<longrightarrow> load_ok n s' \<and> load_measure s' < load_measure s)"
proof -
  obtain fp f b where r: "load_read s = Some (fp, f, b)" "length b = n" "NUL \<in> set (drop (lpos s) b)" "\<not> bad fp"
    "content (input s) = [] \<and> content fp = [] \<and> eof fp \<and> b ! lpos s = NUL
      \<or> length (content fp) < length (content (input s))"
    by (rule load_read_ok [OF s])
  show ?thesis
  proof (rule load_line_ok [OF s r(2-4), of f])
    fix f' assume "load_line s fp f b = Some (Inr f')"
    then show ?thesis using r(1) by (simp add: load_step_def)
  next
    fix s' assume l: "load_line s fp f b = Some (Inl s')" "load_ok n s'" "input s' = fp"
      "lpos s' = 0 \<or> b ! lpos s \<noteq> NUL" "\<not> (b ! 0 = NUL \<and> eof fp \<and> lpos s = 0)"
    have "load_measure s' < load_measure s" using r(5) l(3-5) by (auto simp: load_measure_def)
    then show ?thesis using r(1) l(1,2) by (simp add: load_step_def)
  qed
qed

lemma load_loop_total: "load_ok n s \<Longrightarrow> \<exists>f. load_loop s = Some f"
proof (induction "load_measure s" arbitrary: s rule: less_induct)
  case less
  obtain r where r: "load_step s = Some r" "\<And>s'. r = Inl s' \<Longrightarrow> load_ok n s' \<and> load_measure s' < load_measure s"
    using load_step_ok [OF less.prems] by blast
  show ?case
  proof (cases r)
    case (Inl s')
    then show ?thesis using less.hyps r by (subst load_loop.simps) auto
  next
    case (Inr f)
    then show ?thesis using r(1) by (subst load_loop.simps) simp
  qed
qed

text \<open>C33: \<open>load\<close> of any file that can be read to its end returns: whatever text the file has, with lines longer
  than the buffer, continuations and embedded zero bytes, every access is inside the line buffer and the loop
  ends. (Where reading fails before the end of the file, it never ends: see \<open>load_read_error\<close>.)\<close>

theorem keyfile_load_total:
  assumes "2 \<le> length buf" "\<not> bad fp"
  shows "\<exists>f'. keyfile_load buf (Some fp) fname f = Some f'"
  using load_loop_total [of "length buf"] assms by (simp add: keyfile_load_def load_ok_def)

text \<open>
  A read error does not set the end of file indicator: the state of the loop does not change any more.
  This happens for a directory, which \<open>fopen\<close> opens for reading.
\<close>

lemma load_read_error:
  assumes "linebuf s = NUL # b" "lpos s = 0" "lsize s = length (linebuf s)" "b \<noteq> []"
    "input s = \<lparr>content = [], bad = True, eof = False, err = True\<rparr>" "errcode (kfile s) = 1"
  shows "load_step s = Some (Inl s)"
proof -
  have "fgets 0 (Suc (length b)) (input s) (NUL # b) = Some (False, input s, NUL # b)"
    using assms(4,5) by (cases b) (simp_all add: fgets_def)
  then have r: "load_read s = Some (input s, kfile s, NUL # b)"
    using assms by (simp add: load_read_def poke_def)
  have "strlen_at 0 (NUL # b) = Some 0" by (simp add: strlen_at_def text_at_def)
  moreover have "parse_line (NUL # b) (sect s) (kfile s) = Some (sect s, kfile s, NUL # b)"
    by (simp add: parse_line_def text_at_def)
  ultimately have "load_line s (input s) (kfile s) (NUL # b) = Some (Inl s)"
    using assms by (simp add: load_line_def)
  with r show ?thesis by (simp add: load_step_def)
qed

lemma load_loop_stuck:
  assumes "load_step s = Some (Inl s)"
  shows "load_loop s = None"
proof (rule ccontr)
  assume "load_loop s \<noteq> None"
  then obtain f where "load_loop s = Some f" by blast
  then have "s \<noteq> s"
  proof (rule load_loop.raw_induct [of "\<lambda>x _. x \<noteq> s", rotated])
    fix g :: "load_state \<Rightarrow> keyfile option" and x y
    assume g: "\<And>x y. g x = Some y \<Longrightarrow> x \<noteq> s"
      and "(load_step x \<bind> case_sum g Some) = Some y"
    then show "x \<noteq> s" using assms g [of s y] by auto
  qed
  then show False by simp
qed

text \<open>\<open>load\<close> of a file on which the first read fails, as on a directory, does not return.\<close>

theorem keyfile_load_read_error:
  assumes "2 \<le> length buf" "fname \<noteq> []"
  shows "keyfile_load buf (Some \<lparr>content = [], bad = True, eof = False, err = False\<rparr>) fname f = None"
proof -
  let ?fp = "\<lparr>content = [], bad = True, eof = False, err = False\<rparr>"
  let ?s = "\<lparr>lpos = 0, lsize = length buf, input = ?fp, linebuf = buf, sect = None,
      kfile = with_defaults (f\<lparr>errcode := 0\<rparr>)\<rparr>"
  let ?b = "NUL # tl buf"
  let ?s' = "?s\<lparr>input := ?fp\<lparr>err := True\<rparr>, linebuf := ?b, kfile := (kfile ?s)\<lparr>errcode := 1\<rparr>\<rparr>"
  have b: "buf[0 := NUL] = ?b" "tl buf \<noteq> []" "length ?b = length buf" using assms(1) by (cases buf; auto)+
  have "fgets 0 (length buf) ?fp ?b = Some (False, ?fp\<lparr>err := True\<rparr>, ?b)"
    using assms(1) by (cases "length buf - 1") (simp_all add: fgets_def)
  then have r: "load_read ?s = Some (?fp\<lparr>err := True\<rparr>, kfile ?s', ?b)"
    using assms(1) b by (auto simp: load_read_def poke_def)
  have "strlen_at 0 ?b = Some 0" by (simp add: strlen_at_def text_at_def)
  moreover have "parse_line ?b None g = Some (None, g, ?b)" for g
    by (simp add: parse_line_def text_at_def)
  ultimately have "load_step ?s = Some (Inl ?s')"
    using r b by (simp add: load_step_def load_line_def)
  moreover have "load_step ?s' = Some (Inl ?s')"
    by (rule load_read_error [of _ "tl buf"]) (use b in auto)
  then have "load_loop ?s' = None" by (rule load_loop_stuck)
  ultimately have "load_loop ?s = None" by (subst load_loop.simps) simp
  then show ?thesis using assms(2) by (simp add: keyfile_load_def)
qed

theorem keyfile_load_total_witness:
  "\<exists>f'. keyfile_load (replicate 8 CHR ''x'') (Some \<lparr>content = ''a = 1234567890'', bad = False, eof = False, err = False\<rparr>)
     ''conf'' keyfile_new = Some f'"
  by (rule keyfile_load_total) simp_all

theorem keyfile_load_read_error_witness:
  "keyfile_load (replicate 1024 CHR ''x'') (Some \<lparr>content = [], bad = True, eof = False, err = False\<rparr>) ''/etc'' keyfile_new = None"
  by (rule keyfile_load_read_error) simp_all

section \<open>A section is a map\<close>

abbreviation fold_case :: "cstr \<Rightarrow> cstr" where
  "fold_case \<equiv> map to_lower"

definition keys_distinct :: "keydata \<Rightarrow> bool" where
  "keys_distinct d \<longleftrightarrow> distinct (map (\<lambda>kv. fold_case (fst kv)) (entries d))"

lemma eq_case_refl [simp]: "eq_case a a"
  by (simp add: eq_case_def)

lemma delist_key_absent: "fold_case key \<notin> (\<lambda>kv. fold_case (fst kv)) ` set es \<Longrightarrow> delist_key key es = es"
  by (induction key es rule: delist_key.induct) (auto simp: eq_case_def)

lemma delist_key_filter:
  "distinct (map (\<lambda>kv. fold_case (fst kv)) es) \<Longrightarrow>
     delist_key key es = filter (\<lambda>kv. fold_case (fst kv) \<noteq> fold_case key) es"
proof (induction key es rule: delist_key.induct)
  case (2 key i v es)
  have "filter (\<lambda>kv. fold_case (fst kv) \<noteq> fold_case key) es = es" if "fold_case i = fold_case key"
    using 2(2) that by (intro filter_True) force
  then show ?case using 2 by (auto simp: eq_case_def)
qed simp

lemma get_loop_map_of:
  "keydata_get_loop key es = map_of (map (\<lambda>kv. (fold_case (fst kv), snd kv)) es) (fold_case key)"
  by (induction key es rule: keydata_get_loop.induct) (auto simp: eq_case_def)

lemma map_of_filter_key:
  "map_of (map (\<lambda>kv. (fold_case (fst kv), snd kv)) (filter (\<lambda>kv. fold_case (fst kv) \<noteq> a) es)) =
     (map_of (map (\<lambda>kv. (fold_case (fst kv), snd kv)) es))(a := None)"
  by (induction es) (auto simp: fun_upd_twist)

datatype kd_op = Set cstr "cstr option" | Clear cstr

fun kd_exec :: "kd_op \<Rightarrow> keydata \<Rightarrow> keydata" where
  "kd_exec (Set k v) d = keydata_set k v d"
| "kd_exec (Clear k) d = keydata_clear k d"

fun kd_spec :: "kd_op \<Rightarrow> (cstr \<rightharpoonup> cstr) \<Rightarrow> (cstr \<rightharpoonup> cstr)" where
  "kd_spec (Set k v) m = m(fold_case k \<mapsto> (case v of Some v \<Rightarrow> v | None \<Rightarrow> []))"
| "kd_spec (Clear k) m = m(fold_case k := None)"

definition key_map :: "keydata \<Rightarrow> (cstr \<rightharpoonup> cstr)" where
  "key_map d = map_of (map (\<lambda>kv. (fold_case (fst kv), snd kv)) (entries d))"

lemma map_add_upd_None: "[k \<mapsto> v] ++ m(k := None) = m(k \<mapsto> v)"
  by (auto simp: map_add_def split: option.splits)

lemma kd_exec_ok:
  assumes "keys_distinct d"
  shows "keys_distinct (kd_exec p d)" "key_map (kd_exec p d) = kd_spec p (key_map d)"
proof -
  have f: "delist_key k (entries d) = filter (\<lambda>kv. fold_case (fst kv) \<noteq> fold_case k) (entries d)" for k
    using assms by (simp add: delist_key_filter keys_distinct_def)
  show "keys_distinct (kd_exec p d)"
    using assms by (cases p) (auto simp: keys_distinct_def keydata_set_def keydata_clear_def keyvalue_new_def f distinct_map_filter)
  show "key_map (kd_exec p d) = kd_spec p (key_map d)"
    by (cases p) (auto simp: key_map_def keydata_set_def keydata_clear_def keyvalue_new_def f map_of_filter_key map_add_upd_None)
qed

lemma kd_run_ok:
  "keys_distinct d \<Longrightarrow> keys_distinct (fold kd_exec ps d) \<and> key_map (fold kd_exec ps d) = fold kd_spec ps (key_map d)"
  by (induction ps arbitrary: d) (simp_all add: kd_exec_ok)

text \<open>C16: A section behaves like a map from keys, in any mixture of cases, to values: after every sequence of
  \<open>set\<close> and \<open>clear\<close> on a new section, \<open>get\<close> returns what was set last under the key, and each key
  occurs once.\<close>

theorem keydata_refines_map:
  "keydata_get key (fold kd_exec ps (keydata_new i)) = fold kd_spec ps (\<lambda>_. None) (fold_case key)
    \<and> keys_distinct (fold kd_exec ps (keydata_new i))"
proof -
  have "keys_distinct (keydata_new i)" "key_map (keydata_new i) = (\<lambda>_. None)"
    by (simp_all add: keys_distinct_def keydata_new_def key_map_def)
  with kd_run_ok [of "keydata_new i" ps] show ?thesis
    by (simp add: keydata_get_def get_loop_map_of key_map_def [symmetric])
qed

section \<open>What is saved is loaded\<close>

definition good_line :: "nat \<Rightarrow> cstr \<Rightarrow> bool" where
  "good_line n x \<longleftrightarrow>
     newline \<notin> set x \<and> NUL \<notin> set x \<and> length x + 2 \<le> n
     \<and> (chopped line_ends x \<noteq> [] \<longrightarrow> last (chopped line_ends x) \<noteq> CHR 0x5C)"

abbreviation at_line_start :: "char list \<Rightarrow> cstr \<Rightarrow> nat option \<times> keyfile \<Rightarrow> load_state" where
  "at_line_start b c st \<equiv>
     \<lparr>lpos = 0, lsize = length b, input = \<lparr>content = c, bad = False, eof = False, err = False\<rparr>, linebuf = b,
       sect = fst st, kfile = snd st\<rparr>"

lemma line_of_newline: "newline \<notin> set x \<Longrightarrow> length x < n \<Longrightarrow> line_of n (x @ newline # rest) = x @ [newline]"
proof (induction x arbitrary: n)
  case Nil
  then show ?case by (cases n) auto
next
  case (Cons c x)
  then show ?case by (cases n) auto
qed

lemma chopped_newline: "chopped line_ends (x @ [newline]) = chopped line_ends x"
  by (simp add: chopped_snoc line_ends_def)

lemma load_step_line:
  assumes x: "good_line (length b) x"
  shows "\<exists>b'. load_step (at_line_start b (x @ newline # rest) st) =
      Some (Inl (at_line_start b' rest (line_effect (chopped line_ends x) st))) \<and> length b' = length b"
proof -
  let ?s = "at_line_start b (x @ newline # rest) st"
  let ?fp = "\<lparr>content = rest, bad = False, eof = False, err = False\<rparr>"
  let ?l = "x @ [newline]" and ?c = "chopped line_ends x"
  have g: "newline \<notin> set x" "NUL \<notin> set x" "length x + 2 \<le> length b" "?c \<noteq> [] \<longrightarrow> last ?c \<noteq> CHR 0x5C"
    using x by (auto simp: good_line_def)
  define b0 where "b0 = b[0 := NUL]"
  have b0: "poke 0 NUL b = Some b0" "length b0 = length b" using g(3) by (auto simp: poke_def b0_def)
  have "line_of (length b - 1) (x @ newline # rest) = ?l" using g by (intro line_of_newline) auto
  then have f: "fgets 0 (length b) (input ?s) b0 = Some (True, ?fp, (?l @ NUL # drop (length x + 2) b0))"
    using g(3) b0 by (simp add: fgets_def memcpy_def)
  have nl: "NUL \<notin> set ?l" using g by auto
  obtain mid where m: "cstr_chop (?l @ NUL # drop (length x + 2) b0) line_ends = Some (?c @ NUL # mid @ drop (length x + 2) b0)"
    "length ?c + length mid = length ?l" "NUL \<notin> set ?c"
    by (rule chop_result [OF nl, where clist = line_ends and junk = "drop (length x + 2) b0", unfolded chopped_newline])
  let ?b = "?c @ NUL # mid @ drop (length x + 2) b0"
  have r: "load_read ?s = Some (?fp, snd st, ?b)"
    using b0 f m(1) by (simp add: load_read_def at_pos_def)
  have lb: "length ?b = length b" using m(2) g(3) b0(2) by simp
  obtain sec f' b' where p: "parse_line ?b (fst st) (snd st) = Some (sec, f', b')" "line_effect ?c st = (sec, f')"
    "length b' = length ?b"
    using parse_line_effect [OF m(3) refl, of "mid @ drop (length x + 2) b0" "fst st" "snd st"] by auto
  have n: "strlen_at 0 ?b = Some (length ?c)" using m(3) by simp
  have c: "?c \<noteq> [] \<Longrightarrow> cchar ?b (length ?c - 1) \<noteq> CHR 0x5C"
    using g(4) by (auto simp: cchar_def nth_append last_conv_nth)
  have "load_line ?s ?fp (snd st) ?b = Some (Inl (at_line_start b' rest (sec, f')))"
    using n c p(1) by (auto simp: load_line_def)
  then show ?thesis using r p(2,3) lb by (auto simp: load_step_def)
qed

lemma line_effect_errcode [simp]: "errcode (snd (line_effect x st)) = errcode (snd st)"
  by (cases st) (auto simp: line_effect_def set_in_def section_set_def defaults_set_def section_for_def keyfile_create_def
      Let_def split: option.splits prod.splits)

lemma load_lines:
  assumes "list_all (good_line (length b)) xs" "2 \<le> length b" "errcode (snd st) = 0"
  shows "load_loop (at_line_start b (concat (map (\<lambda>x. x @ [newline]) xs)) st) =
    Some (snd (fold line_effect (map (chopped line_ends) xs) st))"
using assms
proof (induction xs arbitrary: b st)
  case Nil
  let ?s = "at_line_start b [] st"
  have "buf = hd buf # tl buf" if "buf \<noteq> []" for buf :: cstr using that by simp
  then have b: "poke 0 NUL b = Some (NUL # tl b)" "tl b \<noteq> []" using Nil.prems(2) by (cases b; auto simp: poke_def)+
  have "fgets 0 (length b) (input ?s) (NUL # tl b) = Some (False, (input ?s)\<lparr>eof := True\<rparr>, NUL # tl b)"
    using Nil.prems(2) by (cases "length b - 1") (simp_all add: fgets_def)
  then have "load_read ?s = Some ((input ?s)\<lparr>eof := True\<rparr>, snd st, NUL # tl b)"
    using b Nil.prems(3) by (simp add: load_read_def poke_def)
  moreover have "strlen_at 0 (NUL # tl b) = Some 0" by (simp add: strlen_at_def text_at_def)
  ultimately have "load_step ?s = Some (Inr (snd st))" by (simp add: load_step_def load_line_def cchar_def)
  then show ?case by (subst load_loop.simps) simp
next
  case (Cons x xs)
  obtain b' where b': "load_step (at_line_start b (x @ newline # concat (map (\<lambda>x. x @ [newline]) xs)) st) =
      Some (Inl (at_line_start b' (concat (map (\<lambda>x. x @ [newline]) xs)) (line_effect (chopped line_ends x) st)))"
    "length b' = length b"
    using load_step_line [of b x "concat (map (\<lambda>x. x @ [newline]) xs)" st] Cons.prems(1)
    by (metis list.pred_inject(2))
  have "load_loop (at_line_start b' (concat (map (\<lambda>x. x @ [newline]) xs)) (line_effect (chopped line_ends x) st)) =
      Some (snd (fold line_effect (map (chopped line_ends) xs) (line_effect (chopped line_ends x) st)))"
    using Cons.prems b'(2) by (intro Cons.IH) auto
  then show ?case using b'(1) by (subst load_loop.simps) simp
qed

text \<open>The lines of a saved file.\<close>

definition entry_line :: "cstr \<times> cstr \<Rightarrow> cstr" where
  "entry_line kv =
     (case kv of (i, v) \<Rightarrow>
        if quote_char \<in> set v then i @ CHR ''='' # v else i @ CHR ''='' # quote_char # v @ [quote_char])"

definition section_lines :: "keydata \<Rightarrow> cstr list" where
  "section_lines d = (CHR ''['' # name d @ [CHR '']'']) # map entry_line (entries d) @ [[]]"

definition save_lines :: "keyfile \<Rightarrow> cstr list" where
  "save_lines f =
     map entry_line (case defaults f of None \<Rightarrow> [] | Some d \<Rightarrow> entries d) @ [[]]
     @ concat (map section_lines (sections f))"

lemma save_text_lines: "save_text f = concat (map (\<lambda>x. x @ [newline]) (save_lines f))"
proof -
  have e: "save_entry kv = entry_line kv @ [newline]" for kv
    by (cases kv) (simp add: save_entry_def entry_line_def)
  have es: "concat (map save_entry es) = concat (map (\<lambda>x. x @ [newline]) (map entry_line es))" for es
    by (induction es) (simp_all add: e)
  have "save_section d = concat (map (\<lambda>x. x @ [newline]) (section_lines d))" for d
    by (simp add: save_section_def section_lines_def es)
  then have "concat (map save_section ds) = concat (map (\<lambda>x. x @ [newline]) (concat (map section_lines ds)))" for ds
    by (induction ds) simp_all
  then show ?thesis by (simp add: save_text_def save_lines_def es)
qed

text \<open>
  What can be saved: keys start with a letter or digit and have no equal sign, names have no closing
  bracket, neither has blanks at its ends; a value with a quotation mark, which is written as it is,
  has no blanks, no pair of quotes around it and no backslash at its end; each line fits the buffer.
\<close>

definition key_ok :: "cstr \<Rightarrow> bool" where
  "key_ok i \<longleftrightarrow> i \<noteq> [] \<and> is_alnum (hd i) \<and> CHR ''='' \<notin> set i \<and> stripped blanks i = i"

definition value_ok :: "cstr \<Rightarrow> bool" where
  "value_ok v \<longleftrightarrow>
     quote_char \<in> set v \<longrightarrow> stripped value_blanks v = v \<and> last v \<noteq> CHR 0x5C \<and> unquoted v quotes = None"

definition entry_ok :: "nat \<Rightarrow> cstr \<times> cstr \<Rightarrow> bool" where
  "entry_ok n kv \<longleftrightarrow>
     key_ok (fst kv) \<and> value_ok (snd kv) \<and> newline \<notin> set (entry_line kv) \<and> NUL \<notin> set (entry_line kv)
     \<and> length (entry_line kv) + 2 \<le> n"

definition name_ok :: "nat \<Rightarrow> cstr \<Rightarrow> bool" where
  "name_ok n i \<longleftrightarrow>
     CHR '']'' \<notin> set i \<and> newline \<notin> set i \<and> NUL \<notin> set i \<and> stripped blanks i = i \<and> length i + 4 \<le> n"

definition section_ok :: "nat \<Rightarrow> keydata \<Rightarrow> bool" where
  "section_ok n d \<longleftrightarrow> keys_distinct d \<and> (\<forall>kv \<in> set (entries d). entry_ok n kv)"

definition file_ok :: "nat \<Rightarrow> keyfile \<Rightarrow> bool" where
  "file_ok n f \<longleftrightarrow>
     (\<forall>d. defaults f = Some d \<longrightarrow> section_ok n d \<and> name d = ''-'')
     \<and> (\<forall>d \<in> set (sections f). section_ok n d \<and> name_ok n (name d))
     \<and> distinct (map (\<lambda>d. fold_case (name d)) (sections f))"

lemma chopped_Nil [simp]: "chopped clist [] = []"
  by (simp add: chopped_def)

lemma chopped_id: "x = [] \<or> last x \<notin> set clist \<Longrightarrow> chopped clist x = x"
  by (cases x rule: rev_cases) (auto simp: chopped_snoc)

lemma stripped_id: "x = [] \<or> hd x \<notin> set clist \<and> last x \<notin> set clist \<Longrightarrow> stripped clist x = x"
  by (cases x) (auto simp: stripped_def chopped_id)

lemma chopped_last:
  assumes "chopped clist x = x" "x \<noteq> []"
  shows "last x \<notin> set clist"
proof
  assume l: "last x \<in> set clist"
  obtain y c where x: "x = y @ [c]" using assms(2) by (meson rev_exhaust)
  then have "length x = length (chopped clist y)" using assms(1) l by (simp add: chopped_snoc)
  then show False using length_chopped [of clist y] x by simp
qed

lemma stripped_last:
  assumes "stripped clist x = x" "x \<noteq> []"
  shows "last x \<notin> set clist"
proof -
  have "length (dropWhile (\<lambda>c. c \<in> set clist) x) \<ge> length x"
    using assms(1) length_chopped [of clist "dropWhile (\<lambda>c. c \<in> set clist) x"] unfolding stripped_def by metis
  then have "dropWhile (\<lambda>c. c \<in> set clist) x = x" by (cases x) (auto dest: le_trans [OF _ length_dropWhile_le] split: if_splits)
  then show ?thesis using assms chopped_last unfolding stripped_def by metis
qed

lemma alnum_facts: "is_alnum c \<Longrightarrow> \<not> is_space c \<and> c \<noteq> CHR ''[''"
  by (auto simp: is_alnum_def is_space_def)

lemma entry_line_last:
  assumes "value_ok v"
  shows "last (entry_line (i, v)) \<notin> set line_ends \<and> last (entry_line (i, v)) \<noteq> CHR 0x5C"
proof (cases "quote_char \<in> set v")
  case True
  then have "v \<noteq> []" by auto
  moreover have "last v \<notin> set value_blanks" using stripped_last [of value_blanks v] assms True calculation by (simp add: value_ok_def)
  ultimately show ?thesis using True assms by (auto simp: entry_line_def value_ok_def value_blanks_def line_ends_def)
next
  case False
  then show ?thesis by (simp add: entry_line_def line_ends_def)
qed

lemma entry_line_chopped: "value_ok v \<Longrightarrow> chopped line_ends (entry_line (i, v)) = entry_line (i, v)"
  using entry_line_last by (intro chopped_id) auto

lemma entry_good: "entry_ok n kv \<Longrightarrow> good_line n (entry_line kv)"
  using entry_line_last [of "snd kv" "fst kv"] entry_line_chopped [of "snd kv" "fst kv"]
  by (auto simp: good_line_def entry_ok_def)

lemma entry_effect:
  assumes "entry_ok n (i, v)"
  shows "line_effect (chopped line_ends (entry_line (i, v))) (sec, f) = (sec, set_in sec i (Some v) f)"
proof -
  have k: "i \<noteq> []" "is_alnum (hd i)" "CHR ''='' \<notin> set i" "stripped blanks i = i" and v: "value_ok v"
    using assms by (auto simp: entry_ok_def key_ok_def)
  define w where "w = (if quote_char \<in> set v then v else quote_char # v @ [quote_char])"
  have e: "entry_line (i, v) = i @ CHR ''='' # w" by (simp add: entry_line_def w_def)
    have ch: "chopped line_ends (entry_line (i, v)) = i @ CHR ''='' # w"
    using entry_line_chopped [OF v, of i] unfolding e .
  have sw: "stripped value_blanks w = w" using v by (auto simp: w_def value_ok_def value_blanks_def intro!: stripped_id)
  have uw: "unquoted_value w = Some v"
    using v by (auto simp: w_def unquoted_value_def value_ok_def quotes_def)
  have dw: "dropWhile is_space (i @ CHR ''='' # w) = i @ CHR ''='' # w" and hw: "hd (i @ CHR ''='' # w) = hd i"
    using k alnum_facts by (cases i; auto)+
  have ix: "index_of CHR ''='' (i @ CHR ''='' # w) = Some (length i)" using k by (intro index_of_append) simp
  show ?thesis unfolding ch line_effect_def Let_def prod.case dw hw ix
    using k(2,4) alnum_facts by (simp add: sw uw)
qed

lemma name_good: "name_ok n i \<Longrightarrow> good_line n (CHR ''['' # i @ [CHR '']''])"
  using chopped_id [of "CHR ''['' # i @ [CHR '']'']" line_ends] by (auto simp: good_line_def name_ok_def line_ends_def)

lemma name_effect:
  assumes "name_ok n i"
  shows "line_effect (chopped line_ends (CHR ''['' # i @ [CHR '']''])) (sec, f) =
    (case section_for i f of (p, f) \<Rightarrow> (Some p, f))"
proof -
  let ?x = "CHR ''['' # i @ [CHR '']'']"
  have "chopped line_ends ?x = ?x" by (rule chopped_id) (simp add: line_ends_def)
  moreover have "index_of CHR '']'' ?x = Some (Suc (length i))"
    using index_of_append [of "CHR '']''" "CHR ''['' # i" "[]"] assms by (simp add: name_ok_def)
  ultimately show ?thesis using assms
    by (simp add: line_effect_def Let_def name_ok_def is_space_def)
qed

lemma empty_effect [simp]: "line_effect [] st = st"
  by (cases st) (simp add: line_effect_def)

lemma empty_good: "2 \<le> n \<Longrightarrow> good_line n []"
  by (simp add: good_line_def)

lemma keydata_set_fresh:
  "fold_case i \<notin> (\<lambda>kv. fold_case (fst kv)) ` set (entries d) \<Longrightarrow>
     keydata_set i (Some v) d = d\<lparr>entries := entries d @ [(i, v)]\<rparr>"
  by (simp add: keydata_set_def keyvalue_new_def delist_key_absent)

abbreviation effects :: "cstr list \<Rightarrow> nat option \<times> keyfile \<Rightarrow> nat option \<times> keyfile" where
  "effects xs \<equiv> fold line_effect (map (chopped line_ends) xs)"

lemma effects_defaults:
  assumes "defaults f = Some d" "\<forall>kv \<in> set es. entry_ok n kv"
    "distinct (map (\<lambda>kv. fold_case (fst kv)) (entries d @ es))"
  shows "effects (map entry_line es) (None, f) = (None, f\<lparr>defaults := Some (d\<lparr>entries := entries d @ es\<rparr>)\<rparr>)"
  using assms
proof (induction es arbitrary: f d)
  case (Cons kv es)
  obtain i v where kv: "kv = (i, v)" by (cases kv)
  let ?d = "d\<lparr>entries := entries d @ [(i, v)]\<rparr>"
  have "line_effect (chopped line_ends (entry_line kv)) (None, f) = (None, f\<lparr>defaults := Some ?d\<rparr>)"
    using entry_effect [of n i v] Cons.prems kv by (simp add: set_in_def defaults_set_def keydata_set_fresh)
  moreover have "effects (map entry_line es) (None, f\<lparr>defaults := Some ?d\<rparr>)
      = (None, f\<lparr>defaults := Some ?d\<rparr>\<lparr>defaults := Some (?d\<lparr>entries := entries ?d @ es\<rparr>)\<rparr>)"
    using Cons.prems kv by (intro Cons.IH) auto
  ultimately show ?case using kv by simp
qed simp

lemma effects_section:
  assumes "p < length (sections f)" "\<forall>kv \<in> set es. entry_ok n kv"
    "distinct (map (\<lambda>kv. fold_case (fst kv)) (entries (sections f ! p) @ es))"
  shows "effects (map entry_line es) (Some p, f) =
    (Some p, f\<lparr>sections := (sections f)[p := (sections f ! p)\<lparr>entries := entries (sections f ! p) @ es\<rparr>]\<rparr>)"
  using assms
proof (induction es arbitrary: f)
  case (Cons kv es)
  obtain i v where kv: "kv = (i, v)" by (cases kv)
  let ?d = "(sections f ! p)\<lparr>entries := entries (sections f ! p) @ [(i, v)]\<rparr>"
  let ?f = "f\<lparr>sections := (sections f)[p := ?d]\<rparr>"
  have "line_effect (chopped line_ends (entry_line kv)) (Some p, f) = (Some p, ?f)"
    using entry_effect [of n i v] Cons.prems kv by (simp add: set_in_def section_set_def keydata_set_fresh)
  moreover have "effects (map entry_line es) (Some p, ?f) =
      (Some p, ?f\<lparr>sections := (sections ?f)[p := (sections ?f ! p)\<lparr>entries := entries (sections ?f ! p) @ es\<rparr>]\<rparr>)"
    using Cons.prems kv by (intro Cons.IH) auto
  ultimately show ?case using kv Cons.prems(1) by simp
qed simp

lemma get_loop_fresh: "fold_case i \<notin> (\<lambda>d. fold_case (name d)) ` set ds \<Longrightarrow> keyfile_get_loop i ds = None"
  by (induction i ds rule: keyfile_get_loop.induct) (auto simp: eq_case_def)

lemma effects_section_lines:
  assumes "section_ok n d" "name_ok n (name d)" "fold_case (name d) \<notin> (\<lambda>d. fold_case (name d)) ` set (sections f)"
  shows "effects (section_lines d) (sec, f) = (Some (length (sections f)), f\<lparr>sections := sections f @ [d]\<rparr>)"
proof -
  let ?f = "f\<lparr>sections := sections f @ [keydata_new (name d)]\<rparr>" and ?p = "length (sections f)"
  have "section_for (name d) f = (?p, ?f)"
    using get_loop_fresh [OF assms(3)] by (simp add: section_for_def keyfile_get_def keyfile_create_def Let_def)
  then have "line_effect (chopped line_ends (CHR ''['' # name d @ [CHR '']''])) (sec, f) = (Some ?p, ?f)"
    using name_effect [OF assms(2)] by simp
  moreover have "effects (map entry_line (entries d)) (Some ?p, ?f) = (Some ?p, f\<lparr>sections := sections f @ [d]\<rparr>)"
    using effects_section [of ?p ?f "entries d" n] assms(1) by (simp add: section_ok_def keys_distinct_def keydata_new_def)
  ultimately show ?thesis by (simp add: section_lines_def)
qed

lemma effects_sections:
  assumes "\<forall>d \<in> set ds. section_ok n d \<and> name_ok n (name d)"
    "distinct (map (\<lambda>d. fold_case (name d)) (sections f @ ds))"
  shows "snd (effects (concat (map section_lines ds)) (sec, f)) = f\<lparr>sections := sections f @ ds\<rparr>"
  using assms
proof (induction ds arbitrary: sec f)
  case (Cons d ds)
  then have "effects (section_lines d) (sec, f) = (Some (length (sections f)), f\<lparr>sections := sections f @ [d]\<rparr>)"
    by (intro effects_section_lines [of n]) auto
  then show ?case using Cons.IH [of "f\<lparr>sections := sections f @ [d]\<rparr>"] Cons.prems by simp
qed simp

lemma save_lines_good:
  assumes "file_ok n f" "2 \<le> n"
  shows "list_all (good_line n) (save_lines f)"
proof -
  have "list_all (good_line n) (section_lines d)" if "section_ok n d" "name_ok n (name d)" for d
    using that assms(2) by (auto simp: section_lines_def section_ok_def list_all_iff intro: entry_good name_good empty_good)
  then show ?thesis
    using assms by (cases "defaults f")
      (auto simp: save_lines_def file_ok_def section_ok_def list_all_iff intro: entry_good empty_good)
qed

text \<open>
  C14: Round trip: for a key file that the text format can express (\<open>file_ok\<close>), loading what \<open>save\<close> wrote, into a new
  key file, gives the defaults and sections back, with all names, keys and values in their order. A file without
  defaults has empty defaults then. The format can express: keys that begin with a letter or digit, hold no \<open>=\<close>
  and have no blanks at their ends; section names without a closing bracket and without blanks at their ends;
  values that, if they hold a quotation mark, have no blanks at their ends, are not a quoted text and do not end in a
  backslash; no newline or NUL; lines that fit the buffer; names and keys that differ without regard to case.
  Other values are not read back as they were (\<open>keyfile_quote_lost\<close>).
\<close>

theorem keyfile_save_load:
  assumes "file_ok (length buf) f" "2 \<le> length buf" "fname \<noteq> []"
    "fst (keyfile_save True fname f) = (True, Some tx)"
  shows "keyfile_load buf (Some \<lparr>content = tx, bad = False, eof = False, err = False\<rparr>) fname keyfile_new
    = Some \<lparr>defaults = Some (case defaults f of None \<Rightarrow> keydata_new_defaults | Some d \<Rightarrow> d),
        sections = sections f, errcode = 0\<rparr>"
proof -
  let ?d = "case defaults f of None \<Rightarrow> keydata_new_defaults | Some d \<Rightarrow> d"
  let ?es = "case defaults f of None \<Rightarrow> [] | Some d \<Rightarrow> entries d"
  let ?f0 = "with_defaults (keyfile_new\<lparr>errcode := 0\<rparr>)"
  let ?f1 = "?f0\<lparr>defaults := Some (keydata_new_defaults\<lparr>entries := ?es\<rparr>)\<rparr>"
  have f0: "defaults ?f0 = Some keydata_new_defaults" "sections ?f0 = []" "errcode ?f0 = 0"
    by (simp_all add: with_defaults_def keyfile_new_def)
  have d: "keydata_new_defaults\<lparr>entries := ?es\<rparr> = ?d"
    using assms(1) by (cases "defaults f") (auto simp: file_ok_def keydata_new_defaults_def)
  have "effects (map entry_line ?es) (None, ?f0) = (None, ?f1)"
    using effects_defaults [OF f0(1), of ?es "length buf"] assms(1)
    by (cases "defaults f") (auto simp: file_ok_def section_ok_def keys_distinct_def keydata_new_defaults_def)
  then have "snd (effects (save_lines f) (None, ?f0)) = ?f1\<lparr>sections := sections ?f1 @ sections f\<rparr>"
    using effects_sections [of "sections f" "length buf" ?f1 None] assms(1) f0 by (simp add: save_lines_def file_ok_def)
  moreover have "tx = concat (map (\<lambda>x. x @ [newline]) (save_lines f))"
    using assms(3,4) by (simp add: keyfile_save_def save_text_lines)
  ultimately show ?thesis
    using load_lines [OF save_lines_good [OF assms(1,2)] assms(2), of "(None, ?f0)"] f0 d assms(3)
    by (simp add: keyfile_load_def)
qed

definition example_file :: keyfile where
  "example_file = \<lparr>defaults = Some \<lparr>name = ''-'', entries = [(''user'', '' a b ''), (''n'', [])]\<rparr>,
     sections = [\<lparr>name = ''Main x'', entries = [(''key'', [CHR ''x'', quote_char])]\<rparr>, \<lparr>name = ''e'', entries = []\<rparr>],
     errcode = 5\<rparr>"

theorem keyfile_save_load_witness:
  "keyfile_load (replicate 1024 CHR ''x'') (Some \<lparr>content = save_text example_file, bad = False, eof = False, err = False\<rparr>)
     ''conf'' keyfile_new = Some (example_file\<lparr>errcode := 0\<rparr>)"
proof -
  have ok: "file_ok (length (replicate 1024 CHR ''x'')) example_file"
    by (simp add: file_ok_def example_file_def section_ok_def keys_distinct_def entry_ok_def key_ok_def value_ok_def
        name_ok_def entry_line_def stripped_def chopped_def blanks_def value_blanks_def is_alnum_def quotes_def to_lower_def)
  show ?thesis
    using keyfile_save_load [OF ok, of "''conf''" "save_text example_file"]
    by (simp add: keyfile_save_def) (simp add: example_file_def)
qed

definition quoted_file :: keyfile where
  "quoted_file = keyfile_new\<lparr>sections := [\<lparr>name = ''s'', entries = [(''k'', [quote_char, CHR ''q'', quote_char])]\<rparr>]\<rparr>"

text \<open>A value with quotation marks around it comes back without them.\<close>

lemma keyfile_quote_lost:
  "map_option sections (keyfile_load (replicate 16 CHR ''x'')
     (Some \<lparr>content = save_text quoted_file, bad = False, eof = False, err = False\<rparr>) ''conf'' keyfile_new)
   = Some [\<lparr>name = ''s'', entries = [(''k'', ''q'')]\<rparr>]"
proof -
  let ?st = "(None, with_defaults (keyfile_new\<lparr>errcode := 0\<rparr>))"
  have g: "list_all (good_line (length (replicate 16 CHR ''x''))) (save_lines quoted_file)" by code_simp
  have e: "sections (snd (effects (save_lines quoted_file) ?st)) = [\<lparr>name = ''s'', entries = [(''k'', ''q'')]\<rparr>]" by code_simp
  have "errcode (snd ?st) = 0" "2 \<le> length (replicate 16 CHR ''x'')" by (simp_all add: with_defaults_def keyfile_new_def)
  from load_lines [OF g this(2,1)] e show ?thesis by (simp add: keyfile_load_def save_text_lines)
qed

section \<open>Copies\<close>

lemma defaults_set_all_fresh:
  "defaults f = Some d \<Longrightarrow> distinct (map (\<lambda>kv. fold_case (fst kv)) (entries d @ es)) \<Longrightarrow>
     defaults_set_all es f = f\<lparr>defaults := Some (d\<lparr>entries := entries d @ es\<rparr>)\<rparr>"
proof (induction es f arbitrary: d rule: defaults_set_all.induct)
  case (2 i v es f)
  have "defaults_set i (Some v) f = f\<lparr>defaults := Some (d\<lparr>entries := entries d @ [(i, v)]\<rparr>)\<rparr>"
    using 2(2,3) by (simp add: defaults_set_def keydata_set_fresh)
  then show ?case using 2(1) [of "d\<lparr>entries := entries d @ [(i, v)]\<rparr>"] 2(3) by simp
qed simp

lemma section_set_all_fresh:
  "sections f = ds @ [d] \<Longrightarrow> distinct (map (\<lambda>kv. fold_case (fst kv)) (entries d @ es)) \<Longrightarrow>
     section_set_all (length ds) es f = f\<lparr>sections := ds @ [d\<lparr>entries := entries d @ es\<rparr>]\<rparr>"
proof (induction "length ds" es f arbitrary: d rule: section_set_all.induct)
  case (2 i v es f)
  have "section_set (length ds) i (Some v) f = f\<lparr>sections := ds @ [d\<lparr>entries := entries d @ [(i, v)]\<rparr>]\<rparr>"
    using 2(2,3) by (simp add: section_set_def keydata_set_fresh)
  then show ?case using 2(1) [of "d\<lparr>entries := entries d @ [(i, v)]\<rparr>"] 2(3) by simp
qed simp

lemma load_sections_fresh:
  "distinct (map (\<lambda>d. fold_case (name d)) (sections f @ ds)) \<Longrightarrow> \<forall>d \<in> set ds. keys_distinct d \<Longrightarrow>
     load_sections ds f = f\<lparr>sections := sections f @ ds\<rparr>"
proof (induction ds f rule: load_sections.induct)
  case (2 d ds f)
  let ?f = "f\<lparr>sections := sections f @ [keydata_new (name d)]\<rparr>"
  have s: "section_for (name d) f = (length (sections f), ?f)"
    using 2(2) get_loop_fresh [of "name d" "sections f"]
    by (simp add: section_for_def keyfile_get_def keyfile_create_def Let_def)
  have "section_set_all (length (sections f)) (entries d) ?f = f\<lparr>sections := sections f @ [d]\<rparr>"
    using section_set_all_fresh [of ?f "sections f" "keydata_new (name d)" "entries d"] 2(3)
    by (simp add: keydata_new_def keys_distinct_def)
  then show ?case using 2 s by simp
qed simp

text \<open>The copy constructor of a key file copies defaults and sections with their order.\<close>

theorem keyfile_copy_same:
  assumes "distinct (map (\<lambda>d. fold_case (name d)) (sections f))" "\<forall>d \<in> set (sections f). keys_distinct d"
    "\<forall>d. defaults f = Some d \<longrightarrow> keys_distinct d \<and> name d = ''-''"
  shows "keyfile_load_keyfile f keyfile_new = f\<lparr>errcode := 0\<rparr>"
proof -
  let ?g = "case defaults f of None \<Rightarrow> keyfile_new | Some d \<Rightarrow> defaults_set_all (entries d) (with_defaults keyfile_new)"
  have g: "?g = \<lparr>defaults = defaults f, sections = [], errcode = 0\<rparr>"
  proof (cases "defaults f")
    case (Some d)
    then show ?thesis
      using defaults_set_all_fresh [of "with_defaults keyfile_new" keydata_new_defaults "entries d"] assms(3)
      by (auto simp: with_defaults_def keyfile_new_def keydata_new_defaults_def keys_distinct_def)
  qed (simp add: keyfile_new_def)
  show ?thesis using load_sections_fresh [of ?g "sections f"] assms(1,2)
    by (simp add: keyfile_load_keyfile_def g)
qed

theorem keyfile_copy_same_witness:
  "keyfile_load_keyfile example_file keyfile_new = example_file\<lparr>errcode := 0\<rparr>"
  by (rule keyfile_copy_same) (simp_all add: example_file_def keys_distinct_def to_lower_def)

end
