(* ===== verification/Cidr.thy ===== *)
theory Cidr
  imports Buffer "HOL-Library.Word" "HOL-Library.Monad_Syntax"
begin

unbundle bit_operations_syntax

text \<open>
  Network blocks of \<open>corelib/socket.cpp\<close>: the class \<open>cidr\<close> and the bit functions it uses.

  \<open>Netmask\<close> and \<open>Network\<close> are the 16 bytes of \<open>struct hostaddr_internet\<close>; an IPv4 address occupies the first
  four of them. A function that would access memory outside gives \<open>None\<close>. A policy, the linked list of
  blocks that \<open>find\<close> and \<open>container\<close> search, is a list. The functions of the system that read
  addresses (\<open>inet_aton\<close>, \<open>inet_addr\<close>, \<open>inet_pton\<close>) are parameters.
\<close>

section \<open>Bits of addresses\<close>

text \<open>\<open>bitmask\<close>, \<open>bitimask\<close>, \<open>bitset\<close> and \<open>bitcount\<close>; the inner loops run over the bits of a byte.\<close>

fun bitmask :: "nat \<Rightarrow> byte list \<Rightarrow> byte list \<Rightarrow> byte list option" where
  "bitmask 0 bits msk = Some bits"
| "bitmask (Suc len) (b # bits) (m # msk) = map_option (Cons (b AND m)) (bitmask len bits msk)"
| "bitmask (Suc len) _ _ = None"

fun bitimask :: "nat \<Rightarrow> byte list \<Rightarrow> byte list \<Rightarrow> byte list option" where
  "bitimask 0 bits msk = Some bits"
| "bitimask (Suc len) (b # bits) (m # msk) = map_option (Cons (b OR NOT m)) (bitimask len bits msk)"
| "bitimask (Suc len) _ _ = None"

fun bitset_byte :: "byte \<Rightarrow> byte \<Rightarrow> nat \<Rightarrow> byte \<times> nat" where
  "bitset_byte msk b 0 = (b, 0)"
| "bitset_byte msk b (Suc blen) =
     (if msk \<noteq> 0 then bitset_byte (drop_bit 1 msk) (b OR msk) blen else (b, Suc blen))"

fun bitset :: "byte list \<Rightarrow> nat \<Rightarrow> byte list option" where
  "bitset [] blen = (if blen = 0 then Some [] else None)"
| "bitset (b # bits) blen =
     (if blen = 0 then Some (b # bits)
      else case bitset_byte (push_bit 7 1) b blen of (b, blen) \<Rightarrow> map_option (Cons b) (bitset bits blen))"

text \<open>The flag says that the loop has returned from the function.\<close>

function bitcount_byte :: "byte \<Rightarrow> byte \<Rightarrow> nat \<Rightarrow> bool \<times> nat" where
  "bitcount_byte msk test cnt =
     (if msk = 0 then (False, cnt)
      else if msk AND test = 0 then (True, cnt)
      else bitcount_byte (drop_bit 1 msk) test (cnt + 1))"
  by auto
termination
proof (relation "measure (\<lambda>(msk, test, cnt). unat msk)")
  fix msk :: byte
  assume "msk \<noteq> 0"
  then have "unat msk div 2 < unat msk" by (intro div_less_dividend) (auto simp: unat_gt_0)
  then show "((drop_bit 1 msk, test, cnt + 1), msk, test, cnt) \<in> measure (\<lambda>(msk, test, cnt). unat msk)" for test cnt
    by (simp add: drop_bit_eq_div unat_div)
qed simp

declare bitcount_byte.simps [simp del]

fun bitcount :: "nat \<Rightarrow> byte list \<Rightarrow> nat \<Rightarrow> nat option" where
  "bitcount 0 bits cnt = Some cnt"
| "bitcount (Suc len) [] cnt = None"
| "bitcount (Suc len) (b # bits) cnt =
     (case bitcount_byte (push_bit 7 1) b cnt of
        (True, cnt) \<Rightarrow> Some cnt
      | (False, cnt) \<Rightarrow> bitcount len bits cnt)"

section \<open>Blocks\<close>

datatype family = AF_UNSPEC | AF_INET | AF_INET6

record cidr =
  Family :: family
  Netmask :: "byte list"
  Network :: "byte list"
  Name :: cstr

record sockaddr =
  sa_family :: family
  sin_addr :: "byte list"

definition sizeof_addr :: "family \<Rightarrow> nat" where
  "sizeof_addr f = (case f of AF_INET \<Rightarrow> 4 | AF_INET6 \<Rightarrow> 16 | AF_UNSPEC \<Rightarrow> 0)"

definition cidr_new :: cidr where
  "cidr_new = \<lparr>Family = AF_UNSPEC, Netmask = replicate 16 0, Network = replicate 16 0, Name = []\<rparr>"

definition cidr_copy :: "cidr \<Rightarrow> cidr" where
  "cidr_copy c = \<lparr>Family = Family c, Netmask = Netmask c, Network = Network c, Name = Name c\<rparr>"

definition cidr_mask :: "cidr \<Rightarrow> nat option" where
  "cidr_mask c =
     (case Family c of
        AF_INET \<Rightarrow> bitcount 4 (Netmask c) 0
      | AF_INET6 \<Rightarrow> bitcount 16 (Netmask c) 0
      | AF_UNSPEC \<Rightarrow> Some 0)"

definition cidr_is_member :: "cidr \<Rightarrow> sockaddr \<Rightarrow> bool option" where
  "cidr_is_member c s =
     (if sa_family s \<noteq> Family c then Some False
      else if Family c = AF_UNSPEC then Some False
      else do {
        let n = sizeof_addr (Family c);
        host \<leftarrow> bitmask n (take n (sin_addr s)) (Netmask c);
        Some (host = take n (Network c))
      })"

definition cidr_broadcast :: "cidr \<Rightarrow> byte list option" where
  "cidr_broadcast c =
     (case Family c of
        AF_UNSPEC \<Rightarrow> Some (replicate 16 0)
      | _ \<Rightarrow> (let n = sizeof_addr (Family c) in bitimask n (take n (Network c)) (Netmask c)))"

text \<open>The policy searches: the position of the block is returned.\<close>

fun find_loop :: "cidr list \<Rightarrow> sockaddr \<Rightarrow> nat \<Rightarrow> nat option \<Rightarrow> nat \<Rightarrow> nat option option" where
  "find_loop [] s best mem p = Some mem"
| "find_loop (c # cs) s best mem p =
     do {
       ok \<leftarrow> cidr_is_member c s;
       m \<leftarrow> cidr_mask c;
       if ok \<and> m > best then find_loop cs s m (Some p) (p + 1) else find_loop cs s best mem (p + 1)
     }"

definition cidr_find :: "cidr list \<Rightarrow> sockaddr \<Rightarrow> nat option option" where
  "cidr_find policy s = find_loop policy s 0 None 0"

fun container_loop :: "cidr list \<Rightarrow> sockaddr \<Rightarrow> nat \<Rightarrow> nat option \<Rightarrow> nat \<Rightarrow> nat option option" where
  "container_loop [] s best mem p = Some mem"
| "container_loop (c # cs) s best mem p =
     do {
       ok \<leftarrow> cidr_is_member c s;
       m \<leftarrow> cidr_mask c;
       if ok \<and> m < best then container_loop cs s m (Some p) (p + 1) else container_loop cs s best mem (p + 1)
     }"

definition cidr_container :: "cidr list \<Rightarrow> sockaddr \<Rightarrow> nat option option" where
  "cidr_container policy s = container_loop policy s 128 None 0"

section \<open>Reading blocks\<close>

text \<open>\<open>atoi\<close>, without its overflow.\<close>

definition is_digit :: "char \<Rightarrow> bool" where
  "is_digit c \<longleftrightarrow> 48 \<le> (of_char c :: nat) \<and> (of_char c :: nat) \<le> 57"

definition digits_value :: "cstr \<Rightarrow> int" where
  "digits_value s = foldl (\<lambda>v c. v * 10 + (of_char c - 48)) 0 (takeWhile is_digit s)"

definition atoi :: "cstr \<Rightarrow> int" where
  "atoi s =
     (let s = dropWhile (\<lambda>c. c = CHR '' '' \<or> (9 \<le> (of_char c :: nat) \<and> (of_char c :: nat) \<le> 13)) s
      in case s of
           [] \<Rightarrow> 0
         | c # r \<Rightarrow> if c = CHR ''-'' then - digits_value r
                     else if c = CHR ''+'' then digits_value r else digits_value s)"

definition to_unsigned :: "int \<Rightarrow> nat" where
  "to_unsigned i = nat (i mod 2 ^ 32)"

text \<open>The position of the last colon, and the test of what follows it, which takes two steps for each zero.\<close>

fun last_index :: "char \<Rightarrow> cstr \<Rightarrow> nat option" where
  "last_index c [] = None"
| "last_index c (x # s) = (case last_index c s of Some k \<Rightarrow> Some (Suc k) | None \<Rightarrow> if x = c then Some 0 else None)"

fun zero_tail :: "cstr \<Rightarrow> bool option" where
  "zero_tail [] = Some True"
| "zero_tail [c] = (if c = CHR ''0'' then None else Some False)"
| "zero_tail (c # d # s) = (if c = CHR ''0'' then zero_tail s else Some False)"

text \<open>The loop that counts groups up to the first empty one.\<close>

function groups_loop :: "cstr \<Rightarrow> nat \<Rightarrow> nat \<Rightarrow> bool \<Rightarrow> nat" where
  "groups_loop [] cnt rcount flag = rcount"
| "groups_loop (c # cp) cnt rcount flag =
     (if cnt \<ge> 128 then rcount
      else if c = CHR '':''
      then (let cp = dropWhile (\<lambda>c. c = CHR ''0'') cp
            in if cp \<noteq> [] \<and> hd cp = CHR '':''
               then groups_loop cp (cnt + 16) (if \<not> flag then cnt + 16 else rcount) True
               else groups_loop cp (cnt + 16) rcount False)
      else groups_loop cp cnt rcount flag)"
  by pat_completeness auto
termination
  by (relation "measure (\<lambda>(cp, cnt, rcount, flag). length cp)") (auto simp: less_Suc_eq_le length_dropWhile_le)

fun dots_loop :: "cstr \<Rightarrow> nat list \<Rightarrow> nat list" where
  "dots_loop [] dots = dots"
| "dots_loop (c # gp) dots =
     (if length dots \<ge> 4 then dots
      else if c = CHR ''.'' then dots_loop gp (dots @ [nat (atoi gp mod 256)])
      else dots_loop gp dots)"

fun slash :: "cstr \<Rightarrow> cstr option" where
  "slash [] = None"
| "slash (c # s) = (if c = CHR ''/'' then Some s else slash s)"

definition cidr_mask4 :: "(cstr \<Rightarrow> byte list) \<Rightarrow> cstr \<Rightarrow> nat option" where
  "cidr_mask4 inet_addr cp =
     (case slash cp of
        Some sp \<Rightarrow>
          if CHR ''.'' \<notin> set sp then Some (to_unsigned (atoi sp))
          else bitcount 4 (inet_addr sp) 0
      | None \<Rightarrow>
          (let dots = dots_loop cp [nat (atoi cp mod 256)];
               d = (\<lambda>i. if i < length dots then dots ! i else 0)
           in Some (if d 3 \<noteq> 0 then 32 else if d 2 \<noteq> 0 then 24 else if d 1 \<noteq> 0 then 16 else 8)))"

definition cidr_mask6 :: "cstr \<Rightarrow> nat option" where
  "cidr_mask6 cp =
     (case slash cp of
        Some sp \<Rightarrow> Some (to_unsigned (atoi sp))
      | None \<Rightarrow>
          if take 5 cp = ''ff00:'' then Some 8
          else if take 5 cp = ''ff80:'' then Some 10
          else if take 5 cp = ''2002:'' then Some 16
          else do {
            k \<leftarrow> last_index (CHR '':'') cp;
            z \<leftarrow> zero_tail (drop (Suc k) cp);
            Some (if \<not> z then 128 else groups_loop cp 0 0 False)
          })"

text \<open>
  \<open>set\<close>. The result is the block and what is left in the string of the caller: for IPv6 the terminator is
  written there and not into the copy. The readers of addresses give \<open>None\<close> for a text they do not accept;
  their result is not checked and \<open>Network\<close> then keeps its content.
\<close>

definition store_network :: "nat \<Rightarrow> byte list option \<Rightarrow> byte list \<Rightarrow> byte list" where
  "store_network n a old = (case a of None \<Rightarrow> old | Some bs \<Rightarrow> bs @ drop n old)"

fun add_zeros :: "nat \<Rightarrow> char list \<Rightarrow> char list option" where
  "add_zeros 0 cbuf = Some cbuf"
| "add_zeros (Suc n) cbuf = do { cbuf \<leftarrow> cstr_add cbuf 128 ''.0''; add_zeros n cbuf }"

record inet =
  inet_addr :: "cstr \<Rightarrow> byte list"
  inet_aton :: "cstr \<Rightarrow> byte list option"
  inet_pton6 :: "cstr \<Rightarrow> byte list option"

definition cidr_set4 :: "inet \<Rightarrow> char list \<Rightarrow> cstr \<Rightarrow> cidr \<Rightarrow> cidr option" where
  "cidr_set4 net cbuf cp c =
     do {
       n \<leftarrow> cidr_mask4 (inet_addr net) cp;
       msk \<leftarrow> bitset (replicate 4 0 @ drop 4 (Netmask c)) n;
       cbuf \<leftarrow> cstr_set cbuf 128 cp;
       t \<leftarrow> text_at 0 cbuf;
       let e = takeWhile (\<lambda>c. c \<noteq> CHR ''/'') t;
       cbuf \<leftarrow> (if CHR ''/'' \<in> set t then poke (length e) NUL cbuf else Some cbuf);
       cbuf \<leftarrow> add_zeros (3 - length (filter (\<lambda>c. c = CHR ''.'') e)) cbuf;
       t \<leftarrow> text_at 0 cbuf;
       nw \<leftarrow> bitmask 4 (store_network 4 (inet_aton net t) (Network c)) msk;
       Some (c\<lparr>Family := AF_INET, Netmask := msk, Network := nw\<rparr>)
     }"

definition cidr_set6 :: "inet \<Rightarrow> char list \<Rightarrow> cstr \<Rightarrow> cidr \<Rightarrow> (cidr \<times> cstr) option" where
  "cidr_set6 net cbuf cp c =
     do {
       n \<leftarrow> cidr_mask6 cp;
       msk \<leftarrow> bitset (replicate 16 0) n;
       cbuf \<leftarrow> cstr_set cbuf 128 cp;
       t \<leftarrow> text_at 0 cbuf;
       nw \<leftarrow> bitmask 16 (store_network 16 (inet_pton6 net t) (Network c)) msk;
       Some (c\<lparr>Family := AF_INET6, Netmask := msk, Network := nw\<rparr>, takeWhile (\<lambda>c. c \<noteq> CHR ''/'') cp)
     }"

definition cidr_set :: "inet \<Rightarrow> char list \<Rightarrow> cstr \<Rightarrow> cidr \<Rightarrow> (cidr \<times> cstr) option" where
  "cidr_set net cbuf cp c =
     (if CHR '':'' \<in> set cp then cidr_set6 net cbuf cp c
      else map_option (\<lambda>c. (c, cp)) (cidr_set4 net cbuf cp c))"

section \<open>Addresses as lists of bits\<close>

definition byte_bits :: "byte \<Rightarrow> bool list" where
  "byte_bits b = map (bit b) (rev [0..<8])"

definition bits_of :: "byte list \<Rightarrow> bool list" where
  "bits_of bs = concat (map byte_bits bs)"

lemma byte_bits_eq [simp]:
  "byte_bits b = [bit b 7, bit b 6, bit b 5, bit b 4, bit b 3, bit b 2, bit b 1, bit b 0]"
  by (simp add: byte_bits_def upt_rec numeral_eq_Suc)

lemma length_byte_bits: "length (byte_bits b) = 8"
  by simp

lemma byte_eqI:
  assumes "byte_bits a = byte_bits b"
  shows "a = b"
proof (rule bit_word_eqI)
  fix n assume "n < LENGTH(8)"
  then have "n \<in> set (rev [0..<8])" by simp
  then show "bit a n = bit b n" using assms unfolding byte_bits_def map_eq_conv by blast
qed

lemma bits_of_simps [simp]: "bits_of [] = []" "bits_of (b # bs) = byte_bits b @ bits_of bs"
  "bits_of (as @ bs) = bits_of as @ bits_of bs"
  by (simp_all add: bits_of_def del: byte_bits_eq)

lemma length_bits_of [simp]: "length (bits_of bs) = 8 * length bs"
  by (induction bs) auto

lemma bits_of_inj: "length as = length bs \<Longrightarrow> bits_of as = bits_of bs \<Longrightarrow> as = bs"
proof (induction as bs rule: list_induct2)
  case (Cons a as b bs)
  have "byte_bits a = byte_bits b \<and> bits_of as = bits_of bs"
    using Cons.prems by (simp add: length_byte_bits del: byte_bits_eq)
  then show ?case using Cons.IH byte_eqI by blast
qed simp

lemma bitmask_take:
  "n \<le> length bs \<Longrightarrow> n \<le> length ms \<Longrightarrow> bitmask n bs ms = Some (map2 (AND) (take n bs) (take n ms) @ drop n bs)"
proof (induction n bs ms rule: bitmask.induct)
  case (2 len b bits m msk)
  then show ?case by simp
qed (auto simp: Suc_le_length_iff)

lemma bitimask_take:
  "n \<le> length bs \<Longrightarrow> n \<le> length ms \<Longrightarrow>
     bitimask n bs ms = Some (map2 (\<lambda>b m. b OR NOT m) (take n bs) (take n ms) @ drop n bs)"
proof (induction n bs ms rule: bitimask.induct)
  case (2 len b bits m msk)
  then show ?case by simp
qed (auto simp: Suc_le_length_iff)

lemma bits_of_and: "length as = length ms \<Longrightarrow> bits_of (map2 (AND) as ms) = map2 (\<and>) (bits_of as) (bits_of ms)"
  by (induction as ms rule: list_induct2) (auto simp: bit_and_iff)

lemma bits_of_or_not:
  "length as = length ms \<Longrightarrow> bits_of (map2 (\<lambda>b m. b OR NOT m) as ms) = map2 (\<lambda>b m. b \<or> \<not> m) (bits_of as) (bits_of ms)"
  by (induction as ms rule: list_induct2) (auto simp: bit_or_iff bit_not_iff)

section \<open>Masks\<close>

text \<open>The mask of a prefix length.\<close>

abbreviation prefix_bits :: "nat \<Rightarrow> nat \<Rightarrow> bool list" where
  "prefix_bits k n \<equiv> replicate k True @ replicate (n - k) False"

lemma half_mask:
  assumes "Suc k < 8"
  shows "drop_bit 1 (2 ^ Suc k :: byte) = 2 ^ k" "(2 ^ Suc k :: byte) \<noteq> 0"
proof -
  have "k = 0 \<or> k = 1 \<or> k = 2 \<or> k = 3 \<or> k = 4 \<or> k = 5 \<or> k = 6" using assms by linarith
  then show "drop_bit 1 (2 ^ Suc k :: byte) = 2 ^ k" "(2 ^ Suc k :: byte) \<noteq> 0"
    by (elim disjE; simp)+
qed

lemma bitset_byte_spec:
  "k < 8 \<Longrightarrow> snd (bitset_byte (2 ^ k) b n) = n - Suc k
     \<and> (\<forall>i < 8. bit (fst (bitset_byte (2 ^ k) b n)) i \<longleftrightarrow> bit b i \<or> i \<le> k \<and> k < n + i)"
proof (induction k arbitrary: b n)
  case 0
  show ?case by (cases n; cases "n - 1") (auto simp: bit_or_iff bit_simps)
next
  case (Suc k)
  note m = half_mask [OF Suc.prems]
  show ?case
  proof (cases n)
    case (Suc n')
    then show ?thesis
      using m Suc.IH [of "b OR 2 ^ Suc k" n'] \<open>Suc k < 8\<close> by (auto simp: bit_or_iff bit_simps less_Suc_eq)
  qed auto
qed

lemma bitset_byte_bits:
  assumes "bitset_byte (push_bit 7 1) 0 n = (b, r)"
  shows "r = n - 8" "byte_bits b = prefix_bits (min n 8) 8"
proof -
  have s: "push_bit 7 1 = (2 :: byte) ^ 7" by simp
  have b: "snd (b, r) = n - 8" "\<forall>i < 8. bit b i \<longleftrightarrow> 7 < n + i"
    using bitset_byte_spec [of 7 0 n] assms unfolding s by auto
  then show "r = n - 8" by simp
  have "n \<ge> 8 \<or> n = 0 \<or> n = 1 \<or> n = 2 \<or> n = 3 \<or> n = 4 \<or> n = 5 \<or> n = 6 \<or> n = 7" by linarith
  then show "byte_bits b = prefix_bits (min n 8) 8"
    using b(2) by (elim disjE) (simp_all add: numeral_eq_Suc)
qed

lemma bitset_0 [simp]: "bitset bs 0 = Some bs"
  by (cases bs) auto

lemma bitset_append: "bitset bs n = Some m \<Longrightarrow> bitset (bs @ rest) n = Some (m @ rest)"
  by (induction bs n arbitrary: m rule: bitset.induct) (auto split: if_splits prod.splits)

lemma bits_of_zeros: "bits_of (replicate j 0) = replicate (8 * j) False"
  by (induction j) (simp_all add: numeral_eq_Suc)

lemma bitset_zeros:
  "if n \<le> 8 * len then (\<exists>m. bitset (replicate len 0) n = Some m \<and> length m = len \<and> bits_of m = prefix_bits n (8 * len))
   else bitset (replicate len 0) n = None"
proof (induction len arbitrary: n)
  case (Suc len)
  obtain b r where b: "bitset_byte (push_bit 7 1) 0 n = (b, r)" by fastforce
  note bb = bitset_byte_bits [OF b]
  show ?case
  proof (cases "n = 0")
    case True
    have "bitset (replicate (Suc len) 0) 0 = Some (replicate (Suc len) 0) \<and> length (replicate (Suc len) (0 :: byte)) = Suc len
        \<and> bits_of (replicate (Suc len) 0) = prefix_bits 0 (8 * Suc len)"
      unfolding bits_of_zeros by simp
    then show ?thesis unfolding True by (metis le0)
  next
    case False
    then have e: "bitset (replicate (Suc len) 0) n = map_option (Cons b) (bitset (replicate len 0) (n - 8))"
      using b bb(1) by simp
    have p: "prefix_bits (min n 8) 8 @ prefix_bits (n - 8) (8 * len) = prefix_bits n (8 * Suc len)"
      if "n \<le> 8 * Suc len"
    proof (cases "n \<le> 8")
      case True
      then show ?thesis by (simp add: replicate_add [symmetric])
    next
      case False
      then have "n = 8 + (n - 8)" by simp
      then have "replicate n True = replicate 8 True @ replicate (n - 8) True" by (metis replicate_add)
      then show ?thesis using False by (simp add: min_def)
    qed
    show ?thesis using Suc.IH [of "n - 8"] e bb(2) p by (auto split: if_splits simp del: byte_bits_eq)
  qed
qed simp

lemma bitcount_byte_spec:
  "k < 8 \<Longrightarrow> bitcount_byte (2 ^ k) b c =
     (let l = length (takeWhile (\<lambda>x. x) (map (bit b) (rev [0..<Suc k]))) in (l < Suc k, c + l))"
proof (induction k arbitrary: c)
  case 0
  have "1 AND b = 0 \<longleftrightarrow> \<not> bit b 0" by (simp add: and.commute [of 1] and_one_eq bit_0 even_iff_mod_2_eq_zero [symmetric])
  then show ?case by (subst bitcount_byte.simps) (simp add: bitcount_byte.simps [of 0])
next
  case (Suc k)
  note m = half_mask [OF Suc.prems]
  have "2 ^ Suc k AND b = 0 \<longleftrightarrow> \<not> bit b (Suc k)"
    by (metis and.commute bit_iff_and_push_bit_not_eq_0 push_bit_of_1)
  then show ?case using m Suc.IH [of "c + 1"] Suc.prems
    by (subst bitcount_byte.simps) (auto simp: Let_def)
qed

lemma takeWhile_append_len:
  "length (takeWhile (\<lambda>x. x) (as @ bs)) = (if length (takeWhile (\<lambda>x. x) as) < length as then length (takeWhile (\<lambda>x. x) as)
     else length as + length (takeWhile (\<lambda>x. x) bs))"
  by (induction as) auto

lemma bitcount_spec:
  "len \<le> length bs \<Longrightarrow> bitcount len bs c = Some (c + length (takeWhile (\<lambda>x. x) (bits_of (take len bs))))"
proof (induction len bs c rule: bitcount.induct)
  case (3 len b bits c)
  have s: "push_bit 7 1 = (2 :: byte) ^ 7" by simp
  let ?l = "length (takeWhile (\<lambda>x. x) (byte_bits b))"
  have c: "bitcount_byte (push_bit 7 1) b c = (?l < 8, c + ?l)"
    using bitcount_byte_spec [of 7 b c] unfolding s byte_bits_def by (simp add: Let_def del: byte_bits_eq)
  have l: "?l \<le> 8" using length_takeWhile_le [of "\<lambda>x. x" "byte_bits b"] unfolding length_byte_bits .
  show ?case
  proof (cases "?l < 8")
    case True
    then show ?thesis using c takeWhile_append_len [of "byte_bits b"] by (simp add: length_byte_bits del: byte_bits_eq)
  next
    case False
    then have l8: "?l = 8" using l by simp
    then have "bitcount_byte (push_bit 7 1) b c = (False, c + 8)" using c by simp
    then have "bitcount len bits (c + 8) = Some (c + 8 + length (takeWhile (\<lambda>x. x) (bits_of (take len bits))))"
      using 3 by fastforce
    then show ?thesis using c l8 takeWhile_append_len [of "byte_bits b"]
      by (simp add: length_byte_bits add.assoc del: byte_bits_eq)
  qed
qed auto

section \<open>Prefixes\<close>

text \<open>A block with prefix length \<open>k\<close>: its mask has \<open>k\<close> leading ones and its network no other bits.\<close>

definition is_block :: "cidr \<Rightarrow> nat \<Rightarrow> bool" where
  "is_block c k \<longleftrightarrow>
     Family c \<noteq> AF_UNSPEC \<and> length (Netmask c) = 16 \<and> length (Network c) = 16
     \<and> k \<le> 8 * sizeof_addr (Family c)
     \<and> bits_of (take (sizeof_addr (Family c)) (Netmask c)) = prefix_bits k (8 * sizeof_addr (Family c))
     \<and> drop k (bits_of (take (sizeof_addr (Family c)) (Network c))) = replicate (8 * sizeof_addr (Family c) - k) False"

definition address_bits :: "cidr \<Rightarrow> bool list" where
  "address_bits c = bits_of (take (sizeof_addr (Family c)) (Network c))"

lemma sizeof_addr_le: "sizeof_addr f \<le> 16"
  by (cases f) (simp_all add: sizeof_addr_def)

lemma map2_prefix_and: "length xs = n \<Longrightarrow> k \<le> n \<Longrightarrow> map2 (\<and>) xs (prefix_bits k n) = take k xs @ replicate (n - k) False"
  by (rule nth_equalityI) (auto simp: nth_append)

lemma map2_prefix_or: "length xs = n \<Longrightarrow> k \<le> n \<Longrightarrow> map2 (\<lambda>b m. b \<or> \<not> m) xs (prefix_bits k n) = take k xs @ replicate (n - k) True"
  by (rule nth_equalityI) (auto simp: nth_append)

lemma masked_bits:
  assumes "length bs = n" "n \<le> length ms" "bits_of (take n ms) = prefix_bits k (8 * n)" "k \<le> 8 * n"
  shows "bits_of (map2 (AND) bs (take n ms)) = take k (bits_of bs) @ replicate (8 * n - k) False"
  using assms by (simp add: bits_of_and map2_prefix_and)

lemma is_blockD:
  assumes "is_block c k"
  shows "sizeof_addr (Family c) \<le> length (Netmask c)"
    "bits_of (take (sizeof_addr (Family c)) (Netmask c)) = prefix_bits k (8 * sizeof_addr (Family c))"
    "k \<le> 8 * sizeof_addr (Family c)" "Family c \<noteq> AF_UNSPEC"
    "length (take (sizeof_addr (Family c)) (Network c)) = sizeof_addr (Family c)"
    "drop k (address_bits c) = replicate (8 * sizeof_addr (Family c) - k) False"
  using assms sizeof_addr_le [of "Family c"] by (auto simp: is_block_def address_bits_def)

lemma is_member_prefix:
  assumes c: "is_block c k" and s: "sa_family s = Family c" "length (sin_addr s) = sizeof_addr (Family c)"
  shows "cidr_is_member c s = Some (take k (bits_of (sin_addr s)) = take k (address_bits c))"
proof -
  let ?n = "sizeof_addr (Family c)"
  note b = is_blockD [OF c]
  let ?h = "map2 (AND) (sin_addr s) (take ?n (Netmask c))"
  have h: "bits_of ?h = take k (bits_of (sin_addr s)) @ replicate (8 * ?n - k) False"
    using masked_bits [OF s(2) b(1-3)] .
  have n: "bits_of (take ?n (Network c)) = take k (address_bits c) @ replicate (8 * ?n - k) False"
    using b(6) by (metis address_bits_def append_take_drop_id)
  have "?h = take ?n (Network c) \<longleftrightarrow> bits_of ?h = bits_of (take ?n (Network c))"
    using bits_of_inj [of ?h "take ?n (Network c)"] s(2) b(1,5) by auto
  also have "\<dots> \<longleftrightarrow> take k (bits_of (sin_addr s)) = take k (address_bits c)"
    unfolding h n by simp
  finally show ?thesis
    using s b(1,4) bitmask_take [of ?n "sin_addr s" "Netmask c"] by (simp add: cidr_is_member_def)
qed

lemma mask_prefix:
  assumes "is_block c k"
  shows "cidr_mask c = Some k"
proof -
  note b = is_blockD [OF assms]
  have "cidr_mask c = bitcount (sizeof_addr (Family c)) (Netmask c) 0"
    using b(4) by (cases "Family c") (auto simp: cidr_mask_def sizeof_addr_def)
  then show ?thesis
    using bitcount_spec [OF b(1), of 0] b(2) by (cases "8 * sizeof_addr (Family c) - k") (simp_all add: takeWhile_append)
qed

lemma broadcast_bits:
  assumes "is_block c k"
  obtains a where "cidr_broadcast c = Some a" "length a = sizeof_addr (Family c)"
    "bits_of a = take k (address_bits c) @ replicate (8 * sizeof_addr (Family c) - k) True"
proof -
  let ?n = "sizeof_addr (Family c)"
  note b = is_blockD [OF assms]
  let ?a = "map2 (\<lambda>b m. b OR NOT m) (take ?n (Network c)) (take ?n (Netmask c))"
  have "cidr_broadcast c = bitimask ?n (take ?n (Network c)) (Netmask c)"
    using b(4) by (cases "Family c") (auto simp: cidr_broadcast_def Let_def)
  moreover have "bits_of ?a = take k (address_bits c) @ replicate (8 * ?n - k) True"
    using b by (simp add: bits_of_or_not map2_prefix_or address_bits_def)
  ultimately show thesis using bitimask_take [of ?n "take ?n (Network c)" "Netmask c"] b(1,5)
    by (intro that [of ?a]) auto
qed

text \<open>C20: In a block with prefix length \<open>k\<close>, an address is a member exactly when its first \<open>k\<close> bits are those of the
  network, \<open>mask\<close> gives \<open>k\<close>, and \<open>broadcast\<close> is the last member: it belongs to the block, and every bit of a
  member is set in it.\<close>

theorem cidr_block_members:
  assumes c: "is_block c k" and s: "sa_family s = Family c" "length (sin_addr s) = sizeof_addr (Family c)"
  shows "cidr_is_member c s = Some (take k (bits_of (sin_addr s)) = take k (address_bits c))
    \<and> cidr_mask c = Some k
    \<and> (\<exists>a. cidr_broadcast c = Some a \<and> cidr_is_member c \<lparr>sa_family = Family c, sin_addr = a\<rparr> = Some True
         \<and> (cidr_is_member c s = Some True \<longrightarrow>
              (\<forall>i < 8 * sizeof_addr (Family c). bits_of (sin_addr s) ! i \<longrightarrow> bits_of a ! i)))"
proof -
  let ?n = "sizeof_addr (Family c)"
  obtain a where a: "cidr_broadcast c = Some a" "length a = ?n"
    "bits_of a = take k (address_bits c) @ replicate (8 * ?n - k) True"
    by (rule broadcast_bits [OF c])
  have l: "length (address_bits c) = 8 * ?n" "k \<le> 8 * ?n"
    using is_blockD [OF c] by (auto simp: address_bits_def)
  have "cidr_is_member c \<lparr>sa_family = Family c, sin_addr = a\<rparr> = Some True"
    using is_member_prefix [OF c, of "\<lparr>sa_family = Family c, sin_addr = a\<rparr>"] a l by simp
  moreover have "bits_of a ! i" if "cidr_is_member c s = Some True" "i < 8 * ?n" "bits_of (sin_addr s) ! i" for i
  proof (cases "i < k")
    case True
    have "take k (bits_of (sin_addr s)) = take k (address_bits c)" using that(1) is_member_prefix [OF c s] by simp
    then have "bits_of (sin_addr s) ! i = address_bits c ! i" using True by (metis nth_take)
    then show ?thesis using True that(3) a(3) l by (simp add: nth_append)
  next
    case False
    then show ?thesis using that(2) a(3) l by (simp add: nth_append)
  qed
  ultimately show ?thesis using is_member_prefix [OF c s] mask_prefix [OF c] a(1) by blast
qed

section \<open>Searching a policy\<close>

definition member_of :: "cidr \<Rightarrow> sockaddr \<Rightarrow> bool" where
  "member_of c s \<longleftrightarrow> cidr_is_member c s = Some True"

definition prefix_len :: "cidr \<Rightarrow> nat" where
  "prefix_len c = the (cidr_mask c)"

definition policy_ok :: "cidr list \<Rightarrow> sockaddr \<Rightarrow> bool" where
  "policy_ok cs s \<longleftrightarrow> length (sin_addr s) = sizeof_addr (sa_family s) \<and> (\<forall>c \<in> set cs. \<exists>k. is_block c k)"

lemma policy_total:
  assumes "policy_ok cs s" "c \<in> set cs"
  shows "cidr_is_member c s = Some (member_of c s)" "cidr_mask c = Some (prefix_len c)"
proof -
  obtain k where k: "is_block c k" using assms by (auto simp: policy_ok_def)
  show "cidr_mask c = Some (prefix_len c)" using mask_prefix [OF k] by (simp add: prefix_len_def)
  show "cidr_is_member c s = Some (member_of c s)"
  proof (cases "sa_family s = Family c")
    case True
    then show ?thesis using is_member_prefix [OF k True] assms(1) by (simp add: member_of_def policy_ok_def)
  qed (simp add: member_of_def cidr_is_member_def)
qed

lemma find_loop_spec:
  assumes "policy_ok cs s"
  shows "\<exists>r. find_loop cs s best mem p = Some r
    \<and> (r = mem \<and> (\<forall>c \<in> set cs. member_of c s \<longrightarrow> prefix_len c \<le> best)
       \<or> (\<exists>q < length cs. r = Some (p + q) \<and> member_of (cs ! q) s \<and> best < prefix_len (cs ! q)
            \<and> (\<forall>c \<in> set cs. member_of c s \<longrightarrow> prefix_len c \<le> prefix_len (cs ! q))))"
  using assms
proof (induction cs arbitrary: best mem p)
  case (Cons c cs)
  have ok: "policy_ok cs s" using Cons.prems by (simp add: policy_ok_def)
  note t = policy_total [OF Cons.prems, of c, simplified]
  show ?case
  proof (cases "member_of c s \<and> best < prefix_len c")
    case True
    from Cons.IH [OF ok, of "prefix_len c" "Some p" "p + 1"] show ?thesis
    proof (elim exE conjE disjE, goal_cases)
      case (1 r)
      then show ?case using t True by (intro exI [of _ r]) (auto intro!: exI [of _ 0])
    next
      case (2 r q)
      then show ?case using t True by (intro exI [of _ r]) (auto intro!: exI [of _ "Suc q"])
    qed
  next
    case False
    from Cons.IH [OF ok, of best mem "p + 1"] show ?thesis
    proof (elim exE conjE disjE, goal_cases)
      case (1 r)
      then show ?case using t False by (intro exI [of _ r]) auto
    next
      case (2 r q)
      then show ?case using t False by (intro exI [of _ r]) (auto intro!: exI [of _ "Suc q"])
    qed
  qed
qed simp

lemma container_loop_spec:
  assumes "policy_ok cs s"
  shows "\<exists>r. container_loop cs s best mem p = Some r
    \<and> (r = mem \<and> (\<forall>c \<in> set cs. member_of c s \<longrightarrow> best \<le> prefix_len c)
       \<or> (\<exists>q < length cs. r = Some (p + q) \<and> member_of (cs ! q) s \<and> prefix_len (cs ! q) < best
            \<and> (\<forall>c \<in> set cs. member_of c s \<longrightarrow> prefix_len (cs ! q) \<le> prefix_len c)))"
  using assms
proof (induction cs arbitrary: best mem p)
  case (Cons c cs)
  have ok: "policy_ok cs s" using Cons.prems by (simp add: policy_ok_def)
  note t = policy_total [OF Cons.prems, of c, simplified]
  show ?case
  proof (cases "member_of c s \<and> prefix_len c < best")
    case True
    from Cons.IH [OF ok, of "prefix_len c" "Some p" "p + 1"] show ?thesis
    proof (elim exE conjE disjE, goal_cases)
      case (1 r)
      then show ?case using t True by (intro exI [of _ r]) (auto intro!: exI [of _ 0])
    next
      case (2 r q)
      then show ?case using t True by (intro exI [of _ r]) (auto intro!: exI [of _ "Suc q"])
    qed
  next
    case False
    from Cons.IH [OF ok, of best mem "p + 1"] show ?thesis
    proof (elim exE conjE disjE, goal_cases)
      case (1 r)
      then show ?case using t False by (intro exI [of _ r]) auto
    next
      case (2 r q)
      then show ?case using t False by (intro exI [of _ r]) (auto intro!: exI [of _ "Suc q"])
    qed
  qed
qed simp

text \<open>\<open>find\<close> returns a block of the policy that the address belongs to and whose prefix is the longest,
  \<open>container\<close> one whose prefix is the shortest. They return nothing only when the address belongs to no
  block, except that \<open>find\<close> overlooks a block of length 0 and \<open>container\<close> one of length 128.\<close>

theorem cidr_policy_search:
  assumes "policy_ok cs s"
  shows "(case cidr_find cs s of
           None \<Rightarrow> False
         | Some None \<Rightarrow> \<forall>c \<in> set cs. member_of c s \<longrightarrow> prefix_len c = 0
         | Some (Some p) \<Rightarrow> p < length cs \<and> member_of (cs ! p) s
             \<and> (\<forall>c \<in> set cs. member_of c s \<longrightarrow> prefix_len c \<le> prefix_len (cs ! p)))
    \<and> (case cidr_container cs s of
           None \<Rightarrow> False
         | Some None \<Rightarrow> \<forall>c \<in> set cs. member_of c s \<longrightarrow> 128 \<le> prefix_len c
         | Some (Some p) \<Rightarrow> p < length cs \<and> member_of (cs ! p) s
             \<and> (\<forall>c \<in> set cs. member_of c s \<longrightarrow> prefix_len (cs ! p) \<le> prefix_len c))"
  using find_loop_spec [OF assms, of 0 None 0] container_loop_spec [OF assms, of 128 None 0]
  by (auto simp: cidr_find_def cidr_container_def)

section \<open>Blocks that are read from text\<close>

definition inet_ok :: "inet \<Rightarrow> bool" where
  "inet_ok net \<longleftrightarrow>
     (\<forall>t. length (inet_addr net t) = 4)
     \<and> (\<forall>t a. inet_aton net t = Some a \<longrightarrow> length a = 4)
     \<and> (\<forall>t a. inet_pton6 net t = Some a \<longrightarrow> length a = 16)"

text \<open>The part of the text before the slash, with zeros for the missing numbers.\<close>

definition full_address :: "cstr \<Rightarrow> cstr" where
  "full_address cp =
     (let e = takeWhile (\<lambda>c. c \<noteq> CHR ''/'') cp
      in e @ concat (replicate (3 - length (filter (\<lambda>c. c = CHR ''.'') e)) ''.0''))"

lemma add_zeros_result:
  "text_at 0 b = Some t \<Longrightarrow> length b = 128 \<Longrightarrow> length t + 2 * n < 128 \<Longrightarrow>
     \<exists>b'. add_zeros n b = Some b' \<and> text_at 0 b' = Some (t @ concat (replicate n ''.0'')) \<and> length b' = 128"
proof (induction n arbitrary: b t)
  case (Suc n)
  obtain junk where a: "cstr_add b 128 ''.0'' = Some (t @ take (128 - 1 - length t) ''.0'' @ NUL # junk)"
    "length (t @ take (128 - 1 - length t) ''.0'' @ NUL # junk) = length b"
    using cstr_add_result [OF Suc.prems(1), of 128 "''.0''"] Suc.prems(2,3) by auto
  have "take (128 - 1 - length t) ''.0'' = ''.0''" using Suc.prems(3) by (intro take_all) simp
  then have a': "cstr_add b 128 ''.0'' = Some ((t @ ''.0'') @ NUL # junk)" "length ((t @ ''.0'') @ NUL # junk) = 128"
    using a Suc.prems(2) by simp_all
  have "NUL \<notin> set (t @ ''.0'')" using Suc.prems(1) by (auto simp: text_at_split)
  then have "text_at 0 ((t @ ''.0'') @ NUL # junk) = Some (t @ ''.0'')" by (rule text_at_append)
  from Suc.IH [OF this a'(2)] Suc.prems(3) obtain b' where
    "add_zeros n ((t @ ''.0'') @ NUL # junk) = Some b'" "text_at 0 b' = Some ((t @ ''.0'') @ concat (replicate n ''.0''))"
    "length b' = 128" by auto
  then show ?case using a'(1) by simp
qed simp

lemma cut_slash:
  assumes "NUL \<notin> set cp" "b = cp @ NUL # junk"
  obtains b' where "(if CHR ''/'' \<in> set cp then poke (length (takeWhile (\<lambda>c. c \<noteq> CHR ''/'') cp)) NUL b else Some b) = Some b'"
    "text_at 0 b' = Some (takeWhile (\<lambda>c. c \<noteq> CHR ''/'') cp)" "length b' = length b"
proof (cases "CHR ''/'' \<in> set cp")
  case True
    obtain e r where cp: "cp = e @ CHR ''/'' # r" "CHR ''/'' \<notin> set e" using True by (meson split_list_first)
  have tw: "takeWhile (\<lambda>c. c \<noteq> CHR ''/'') cp = e" unfolding cp(1) using cp(2) by (subst takeWhile_append2) auto
  have "poke (length e) NUL b = Some (e @ NUL # r @ NUL # junk)" using assms(2) cp(1) by simp
  moreover have "NUL \<notin> set e" using assms(1) cp(1) by auto
  ultimately show thesis using True assms(2) cp(1) unfolding tw by (intro that [unfolded tw]) auto
next
  case False
  then have tw: "takeWhile (\<lambda>c. c \<noteq> CHR ''/'') cp = cp" by (auto simp: takeWhile_eq_all_conv)
  have "text_at 0 b = Some cp" using assms by simp
  then show thesis using False by (intro that [of b]) (simp_all add: tw)
qed

lemma masked_block:
  assumes "sizeof_addr fam = n" "fam \<noteq> AF_UNSPEC" "k \<le> 8 * n" "bitset (replicate n 0) k = Some m"
    "length a = n" "length rest = 16 - n" "length rest' = 16 - n"
  shows "bitmask n (a @ rest) (m @ rest') = Some (map2 (AND) a m @ rest)"
    "is_block \<lparr>Family = fam, Netmask = m @ rest', Network = map2 (AND) a m @ rest, Name = nm\<rparr> k"
    "take k (bits_of (map2 (AND) a m)) = take k (bits_of a)"
proof -
  have m: "length m = n" "bits_of m = prefix_bits k (8 * n)"
    using bitset_zeros [of k n] assms(3,4) by auto
  have n: "n \<le> 16" using assms(1) sizeof_addr_le by blast
  show "bitmask n (a @ rest) (m @ rest') = Some (map2 (AND) a m @ rest)"
    using bitmask_take [of n "a @ rest" "m @ rest'"] m(1) assms(5) by simp
  have b: "bits_of (map2 (AND) a m) = take k (bits_of a) @ replicate (8 * n - k) False"
    using masked_bits [of a n m k] m assms(3,5) by simp
  then show "take k (bits_of (map2 (AND) a m)) = take k (bits_of a)" using assms(3,5) by simp
  show "is_block \<lparr>Family = fam, Netmask = m @ rest', Network = map2 (AND) a m @ rest, Name = nm\<rparr> k"
    using assms m b n by (simp add: is_block_def)
qed

text \<open>\<open>set\<close> of an IPv4 text whose prefix length, written or implied, is at most 32 makes the block of that
  length around the address before the slash, with zeros for the numbers that are missing.\<close>

theorem cidr_set_ipv4:
  assumes net: "inet_ok net" "inet_aton net (full_address cp) = Some a"
    and cp: "NUL \<notin> set cp" "CHR '':'' \<notin> set cp" "length cp + 6 < 128"
    and k: "cidr_mask4 (inet_addr net) cp = Some k" "k \<le> 32"
    and c: "length (Netmask c) = 16" "length (Network c) = 16" and cbuf: "length cbuf = 128"
  shows "\<exists>c'. cidr_set net cbuf cp c = Some (c', cp) \<and> Family c' = AF_INET \<and> is_block c' k
    \<and> take k (address_bits c') = take k (bits_of a)"
proof -
  let ?e = "takeWhile (\<lambda>c. c \<noteq> CHR ''/'') cp"
  obtain m where m: "bitset (replicate 4 0) k = Some m" "length m = 4"
    using bitset_zeros [of k 4] k(2) by auto
  have m': "bitset (replicate 4 0 @ drop 4 (Netmask c)) k = Some (m @ drop 4 (Netmask c))"
    by (rule bitset_append [OF m(1)])
  have a: "length a = 4" using net by (auto simp: inet_ok_def)
  obtain junk where b: "cstr_set cbuf 128 cp = Some (cp @ NUL # junk)" "length (cp @ NUL # junk) = 128"
    using cstr_set_result [of 128 cbuf cp] cp(3) cbuf by simp
  obtain b' where b': "(if CHR ''/'' \<in> set cp then poke (length ?e) NUL (cp @ NUL # junk) else Some (cp @ NUL # junk)) = Some b'"
    "text_at 0 b' = Some ?e" "length b' = 128"
    using cut_slash [OF cp(1) refl] b(2) by metis
  let ?z = "3 - length (filter (\<lambda>c. c = CHR ''.'') ?e)"
  have "length ?e + 2 * ?z < 128" using cp(3) length_takeWhile_le [of "\<lambda>c. c \<noteq> CHR ''/''" cp] by simp
  from add_zeros_result [OF b'(2,3) this] obtain b'' where
    b'': "add_zeros ?z b' = Some b''" "text_at 0 b'' = Some (full_address cp)"
    by (auto simp: full_address_def Let_def)
  have pre: "sizeof_addr AF_INET = 4" "AF_INET \<noteq> AF_UNSPEC" "k \<le> 8 * 4"
    "length (drop 4 (Network c)) = 16 - 4" "length (drop 4 (Netmask c)) = 16 - 4"
    using k(2) c by (simp_all add: sizeof_addr_def)
  note M = masked_block [OF pre(1-3) m(1) a pre(4,5)]
  let ?c = "c\<lparr>Family := AF_INET, Netmask := m @ drop 4 (Netmask c), Network := map2 (AND) a m @ drop 4 (Network c)\<rparr>"
  have "cidr_set4 net cbuf cp c = Some ?c"
    using k(1) m' b(1) b' b'' net(2) cp(1) M(1) by (simp add: cidr_set4_def store_network_def)
  moreover have "is_block ?c k" using M(2) [of "Name c"] by (cases c) simp
  moreover have "take k (address_bits ?c) = take k (bits_of a)"
    using M(3) m(2) a by (simp add: address_bits_def sizeof_addr_def)
  ultimately show ?thesis using cp(2) by (intro exI [of _ ?c]) (simp add: cidr_set_def)
qed

section \<open>Defects\<close>

lemma bitset_overflow: "8 * length bs < n \<Longrightarrow> bitset bs n = None"
proof (induction bs arbitrary: n)
  case (Cons b bs)
  have s: "push_bit 7 1 = (2 :: byte) ^ 7" by simp
  have "snd (bitset_byte (push_bit 7 1) b n) = n - 8" using bitset_byte_spec [of 7 b n] unfolding s by simp
  then show ?case using Cons by (cases "bitset_byte (push_bit 7 1) b n") auto
qed simp

text \<open>A prefix length above 128, or a negative one, makes \<open>set\<close> write behind \<open>Netmask\<close>.\<close>

lemma cidr_set4_overflow:
  "cidr_mask4 (inet_addr net) cp = Some k \<Longrightarrow> 128 < k \<Longrightarrow> length (Netmask c) = 16 \<Longrightarrow> cidr_set4 net cbuf cp c = None"
  using bitset_overflow [of "replicate 4 0 @ drop 4 (Netmask c)" k] by (simp add: cidr_set4_def)

lemma cidr_negative: "cidr_mask4 f ''10.0.0.0/-1'' = Some 4294967295"
  by (simp add: cidr_mask4_def to_unsigned_def atoi_def digits_value_def is_digit_def)

text \<open>
  For an IPv6 block with a slash the copy that is read still has the slash: a reader that rejects it
  leaves \<open>Network\<close> as it was, and the string of the caller is cut instead.
\<close>

lemma cidr_set6_slash:
  assumes "\<forall>t. CHR ''/'' \<in> set t \<longrightarrow> inet_pton6 net t = None" "CHR ''/'' \<in> set cp" "length cp < 128" "NUL \<notin> set cp"
    "cidr_set6 net cbuf cp c = Some (c', cp')" "length cbuf = 128" "length (Network c) = 16"
  shows "Network c' = map2 (AND) (Network c) (Netmask c') \<and> cp' = takeWhile (\<lambda>c. c \<noteq> CHR ''/'') cp"
proof -
  obtain n m where m: "cidr_mask6 cp = Some n" "bitset (replicate 16 0) n = Some m"
    using assms(5) by (auto simp: cidr_set6_def split: bind_splits)
  have lm: "length m = 16" using bitset_zeros [of n 16] m(2) by (auto split: if_splits)
  obtain junk where "cstr_set cbuf 128 cp = Some (cp @ NUL # junk)"
    using cstr_set_result [of 128 cbuf cp] assms(3,6) by simp
  then show ?thesis
    using assms m lm bitmask_take [of 16 "Network c" m] by (simp add: cidr_set6_def store_network_def) force
qed

text \<open>A zero at the end of an address without prefix length: the search runs behind the terminator.\<close>

lemma cidr_mask6_zero: "cidr_mask6 ''1::0'' = None"
  by (simp add: cidr_mask6_def)

section \<open>Instances\<close>

definition example_net :: inet where
  "example_net = \<lparr>inet_addr = \<lambda>_. [255, 255, 255, 255], inet_aton = \<lambda>t. if t = ''10.1.0.0'' then Some [10, 1, 0, 0] else None,
     inet_pton6 = \<lambda>_. None\<rparr>"

definition example_block :: "byte list \<Rightarrow> byte list \<Rightarrow> cidr" where
  "example_block n m = \<lparr>Family = AF_INET, Netmask = m @ replicate 12 0, Network = n @ replicate 12 0, Name = []\<rparr>"

lemma example_blocks: "is_block (example_block [10, 1, 0, 0] [255, 255, 0, 0]) 16" "is_block (example_block [10, 0, 0, 0] [255, 0, 0, 0]) 8"
  by (simp_all add: is_block_def example_block_def sizeof_addr_def numeral_eq_Suc)

theorem cidr_set_ipv4_witness:
  "\<exists>c'. cidr_set example_net (replicate 128 CHR ''x'') ''10.1/16'' cidr_new = Some (c', ''10.1/16'') \<and> Family c' = AF_INET
    \<and> is_block c' 16 \<and> take 16 (address_bits c') = take 16 (bits_of [10, 1, 0, 0])"
  by (rule cidr_set_ipv4)
    (simp_all add: example_net_def inet_ok_def full_address_def cidr_mask4_def to_unsigned_def atoi_def digits_value_def
      is_digit_def cidr_new_def numeral_eq_Suc)

theorem cidr_block_members_witness:
  "cidr_is_member (example_block [10, 1, 0, 0] [255, 255, 0, 0]) \<lparr>sa_family = AF_INET, sin_addr = [10, 1, 2, 3]\<rparr> = Some True
    \<and> cidr_mask (example_block [10, 1, 0, 0] [255, 255, 0, 0]) = Some 16"
  using cidr_block_members [OF example_blocks(1), of "\<lparr>sa_family = AF_INET, sin_addr = [10, 1, 2, 3]\<rparr>"]
  by (simp add: example_block_def sizeof_addr_def address_bits_def numeral_eq_Suc)

theorem cidr_policy_search_witness:
  "case cidr_find [example_block [10, 0, 0, 0] [255, 0, 0, 0], example_block [10, 1, 0, 0] [255, 255, 0, 0]]
       \<lparr>sa_family = AF_INET, sin_addr = [10, 1, 2, 3]\<rparr> of Some (Some p) \<Rightarrow> p < 2 | _ \<Rightarrow> True"
proof -
  have "policy_ok [example_block [10, 0, 0, 0] [255, 0, 0, 0], example_block [10, 1, 0, 0] [255, 255, 0, 0]]
      \<lparr>sa_family = AF_INET, sin_addr = [10, 1, 2, 3]\<rparr>"
    using example_blocks by (auto simp: policy_ok_def sizeof_addr_def)
  from cidr_policy_search [OF this] show ?thesis by (auto split: option.splits)
qed

end
