(* ===== verification/Reuse.thy ===== *)
theory Reuse
  imports Prelude
begin

text \<open>
  Pools of reusable objects: \<open>ReusableAllocator\<close> of \<open>corelib/thread.cpp\<close>, \<open>ArrayReuse\<close> and \<open>PagerReuse\<close>
  of \<open>corelib/reuse.cpp\<close>.

  An object is its number: its position in the array, or the number of the allocation it comes from.
  The free list is a list, last released object first. \<open>held\<close> are the objects in the hands of the
  program, which may pass them between threads; it may release only what it holds. A step is what
  a thread does while it has the mutex. \<open>signal\<close> wakes any one sleeping thread, sleeping threads may wake
  without a signal, and the sleep of a timed call may expire. A call of \<open>get\<close> with timeout zero never sleeps and
  does the same as \<open>request\<close>. The pager is assumed to have memory for the objects.
\<close>

section \<open>State\<close>

datatype rpc = Idle | Wait bool | Woken bool | Expired

record pool =
  freelist :: "nat list"
  waiting :: nat
  used :: nat
  cnt :: nat
  limit :: nat
  held :: "nat list"
  pcs :: "rpc list"

definition ReusableAllocator_new :: "nat \<Rightarrow> nat \<Rightarrow> pool" where
  "ReusableAllocator_new c n =
     \<lparr>freelist = [], waiting = 0, used = 0, cnt = 0, limit = c, held = [], pcs = replicate n Idle\<rparr>"

abbreviation goto :: "nat \<Rightarrow> rpc \<Rightarrow> pool \<Rightarrow> pool" where
  "goto t p s \<equiv> s\<lparr>pcs := (pcs s)[t := p]\<rparr>"

fun wake :: "rpc \<Rightarrow> rpc" where
  "wake (Wait timed) = Woken timed"
| "wake p = p"

fun sleeping :: "rpc \<Rightarrow> bool" where
  "sleeping (Wait timed) = True"
| "sleeping p = False"

definition signal :: "pool \<Rightarrow> pool list" where
  "signal s = map (\<lambda>ps. s\<lparr>pcs := ps\<rparr>) (wake_one sleeping wake (pcs s))"

text \<open>\<open>release\<close> returns an object. It does not count down \<open>count\<close>.\<close>

definition ReusableAllocator_release :: "nat \<Rightarrow> pool \<Rightarrow> pool list" where
  "ReusableAllocator_release obj s =
     (let s = s\<lparr>freelist := obj # freelist s, held := remove1 obj (held s)\<rparr>
      in if waiting s \<noteq> 0 then signal s else [s])"

section \<open>ArrayReuse\<close>

definition ArrayReuse_avail :: "pool \<Rightarrow> bool" where
  "ArrayReuse_avail s \<longleftrightarrow> cnt s < limit s"

text \<open>Taking an object: from the free list, or the next of the array.\<close>

definition array_take :: "pool \<Rightarrow> pool" where
  "array_take s =
     (case freelist s of
        obj # rest \<Rightarrow> s\<lparr>freelist := rest, cnt := (cnt s + 1) mod 2 ^ 32, held := obj # held s\<rparr>
      | [] \<Rightarrow> if used s < limit s then s\<lparr>used := used s + 1, cnt := (cnt s + 1) mod 2 ^ 32, held := used s # held s\<rparr> else s)"

definition ArrayReuse_request :: "pool \<Rightarrow> pool" where
  "ArrayReuse_request s = array_take s"

text \<open>\<open>get\<close> from the test of its loop; the flag says that the call has a timeout.\<close>

definition array_loop :: "nat \<Rightarrow> bool \<Rightarrow> pool \<Rightarrow> pool" where
  "array_loop t timed s =
     (if freelist s = [] \<and> used s \<ge> limit s then goto t (Wait timed) (s\<lparr>waiting := waiting s + 1\<rparr>)
      else goto t Idle (array_take s))"

definition ArrayReuse_get :: "nat \<Rightarrow> bool \<Rightarrow> pool \<Rightarrow> pool" where
  "ArrayReuse_get t timed s = array_loop t timed s"

definition array_resume :: "nat \<Rightarrow> bool \<Rightarrow> pool \<Rightarrow> pool" where
  "array_resume t timed s = array_loop t timed (s\<lparr>waiting := waiting s - 1\<rparr>)"

definition get_expire :: "nat \<Rightarrow> pool \<Rightarrow> pool" where
  "get_expire t s = goto t Idle (s\<lparr>waiting := waiting s - 1\<rparr>)"

section \<open>PagerReuse\<close>

definition PagerReuse_avail :: "pool \<Rightarrow> bool" where
  "PagerReuse_avail s \<longleftrightarrow> limit s = 0 \<or> cnt s < limit s"

definition pager_take :: "pool \<Rightarrow> pool" where
  "pager_take s =
     (case freelist s of
        obj # rest \<Rightarrow> s\<lparr>freelist := rest, cnt := (cnt s + 1) mod 2 ^ 32, held := obj # held s\<rparr>
      | [] \<Rightarrow> s\<lparr>used := used s + 1, cnt := (cnt s + 1) mod 2 ^ 32, held := used s # held s\<rparr>)"

definition PagerReuse_request :: "pool \<Rightarrow> pool" where
  "PagerReuse_request s = (if limit s = 0 \<or> cnt s < limit s then pager_take s else s)"

definition pager_loop :: "nat \<Rightarrow> bool \<Rightarrow> pool \<Rightarrow> pool" where
  "pager_loop t timed s =
     (if limit s \<noteq> 0 \<and> cnt s \<ge> limit s then goto t (Wait timed) (s\<lparr>waiting := waiting s + 1\<rparr>)
      else goto t Idle (pager_take s))"

definition PagerReuse_get :: "nat \<Rightarrow> bool \<Rightarrow> pool \<Rightarrow> pool" where
  "PagerReuse_get t timed s = pager_loop t timed s"

definition pager_resume :: "nat \<Rightarrow> bool \<Rightarrow> pool \<Rightarrow> pool" where
  "pager_resume t timed s = pager_loop t timed (s\<lparr>waiting := waiting s - 1\<rparr>)"

section \<open>Steps\<close>

abbreviation at :: "pool \<Rightarrow> nat \<Rightarrow> rpc \<Rightarrow> bool" where
  "at s t p \<equiv> t < length (pcs s) \<and> pcs s ! t = p"

inductive array_step :: "pool \<Rightarrow> pool \<Rightarrow> bool" where
  request: "at s t Idle \<Longrightarrow> array_step s (ArrayReuse_request s)"
| get: "at s t Idle \<Longrightarrow> array_step s (ArrayReuse_get t timed s)"
| get_wake: "at s t (Woken timed) \<Longrightarrow> array_step s (array_resume t timed s)"
| timed_out: "at s t Expired \<Longrightarrow> array_step s (get_expire t s)"
| release: "at s t Idle \<Longrightarrow> obj \<in> set (held s) \<Longrightarrow> s' \<in> set (ReusableAllocator_release obj s) \<Longrightarrow> array_step s s'"
| spurious: "at s t (Wait timed) \<Longrightarrow> array_step s (goto t (Woken timed) s)"
| expire: "at s t (Wait True) \<Longrightarrow> array_step s (goto t Expired s)"

inductive pager_step :: "pool \<Rightarrow> pool \<Rightarrow> bool" where
  request: "at s t Idle \<Longrightarrow> pager_step s (PagerReuse_request s)"
| get: "at s t Idle \<Longrightarrow> pager_step s (PagerReuse_get t timed s)"
| get_wake: "at s t (Woken timed) \<Longrightarrow> pager_step s (pager_resume t timed s)"
| timed_out: "at s t Expired \<Longrightarrow> pager_step s (get_expire t s)"
| release: "at s t Idle \<Longrightarrow> obj \<in> set (held s) \<Longrightarrow> s' \<in> set (ReusableAllocator_release obj s) \<Longrightarrow> pager_step s s'"
| spurious: "at s t (Wait timed) \<Longrightarrow> pager_step s (goto t (Woken timed) s)"
| expire: "at s t (Wait True) \<Longrightarrow> pager_step s (goto t Expired s)"

definition pool_init :: "pool \<Rightarrow> bool" where
  "pool_init s \<longleftrightarrow> (\<exists>c n. 0 < c \<and> s = ReusableAllocator_new c n)"

section \<open>Invariants\<close>

fun in_wait :: "rpc \<Rightarrow> bool" where
  "in_wait Idle = False" | "in_wait _ = True"

fun woken :: "rpc \<Rightarrow> bool" where
  "woken (Woken b) = True" | "woken p = False"

text \<open>Every object that was made is in one place.\<close>

definition pool_objects :: "pool \<Rightarrow> bool" where
  "pool_objects s \<longleftrightarrow> distinct (freelist s @ held s) \<and> set (freelist s @ held s) = {0..<used s}"

definition array_live :: "pool \<Rightarrow> bool" where
  "array_live s \<longleftrightarrow>
     used s \<le> limit s \<and> waiting s = count_if in_wait (pcs s)
     \<and> (count_if sleeping (pcs s) \<noteq> 0 \<longrightarrow> used s = limit s \<and> length (freelist s) \<le> count_if woken (pcs s))"

lemma pool_count_move:
  assumes "at s t p"
  shows "count_if in_wait ((pcs s)[t := q]) + of_bool (in_wait p) = count_if in_wait (pcs s) + of_bool (in_wait q)"
    "count_if woken ((pcs s)[t := q]) + of_bool (woken p) = count_if woken (pcs s) + of_bool (woken q)"
    "count_if sleeping ((pcs s)[t := q]) + of_bool (sleeping p) = count_if sleeping (pcs s) + of_bool (sleeping q)"
  using assms count_if_update [of t "pcs s" _ q] by fastforce+

lemma pool_signal_cases:
  assumes "r \<in> set (signal s)"
  obtains "count_if sleeping (pcs s) = 0" "r = s" | u b where "at s u (Wait b)" "r = goto u (Woken b) s"
proof -
  obtain ps where ps: "ps \<in> set (wake_one sleeping wake (pcs s))" "r = s\<lparr>pcs := ps\<rparr>"
    using assms by (auto simp: signal_def)
  from ps(1) show thesis
  proof (cases rule: wake_one_cases)
    case 1
    then show thesis using that(1) ps(2) by (simp add: count_if_0)
  next
    case (2 u)
    then show thesis using that(2) ps(2) by (cases "pcs s ! u") auto
  qed
qed

lemma pool_sleeping_in_wait: "sleeping p \<Longrightarrow> in_wait p"
  by (cases p) auto

lemma release_objects:
  assumes "obj \<in> set (held s)" "pool_objects s" "s' \<in> set (ReusableAllocator_release obj s)"
  shows "pool_objects s'"
proof -
  let ?s = "s\<lparr>freelist := obj # freelist s, held := remove1 obj (held s)\<rparr>"
  have "pool_objects ?s" using assms(1,2) by (auto simp: pool_objects_def)
  moreover have "s' = ?s \<or> s' \<in> set (signal ?s)" using assms(3) by (auto simp: ReusableAllocator_release_def Let_def split: if_splits)
  ultimately show ?thesis by (auto simp: pool_objects_def elim!: pool_signal_cases)
qed

lemma array_take_objects: "pool_objects s \<Longrightarrow> pool_objects (array_take s)"
  by (auto simp: pool_objects_def array_take_def split: list.split)

lemma pager_take_objects: "pool_objects s \<Longrightarrow> pool_objects (pager_take s)"
  by (auto simp: pool_objects_def pager_take_def split: list.split)

lemma pool_objects_pcs [simp]: "pool_objects (s\<lparr>pcs := ps\<rparr>) = pool_objects s" "pool_objects (s\<lparr>waiting := w\<rparr>) = pool_objects s"
  by (simp_all add: pool_objects_def)

lemma array_objects_step: "array_step s s' \<Longrightarrow> pool_objects s \<Longrightarrow> pool_objects s'"
  by (induction rule: array_step.induct)
    (auto simp: ArrayReuse_request_def ArrayReuse_get_def array_resume_def array_loop_def get_expire_def
      array_take_objects intro: release_objects)

lemma pager_objects_step: "pager_step s s' \<Longrightarrow> pool_objects s \<Longrightarrow> pool_objects s'"
  by (induction rule: pager_step.induct)
    (auto simp: PagerReuse_request_def PagerReuse_get_def pager_resume_def pager_loop_def get_expire_def
      pager_take_objects intro: release_objects)

lemma array_loop_live:
  assumes "at s t p" "array_live (s\<lparr>waiting := waiting s + of_bool (in_wait p)\<rparr>)" "\<not> sleeping p"
  shows "array_live (array_loop t timed s)"
proof -
  note m = pool_count_move [OF assms(1), of "Wait timed"] pool_count_move [OF assms(1), of Idle]
  show ?thesis using assms m
    by (auto simp: array_loop_def array_take_def array_live_def neq_Nil_conv of_bool_def split: list.splits if_splits)
qed

lemma release_live:
  assumes "array_live s" "s' \<in> set (ReusableAllocator_release obj s)"
  shows "array_live s'"
proof -
  define s1 where "s1 = s\<lparr>freelist := obj # freelist s, held := remove1 obj (held s)\<rparr>"
  have s1: "pcs s1 = pcs s" "waiting s1 = waiting s" "used s1 = used s" "limit s1 = limit s"
    "length (freelist s1) = Suc (length (freelist s))" by (simp_all add: s1_def)
  show ?thesis
  proof (cases "waiting s = 0")
    case True
    then have "count_if sleeping (pcs s) = 0"
      using assms(1) pool_sleeping_in_wait by (auto simp: array_live_def count_if_0)
    then show ?thesis using assms True s1 by (auto simp: ReusableAllocator_release_def Let_def s1_def [symmetric] array_live_def)
  next
    case False
    then have "s' \<in> set (signal s1)" using assms(2) by (simp add: ReusableAllocator_release_def Let_def s1_def)
    then show ?thesis
    proof (cases rule: pool_signal_cases)
      case 1
      then show ?thesis using assms(1) s1 by (simp add: array_live_def)
    next
      case (2 u b)
      then show ?thesis using assms(1) s1 pool_count_move [of u s "Wait b" "Woken b"] by (auto simp: array_live_def)
    qed
  qed
qed

lemma array_live_step: "array_step s s' \<Longrightarrow> array_live s \<Longrightarrow> array_live s'"
proof (induction rule: array_step.induct)
  case (request s t)
  then show ?case by (auto simp: ArrayReuse_request_def array_take_def array_live_def split: list.splits)
next
  case (get s t timed)
  then show ?case using array_loop_live [of t s Idle timed] by (simp add: ArrayReuse_get_def)
next
  case (get_wake s t timed)
  have "0 < waiting s" using get_wake count_if_pos [of t "pcs s" in_wait] by (simp add: array_live_def)
  then show ?case using get_wake array_loop_live [of t "s\<lparr>waiting := waiting s - 1\<rparr>" "Woken timed" timed]
    by (simp add: array_resume_def)
next
  case (timed_out s t)
  then show ?case using pool_count_move [of t s Expired Idle] by (auto simp: get_expire_def array_live_def)
next
  case (spurious s t timed)
  then show ?case using pool_count_move [of t s "Wait timed" "Woken timed"] by (auto simp: array_live_def)
next
  case (expire s t)
  then show ?case using pool_count_move [of t s "Wait True" Expired] by (auto simp: array_live_def)
qed (rule release_live)

lemma count_new: "count_if sleeping (replicate n Idle) = 0" "count_if in_wait (replicate n Idle) = 0"
  by (simp_all add: count_if_def)

interpretation array: invariant_system pool_init array_step "\<lambda>s. pool_objects s \<and> array_live s"
proof
  show "pool_objects s \<and> array_live s" if "pool_init s" for s
    using that by (auto simp: pool_init_def ReusableAllocator_new_def pool_objects_def array_live_def count_new)
  show "pool_objects t \<and> array_live t" if "pool_objects s \<and> array_live s" "array_step s t" for s t
    using that array_objects_step array_live_step by blast
qed

interpretation paged: invariant_system pool_init pager_step pool_objects
proof
  show "pool_objects s" if "pool_init s" for s
    using that by (auto simp: pool_init_def ReusableAllocator_new_def pool_objects_def)
  show "pool_objects t" if "pool_objects s" "pager_step s t" for s t
    using that pager_objects_step by blast
qed

section \<open>Properties\<close>

text \<open>C34: An array pool never hands out an object that is in use: the objects in the hands of the program are different
  places of the array, so at most \<open>limit\<close> of them. And no wakeup is lost: while a thread sleeps, all places are
  made and at least as many woken threads are on their way as there are free objects.\<close>

theorem ArrayReuse_pool:
  assumes "reach pool_init array_step s"
  shows "distinct (held s) \<and> (\<forall>obj \<in> set (held s). obj < limit s) \<and> length (held s) \<le> limit s
    \<and> (\<forall>t b. at s t (Wait b) \<longrightarrow> used s = limit s \<and> length (freelist s) \<le> count_if woken (pcs s))"
proof -
  have i: "pool_objects s" "array_live s" using array.reach_inv [OF assms] by auto
  have "length (held s) = card (set (held s))" using i(1) by (simp add: pool_objects_def distinct_card)
  also have "\<dots> \<le> card {0..<used s}" using i(1) by (intro card_mono) (auto simp: pool_objects_def)
  also have "\<dots> \<le> limit s" using i(2) by (simp add: array_live_def)
  finally have "length (held s) \<le> limit s" .
  moreover have "count_if sleeping (pcs s) \<noteq> 0" if "at s t (Wait b)" for t b
    using that count_if_pos [of t "pcs s" sleeping] by simp
  ultimately show ?thesis using i by (fastforce simp: pool_objects_def array_live_def)
qed

lemma pool_release_counts:
  assumes "s' \<in> set (ReusableAllocator_release obj s)"
  shows "cnt s' = cnt s" "limit s' = limit s" "held s' = remove1 obj (held s)"
  using assms by (auto simp: ReusableAllocator_release_def Let_def split: if_splits elim!: pool_signal_cases)

lemma exhausted_step:
  "pager_step s s' \<Longrightarrow> limit s \<noteq> 0 \<Longrightarrow> limit s \<le> cnt s \<Longrightarrow>
     cnt s' = cnt s \<and> limit s' = limit s \<and> set (held s') \<subseteq> set (held s)"
proof (induction rule: pager_step.induct)
  case (release s t obj s')
  then show ?case using pool_release_counts [OF release(3)] set_remove1_subset [of obj "held s"] by simp
qed (auto simp: PagerReuse_request_def PagerReuse_get_def pager_resume_def pager_loop_def get_expire_def)

text \<open>\<open>PagerReuse\<close> counts the objects it hands out and never counts them down. Once it has handed out as many as
  its limit, it hands out nothing any more, whatever is released.\<close>

theorem PagerReuse_exhausted:
  assumes "pager_step\<^sup>*\<^sup>* s s'" "limit s \<noteq> 0" "limit s \<le> cnt s"
  shows "cnt s' = cnt s \<and> set (held s') \<subseteq> set (held s) \<and> \<not> PagerReuse_avail s' \<and> PagerReuse_request s' = s'"
proof -
  have "cnt s' = cnt s \<and> limit s' = limit s \<and> set (held s') \<subseteq> set (held s)"
    using assms(1)
  proof (induction rule: rtranclp_induct)
    case (step u v)
    then show ?case using exhausted_step [OF step(2)] assms(2,3) by auto
  qed simp
  then show ?thesis using assms(2,3) by (simp add: PagerReuse_avail_def PagerReuse_request_def)
qed

text \<open>A pool with one object: it is taken, released, and cannot be taken again.\<close>

lemma pool_run:
  "reach pool_init array_step \<lparr>freelist = [], waiting = 1, used = 1, cnt = 1, limit = 1, held = [0], pcs = [Idle, Wait True]\<rparr>"
proof -
  have "reach pool_init array_step (ReusableAllocator_new 1 2)" by (rule reach_init) (auto simp: pool_init_def)
  then have "reach pool_init array_step (ArrayReuse_request (ReusableAllocator_new 1 2))"
    by (rule reach_step) (rule array_step.request [of 0]; simp add: ReusableAllocator_new_def)
  then have "reach pool_init array_step
      \<lparr>freelist = [], waiting = 0, used = 1, cnt = 1, limit = 1, held = [0], pcs = [Idle, Idle]\<rparr>"
    by (simp add: ArrayReuse_request_def array_take_def ReusableAllocator_new_def numeral_2_eq_2)
  then have "reach pool_init array_step (ArrayReuse_get 1 True
      \<lparr>freelist = [], waiting = 0, used = 1, cnt = 1, limit = 1, held = [0], pcs = [Idle, Idle]\<rparr>)"
    by (rule reach_step) (rule array_step.get; simp)
  then show ?thesis by (simp add: ArrayReuse_get_def array_loop_def)
qed

theorem ArrayReuse_pool_witness:
  "\<exists>s. at s 1 (Wait True) \<and> held s = [0] \<and> length (held s) \<le> limit s \<and> length (freelist s) \<le> count_if woken (pcs s)"
  using ArrayReuse_pool [OF pool_run] by (intro exI [of _ "\<lparr>freelist = [], waiting = 1, used = 1, cnt = 1, limit = 1, held = [0], pcs = [Idle, Wait True]\<rparr>"]) auto

theorem PagerReuse_exhausted_witness:
  "\<not> PagerReuse_avail \<lparr>freelist = [0], waiting = 0, used = 1, cnt = 1, limit = 1, held = [], pcs = [Idle]\<rparr>"
proof -
  let ?s = "\<lparr>freelist = [], waiting = 0, used = 1, cnt = 1, limit = 1, held = [0], pcs = [Idle]\<rparr>"
  have "pager_step ?s \<lparr>freelist = [0], waiting = 0, used = 1, cnt = 1, limit = 1, held = [], pcs = [Idle]\<rparr>"
    by (rule pager_step.release [of 0 _ 0]) (simp_all add: ReusableAllocator_release_def)
  then show ?thesis using PagerReuse_exhausted [of ?s, OF r_into_rtranclp] by simp
qed

end
