(* ===== verification/CondLock.thy ===== *)
theory CondLock
  imports Prelude "HOL-Library.Word"
begin

text \<open>
  The recursive read/write lock \<open>ConditionalLock\<close> of \<open>corelib/condition.cpp\<close>, which keeps a context with a
  count for every thread that uses it.

  Contexts are never freed; they are listed oldest first and a pointer to a context is its position, so
  that the linked list, to which new contexts are added in front, is searched from the end. A step is
  what a thread does between taking and leaving the mutex; a thread in the exclusive section
  keeps the mutex. \<open>mine\<close> records how many shares a thread has asked for and not released: it is what
  the program may give back and is not part of the lock. Counters are 32 bit words.
\<close>

section \<open>State\<close>

record context_rec =
  thread :: nat
  count :: "32 word"

datatype lpc = Idle
  | WaitBcast nat | WokenBcast nat
  | WaitSig nat bool | WokenSig nat bool
  | Exclusive bool

record cond_lock =
  contexts :: "context_rec list"
  sharing :: "32 word"
  pending :: "32 word"
  waiting :: "32 word"
  mutex :: "nat option"
  mine :: "nat list"
  pcs :: "lpc list"

definition ConditionalLock_new :: "nat \<Rightarrow> cond_lock" where
  "ConditionalLock_new n = \<lparr>contexts = [], sharing = 0, pending = 0, waiting = 0, mutex = None,
     mine = replicate n 0, pcs = replicate n Idle\<rparr>"

abbreviation goto :: "nat \<Rightarrow> lpc \<Rightarrow> cond_lock \<Rightarrow> cond_lock" where
  "goto t p s \<equiv> s\<lparr>pcs := (pcs s)[t := p]\<rparr>"

fun sig_sleeping :: "lpc \<Rightarrow> bool" where
  "sig_sleeping (WaitSig i m) = True"
| "sig_sleeping p = False"

fun sig_wake :: "lpc \<Rightarrow> lpc" where
  "sig_wake (WaitSig i m) = WokenSig i m"
| "sig_wake p = p"

fun bcast_wake :: "lpc \<Rightarrow> lpc" where
  "bcast_wake (WaitBcast i) = WokenBcast i"
| "bcast_wake p = p"

definition signal :: "cond_lock \<Rightarrow> cond_lock list" where
  "signal s = map (\<lambda>ps. s\<lparr>pcs := ps\<rparr>) (wake_one sig_sleeping sig_wake (pcs s))"

definition broadcast :: "cond_lock \<Rightarrow> cond_lock" where
  "broadcast s = s\<lparr>pcs := map bcast_wake (pcs s)\<rparr>"

section \<open>Operations\<close>

text \<open>The search: a context in use by the thread, or the last unused one that was passed.\<close>

fun context_scan :: "nat \<Rightarrow> (nat \<times> context_rec) list \<Rightarrow> nat option \<Rightarrow> bool \<times> nat option" where
  "context_scan t [] slot = (False, slot)"
| "context_scan t ((i, c) # cs) slot =
     (if count c \<noteq> 0 \<and> thread c = t then (True, Some i)
      else context_scan t cs (if count c = 0 then Some i else slot))"

definition getContext :: "nat \<Rightarrow> cond_lock \<Rightarrow> nat \<times> cond_lock" where
  "getContext t s =
     (case context_scan t (rev (enumerate 0 (contexts s))) None of
        (True, Some i) \<Rightarrow> (i, s)
      | (_, Some i) \<Rightarrow> (i, s\<lparr>contexts := (contexts s)[i := (contexts s ! i)\<lparr>thread := t\<rparr>]\<rparr>)
      | (_, None) \<Rightarrow> (length (contexts s), s\<lparr>contexts := contexts s @ [\<lparr>thread = t, count = 0\<rparr>]\<rparr>))"

abbreviation cnt :: "nat \<Rightarrow> cond_lock \<Rightarrow> 32 word" where
  "cnt i s \<equiv> count (contexts s ! i)"

definition set_cnt :: "nat \<Rightarrow> 32 word \<Rightarrow> cond_lock \<Rightarrow> cond_lock" where
  "set_cnt i n s = s\<lparr>contexts := (contexts s)[i := (contexts s ! i)\<lparr>count := n\<rparr>]\<rparr>"

text \<open>The loops of \<open>modify\<close> and \<open>exclusive\<close>, which differ in what they do when the loop ends.\<close>

definition lock_modify_loop :: "nat \<Rightarrow> nat \<Rightarrow> bool \<Rightarrow> cond_lock \<Rightarrow> cond_lock" where
  "lock_modify_loop t i m s =
     (if sharing s \<noteq> 0 then goto t (WaitSig i m) (s\<lparr>pending := pending s + 1, mutex := None\<rparr>)
      else goto t (Exclusive m) ((if m then set_cnt i (cnt i s + 1) s else s)\<lparr>mutex := Some t\<rparr>))"

definition ConditionalLock_modify :: "nat \<Rightarrow> cond_lock \<Rightarrow> cond_lock" where
  "ConditionalLock_modify t s =
     (case getContext t s of (i, s) \<Rightarrow> lock_modify_loop t i True (s\<lparr>sharing := sharing s - cnt i s\<rparr>))"

definition ConditionalLock_exclusive :: "nat \<Rightarrow> cond_lock \<Rightarrow> cond_lock" where
  "ConditionalLock_exclusive t s =
     (case getContext t s of (i, s) \<Rightarrow> lock_modify_loop t i False (s\<lparr>sharing := sharing s - cnt i s\<rparr>))"

definition lock_modify_resume :: "nat \<Rightarrow> nat \<Rightarrow> bool \<Rightarrow> cond_lock \<Rightarrow> cond_lock" where
  "lock_modify_resume t i m s = lock_modify_loop t i m (s\<lparr>pending := pending s - 1\<rparr>)"

definition base_commit :: "nat \<Rightarrow> cond_lock \<Rightarrow> cond_lock list" where
  "base_commit t s =
     map (\<lambda>s. goto t Idle (s\<lparr>mutex := None\<rparr>))
       (if pending s \<noteq> 0 then signal s else if waiting s \<noteq> 0 then [broadcast s] else [s])"

definition ConditionalLock_commit :: "nat \<Rightarrow> cond_lock \<Rightarrow> cond_lock list" where
  "ConditionalLock_commit t s =
     (case getContext t s of (i, s) \<Rightarrow>
        let s = set_cnt i (cnt i s - 1) s
        in if cnt i s \<noteq> 0 then [goto t Idle (s\<lparr>sharing := sharing s + cnt i s, mutex := None\<rparr>)]
           else base_commit t s)"

definition ConditionalLock_share :: "nat \<Rightarrow> cond_lock \<Rightarrow> cond_lock" where
  "ConditionalLock_share t s =
     (case getContext t s of (i, s) \<Rightarrow> goto t Idle (s\<lparr>sharing := sharing s + cnt i s, mutex := None\<rparr>))"

definition ConditionalLock_release :: "nat \<Rightarrow> cond_lock \<Rightarrow> cond_lock list" where
  "ConditionalLock_release t s =
     (case getContext t s of (i, s) \<Rightarrow>
        let s = set_cnt i (cnt i s - 1) (s\<lparr>sharing := sharing s - 1, mine := (mine s)[t := mine s ! t - 1]\<rparr>)
        in if pending s \<noteq> 0 \<and> sharing s = 0 then signal s
           else if waiting s \<noteq> 0 \<and> pending s = 0 then [broadcast s] else [s])"

definition lock_access_loop :: "nat \<Rightarrow> nat \<Rightarrow> cond_lock \<Rightarrow> cond_lock" where
  "lock_access_loop t i s =
     (if cnt i s < 2 \<and> pending s \<noteq> 0 then goto t (WaitBcast i) (s\<lparr>waiting := waiting s + 1\<rparr>)
      else goto t Idle (s\<lparr>sharing := sharing s + 1\<rparr>))"

definition ConditionalLock_access :: "nat \<Rightarrow> cond_lock \<Rightarrow> cond_lock" where
  "ConditionalLock_access t s =
     (case getContext t s of (i, s) \<Rightarrow>
        lock_access_loop t i (set_cnt i (cnt i s + 1) (s\<lparr>mine := (mine s)[t := mine s ! t + 1]\<rparr>)))"

definition lock_access_resume :: "nat \<Rightarrow> nat \<Rightarrow> cond_lock \<Rightarrow> cond_lock" where
  "lock_access_resume t i s = lock_access_loop t i (s\<lparr>waiting := waiting s - 1\<rparr>)"

section \<open>Steps\<close>

abbreviation at :: "cond_lock \<Rightarrow> nat \<Rightarrow> lpc \<Rightarrow> bool" where
  "at s t p \<equiv> t < length (pcs s) \<and> pcs s ! t = p"

text \<open>
  The parameter says whether \<open>modify\<close> may be called by a thread that has no share. The program
  obtains no more shares than the counters hold.
\<close>

definition room :: "cond_lock \<Rightarrow> bool" where
  "room s \<longleftrightarrow> sum_list (mine s) + length (pcs s) + 1 < 2 ^ 32"

inductive lock_step :: "bool \<Rightarrow> cond_lock \<Rightarrow> cond_lock \<Rightarrow> bool" for fresh :: bool where
  modify: "at s t Idle \<Longrightarrow> mutex s = None \<Longrightarrow> fresh \<or> 0 < mine s ! t \<Longrightarrow> lock_step fresh s (ConditionalLock_modify t s)"
| exclusive: "at s t Idle \<Longrightarrow> mutex s = None \<Longrightarrow> 0 < mine s ! t \<Longrightarrow> lock_step fresh s (ConditionalLock_exclusive t s)"
| modify_wake: "at s t (WokenSig i m) \<Longrightarrow> mutex s = None \<Longrightarrow> lock_step fresh s (lock_modify_resume t i m s)"
| commit: "at s t (Exclusive True) \<Longrightarrow> s' \<in> set (ConditionalLock_commit t s) \<Longrightarrow> lock_step fresh s s'"
| share: "at s t (Exclusive False) \<Longrightarrow> lock_step fresh s (ConditionalLock_share t s)"
| access: "at s t Idle \<Longrightarrow> mutex s = None \<Longrightarrow> room s \<Longrightarrow> lock_step fresh s (ConditionalLock_access t s)"
| access_wake: "at s t (WokenBcast i) \<Longrightarrow> mutex s = None \<Longrightarrow> lock_step fresh s (lock_access_resume t i s)"
| release: "at s t Idle \<Longrightarrow> mutex s = None \<Longrightarrow> 0 < mine s ! t \<Longrightarrow> s' \<in> set (ConditionalLock_release t s) \<Longrightarrow>
    lock_step fresh s s'"
| spurious_signal: "at s t (WaitSig i m) \<Longrightarrow> lock_step fresh s (goto t (WokenSig i m) s)"
| spurious_broadcast: "at s t (WaitBcast i) \<Longrightarrow> lock_step fresh s (goto t (WokenBcast i) s)"

definition lock_init :: "cond_lock \<Rightarrow> bool" where
  "lock_init s \<longleftrightarrow> (\<exists>n < 2 ^ 32. s = ConditionalLock_new n)"


lemmas lock_defs = ConditionalLock_modify_def ConditionalLock_exclusive_def lock_modify_resume_def lock_modify_loop_def
  ConditionalLock_commit_def ConditionalLock_share_def ConditionalLock_release_def ConditionalLock_access_def
  lock_access_resume_def lock_access_loop_def getContext_def set_cnt_def base_commit_def signal_def wake_one_def broadcast_def

section \<open>The contexts\<close>

text \<open>
  The table of the contexts maps a thread to its count. In a table in good order each thread
  uses one context at most.
\<close>

definition in_use :: "context_rec list \<Rightarrow> nat \<Rightarrow> nat \<Rightarrow> bool" where
  "in_use cs t i \<longleftrightarrow> i < length cs \<and> count (cs ! i) \<noteq> 0 \<and> thread (cs ! i) = t"

definition single :: "context_rec list \<Rightarrow> bool" where
  "single cs \<longleftrightarrow> (\<forall>t i j. in_use cs t i \<longrightarrow> in_use cs t j \<longrightarrow> i = j)"

definition recorded :: "context_rec list \<Rightarrow> nat \<Rightarrow> nat \<Rightarrow> bool" where
  "recorded cs t n \<longleftrightarrow> (\<forall>i. in_use cs t i \<longrightarrow> unat (count (cs ! i)) = n) \<and> (n \<noteq> 0 \<longrightarrow> (\<exists>i. in_use cs t i))"

definition others_kept :: "nat \<Rightarrow> context_rec list \<Rightarrow> context_rec list \<Rightarrow> bool" where
  "others_kept t cs ds \<longleftrightarrow> (\<forall>u i. u \<noteq> t \<longrightarrow> (in_use ds u i \<longleftrightarrow> in_use cs u i) \<and>
     (in_use cs u i \<longrightarrow> count (ds ! i) = count (cs ! i)))"

lemma others_kept_trans: "others_kept t cs ds \<Longrightarrow> others_kept t ds es \<Longrightarrow> others_kept t cs es"
  by (simp add: others_kept_def)

lemma others_kept_recorded: "others_kept t cs ds \<Longrightarrow> u \<noteq> t \<Longrightarrow> recorded ds u n = recorded cs u n"
  by (simp add: others_kept_def recorded_def)

lemma recorded_zero: "recorded cs t 0 \<Longrightarrow> \<not> in_use cs t i"
  by (auto simp: recorded_def in_use_def unat_eq_0)

lemma context_scan_result:
  "context_scan t xs slot = (b, r) \<Longrightarrow>
     (if b then \<exists>i c. r = Some i \<and> (i, c) \<in> set xs \<and> count c \<noteq> 0 \<and> thread c = t
      else (\<forall>(i, c) \<in> set xs. count c \<noteq> 0 \<longrightarrow> thread c \<noteq> t) \<and>
        (r = slot \<or> (\<exists>i c. r = Some i \<and> (i, c) \<in> set xs \<and> count c = 0)))"
  by (induction t xs slot arbitrary: b r rule: context_scan.induct) (auto split: if_splits; fastforce)+
text \<open>The context that \<open>getContext\<close> gives a thread whose count is \<open>n\<close>.\<close>

definition slot_of :: "context_rec list \<Rightarrow> nat \<Rightarrow> nat \<Rightarrow> nat \<Rightarrow> bool" where
  "slot_of cs t n i \<longleftrightarrow> i < length cs \<and> thread (cs ! i) = t \<and> unat (count (cs ! i)) = n \<and>
     single cs \<and> (\<forall>j. in_use cs t j \<longrightarrow> j = i)"

lemma getContext_slot:
  assumes "single (contexts s)" "recorded (contexts s) t n"
  obtains i cs where "getContext t s = (i, s\<lparr>contexts := cs\<rparr>)" "slot_of cs t n i" "others_kept t (contexts s) cs"
proof -
  obtain b r where scan: "context_scan t (rev (enumerate 0 (contexts s))) None = (b, r)"
    by (cases "context_scan t (rev (enumerate 0 (contexts s))) None")
  have mem: "(i, c) \<in> set (enumerate 0 (contexts s)) \<longleftrightarrow> i < length (contexts s) \<and> c = contexts s ! i" for i c
    by (auto simp: in_set_enumerate_eq)
  show thesis
  proof (cases b)
    case True
    then obtain i where i: "r = Some i" "in_use (contexts s) t i"
      using context_scan_result [OF scan] by (auto simp: mem in_use_def)
    moreover have "slot_of (contexts s) t n i"
      using i assms by (auto simp: slot_of_def single_def recorded_def in_use_def)
    moreover have "getContext t s = (i, s\<lparr>contexts := contexts s\<rparr>)" using scan True i by (simp add: getContext_def)
    ultimately show thesis using that [of i "contexts s"] by (simp add: others_kept_def)
  next
    case False
    then have none: "\<not> in_use (contexts s) t j" for j
      using context_scan_result [OF scan] by (auto simp: mem in_use_def)
    then have n: "n = 0" using assms(2) by (auto simp: recorded_def)
    show thesis
    proof (cases r)
      case None
      let ?cs = "contexts s @ [\<lparr>thread = t, count = 0\<rparr>]"
      have u: "in_use ?cs u j = in_use (contexts s) u j" for u j
        by (auto simp: in_use_def nth_append less_Suc_eq)
      have "slot_of ?cs t n (length (contexts s))"
        using assms(1) by (simp add: slot_of_def n single_def u none)
      moreover have "others_kept t (contexts s) ?cs"
        unfolding others_kept_def u by (simp add: in_use_def nth_append)
      ultimately show thesis using that scan False None by (simp add: getContext_def)
    next
      case (Some i)
      let ?cs = "(contexts s)[i := (contexts s ! i)\<lparr>thread := t\<rparr>]"
      have i: "i < length (contexts s)" "count (contexts s ! i) = 0"
        using context_scan_result [OF scan] False Some by (auto simp: mem)
      then have u: "in_use ?cs u j = in_use (contexts s) u j" for u j
        by (auto simp: in_use_def nth_list_update)
      have "slot_of ?cs t n i" using assms(1) i by (simp add: slot_of_def n single_def u none)
      moreover have "others_kept t (contexts s) ?cs"
        using i unfolding others_kept_def u by (simp add: in_use_def nth_list_update)
      ultimately show thesis using that scan False Some by (simp add: getContext_def)
    qed
  qed
qed

lemma slot_recorded: "slot_of cs t n i \<Longrightarrow> recorded cs t n"
  by (force simp: slot_of_def recorded_def in_use_def unat_eq_0)

lemma slot_in_use: "slot_of cs t n i \<Longrightarrow> in_use cs t i = (n \<noteq> 0)"
  by (auto simp: slot_of_def in_use_def unat_eq_0)

lemma slot_of_in_use: "single cs \<Longrightarrow> recorded cs t n \<Longrightarrow> in_use cs t i \<Longrightarrow> slot_of cs t n i"
  by (auto simp: slot_of_def recorded_def single_def in_use_def)

lemma slot_set:
  assumes "slot_of cs t n i"
  shows "slot_of (cs[i := (cs ! i)\<lparr>count := w\<rparr>]) t (unat w) i"
    and "others_kept t cs (cs[i := (cs ! i)\<lparr>count := w\<rparr>])"
proof -
  let ?cs = "cs[i := (cs ! i)\<lparr>count := w\<rparr>]"
  have u: "in_use ?cs u j = (if j = i then u = t \<and> w \<noteq> 0 else in_use cs u j)" for u j
    using assms by (auto simp: slot_of_def in_use_def nth_list_update)
  have o: "j \<noteq> i" if "in_use cs u j" "u \<noteq> t" for u j
    using assms that by (auto simp: slot_of_def in_use_def)
  show "slot_of ?cs t (unat w) i"
    using assms by (auto simp: slot_of_def single_def u)
  show "others_kept t cs ?cs"
    using o unfolding others_kept_def u by (auto simp: nth_list_update)
qed
section \<open>The invariant\<close>

fun thread_ok :: "context_rec list \<Rightarrow> nat \<Rightarrow> nat \<Rightarrow> lpc \<Rightarrow> bool" where
  "thread_ok cs t n Idle = recorded cs t n"
| "thread_ok cs t n (WaitBcast i) = (n = 1 \<and> in_use cs t i \<and> recorded cs t 1)"
| "thread_ok cs t n (WokenBcast i) = (n = 1 \<and> in_use cs t i \<and> recorded cs t 1)"
| "thread_ok cs t n (WaitSig i m) = (n \<noteq> 0 \<and> in_use cs t i \<and> recorded cs t n)"
| "thread_ok cs t n (WokenSig i m) = (n \<noteq> 0 \<and> in_use cs t i \<and> recorded cs t n)"
| "thread_ok cs t n (Exclusive m) = (n \<noteq> 0 \<and> recorded cs t (if m then n + 1 else n))"

fun is_exclusive :: "lpc \<Rightarrow> bool" where
  "is_exclusive (Exclusive m) = True"
| "is_exclusive p = False"

fun active :: "nat \<times> lpc \<Rightarrow> nat" where
  "active (n, Idle) = n"
| "active (n, p) = 0"

definition shares :: "cond_lock \<Rightarrow> nat" where
  "shares s = sum_list (map active (zip (mine s) (pcs s)))"

definition lock_inv :: "cond_lock \<Rightarrow> bool" where
  "lock_inv s \<longleftrightarrow> length (mine s) = length (pcs s) \<and> sum_list (mine s) + length (pcs s) < 2 ^ 32 \<and>
     single (contexts s) \<and> (\<forall>t < length (pcs s). thread_ok (contexts s) t (mine s ! t) (pcs s ! t)) \<and>
     sharing s = of_nat (shares s) \<and>
     (\<forall>t < length (pcs s). is_exclusive (pcs s ! t) \<longleftrightarrow> mutex s = Some t) \<and> (mutex s \<noteq> None \<longrightarrow> sharing s = 0)"

lemma thread_ok_others: "others_kept t cs ds \<Longrightarrow> u \<noteq> t \<Longrightarrow> thread_ok ds u n p = thread_ok cs u n p"
  by (cases p) (auto simp: others_kept_recorded, auto simp: others_kept_def)

lemma sum_list_update_word:
  fixes f :: "'a \<Rightarrow> nat"
  assumes "t < length xs"
  shows "(of_nat (sum_list (map f (xs[t := x]))) :: 'b::comm_ring_1) =
    of_nat (sum_list (map f xs)) - of_nat (f (xs ! t)) + of_nat (f x)"
proof -
  have "f (xs ! t) \<le> sum_list (map f xs)" using assms by (simp add: member_le_sum_list)
  then have "f (xs ! t) + sum_list (map f (xs[t := x])) = f x + sum_list (map f xs)"
    using assms by (simp add: map_update sum_list_update)
  then have "(of_nat (f (xs ! t) + sum_list (map f (xs[t := x]))) :: 'b) = of_nat (f x + sum_list (map f xs))" by simp
  then show ?thesis by (simp add: algebra_simps)
qed

lemma shares_le: "shares s \<le> sum_list (mine s)"
proof -
  have "sum_list (map active (zip ns ps)) \<le> sum_list ns" for ns :: "nat list" and ps
  proof (induction ns ps rule: list_induct2')
    case (4 n ns p ps)
    then show ?case by (cases p) auto
  qed auto
  then show ?thesis by (simp add: shares_def)
qed

lemma lock_inv_move:
  assumes "lock_inv s" "t < length (pcs s)" "mutex s \<in> {None, Some t}"
    and "others_kept t (contexts s) cs" "single cs" "thread_ok cs t n p"
    and "sum_list ((mine s)[t := n]) + length (pcs s) < 2 ^ 32"
    and "pcs s' = (pcs s)[t := p]" "mine s' = (mine s)[t := n]" "contexts s' = cs"
    and "sharing s' = sharing s - of_nat (active (mine s ! t, pcs s ! t)) + of_nat (active (n, p))"
    and "mutex s' = (if is_exclusive p then Some t else None)" "is_exclusive p \<Longrightarrow> sharing s' = 0"
  shows "lock_inv s'"
proof -
  have "shares s' = sum_list (map active ((zip (mine s) (pcs s))[t := (n, p)]))"
    by (simp add: shares_def assms(8,9) update_zip)
  then have "sharing s' = of_nat (shares s')"
    using assms(1,2) unfolding assms(11) lock_inv_def shares_def
    by (simp add: sum_list_update_word)
  moreover have "thread_ok cs u ((mine s)[t := n] ! u) ((pcs s)[t := p] ! u)" if "u < length (pcs s)" for u
    using that assms(1,2,4-6) by (cases "u = t") (auto simp: lock_inv_def thread_ok_others)
  moreover have "is_exclusive ((pcs s)[t := p] ! u) = (mutex s' = Some u)" if "u < length (pcs s)" for u
    using that assms(1-3,12) by (cases "u = t") (auto simp: lock_inv_def)
  ultimately show ?thesis using assms(1,5,7,12,13) by (auto simp add: lock_inv_def assms(8-10) split: if_splits)
qed
lemma lock_inv_woken:
  assumes "lock_inv s" "length qs = length (pcs s)"
    and "\<And>u. u < length (pcs s) \<Longrightarrow> qs ! u \<in> {pcs s ! u, sig_wake (pcs s ! u), bcast_wake (pcs s ! u)}"
  shows "lock_inv (s\<lparr>pcs := qs\<rparr>)"
proof -
  have wake: "active (n, q) = active (n, p)" "thread_ok cs t n q = thread_ok cs t n p" "is_exclusive q = is_exclusive p"
    if "q \<in> {p, sig_wake p, bcast_wake p}" for p q n cs t
    using that by (cases p; auto)+
  have "map active (zip (mine s) qs) = map active (zip (mine s) (pcs s))"
    using assms by (intro nth_equalityI) (auto simp: lock_inv_def wake)
  then have "shares (s\<lparr>pcs := qs\<rparr>) = shares s" by (simp add: shares_def)
  moreover have "\<forall>u < length (pcs s). thread_ok (contexts s) u (mine s ! u) (qs ! u) = thread_ok (contexts s) u (mine s ! u) (pcs s ! u)"
    "\<forall>u < length (pcs s). is_exclusive (qs ! u) = is_exclusive (pcs s ! u)"
    using wake(2,3) [OF assms(3)] by blast+
  ultimately show ?thesis using assms(1,2) unfolding lock_inv_def by force
qed

lemma lock_inv_signal:
  assumes "lock_inv s" "s' \<in> set (signal s)"
  shows "lock_inv s'"
proof -
  obtain qs where "qs \<in> set (wake_one sig_sleeping sig_wake (pcs s))" "s' = s\<lparr>pcs := qs\<rparr>"
    using assms(2) by (auto simp: signal_def)
  then show ?thesis using assms(1)
    by (elim wake_one_cases) (auto intro!: lock_inv_woken simp: nth_list_update)
qed

lemma lock_inv_broadcast: "lock_inv s \<Longrightarrow> lock_inv (broadcast s)"
  unfolding broadcast_def by (rule lock_inv_woken) simp_all

lemma lock_inv_bound: "lock_inv s \<Longrightarrow> t < length (pcs s) \<Longrightarrow> mine s ! t + 1 < 2 ^ 32"
  using elem_le_sum_list [of t "mine s"] unfolding lock_inv_def by linarith

lemma slot_word: "slot_of cs t n i \<Longrightarrow> count (cs ! i) = of_nat n"
  by (auto simp: slot_of_def)

lemma slot_single: "slot_of cs t n i \<Longrightarrow> single cs"
  by (simp add: slot_of_def)

lemma lock_inv_modify_loop:
  assumes "lock_inv s" "t < length (pcs s)" "mutex s = None" "mine s ! t \<noteq> 0"
    and "slot_of cs t (mine s ! t) i" "others_kept t (contexts s) cs"
    and "k = sharing s - of_nat (active (mine s ! t, pcs s ! t))"
  shows "lock_inv (lock_modify_loop t i m (s\<lparr>contexts := cs, sharing := k, pending := pe\<rparr>))"
proof -
  let ?n = "mine s ! t"
  let ?cs = "cs[i := (cs ! i)\<lparr>count := of_nat (?n + 1)\<rparr>]"
  have w: "unat (of_nat (?n + 1) :: 32 word) = ?n + 1"
    using lock_inv_bound [OF assms(1,2)] by (simp only: unat_of_nat) simp
  have new: "slot_of ?cs t (?n + 1) i" "others_kept t (contexts s) ?cs"
    using slot_set [OF assms(5), of "of_nat (?n + 1)"] assms(6) by (auto simp only: w intro: others_kept_trans)
  have bound: "sum_list ((mine s)[t := ?n]) + length (pcs s) < 2 ^ 32" using assms(1) by (simp add: lock_inv_def)
  consider "k \<noteq> 0" | "k = 0" "m" | "k = 0" "\<not> m" by blast
  then show ?thesis
  proof cases
    case 1
    show ?thesis
      by (rule lock_inv_move [OF assms(1,2) _ assms(6) slot_single [OF assms(5)] _ bound, where p = "WaitSig i m"])
        (use 1 assms in \<open>auto simp: lock_modify_loop_def slot_in_use slot_recorded\<close>)
  next
    case 2
    show ?thesis
      by (rule lock_inv_move [OF assms(1,2) _ new(2) slot_single [OF new(1)] _ bound, where p = "Exclusive True"])
        (use 2 assms new(1) in \<open>auto simp: lock_modify_loop_def set_cnt_def slot_word [OF assms(5)] slot_recorded add.commute\<close>)
  next
    case 3
    show ?thesis
      by (rule lock_inv_move [OF assms(1,2) _ assms(6) slot_single [OF assms(5)] _ bound, where p = "Exclusive False"])
        (use 3 assms in \<open>auto simp: lock_modify_loop_def slot_recorded\<close>)
  qed
qed
lemma lock_inv_thread:
  assumes "lock_inv s" "at s t p"
  shows "thread_ok (contexts s) t (mine s ! t) p" "single (contexts s)" "length (mine s) = length (pcs s)"
    "sum_list (mine s) + length (pcs s) < 2 ^ 32"
    "is_exclusive p \<Longrightarrow> mutex s = Some t \<and> sharing s = 0"
  using assms by (auto simp: lock_inv_def)

lemma lock_inv_modify:
  assumes "lock_inv s" "at s t Idle" "mutex s = None" "0 < mine s ! t"
  shows "lock_inv (ConditionalLock_modify t s)" "lock_inv (ConditionalLock_exclusive t s)"
proof -
  obtain i cs where i: "getContext t s = (i, s\<lparr>contexts := cs\<rparr>)" "slot_of cs t (mine s ! t) i" "others_kept t (contexts s) cs"
    using getContext_slot [of s t "mine s ! t"] lock_inv_thread [OF assms(1,2)] by auto
  have "lock_inv (lock_modify_loop t i m (s\<lparr>contexts := cs, sharing := sharing s - of_nat (mine s ! t), pending := pending s\<rparr>))" for m
    by (rule lock_inv_modify_loop) (use assms i in auto)
  then show "lock_inv (ConditionalLock_modify t s)" "lock_inv (ConditionalLock_exclusive t s)"
    by (simp_all add: ConditionalLock_modify_def ConditionalLock_exclusive_def i(1) slot_word [OF i(2)])
qed

lemma lock_inv_modify_resume:
  assumes "lock_inv s" "at s t (WokenSig i m)" "mutex s = None"
  shows "lock_inv (lock_modify_resume t i m s)"
proof -
  have "lock_inv (lock_modify_loop t i m (s\<lparr>contexts := contexts s, sharing := sharing s, pending := pending s - 1\<rparr>))"
    by (rule lock_inv_modify_loop)
      (use assms lock_inv_thread [OF assms(1,2)] in \<open>auto simp: slot_of_in_use others_kept_def\<close>)
  then show ?thesis by (simp add: lock_modify_resume_def)
qed

lemma lock_inv_commit:
  assumes "lock_inv s" "at s t (Exclusive True)" "s' \<in> set (ConditionalLock_commit t s)"
  shows "lock_inv s'"
proof -
  let ?n = "mine s ! t"
  note s = lock_inv_thread [OF assms(1,2)]
  obtain i cs where i: "getContext t s = (i, s\<lparr>contexts := cs\<rparr>)" "slot_of cs t (?n + 1) i" "others_kept t (contexts s) cs"
    using getContext_slot [of s t "?n + 1"] s by auto
  let ?cs = "cs[i := (cs ! i)\<lparr>count := of_nat ?n\<rparr>]"
  have "?n + 1 < 2 ^ 32" using lock_inv_bound assms(1,2) by blast
  then have w: "unat (of_nat ?n :: 32 word) = ?n" "(of_nat ?n :: 32 word) \<noteq> 0"
    using s(1) by (simp_all add: unat_of_nat word_of_nat_eq_0_iff nat_dvd_not_less)
  have new: "slot_of ?cs t ?n i" "others_kept t (contexts s) ?cs"
    using slot_set [OF i(2), of "of_nat ?n"] i(3) w(1) by (auto intro: others_kept_trans)
  have "s' = goto t Idle (s\<lparr>contexts := ?cs, sharing := sharing s + of_nat ?n, mutex := None\<rparr>)"
    using assms(3) w(2) i(2) by (simp add: ConditionalLock_commit_def i(1) set_cnt_def slot_word [OF i(2)] slot_of_def)
  then show ?thesis
    by (intro lock_inv_move [OF assms(1) _ _ new(2) slot_single [OF new(1)], where n = ?n and p = Idle])
      (use assms(2) s slot_recorded [OF new(1)] in auto)
qed

lemma lock_inv_share:
  assumes "lock_inv s" "at s t (Exclusive False)"
  shows "lock_inv (ConditionalLock_share t s)"
proof -
  let ?n = "mine s ! t"
  note s = lock_inv_thread [OF assms(1,2)]
  obtain i cs where i: "getContext t s = (i, s\<lparr>contexts := cs\<rparr>)" "slot_of cs t ?n i" "others_kept t (contexts s) cs"
    using getContext_slot [of s t ?n] s by auto
  show ?thesis
    by (rule lock_inv_move [OF assms(1) _ _ i(3) slot_single [OF i(2)], where n = ?n and p = Idle])
      (use assms(2) s slot_recorded [OF i(2)] slot_word [OF i(2)] in \<open>auto simp: ConditionalLock_share_def i(1)\<close>)
qed
lemma lock_inv_release:
  assumes "lock_inv s" "at s t Idle" "mutex s = None" "0 < mine s ! t" "s' \<in> set (ConditionalLock_release t s)"
  shows "lock_inv s'"
proof -
  let ?n = "mine s ! t"
  note s = lock_inv_thread [OF assms(1,2)]
  obtain i cs where i: "getContext t s = (i, s\<lparr>contexts := cs\<rparr>)" "slot_of cs t ?n i" "others_kept t (contexts s) cs"
    using getContext_slot [of s t ?n] s by auto
  let ?cs = "cs[i := (cs ! i)\<lparr>count := of_nat (?n - 1)\<rparr>]"
  have "?n + 1 < 2 ^ 32" using lock_inv_bound assms(1,2) by blast
  then have w: "unat (of_nat (?n - 1) :: 32 word) = ?n - 1"
    by (simp only: unat_of_nat) simp
  have new: "slot_of ?cs t (?n - 1) i" "others_kept t (contexts s) ?cs"
    using slot_set [OF i(2), of "of_nat (?n - 1)"] i(3) w by (auto intro: others_kept_trans)
  have sum: "sum_list ((mine s)[t := ?n - 1]) + length (pcs s) < 2 ^ 32"
    using s(3,4) assms(2,4) elem_le_sum_list [of t "mine s"] by (simp add: sum_list_update)
  have minus: "(of_nat ?n :: 32 word) - 1 = of_nat (?n - 1)" using assms(4) by (simp add: of_nat_diff)
  let ?s = "s\<lparr>sharing := sharing s - 1, mine := (mine s)[t := ?n - 1], contexts := ?cs\<rparr>"
  have "(pcs s)[t := Idle] = pcs s" using assms(2) by (metis list_update_id)
  then have "lock_inv ?s"
    by (intro lock_inv_move [OF assms(1) _ _ new(2) slot_single [OF new(1)], where n = "?n - 1" and p = Idle])
      (use assms(2-4) s slot_recorded [OF new(1)] sum in \<open>auto simp: of_nat_diff\<close>)
  moreover have "s' \<in> set (signal ?s) \<or> s' = broadcast ?s \<or> s' = ?s"
    using assms(5) by (auto simp: ConditionalLock_release_def i(1) set_cnt_def Let_def slot_word [OF i(2)] minus split: if_splits)
  ultimately show ?thesis using lock_inv_signal lock_inv_broadcast by blast
qed

lemma lock_inv_access_loop:
  assumes "lock_inv s" "t < length (pcs s)" "mutex s = None" "of_nat (active (mine s ! t, pcs s ! t)) + 1 = (of_nat n :: 32 word)"
    and "slot_of cs t n i" "others_kept t (contexts s) cs" "0 < n"
    and "sum_list ((mine s)[t := n]) + length (pcs s) < 2 ^ 32"
  shows "lock_inv (lock_access_loop t i (s\<lparr>mine := (mine s)[t := n], contexts := cs, waiting := wa\<rparr>))"
proof (cases "count (cs ! i) < 2 \<and> pending s \<noteq> 0")
  case True
  then have "n = 1" using assms(5,7) by (auto simp: slot_of_def word_less_nat_alt)
  then show ?thesis
    by (intro lock_inv_move [OF assms(1,2) _ assms(6) slot_single [OF assms(5)] _ assms(8), where p = "WaitBcast i"])
      (use True assms slot_recorded [OF assms(5)] slot_in_use [OF assms(5)] in \<open>auto simp: lock_access_loop_def\<close>)
next
  case False
  then show ?thesis
    by (intro lock_inv_move [OF assms(1,2) _ assms(6) slot_single [OF assms(5)] _ assms(8), where p = Idle])
      (use assms slot_recorded [OF assms(5)] in \<open>auto simp: lock_access_loop_def algebra_simps\<close>)
qed

lemma lock_inv_access:
  assumes "lock_inv s" "at s t Idle" "mutex s = None" "room s"
  shows "lock_inv (ConditionalLock_access t s)"
proof -
  let ?n = "mine s ! t"
  note s = lock_inv_thread [OF assms(1,2)]
  obtain i cs where i: "getContext t s = (i, s\<lparr>contexts := cs\<rparr>)" "slot_of cs t ?n i" "others_kept t (contexts s) cs"
    using getContext_slot [of s t ?n] s by auto
  let ?cs = "cs[i := (cs ! i)\<lparr>count := of_nat (?n + 1)\<rparr>]"
  have "?n + 1 < 2 ^ 32" using lock_inv_bound assms(1,2) by blast
  then have w: "unat (of_nat (?n + 1) :: 32 word) = ?n + 1" by (simp only: unat_of_nat) simp
  have new: "slot_of ?cs t (?n + 1) i" "others_kept t (contexts s) ?cs"
    using slot_set [OF i(2), of "of_nat (?n + 1)"] i(3) by (auto simp only: w intro: others_kept_trans)
  have "sum_list ((mine s)[t := ?n + 1]) + length (pcs s) < 2 ^ 32"
    using assms(2,4) s(3) elem_le_sum_list [of t "mine s"] by (simp add: room_def sum_list_update)
  then have "lock_inv (lock_access_loop t i (s\<lparr>mine := (mine s)[t := ?n + 1], contexts := ?cs, waiting := waiting s\<rparr>))"
    by (intro lock_inv_access_loop) (use assms new in auto)
  then show ?thesis
    by (simp add: ConditionalLock_access_def i(1) set_cnt_def slot_word [OF i(2)] add.commute)
qed

lemma lock_inv_access_resume:
  assumes "lock_inv s" "at s t (WokenBcast i)" "mutex s = None"
  shows "lock_inv (lock_access_resume t i s)"
proof -
  note s = lock_inv_thread [OF assms(1,2)]
  have "mine s ! t = 1" using s(1) by simp
  then have n: "mine s ! t = 1" "(mine s)[t := 1] = mine s" by (simp, metis list_update_id)
  then have "lock_inv (lock_access_loop t i (s\<lparr>mine := (mine s)[t := 1], contexts := contexts s, waiting := waiting s - 1\<rparr>))"
    by (intro lock_inv_access_loop) (use assms s in \<open>auto simp: slot_of_in_use others_kept_def\<close>)
  then show ?thesis by (simp add: lock_access_resume_def n(2) [simplified])
qed

lemma lock_inv_step: "lock_step False s s' \<Longrightarrow> lock_inv s \<Longrightarrow> lock_inv s'"
proof (induction rule: lock_step.induct)
  case (spurious_signal s t i m)
  then show ?case by (intro lock_inv_woken) (auto simp: nth_list_update)
next
  case (spurious_broadcast s t i)
  then show ?case by (intro lock_inv_woken) (auto simp: nth_list_update)
qed (auto intro: lock_inv_modify lock_inv_modify_resume lock_inv_commit lock_inv_share lock_inv_access
    lock_inv_access_resume lock_inv_release)

lemma lock_inv_init: "lock_init s \<Longrightarrow> lock_inv s"
proof -
  have "map active (zip (replicate n 0) (replicate n Idle)) = replicate n 0" for n
    by (simp add: zip_replicate)
  then show "lock_init s \<Longrightarrow> lock_inv s"
    by (auto simp: lock_init_def lock_inv_def ConditionalLock_new_def shares_def single_def recorded_def in_use_def
        sum_list_replicate)
qed

interpretation cond_lock: invariant_system lock_init "lock_step False" lock_inv
  by unfold_locales (auto intro: lock_inv_init lock_inv_step)

text \<open>
  C19: When \<open>modify\<close> is only called by threads that have a share already, the lock excludes: while
  a thread is in its exclusive section, it holds the mutex, nobody shares the lock, and every other thread that has shares is itself
  waiting in \<open>modify\<close>, \<open>exclusive\<close> or \<open>access\<close>. Every thread is recorded in the contexts with the number of its
  shares, the exclusive one with one more when its section was entered by \<open>modify\<close>.
\<close>

theorem ConditionalLock_exclusion:
  assumes "reach lock_init (lock_step False) s" "at s t (Exclusive m)" "u < length (pcs s)" "u \<noteq> t"
  shows "sharing s = 0 \<and> mutex s = Some t \<and> \<not> is_exclusive (pcs s ! u) \<and>
    (mine s ! u \<noteq> 0 \<longrightarrow> (\<exists>i k. pcs s ! u \<in> {WaitSig i k, WokenSig i k, WaitBcast i, WokenBcast i})) \<and>
    recorded (contexts s) t (if m then mine s ! t + 1 else mine s ! t) \<and> recorded (contexts s) u (mine s ! u)"
proof -
  have inv: "lock_inv s" using cond_lock.reach_inv assms(1) .
  note t = lock_inv_thread [OF inv assms(2)] and u = lock_inv_thread [OF inv, of u, simplified assms(3)]
  have x: "sharing s = 0" "mutex s = Some t" using t(5) by auto
  moreover have "\<not> is_exclusive (pcs s ! u)" using u(5) x(2) assms(4) by auto
  moreover have "shares s = 0"
    using x(1) inv shares_le [of s] by (auto simp: lock_inv_def word_of_nat_eq_0_iff dest: nat_dvd_not_less)
  then have "active (mine s ! u, pcs s ! u) = 0"
    using assms(3) t(3) by (auto simp: shares_def sum_list_eq_0_iff in_set_zip)
  then have "mine s ! u \<noteq> 0 \<longrightarrow> (\<exists>i k. pcs s ! u \<in> {WaitSig i k, WokenSig i k, WaitBcast i, WokenBcast i})"
    using u(1) calculation(3) by (cases "pcs s ! u") auto
  moreover have "recorded (contexts s) u (mine s ! u)" using u(1) calculation(3,4) by (cases "pcs s ! u") auto
  ultimately show ?thesis using t(1) by auto
qed

text \<open>
  A thread with a share turns it into exclusive use while another thread waits with its share to do
  the same.
\<close>

lemma cond_lock_run:
  "reach lock_init (lock_step False)
     \<lparr>contexts = [\<lparr>thread = 0, count = 1\<rparr>, \<lparr>thread = 1, count = 2\<rparr>], sharing = 0, pending = 1, waiting = 0,
      mutex = Some 1, mine = [1, 1], pcs = [WaitSig 0 False, Exclusive True]\<rparr>"
proof -
  let ?R = "reach lock_init (lock_step False)"
  let ?S = "\<lambda>cs n p. \<lparr>contexts = cs, sharing = n, pending = p, waiting = 0, mutex = None, mine = [], pcs = []\<rparr>"
  let ?C = "\<lambda>t n. \<lparr>thread = t, count = n\<rparr>"
  have "?R (ConditionalLock_new 2)"
    by (rule reach_init) (simp add: lock_init_def exI [of _ 2])
  then have "?R (ConditionalLock_access 0 (ConditionalLock_new 2))"
    by (rule reach_step) (rule lock_step.access; simp add: ConditionalLock_new_def room_def sum_list_replicate)
  then have "?R ((?S [?C 0 1] 1 0)\<lparr>mine := [1, 0], pcs := [Idle, Idle]\<rparr>)"
    by (simp add: lock_defs ConditionalLock_new_def numeral_2_eq_2)
  then have "?R (ConditionalLock_access 1 ((?S [?C 0 1] 1 0)\<lparr>mine := [1, 0], pcs := [Idle, Idle]\<rparr>))"
    by (rule reach_step) (rule lock_step.access; simp add: room_def)
  then have "?R ((?S [?C 0 1, ?C 1 1] 2 0)\<lparr>mine := [1, 1], pcs := [Idle, Idle]\<rparr>)"
    by (simp add: lock_defs)
  then have "?R (ConditionalLock_exclusive 0 ((?S [?C 0 1, ?C 1 1] 2 0)\<lparr>mine := [1, 1], pcs := [Idle, Idle]\<rparr>))"
    by (rule reach_step) (rule lock_step.exclusive; simp)
  then have "?R ((?S [?C 0 1, ?C 1 1] 1 1)\<lparr>mine := [1, 1], pcs := [WaitSig 0 False, Idle]\<rparr>)"
    by (simp add: lock_defs)
  then have "?R (ConditionalLock_modify 1 ((?S [?C 0 1, ?C 1 1] 1 1)\<lparr>mine := [1, 1], pcs := [WaitSig 0 False, Idle]\<rparr>))"
    by (rule reach_step) (rule lock_step.modify; simp)
  then show ?thesis by (simp add: lock_defs)
qed

theorem ConditionalLock_exclusion_witness:
  "\<not> is_exclusive (WaitSig 0 False) \<and> recorded [\<lparr>thread = 0, count = 1\<rparr>, \<lparr>thread = 1, count = 2\<rparr>] 1 2"
  using ConditionalLock_exclusion [OF cond_lock_run, of 1 True 0] by (simp add: numeral_2_eq_2)

section \<open>A context that is taken over\<close>

text \<open>
  A thread that waits in \<open>modify\<close> without a share holds a pointer to a context whose count is zero. Another thread
  that calls \<open>access\<close> meanwhile can get the same context. When the writer commits, its context is
  not found, the count of an unused context is decremented below zero and added to the number
  of shares: the lock is left shared by nobody, a reader sleeps, and no writer can ever enter. Two threads are enough.
\<close>

theorem ConditionalLock_corrupted:
  "\<exists>s. reach lock_init (lock_step True) s \<and> sharing s = - 1 \<and> mine s = [1, 0] \<and> pcs s = [WaitBcast 0, Idle]"
proof -
  let ?R = "reach lock_init (lock_step True)"
  let ?S = "\<lambda>cs n p w. \<lparr>contexts = cs, sharing = n, pending = p, waiting = w, mutex = None, mine = [], pcs = []\<rparr>"
  let ?C = "\<lambda>t n. \<lparr>thread = t, count = n\<rparr>"
  have "?R (ConditionalLock_new 2)"
    by (rule reach_init) (simp add: lock_init_def exI [of _ 2])
  then have "?R (ConditionalLock_access 1 (ConditionalLock_new 2))"
    by (rule reach_step) (rule lock_step.access; simp add: ConditionalLock_new_def room_def sum_list_replicate)
  then have "?R ((?S [?C 1 1] 1 0 0)\<lparr>mine := [0, 1], pcs := [Idle, Idle]\<rparr>)"
    by (simp add: lock_defs ConditionalLock_new_def numeral_2_eq_2)
  then have "?R (ConditionalLock_access 0 ((?S [?C 1 1] 1 0 0)\<lparr>mine := [0, 1], pcs := [Idle, Idle]\<rparr>))"
    by (rule reach_step) (rule lock_step.access; simp add: room_def)
  then have "?R ((?S [?C 1 1, ?C 0 1] 2 0 0)\<lparr>mine := [1, 1], pcs := [Idle, Idle]\<rparr>)"
    by (simp add: lock_defs)
  then have "?R ((?S [?C 1 0, ?C 0 1] 1 0 0)\<lparr>mine := [1, 0], pcs := [Idle, Idle]\<rparr>)"
    by (rule reach_step) (rule lock_step.release [of 1]; simp add: lock_defs)
  then have "?R (ConditionalLock_modify 1 ((?S [?C 1 0, ?C 0 1] 1 0 0)\<lparr>mine := [1, 0], pcs := [Idle, Idle]\<rparr>))"
    by (rule reach_step) (rule lock_step.modify; simp)
  then have "?R ((?S [?C 1 0, ?C 0 1] 1 1 0)\<lparr>mine := [1, 0], pcs := [Idle, WaitSig 0 True]\<rparr>)"
    by (simp add: lock_defs)
  then have "?R ((?S [?C 1 0, ?C 0 0] 0 1 0)\<lparr>mine := [0, 0], pcs := [Idle, WokenSig 0 True]\<rparr>)"
    by (rule reach_step) (rule lock_step.release [of 0]; simp add: lock_defs)
  then have "?R (ConditionalLock_access 0 ((?S [?C 1 0, ?C 0 0] 0 1 0)\<lparr>mine := [0, 0], pcs := [Idle, WokenSig 0 True]\<rparr>))"
    by (rule reach_step) (rule lock_step.access; simp add: room_def)
  then have "?R ((?S [?C 0 1, ?C 0 0] 0 1 1)\<lparr>mine := [1, 0], pcs := [WaitBcast 0, WokenSig 0 True]\<rparr>)"
    by (simp add: lock_defs)
  then have "?R (lock_modify_resume 1 0 True ((?S [?C 0 1, ?C 0 0] 0 1 1)\<lparr>mine := [1, 0], pcs := [WaitBcast 0, WokenSig 0 True]\<rparr>))"
    by (rule reach_step) (rule lock_step.modify_wake; simp)
  then have "?R ((?S [?C 0 2, ?C 0 0] 0 0 1)\<lparr>mutex := Some 1, mine := [1, 0], pcs := [WaitBcast 0, Exclusive True]\<rparr>)"
    by (simp add: lock_defs)
  then have "?R ((?S [?C 0 2, ?C 1 (- 1)] (- 1) 0 1)\<lparr>mine := [1, 0], pcs := [WaitBcast 0, Idle]\<rparr>)"
    by (rule reach_step) (rule lock_step.commit [of 1]; simp add: lock_defs)
  then show ?thesis by (intro exI conjI, assumption) simp_all
qed

end
