(* ===== verification/Shell.thy ===== *)
theory Shell
  imports Codec
begin

text \<open>
  Command lines, from \<open>corelib/shell.cpp\<close>: the classes of options and how they take their values, the
  parser of argument vectors \<open>getargv\<close>, the splitting of a text into arguments, and the
  symbols of a shell.

  Strings are lists of characters without a terminator. An error exit of the program is the value
  \<open>Exit\<close> with the message, and \<open>Undefined\<close> stands for a read behind the end of a string or for
  an overflow of a \<open>long\<close>.
\<close>

section \<open>Results\<close>

datatype errmsg = NOARGS | NOARGUMENT | INVARGUMENT | BADOPTION | OPTION_USED | BAD_VALUE | NUMERIC_SET

datatype 'a outcome = Ok 'a | Exit errmsg | Undefined

fun bind_ok :: "'a outcome \<Rightarrow> ('a \<Rightarrow> 'b outcome) \<Rightarrow> 'b outcome" where
  "bind_ok (Ok x) f = f x"
| "bind_ok (Exit e) f = Exit e"
| "bind_ok Undefined f = Undefined"

lemma bind_ok_assoc: "bind_ok (bind_ok m f) g = bind_ok m (\<lambda>x. bind_ok (f x) g)"
  by (cases m) simp_all

lemma bind_ok_cong [fundef_cong]: "m = n \<Longrightarrow> (\<And>x. n = Ok x \<Longrightarrow> f x = g x) \<Longrightarrow> bind_ok m f = bind_ok n g"
  by (cases n) simp_all

section \<open>Numbers\<close>

text \<open>
  \<open>strtol\<close> of the C library: white space, a sign, for base 0 a prefix that selects the
  base, and digits. It saturates at the limits of \<open>long\<close>. The second component is the text at the end
  pointer, which is the whole text if there are no digits.
\<close>

definition digit_of :: "char \<Rightarrow> nat" where
  "digit_of c =
     (let n = of_char c :: nat
      in if 48 \<le> n \<and> n \<le> 57 then n - 48
         else if 97 \<le> n \<and> n \<le> 122 then n - 87
         else if 65 \<le> n \<and> n \<le> 90 then n - 55 else 36)"

definition digits_in :: "nat \<Rightarrow> cstr \<Rightarrow> cstr" where
  "digits_in base s = takeWhile (\<lambda>c. digit_of c < base) s"

definition number_in :: "nat \<Rightarrow> cstr \<Rightarrow> int" where
  "number_in base ds = foldl (\<lambda>n c. int base * n + int (digit_of c)) 0 ds"

definition strtol_base :: "nat \<Rightarrow> cstr \<Rightarrow> nat \<times> cstr" where
  "strtol_base base s =
     (if base = 0 then
        if 2 < length s \<and> s ! 0 = CHR ''0'' \<and> s ! 1 \<in> {CHR ''x'', CHR ''X''} \<and> digit_of (s ! 2) < 16 then (16, drop 2 s)
        else if s \<noteq> [] \<and> hd s = CHR ''0'' then (8, s) else (10, s)
      else (base, s))"

definition strtol :: "nat \<Rightarrow> cstr \<Rightarrow> int \<times> cstr" where
  "strtol base value =
     (let s = dropWhile isspace value;
          neg = (s \<noteq> [] \<and> hd s = CHR ''-'');
          s = (if s \<noteq> [] \<and> hd s \<in> {CHR ''-'', CHR ''+''} then tl s else s)
      in case strtol_base base s of (base, s) \<Rightarrow>
           let ds = digits_in base s; n = number_in base ds
           in if ds = [] then (0, value)
              else (if neg then max (- (2 ^ 63)) (- n) else min (2 ^ 63 - 1) n, drop (length ds) s))"

section \<open>Options\<close>

text \<open>The values of the derived classes.\<close>

datatype opt_value =
    Flagopt bool "32 word"
  | Numericopt bool int
  | Counteropt bool int
  | Groupopt
  | Stringopt bool "cstr option"
  | Charopt bool char

record Option =
  short_option :: char
  long_option :: "cstr option"
  uses_option :: "cstr option"
  help_string :: "cstr option"
  trigger_option :: bool
  opt_value :: opt_value

definition Option_new :: "char \<Rightarrow> cstr option \<Rightarrow> cstr option \<Rightarrow> cstr option \<Rightarrow> opt_value \<Rightarrow> Option" where
  "Option_new shortopt longopt value help v =
     \<lparr>short_option = shortopt, long_option = map_option (dropWhile (\<lambda>c. c = CHR ''-'')) longopt, uses_option = value,
      help_string = help, trigger_option = False, opt_value = v\<rparr>"

definition Option_disable :: "Option \<Rightarrow> Option" where
  "Option_disable opt =
     opt\<lparr>short_option := CHR 0x00, long_option := None, help_string := None, uses_option := None\<rparr>"

definition flagopt_new :: "char \<Rightarrow> cstr option \<Rightarrow> cstr option \<Rightarrow> bool \<Rightarrow> Option" where
  "flagopt_new c longopt help single_use = Option_new c longopt None help (Flagopt single_use 0)"

definition numericopt_new :: "char \<Rightarrow> cstr option \<Rightarrow> cstr option \<Rightarrow> cstr option \<Rightarrow> int \<Rightarrow> Option" where
  "numericopt_new c longopt help type def_value = Option_new c longopt type help (Numericopt False def_value)"

definition counteropt_new :: "char \<Rightarrow> cstr option \<Rightarrow> cstr option \<Rightarrow> cstr option \<Rightarrow> int \<Rightarrow> Option" where
  "counteropt_new c longopt help type def_value =
     (Option_new c longopt type help (Counteropt False def_value))\<lparr>trigger_option := True\<rparr>"

definition groupopt_new :: "cstr option \<Rightarrow> Option" where
  "groupopt_new help = Option_new (CHR 0x00) None None help Groupopt"

definition stringopt_new :: "char \<Rightarrow> cstr option \<Rightarrow> cstr option \<Rightarrow> cstr option \<Rightarrow> cstr option \<Rightarrow> Option" where
  "stringopt_new c longopt help type def_value = Option_new c longopt type help (Stringopt False def_value)"

definition charopt_new :: "char \<Rightarrow> cstr option \<Rightarrow> cstr option \<Rightarrow> cstr option \<Rightarrow> char \<Rightarrow> Option" where
  "charopt_new c longopt help type def_value = Option_new c longopt type help (Charopt False def_value)"

text \<open>The \<open>assign\<close> of each class. A null pointer is \<open>None\<close>.\<close>

definition flagopt_assign :: "bool \<Rightarrow> 32 word \<Rightarrow> opt_value outcome" where
  "flagopt_assign single counter = (if single \<and> counter \<noteq> 0 then Exit OPTION_USED else Ok (Flagopt single (counter + 1)))"

definition numericopt_assign :: "bool \<Rightarrow> cstr \<Rightarrow> opt_value outcome" where
  "numericopt_assign used value =
     (if used then Exit OPTION_USED
      else case strtol 0 value of (number, rest) \<Rightarrow> if rest \<noteq> [] then Exit BAD_VALUE else Ok (Numericopt True number))"

definition counteropt_assign :: "bool \<Rightarrow> int \<Rightarrow> cstr option \<Rightarrow> opt_value outcome" where
  "counteropt_assign used number value =
     (case value of
        None \<Rightarrow> if number = 2 ^ 63 - 1 then Undefined else Ok (Counteropt True (number + 1))
      | Some value \<Rightarrow>
          if used then Exit OPTION_USED
          else case strtol 0 value of (number, rest) \<Rightarrow> if rest \<noteq> [] then Exit BAD_VALUE else Ok (Counteropt True number))"

definition stringopt_assign :: "bool \<Rightarrow> cstr option \<Rightarrow> opt_value outcome" where
  "stringopt_assign used value = (if used then Exit OPTION_USED else Ok (Stringopt True value))"

definition charopt_assign :: "bool \<Rightarrow> cstr \<Rightarrow> opt_value outcome" where
  "charopt_assign used value =
     (if used then Exit OPTION_USED
      else if value = [] then Undefined
      else if length value = 1 then Ok (Charopt True (hd value))
      else case strtol 0 value of (number, rest) \<Rightarrow>
        if rest \<noteq> [] then Exit BAD_VALUE
        else if number < 0 \<or> number > 255 then Exit BAD_VALUE
        else Ok (Charopt True (char_of (nat number))))"

text \<open>The virtual call; an option without value type is given a null pointer, which the classes that read a value dereference.\<close>

fun assign_value :: "opt_value \<Rightarrow> cstr option \<Rightarrow> opt_value outcome" where
  "assign_value (Flagopt single counter) value = flagopt_assign single counter"
| "assign_value (Numericopt used number) (Some value) = numericopt_assign used value"
| "assign_value (Numericopt used number) None = (if used then Exit OPTION_USED else Undefined)"
| "assign_value (Counteropt used number) value = counteropt_assign used number value"
| "assign_value Groupopt value = Ok Groupopt"
| "assign_value (Stringopt used s) value = stringopt_assign used value"
| "assign_value (Charopt used c) (Some value) = charopt_assign used value"
| "assign_value (Charopt used c) None = (if used then Exit OPTION_USED else Undefined)"

definition assign :: "nat \<Rightarrow> cstr option \<Rightarrow> Option list \<Rightarrow> Option list outcome" where
  "assign i value ops =
     bind_ok (assign_value (opt_value (ops ! i)) value) (\<lambda>v. Ok (ops[i := (ops ! i)\<lparr>opt_value := v\<rparr>]))"


section \<open>Argument vectors\<close>

datatype numeric_t = NO_NUMERIC | NUMERIC_PLUS | NUMERIC_DASH | NUMERIC_ALL

definition starts_number :: "char \<Rightarrow> cstr \<Rightarrow> bool" where
  "starts_number c opt \<longleftrightarrow> (case opt of a # b # _ \<Rightarrow> a = c \<and> isdigit b | _ \<Rightarrow> False)"

text \<open>
  The numeric arguments: the new numeric value if the argument is one. \<open>atol\<close> is \<open>strtol\<close> in base 10.
\<close>

definition numeric_arg :: "numeric_t \<Rightarrow> int \<Rightarrow> cstr \<Rightarrow> int option outcome" where
  "numeric_arg mode numeric_value opt =
     (if mode \<in> {NUMERIC_DASH, NUMERIC_ALL} \<and> starts_number (CHR ''-'') opt then
        if numeric_value \<noteq> 0 then Exit NUMERIC_SET else Ok (Some (fst (strtol 10 opt)))
      else if mode \<in> {NUMERIC_PLUS, NUMERIC_ALL} \<and> starts_number (CHR ''+'') opt then
        if numeric_value \<noteq> 0 then Exit NUMERIC_SET else Ok (Some (fst (strtol 10 (tl opt))))
      else Ok None)"

text \<open>
  The search for a long option: its position, the value and the arguments that are left. An option that takes
  a value and is not followed by an equals sign takes the next argument.
\<close>

fun long_scan :: "cstr \<Rightarrow> cstr list \<Rightarrow> nat \<Rightarrow> Option list \<Rightarrow> (nat \<times> cstr option \<times> cstr list) option outcome" where
  "long_scan opt argv i [] = Ok None"
| "long_scan opt argv i (op # ops) =
     (case long_option op of
        None \<Rightarrow> long_scan opt argv (i + 1) ops
      | Some name \<Rightarrow>
          let len = length name
          in if take len opt = name \<and> len < length opt \<and> opt ! len = CHR ''='' then
               if uses_option op = None then Exit INVARGUMENT
               else Ok (Some (i, Some (drop (len + 1) opt), argv))
             else if opt = name then
               Ok (Some (if uses_option op = None then (i, None, argv)
                         else case argv of [] \<Rightarrow> (i, None, []) | v # rest \<Rightarrow> (i, Some v, rest)))
             else long_scan opt argv (i + 1) ops)"

fun short_scan :: "char \<Rightarrow> nat \<Rightarrow> Option list \<Rightarrow> nat option" where
  "short_scan c i [] = None"
| "short_scan c i (op # ops) = (if short_option op = c then Some i else short_scan c (i + 1) ops)"

text \<open>The loop over the letters of a short form; the rest of the letters is the value of an option that takes one.\<close>

fun short_loop :: "cstr \<Rightarrow> cstr list \<Rightarrow> Option list \<Rightarrow> (Option list \<times> cstr list) outcome" where
  "short_loop [] argv ops = Ok (ops, argv)"
| "short_loop (c # arg) argv ops =
     (case short_scan c 0 ops of
        None \<Rightarrow> Exit BADOPTION
      | Some i \<Rightarrow>
          if trigger_option (ops ! i) \<or> uses_option (ops ! i) = None then
            bind_ok (assign i None ops) (\<lambda>ops. short_loop arg argv ops)
          else if arg \<noteq> [] then bind_ok (assign i (Some arg) ops) (\<lambda>ops. Ok (ops, argv))
          else case argv of
            [] \<Rightarrow> Exit NOARGUMENT
          | v # rest \<Rightarrow> bind_ok (assign i (Some v) ops) (\<lambda>ops. Ok (ops, rest)))"

text \<open>One argument that starts with a dash.\<close>

definition getopt_arg :: "cstr \<Rightarrow> cstr list \<Rightarrow> Option list \<Rightarrow> (Option list \<times> cstr list) outcome" where
  "getopt_arg arg argv ops =
     (let opt = tl arg; opt = (if opt \<noteq> [] \<and> hd opt = CHR ''-'' then tl opt else opt)
      in bind_ok (long_scan opt argv 0 ops) (\<lambda>found.
           case found of
             Some (i, value, rest) \<Rightarrow>
               if uses_option (ops ! i) \<noteq> None \<and> value = None then Exit NOARGUMENT
               else bind_ok (assign i value ops) (\<lambda>ops. Ok (ops, rest))
           | None \<Rightarrow>
               if take 2 arg = ''--'' then Exit BADOPTION else short_loop (tl arg) argv ops))"

lemma long_scan_length: "long_scan opt argv i ops = Ok (Some (j, value, rest)) \<Longrightarrow> length rest \<le> length argv"
  by (induction opt argv i ops rule: long_scan.induct) (auto simp: Let_def split: option.splits if_splits list.splits)

lemma short_loop_length: "short_loop arg argv ops = Ok (ops', rest) \<Longrightarrow> length rest \<le> length argv"
proof (induction arg argv ops rule: short_loop.induct)
  case (2 c arg argv ops)
  then show ?case
    by (cases "assign (the (short_scan c 0 ops)) None ops"; cases "assign (the (short_scan c 0 ops)) (Some arg) ops";
        cases "assign (the (short_scan c 0 ops)) (Some (hd argv)) ops")
      (auto split: option.splits if_splits list.splits)
qed auto

lemma getopt_arg_length:
  assumes "getopt_arg arg argv ops = Ok (ops', rest)"
  shows "length rest \<le> length argv"
proof -
  define opt where "opt = (if tl arg \<noteq> [] \<and> hd (tl arg) = CHR ''-'' then tl (tl arg) else tl arg)"
  obtain found where found: "long_scan opt argv 0 ops = Ok found"
    using assms by (cases "long_scan opt argv 0 ops") (auto simp: getopt_arg_def opt_def)
  show ?thesis
  proof (cases found)
    case None
    then show ?thesis using assms found short_loop_length
      by (fastforce simp: getopt_arg_def opt_def split: if_splits)
  next
    case (Some f)
    obtain i w r where f: "f = (i, w, r)" by (cases f)
    have "rest = r" using assms found Some f
      by (cases "assign i w ops") (auto simp: getopt_arg_def opt_def split: if_splits)
    then show ?thesis using long_scan_length found Some f by blast
  qed
qed

function getargv_loop :: "numeric_t \<Rightarrow> int \<Rightarrow> cstr list \<Rightarrow> Option list \<Rightarrow> (Option list \<times> int \<times> cstr list) outcome" where
  "getargv_loop mode numeric_value [] ops = Ok (ops, numeric_value, [])"
| "getargv_loop mode numeric_value (arg # argv) ops =
     (if arg = ''--'' then Ok (ops, numeric_value, argv)
      else bind_ok (numeric_arg mode numeric_value arg) (\<lambda>n.
        case n of
          Some v \<Rightarrow> getargv_loop mode v argv ops
        | None \<Rightarrow>
            if arg = [] \<or> hd arg \<noteq> CHR ''-'' then Ok (ops, numeric_value, arg # argv)
            else bind_ok (getopt_arg arg argv ops) (\<lambda>(ops, rest). getargv_loop mode numeric_value rest ops)))"
  by pat_completeness auto
termination
  by (relation "measure (\<lambda>(mode, v, argv, ops). length argv)") (auto dest: getopt_arg_length)

record shell =
  options :: "Option list"
  numeric_mode :: numeric_t
  numeric_value :: int
  argv :: "cstr list"
  argc :: nat

definition setNumeric :: "numeric_t \<Rightarrow> shell \<Rightarrow> shell" where
  "setNumeric mode sh = sh\<lparr>numeric_mode := mode, numeric_value := 0\<rparr>"

definition shell_count :: "cstr list \<Rightarrow> nat" where
  "shell_count args = length args"

definition getargv :: "cstr list \<Rightarrow> shell \<Rightarrow> shell outcome" where
  "getargv args sh =
     bind_ok (getargv_loop (numeric_mode sh) (numeric_value sh) args (options sh)) (\<lambda>(ops, n, rest).
       Ok (sh\<lparr>options := ops, numeric_value := n, argv := rest, argc := length rest\<rparr>))"


section \<open>Splitting a text\<close>

text \<open>
  \<open>parse\<close> works on a copy of the text with its terminator. Arguments are pointers into it, and the ends of arguments are
  overwritten by terminators.
\<close>

abbreviation NUL :: char where "NUL \<equiv> CHR 0x00"
abbreviation DQ :: char where "DQ \<equiv> CHR 0x22"
abbreviation SQ :: char where "SQ \<equiv> CHR 0x27"

function parse_loop :: "char list \<Rightarrow> nat \<Rightarrow> char \<Rightarrow> bool \<Rightarrow> nat list \<Rightarrow> (char list \<times> nat list) outcome" where
  "parse_loop buf cp quote active items =
     (if cp \<ge> length buf then Undefined
      else if buf ! cp = NUL then Ok (buf, items)
      else if isspace (buf ! cp) \<and> active \<and> quote = NUL then parse_loop (buf[cp := NUL]) (cp + 1) quote False items
      else if buf ! cp = SQ \<and> \<not> active then parse_loop buf (cp + 1) SQ True (items @ [cp])
      else if buf ! cp = DQ \<and> \<not> active then parse_loop buf (cp + 2) DQ True (items @ [cp + 1])
      else if buf ! cp = quote \<and> active \<and> quote = DQ then parse_loop (buf[cp := NUL]) (cp + 1) quote False items
      else if buf ! cp = quote \<and> active \<and> isspace (buf ! (cp + 1)) then
        parse_loop (buf[cp + 1 := NUL]) (cp + 2) quote False items
      else if \<not> isspace (buf ! cp) \<and> \<not> active then parse_loop buf (cp + 1) quote True (items @ [cp])
      else parse_loop buf (cp + 1) quote active items)"
  by pat_completeness auto
termination
  by (relation "measure (\<lambda>(buf, cp, quote, active, items). length buf - cp)") auto

definition item_text :: "char list \<Rightarrow> nat \<Rightarrow> cstr" where
  "item_text buf i = takeWhile (\<lambda>c. c \<noteq> NUL) (drop i buf)"

definition collapse :: "char list \<times> nat list \<Rightarrow> cstr list" where
  "collapse r = (case r of (buf, items) \<Rightarrow> map (item_text buf) items)"

definition shell_parse :: "cstr \<Rightarrow> cstr list outcome" where
  "shell_parse string = bind_ok (parse_loop (string @ [NUL]) 0 NUL False []) (\<lambda>r. Ok (collapse r))"

declare parse_loop.simps [simp del]

text \<open>The same on lists: between arguments, and inside an argument of which \<open>acc\<close> was read.\<close>

function tokens :: "char \<Rightarrow> cstr \<Rightarrow> cstr list outcome" and rest_of :: "char \<Rightarrow> cstr \<Rightarrow> cstr \<Rightarrow> cstr list outcome" where
  "tokens q [] = Ok []"
| "tokens q (c # s) =
     (if isspace c then tokens q s
      else if c = DQ then (case s of [] \<Rightarrow> Undefined | d # s \<Rightarrow> rest_of DQ [d] s)
      else rest_of (if c = SQ then SQ else q) [c] s)"
| "rest_of q acc [] = Ok [acc]"
| "rest_of q acc (c # s) =
     (if isspace c \<and> q = NUL \<or> c = q \<and> q = DQ then bind_ok (tokens q s) (\<lambda>ts. Ok (acc # ts))
      else if c = q \<and> s \<noteq> [] \<and> isspace (hd s) then bind_ok (tokens q (tl s)) (\<lambda>ts. Ok ((acc @ [c]) # ts))
      else rest_of q (acc @ [c]) s)"
  by pat_completeness auto
termination
  by (relation "measure (\<lambda>x. case x of Inl (q, s) \<Rightarrow> length s | Inr (q, acc, s) \<Rightarrow> length s)") auto

section \<open>Symbols\<close>

text \<open>
  Symbols are a list, newest first. \<open>is_sym\<close> and \<open>setsym\<close> search with a pointer that is never
  set to the list.
\<close>

type_synonym syms = "(cstr \<times> cstr) list"

fun sym_scan :: "cstr \<Rightarrow> syms \<Rightarrow> cstr option" where
  "sym_scan name [] = None"
| "sym_scan name ((n, v) # sp) = (if n = name then Some v else sym_scan name sp)"

definition is_sym :: "cstr \<Rightarrow> syms \<Rightarrow> bool" where
  "is_sym name syms = (sym_scan name [] \<noteq> None)"

definition shell_getenv :: "(cstr \<rightharpoonup> cstr) \<Rightarrow> cstr \<Rightarrow> cstr option \<Rightarrow> cstr option" where
  "shell_getenv env name value = (case env name of Some v \<Rightarrow> Some v | None \<Rightarrow> value)"

definition getsym :: "(cstr \<rightharpoonup> cstr) \<Rightarrow> cstr \<Rightarrow> cstr option \<Rightarrow> syms \<Rightarrow> cstr option" where
  "getsym env name value syms = (case sym_scan name syms of Some v \<Rightarrow> Some v | None \<Rightarrow> shell_getenv env name value)"

definition setsym :: "cstr \<Rightarrow> cstr \<Rightarrow> syms \<Rightarrow> syms" where
  "setsym name value syms = (if sym_scan name [] \<noteq> None then syms else (name, value) # syms)"


section \<open>Splitting agrees with lists\<close>

definition closed :: "char list \<Rightarrow> nat list \<Rightarrow> bool" where
  "closed pre items \<longleftrightarrow> (\<forall>i \<in> set items. i \<le> length pre \<and> NUL \<in> set (drop i pre))"

lemma closed_texts: "closed pre items \<Longrightarrow> map (item_text (pre @ s)) items = map (item_text pre) items"
  by (auto simp: closed_def item_text_def takeWhile_append1)

lemma closed_append: "closed pre items \<Longrightarrow> closed (pre @ s) items"
  by (auto simp: closed_def)

lemma closed_item: "closed pre items \<Longrightarrow> closed (pre @ acc @ [NUL]) (items @ [length pre])"
  using closed_append [of pre items "acc @ [NUL]"] by (auto simp: closed_def)

lemma item_text_last: "NUL \<notin> set acc \<Longrightarrow> item_text (pre @ acc @ [NUL]) (length pre) = acc"
  by (auto simp: item_text_def takeWhile_tail)

text \<open>One round of the loop at the character \<open>c\<close>.\<close>

lemma parse_loop_step:
  assumes "cp = length pre" "c \<noteq> NUL"
  shows "parse_loop (pre @ c # d # t) cp quote active items =
     (if isspace c \<and> active \<and> quote = NUL then parse_loop (pre @ NUL # d # t) (cp + 1) quote False items
      else if c = SQ \<and> \<not> active then parse_loop (pre @ c # d # t) (cp + 1) SQ True (items @ [cp])
      else if c = DQ \<and> \<not> active then parse_loop (pre @ c # d # t) (cp + 2) DQ True (items @ [cp + 1])
      else if c = quote \<and> active \<and> quote = DQ then parse_loop (pre @ NUL # d # t) (cp + 1) quote False items
      else if c = quote \<and> active \<and> isspace d then parse_loop (pre @ c # NUL # t) (cp + 2) quote False items
      else if \<not> isspace c \<and> \<not> active then parse_loop (pre @ c # d # t) (cp + 1) quote True (items @ [cp])
      else parse_loop (pre @ c # d # t) (cp + 1) quote active items)"
proof -
  have "(pre @ c # d # t) ! (cp + 1) = d" "(pre @ c # d # t)[cp + 1 := NUL] = pre @ c # NUL # t"
    "(pre @ c # d # t) ! cp = c" "(pre @ c # d # t)[cp := NUL] = pre @ NUL # d # t" "(cp \<ge> length (pre @ c # d # t)) = False"
    by (simp_all add: assms(1) nth_append list_update_append)
  then show ?thesis
    by (subst parse_loop.simps) (simp only: assms(2) if_False)
qed

lemma parse_loop_tokens:
  "\<And>pre items. closed pre items \<Longrightarrow> NUL \<notin> set s \<Longrightarrow>
     bind_ok (parse_loop (pre @ s @ [NUL]) (length pre) q False items) (\<lambda>r. Ok (collapse r)) =
     bind_ok (tokens q s) (\<lambda>ts. Ok (map (item_text pre) items @ ts))"
  "\<And>pre items. closed pre items \<Longrightarrow> NUL \<notin> set acc \<Longrightarrow> NUL \<notin> set s' \<Longrightarrow>
     bind_ok (parse_loop (pre @ acc @ s' @ [NUL]) (length (pre @ acc)) q' True (items @ [length pre])) (\<lambda>r. Ok (collapse r)) =
     bind_ok (rest_of q' acc s') (\<lambda>ts. Ok (map (item_text pre) items @ ts))"
proof (induction q s and q' acc s' rule: tokens_rest_of.induct)
  case (1 q)
  then show ?case by (simp add: parse_loop.simps [of _ "length pre"] collapse_def closed_texts nth_append)
next
  case (2 q c s)
  obtain d t where s: "s @ [NUL] = d # t" by (cases s) auto
  have c: "c \<noteq> NUL" "NUL \<notin> set s" using 2(5) by auto
  note step = parse_loop_step [of "length pre" pre c d t q False items, OF refl c(1), folded s]
  consider "isspace c" | "\<not> isspace c" "c = DQ" "s = []" | d' s' where "\<not> isspace c" "c = DQ" "s = d' # s'"
    | "\<not> isspace c" "c \<noteq> DQ" by (cases s) auto
  then show ?case
  proof cases
    case 1
    then have "c \<noteq> SQ" "c \<noteq> DQ" by (auto simp: isspace_def)
    then show ?thesis
      using 1 step 2(1) [OF 1, of "pre @ [c]" items] c closed_append [OF 2(4)] closed_texts [OF 2(4)] by simp
  next
    case 2
    then show ?thesis using step by (simp add: parse_loop.simps [of _ "Suc (Suc _)"])
  next
    case 3
    then show ?thesis
      using step "2.IH"(2) [of d' s' "pre @ [c]" items] c closed_append [OF 2(4)] closed_texts [OF 2(4)] by simp
  next
    case 4
    then show ?thesis
      using step "2.IH"(3) [of pre items] c 2(4) by (simp split: if_splits)
  qed
next
  case (3 q acc)
  then show ?case
    by (simp add: parse_loop.simps [of _ "length pre + length acc"] collapse_def nth_append closed_texts item_text_last)
next
  case (4 q acc c s)
  obtain d t where s: "s @ [NUL] = d # t" by (cases s) auto
  have c: "c \<noteq> NUL" "NUL \<notin> set s" using 4(6) by auto
  have len: "length pre + length acc = length (pre @ acc)" by simp
  note step = parse_loop_step [of "length (pre @ acc)" "pre @ acc" c d t q True "items @ [length pre]", OF refl c(1), folded s]
  note item = closed_item [OF 4(4), of acc]
  consider "isspace c \<and> q = NUL \<or> c = q \<and> q = DQ"
    | "\<not> (isspace c \<and> q = NUL \<or> c = q \<and> q = DQ)" "c = q" "s \<noteq> []" "isspace (hd s)"
    | "\<not> (isspace c \<and> q = NUL \<or> c = q \<and> q = DQ)" "\<not> (c = q \<and> s \<noteq> [] \<and> isspace (hd s))" by blast
  then show ?case
  proof cases
    case 1
    then show ?thesis
      using step 4(1) [OF 1, of "pre @ acc @ [NUL]" "items @ [length pre]"] c item 4(5)
      by (auto simp: bind_ok_assoc closed_texts [OF 4(4)] item_text_last)
  next
    case 2
    then obtain s' where s': "s = d # s'" "t = s' @ [NUL]" using s by (cases s) auto
    then show ?thesis
      using 2 step 4(2) [of "pre @ (acc @ [c]) @ [NUL]" "items @ [length pre]"] c closed_item [OF 4(4), of "acc @ [c]"] 4(5)
        item_text_last [of "acc @ [c]" pre]
      by (auto simp: bind_ok_assoc closed_texts [OF 4(4)])
  next
    case 3
    have "c = q \<Longrightarrow> \<not> isspace d" using 3(2) s by (cases s) (auto simp: isspace_def)
    then show ?thesis
      using 3 step 4(3) [of pre items] c 4(4,5) by auto
  qed
qed


lemma shell_parse_tokens: "NUL \<notin> set s \<Longrightarrow> shell_parse s = tokens NUL s"
  using parse_loop_tokens(1) [of "[]" "[]" s NUL] by (cases "tokens NUL s") (simp_all add: shell_parse_def closed_def)

text \<open>The words of a text.\<close>

function words :: "cstr \<Rightarrow> cstr list" where
  "words [] = []"
| "words (c # s) =
     (if isspace c then words s
      else (c # takeWhile (\<lambda>c. \<not> isspace c) s) # words (dropWhile (\<lambda>c. \<not> isspace c) s))"
  by pat_completeness auto
termination
  by (relation "measure length") (auto simp: length_dropWhile_le less_Suc_eq_le)

lemma rest_of_word:
  "NUL \<notin> set s \<Longrightarrow>
     rest_of NUL acc s = bind_ok (tokens NUL (dropWhile (\<lambda>c. \<not> isspace c) s))
       (\<lambda>ts. Ok ((acc @ takeWhile (\<lambda>c. \<not> isspace c) s) # ts))"
  by (induction s arbitrary: acc) auto

lemma tokens_words:
  "NUL \<notin> set s \<Longrightarrow> (\<forall>w \<in> set (words s). hd w \<notin> {SQ, DQ}) \<Longrightarrow> tokens NUL s = Ok (words s)"
proof (induction s rule: words.induct)
  case (2 c s)
  show ?case
  proof (cases "isspace c")
    case True
    then show ?thesis using 2 by simp
  next
    case False
    let ?r = "dropWhile (\<lambda>c. \<not> isspace c) s"
    have "set ?r \<subseteq> set s" by (meson set_dropWhileD subsetI)
    then have r: "tokens NUL ?r = Ok (words ?r)"
      using 2 False by auto
    have "tokens NUL (c # s) = rest_of NUL [c] s" using 2(4) False by simp
    then show ?thesis using 2(3) False r by (simp add: rest_of_word)
  qed
qed simp

text \<open>C24: A text without quotes at the begin of a word is split into its words.\<close>

theorem shell_parse_words:
  assumes "NUL \<notin> set s" "\<forall>w \<in> set (words s). hd w \<notin> {SQ, DQ}"
  shows "shell_parse s = Ok (words s)"
  using shell_parse_tokens [OF assms(1)] tokens_words [OF assms] by simp

theorem shell_parse_words_witness: "shell_parse ''ls  -l src'' = Ok [''ls'', ''-l'', ''src'']"
  using shell_parse_words [of "''ls  -l src''"] by (simp add: isspace_def)

lemma rest_of_quoted: "DQ \<notin> set q \<Longrightarrow> rest_of DQ acc (q @ DQ # s) = bind_ok (tokens DQ s) (\<lambda>ts. Ok ((acc @ q) # ts))"
  by (induction q arbitrary: acc) auto

lemma rest_of_open: "DQ \<notin> set t \<Longrightarrow> rest_of DQ acc t = Ok [acc @ t]"
  by (induction t arbitrary: acc) auto

text \<open>
  The quotation mark that is looked for is never reset: after an argument in double quotes, blanks no longer separate
  arguments. An empty argument in quotes becomes an argument that holds the closing quote, and a quote at the
  end of the text makes the loop run behind the terminator.
\<close>

theorem shell_parse_quoted:
  assumes "NUL \<notin> set q" "q \<noteq> []" "DQ \<notin> set q"
    and "NUL \<notin> set t" "t \<noteq> []" "DQ \<notin> set t" "\<not> isspace (hd t)" "hd t \<noteq> SQ"
  shows "shell_parse (DQ # q @ DQ # CHR '' '' # t) = Ok [q, t] \<and>
    shell_parse (DQ # DQ # CHR '' '' # t) = Ok [DQ # CHR '' '' # t] \<and>
    shell_parse (DQ # q @ [DQ, CHR '' '', DQ]) = Undefined"
proof -
  have sp: "isspace (CHR '' '')" "\<not> isspace DQ" by (auto simp: isspace_def)
  obtain a q' where q: "q = a # q'" using assms(2) by (cases q) auto
  obtain b t' where t: "t = b # t'" using assms(5) by (cases t) auto
  have "tokens DQ (CHR '' '' # t) = Ok [t]"
    using assms(6-8) sp rest_of_open [of t' "[b]"] by (auto simp: t)
  then have "shell_parse (DQ # q @ DQ # CHR '' '' # t) = Ok [q, t]"
    using assms(1,3,4) sp rest_of_quoted [of q' "[a]" "CHR '' '' # t"] by (auto simp: shell_parse_tokens q)
  moreover have "shell_parse (DQ # DQ # CHR '' '' # t) = Ok [DQ # CHR '' '' # t]"
    using assms(4,6) sp rest_of_open [of "CHR '' '' # t" "[DQ]"] by (simp add: shell_parse_tokens)
  moreover have "shell_parse (DQ # q @ [DQ, CHR '' '', DQ]) = Undefined"
    using assms(1,3) sp rest_of_quoted [of q' "[a]" "[CHR '' '', DQ]"] by (auto simp: shell_parse_tokens q)
  ultimately show ?thesis by blast
qed

theorem shell_parse_quoted_witness:
  "shell_parse (DQ # ''a b'' @ DQ # CHR '' '' # ''c d'') = Ok [''a b'', ''c d''] \<and>
   shell_parse (DQ # DQ # CHR '' '' # ''c d'') = Ok [DQ # '' c d''] \<and>
   shell_parse (DQ # ''a b'' @ [DQ, CHR '' '', DQ]) = Undefined"
  using shell_parse_quoted [of "''a b''" "''c d''"] by (simp add: isspace_def)


section \<open>Command lines and their options\<close>

text \<open>
  The ways to write options, by their position in the list: long options with and without a value, and
  letters behind one dash of which the last may have a value, in the same or the next argument.
\<close>

datatype opt_tail = NoValue | Joined nat cstr | Next nat cstr

datatype opt_item = LongFlag nat | LongEq nat cstr | LongNext nat cstr | Shorts "nat list" opt_tail

abbreviation lname :: "Option list \<Rightarrow> nat \<Rightarrow> cstr" where
  "lname ops i \<equiv> the (long_option (ops ! i))"

abbreviation letter :: "Option list \<Rightarrow> nat \<Rightarrow> char" where
  "letter ops i \<equiv> short_option (ops ! i)"

fun short_text :: "Option list \<Rightarrow> nat list \<Rightarrow> opt_tail \<Rightarrow> cstr" where
  "short_text ops is NoValue = map (letter ops) is"
| "short_text ops is (Joined i v) = map (letter ops) is @ letter ops i # v"
| "short_text ops is (Next i v) = map (letter ops) is @ [letter ops i]"

fun tail_args :: "opt_tail \<Rightarrow> cstr list" where
  "tail_args (Next i v) = [v]"
| "tail_args p = []"

fun render :: "Option list \<Rightarrow> opt_item \<Rightarrow> cstr list" where
  "render ops (LongFlag i) = [''--'' @ lname ops i]"
| "render ops (LongEq i v) = [''--'' @ lname ops i @ CHR ''='' # v]"
| "render ops (LongNext i v) = [''--'' @ lname ops i, v]"
| "render ops (Shorts is p) = (CHR ''-'' # short_text ops is p) # tail_args p"

fun apply_tail :: "opt_tail \<Rightarrow> Option list \<Rightarrow> Option list outcome" where
  "apply_tail NoValue ops = Ok ops"
| "apply_tail (Joined i v) ops = assign i (Some v) ops"
| "apply_tail (Next i v) ops = assign i (Some v) ops"

fun apply_flags :: "nat list \<Rightarrow> Option list \<Rightarrow> Option list outcome" where
  "apply_flags [] ops = Ok ops"
| "apply_flags (i # is) ops = bind_ok (assign i None ops) (apply_flags is)"

fun apply_item :: "opt_item \<Rightarrow> Option list \<Rightarrow> Option list outcome" where
  "apply_item (LongFlag i) ops = assign i None ops"
| "apply_item (LongEq i v) ops = assign i (Some v) ops"
| "apply_item (LongNext i v) ops = assign i (Some v) ops"
| "apply_item (Shorts is p) ops = bind_ok (apply_flags is ops) (apply_tail p)"

fun apply_items :: "opt_item list \<Rightarrow> Option list \<Rightarrow> Option list outcome" where
  "apply_items [] ops = Ok ops"
| "apply_items (x # xs) ops = bind_ok (apply_item x ops) (apply_items xs)"

text \<open>Lists of options without ambiguities, and the items that can be written for them.\<close>

definition options_ok :: "Option list \<Rightarrow> bool" where
  "options_ok ops \<longleftrightarrow>
     (\<forall>i < length ops. \<forall>name. long_option (ops ! i) = Some name \<longrightarrow> name \<noteq> [] \<and> CHR ''='' \<notin> set name) \<and>
     (\<forall>i < length ops. \<forall>j < i. long_option (ops ! j) = long_option (ops ! i) \<longrightarrow> long_option (ops ! i) = None) \<and>
     (\<forall>i < length ops. \<forall>j < i. short_option (ops ! j) = short_option (ops ! i) \<longrightarrow> short_option (ops ! i) = NUL)"

definition flag_ok :: "Option list \<Rightarrow> nat \<Rightarrow> bool" where
  "flag_ok ops i \<longleftrightarrow> i < length ops \<and> letter ops i \<noteq> NUL \<and> (trigger_option (ops ! i) \<or> uses_option (ops ! i) = None)"

definition letter_ok :: "Option list \<Rightarrow> nat \<Rightarrow> bool" where
  "letter_ok ops i \<longleftrightarrow> i < length ops \<and> letter ops i \<noteq> NUL \<and> \<not> trigger_option (ops ! i) \<and> uses_option (ops ! i) \<noteq> None"

fun tail_ok :: "Option list \<Rightarrow> opt_tail \<Rightarrow> bool" where
  "tail_ok ops NoValue = True"
| "tail_ok ops (Joined i v) = (letter_ok ops i \<and> v \<noteq> [])"
| "tail_ok ops (Next i v) = letter_ok ops i"

definition long_ok :: "Option list \<Rightarrow> nat \<Rightarrow> bool \<Rightarrow> bool" where
  "long_ok ops i uses \<longleftrightarrow> i < length ops \<and> long_option (ops ! i) \<noteq> None \<and> (uses_option (ops ! i) \<noteq> None) = uses"

definition no_long :: "Option list \<Rightarrow> cstr \<Rightarrow> bool" where
  "no_long ops s \<longleftrightarrow> (\<forall>i < length ops. \<forall>name. long_option (ops ! i) = Some name \<longrightarrow>
     s \<noteq> name \<and> take (length name + 1) s \<noteq> name @ ''='')"

fun item_ok :: "Option list \<Rightarrow> opt_item \<Rightarrow> bool" where
  "item_ok ops (LongFlag i) = long_ok ops i False"
| "item_ok ops (LongEq i v) = long_ok ops i True"
| "item_ok ops (LongNext i v) = long_ok ops i True"
| "item_ok ops (Shorts is p) =
     (let s = short_text ops is p
      in s \<noteq> [] \<and> hd s \<noteq> CHR ''-'' \<and> \<not> isdigit (hd s) \<and> list_all (flag_ok ops) is \<and> tail_ok ops p \<and> no_long ops s)"

text \<open>Assigning a value changes nothing else of an option.\<close>

definition shape :: "Option list \<Rightarrow> Option list" where
  "shape ops = map (\<lambda>op. op\<lparr>opt_value := Groupopt\<rparr>) ops"

lemma assign_shape: "assign i v ops = Ok ops' \<Longrightarrow> shape ops' = shape ops"
  by (cases "assign_value (opt_value (ops ! i)) v"; cases "i < length ops")
    (auto simp: assign_def shape_def nth_list_update list_update_beyond intro!: nth_equalityI split: if_splits)

lemma shape_length: "shape ops' = shape ops \<Longrightarrow> length ops' = length ops"
  by (metis shape_def length_map)

lemma shape_nth:
  assumes "shape ops' = shape ops" "i < length ops"
  shows "short_option (ops' ! i) = short_option (ops ! i)" "long_option (ops' ! i) = long_option (ops ! i)"
    "uses_option (ops' ! i) = uses_option (ops ! i)" "trigger_option (ops' ! i) = trigger_option (ops ! i)"
proof -
  have "shape ops' ! i = shape ops ! i" using assms(1) by simp
  then have "(ops' ! i)\<lparr>opt_value := Groupopt\<rparr> = (ops ! i)\<lparr>opt_value := Groupopt\<rparr>"
    using assms shape_length [OF assms(1)] by (simp add: shape_def)
  then show "short_option (ops' ! i) = short_option (ops ! i)" "long_option (ops' ! i) = long_option (ops ! i)"
    "uses_option (ops' ! i) = uses_option (ops ! i)" "trigger_option (ops' ! i) = trigger_option (ops ! i)"
    by (metis Option.ext_inject Option.surjective Option.update_convs(6))+
qed

lemma shape_options_ok:
  assumes "shape ops' = shape ops"
  shows "options_ok ops' = options_ok ops"
  by (simp add: options_ok_def shape_length [OF assms] shape_nth [OF assms] cong: conj_cong)

lemma shape_flag_ok:
  assumes "shape ops' = shape ops"
  shows "flag_ok ops' = flag_ok ops" "letter_ok ops' = letter_ok ops" "no_long ops' s = no_long ops s"
    "long_ok ops' = long_ok ops"
  by (auto simp: fun_eq_iff flag_ok_def letter_ok_def no_long_def long_ok_def shape_length [OF assms] shape_nth [OF assms])

lemma shape_tail_ok:
  assumes "shape ops' = shape ops"
  shows "tail_ok ops' p = tail_ok ops p"
  by (cases p) (simp_all add: shape_flag_ok [OF assms])

lemma shape_short_text:
  assumes "shape ops' = shape ops" "list_all (flag_ok ops) is" "tail_ok ops p"
  shows "short_text ops' is p = short_text ops is p"
  using assms(2,3) by (cases p) (auto simp: list_all_iff flag_ok_def letter_ok_def shape_nth [OF assms(1)])

lemma shape_item:
  assumes "shape ops' = shape ops" "item_ok ops x"
  shows "render ops' x = render ops x" "item_ok ops' x"
proof -
  note s = shape_flag_ok [OF assms(1)] shape_tail_ok [OF assms(1)] shape_short_text [OF assms(1)]
  show "render ops' x = render ops x" using assms(2) by (cases x) (auto simp: s long_ok_def Let_def shape_nth [OF assms(1)])
  show "item_ok ops' x" using assms(2) by (cases x) (auto simp: s Let_def)
qed


lemma long_scan_before:
  assumes "i < length ops" "\<And>j. j < i \<Longrightarrow> \<forall>n. long_option (ops ! j) = Some n \<longrightarrow>
      opt \<noteq> n \<and> take (length n + 1) opt \<noteq> n @ ''=''"
  shows "long_scan opt args k ops = long_scan opt args (k + i) (drop i ops)"
  using assms
proof (induction i arbitrary: k ops)
  case (Suc i)
  then obtain op ops' where ops: "ops = op # ops'" by (cases ops) auto
  have "long_scan opt args k ops = long_scan opt args (k + 1) ops'"
  proof (cases "long_option op")
    case (Some n)
    have "opt \<noteq> n \<and> take (length n + 1) opt \<noteq> n @ ''=''" using Suc.prems(2) [of 0] Some ops by simp
    moreover have "take (length n + 1) opt = n @ ''=''" if "take (length n) opt = n" "length n < length opt" "opt ! length n = CHR ''=''"
      using that by (simp add: take_Suc_conv_app_nth)
    ultimately show ?thesis using Some ops by (auto simp: Let_def)
  qed (simp add: ops)
  moreover have "long_scan opt args (k + 1) ops' = long_scan opt args (k + 1 + i) (drop i ops')"
    using Suc.prems ops by (intro Suc.IH) force+
  ultimately show ?case by (simp add: ops)
qed simp

lemma long_scan_found:
  assumes "options_ok ops" "i < length ops" "long_option (ops ! i) = Some n"
  shows "long_scan n args 0 ops =
      Ok (Some (if uses_option (ops ! i) = None then (i, None, args) else case args of [] \<Rightarrow> (i, None, []) | v # rest \<Rightarrow> (i, Some v, rest)))"
    and "uses_option (ops ! i) \<noteq> None \<Longrightarrow> long_scan (n @ CHR ''='' # v) args 0 ops = Ok (Some (i, Some v, args))"
proof -
  have d: "drop i ops = ops ! i # drop (Suc i) ops" using assms(2) by (simp add: Cons_nth_drop_Suc)
  have eq: "CHR ''='' \<notin> set m" "m \<noteq> n" if "j < i" "long_option (ops ! j) = Some m" for j m
    using assms that unfolding options_ok_def by (metis less_trans, metis option.distinct(1))
  have before: "opt \<noteq> m \<and> take (length m + 1) opt \<noteq> m @ ''=''"
    if "j < i" "long_option (ops ! j) = Some m" "opt = n \<or> opt = n @ CHR ''='' # v" for j m opt
  proof -
    have n: "CHR ''='' \<notin> set n" using assms unfolding options_ok_def by blast
    have "m = n" if "opt = m @ CHR ''='' # r" for r
      using \<open>opt = n \<or> _\<close> that eq(1) [OF \<open>j < i\<close> \<open>_ = Some m\<close>] n
      by (auto simp: append_eq_append_conv2 append_eq_Cons_conv Cons_eq_append_conv)
    moreover have "\<exists>r. opt = m @ CHR ''='' # r" if "take (length m + 1) opt = m @ ''=''"
      using that by (metis append_take_drop_id append.assoc append_Cons append_Nil)
    moreover have "opt \<noteq> m"
      using \<open>opt = n \<or> _\<close> eq [OF \<open>j < i\<close> \<open>_ = Some m\<close>] by auto
    ultimately show ?thesis using eq(2) that(1,2) by blast
  qed
  have "take (length n) n = n" "n \<noteq> n @ CHR ''='' # v" by auto
  then show "long_scan n args 0 ops =
      Ok (Some (if uses_option (ops ! i) = None then (i, None, args) else case args of [] \<Rightarrow> (i, None, []) | v # rest \<Rightarrow> (i, Some v, rest)))"
    using long_scan_before [OF assms(2), of n args 0] before assms(3) d by (simp add: Let_def)
  have "long_scan (n @ CHR ''='' # v) args 0 ops = long_scan (n @ CHR ''='' # v) args (0 + i) (drop i ops)"
    using before by (intro long_scan_before [OF assms(2)]) blast
  then show "long_scan (n @ CHR ''='' # v) args 0 ops = Ok (Some (i, Some v, args))" if "uses_option (ops ! i) \<noteq> None"
    using assms(3) d that by (simp add: Let_def)
qed


lemma long_scan_none:
  assumes "no_long ops opt"
  shows "long_scan opt args k ops = Ok None"
proof -
  have "long_scan opt args k ops = Ok None" if "\<forall>op \<in> set ops. \<forall>n. long_option op = Some n \<longrightarrow>
      opt \<noteq> n \<and> take (length n + 1) opt \<noteq> n @ ''=''" for k
    using that
  proof (induction ops arbitrary: k)
    case (Cons op ops)
    have "take (length n + 1) opt = n @ ''=''" if "take (length n) opt = n" "length n < length opt" "opt ! length n = CHR ''=''" for n
      using that by (simp add: take_Suc_conv_app_nth)
    then show ?case using Cons by (auto simp: Let_def split: option.split)
  qed simp
  moreover have "\<forall>op \<in> set ops. \<forall>n. long_option op = Some n \<longrightarrow> opt \<noteq> n \<and> take (length n + 1) opt \<noteq> n @ ''=''"
    using assms unfolding no_long_def by (metis in_set_conv_nth)
  ultimately show ?thesis by blast
qed

lemma short_scan_found:
  assumes "i < length ops" "\<forall>j < i. short_option (ops ! j) \<noteq> short_option (ops ! i)"
  shows "short_scan (short_option (ops ! i)) k ops = Some (k + i)"
  using assms
proof (induction i arbitrary: k ops)
  case 0
  then show ?case by (cases ops) auto
next
  case (Suc i)
  then obtain op ops' where "ops = op # ops'" by (cases ops) auto
  then show ?case using Suc.prems Suc.IH [of ops' "k + 1"] by (fastforce simp: All_less_Suc2)
qed

lemma short_scan_ok: "options_ok ops \<Longrightarrow> i < length ops \<Longrightarrow> letter ops i \<noteq> NUL \<Longrightarrow> short_scan (letter ops i) 0 ops = Some i"
  using short_scan_found [of i ops 0] unfolding options_ok_def by fastforce

lemma short_loop_flags:
  assumes "options_ok ops" "list_all (flag_ok ops) fs"
  shows "short_loop (map (letter ops) fs @ s) args ops = bind_ok (apply_flags fs ops) (short_loop s args)"
  using assms
proof (induction fs arbitrary: ops)
  case (Cons i fs)
  show ?case
  proof (cases "assign i None ops")
    case (Ok ops')
    note sh = assign_shape [OF Ok]
    have "map (letter ops') fs = map (letter ops) fs"
      using Cons.prems(2) by (auto simp: list_all_iff flag_ok_def shape_nth [OF sh])
    moreover have "options_ok ops'" "list_all (flag_ok ops') fs"
      using Cons.prems by (simp_all add: shape_options_ok [OF sh] shape_flag_ok [OF sh])
    ultimately have "short_loop (map (letter ops) fs @ s) args ops' = bind_ok (apply_flags fs ops') (short_loop s args)"
      using Cons.IH [of ops'] by metis
    then show ?thesis using Cons.prems short_scan_ok [of ops i] Ok by (auto simp: flag_ok_def)
  qed (use Cons.prems short_scan_ok [of ops i] in \<open>auto simp: flag_ok_def\<close>)
qed simp

lemma apply_flags_shape: "apply_flags fs ops = Ok ops' \<Longrightarrow> shape ops' = shape ops"
proof (induction fs arbitrary: ops)
  case (Cons i fs)
  then show ?case using assign_shape by (cases "assign i None ops") fastforce+
qed simp

lemma short_loop_tail:
  assumes "options_ok ops" "tail_ok ops p"
  shows "short_loop (short_text ops [] p) (tail_args p @ args) ops = bind_ok (apply_tail p ops) (\<lambda>ops. Ok (ops, args))"
  using assms short_scan_ok [OF assms(1)] by (cases p) (auto simp: letter_ok_def)

lemma short_loop_item:
  assumes "options_ok ops" "list_all (flag_ok ops) fs" "tail_ok ops p"
  shows "short_loop (short_text ops fs p) (tail_args p @ args) ops =
    bind_ok (apply_item (Shorts fs p) ops) (\<lambda>ops. Ok (ops, args))"
proof -
  have "short_text ops fs p = map (letter ops) fs @ short_text ops [] p" by (cases p) auto
  then have "short_loop (short_text ops fs p) (tail_args p @ args) ops =
      bind_ok (apply_flags fs ops) (short_loop (short_text ops [] p) (tail_args p @ args))"
    using short_loop_flags [OF assms(1,2)] by simp
  also have "\<dots> = bind_ok (apply_flags fs ops) (\<lambda>ops. bind_ok (apply_tail p ops) (\<lambda>ops. Ok (ops, args)))"
  proof (rule bind_ok_cong)
    fix ops' assume "apply_flags fs ops = Ok ops'"
    note sh = apply_flags_shape [OF this]
    have "short_text ops [] p = short_text ops' [] p" "tail_ok ops' p" "options_ok ops'"
      using shape_short_text [OF sh, of "[]" p] assms by (simp_all add: shape_tail_ok [OF sh] shape_options_ok [OF sh])
    then show "short_loop (short_text ops [] p) (tail_args p @ args) ops' = bind_ok (apply_tail p ops') (\<lambda>ops. Ok (ops, args))"
      using short_loop_tail by simp
  qed simp
  finally show ?thesis by (simp add: bind_ok_assoc)
qed


lemma numeric_arg_dash: "b \<noteq> [] \<Longrightarrow> \<not> isdigit (hd b) \<Longrightarrow> numeric_arg mode n (CHR ''-'' # b) = Ok None"
  by (cases b) (auto simp: numeric_arg_def starts_number_def)

lemma getopt_item:
  assumes "options_ok ops" "item_ok ops x" "render ops x = arg # extra"
  shows "getopt_arg arg (extra @ args) ops = bind_ok (apply_item x ops) (\<lambda>ops. Ok (ops, args))"
proof (cases x)
  case (Shorts fs p)
  let ?s = "short_text ops fs p"
  have ok: "?s \<noteq> []" "hd ?s \<noteq> CHR ''-''" "list_all (flag_ok ops) fs" "tail_ok ops p" "no_long ops ?s"
    and arg: "arg = CHR ''-'' # ?s" "extra = tail_args p"
    using assms(2,3) Shorts by (auto simp: Let_def)
  have "take 2 arg \<noteq> ''--''" using ok(1,2) by (cases ?s) (auto simp: arg)
  then show ?thesis
    using ok long_scan_none [OF ok(5), of _ 0] short_loop_item [OF assms(1) ok(3,4)] Shorts by (simp add: getopt_arg_def arg)
qed (use assms long_scan_found [OF assms(1)] in \<open>auto simp: getopt_arg_def long_ok_def bind_ok_assoc\<close>)

lemma render_first:
  assumes "options_ok ops" "item_ok ops x"
  obtains b extra where "render ops x = (CHR ''-'' # b) # extra" "b \<noteq> []" "\<not> isdigit (hd b)" "CHR ''-'' # b \<noteq> ''--''"
proof (cases x)
  case (Shorts fs p)
  then show thesis using assms(2) that by (cases "short_text ops fs p") (auto simp: Let_def)
qed (use assms that in \<open>fastforce simp: long_ok_def options_ok_def isdigit_def\<close>)+

lemma getargv_item:
  assumes "options_ok ops" "item_ok ops x"
  shows "getargv_loop mode n (render ops x @ args) ops = bind_ok (apply_item x ops) (getargv_loop mode n args)"
proof -
  obtain b extra where b: "render ops x = (CHR ''-'' # b) # extra" "b \<noteq> []" "\<not> isdigit (hd b)" "CHR ''-'' # b \<noteq> ''--''"
    using render_first [OF assms] .
  have "getargv_loop mode n (render ops x @ args) ops =
      bind_ok (getopt_arg (CHR ''-'' # b) (extra @ args) ops) (\<lambda>(ops, rest). getargv_loop mode n rest ops)"
    using b by (simp add: numeric_arg_dash)
  also have "\<dots> = bind_ok (apply_item x ops) (getargv_loop mode n args)"
    using getopt_item [OF assms b(1)] by (simp add: bind_ok_assoc)
  finally show ?thesis .
qed

lemma apply_item_shape: "apply_item x ops = Ok ops' \<Longrightarrow> shape ops' = shape ops"
proof (cases x)
  case (Shorts fs p)
  assume "apply_item x ops = Ok ops'"
  then obtain ops1 where "apply_flags fs ops = Ok ops1" "apply_tail p ops1 = Ok ops'"
    using Shorts by (cases "apply_flags fs ops") auto
  then show ?thesis using apply_flags_shape assign_shape by (cases p) fastforce+
qed (auto dest: assign_shape)

lemma getargv_loop_options:
  assumes "options_ok ops" "list_all (item_ok ops) xs"
  shows "getargv_loop mode n (concat (map (render ops) xs) @ args) ops =
    bind_ok (apply_items xs ops) (getargv_loop mode n args)"
  using assms
proof (induction xs arbitrary: ops)
  case (Cons x xs)
  have "getargv_loop mode n (concat (map (render ops) (x # xs)) @ args) ops =
      bind_ok (apply_item x ops) (getargv_loop mode n (concat (map (render ops) xs) @ args))"
    using Cons.prems getargv_item [of ops x mode n "concat (map (render ops) xs) @ args"] by simp
  also have "\<dots> = bind_ok (apply_item x ops) (\<lambda>ops. bind_ok (apply_items xs ops) (getargv_loop mode n args))"
  proof (rule bind_ok_cong)
    fix ops' assume "apply_item x ops = Ok ops'"
    note sh = apply_item_shape [OF this]
    have "map (render ops) xs = map (render ops') xs" "list_all (item_ok ops') xs" "options_ok ops'"
      using Cons.prems shape_item [OF sh] by (auto simp: list_all_iff shape_options_ok [OF sh])
    then show "getargv_loop mode n (concat (map (render ops) xs) @ args) ops' =
        bind_ok (apply_items xs ops') (getargv_loop mode n args)"
      using Cons.IH [of ops'] by metis
  qed simp
  finally show ?case by (simp add: bind_ok_assoc)
qed simp

text \<open>
  C22: A command line that is written for a list of options is read as it is meant: \<open>getargv\<close> gives each
  option the values that are written for it, in order, stops with the first error that an option reports,
  and goes on with what follows.
\<close>

theorem getargv_options:
  assumes "options_ok (options sh)" "list_all (item_ok (options sh)) xs"
  shows "getargv (concat (map (render (options sh)) xs) @ ''--'' # operands) sh =
    bind_ok (apply_items xs (options sh))
      (\<lambda>ops. Ok (sh\<lparr>options := ops, numeric_value := numeric_value sh, argv := operands, argc := length operands\<rparr>))"
  by (simp add: getargv_def getargv_loop_options [OF assms] bind_ok_assoc)


text \<open>A program with a flag, a number and a text.\<close>

definition example_shell :: shell where
  "example_shell =
     \<lparr>options = [flagopt_new (CHR ''v'') (Some ''verbose'') None False, numericopt_new (CHR ''n'') (Some ''--number'') None (Some ''n'') 0,
                stringopt_new (CHR ''o'') (Some ''output'') None (Some ''name'') None],
      numeric_mode = NO_NUMERIC, numeric_value = 0, argv = [], argc = 0\<rparr>"

lemmas option_defs = flagopt_new_def numericopt_new_def stringopt_new_def charopt_new_def Option_new_def

theorem getargv_options_witness:
  "map_option (map opt_value \<circ> options)
     (case getargv [''-vv'', ''--number=0x10'', ''-vo'', ''a'', ''--'', ''-x''] example_shell of Ok sh \<Rightarrow> Some sh | _ \<Rightarrow> None) =
   Some [Flagopt False 3, Numericopt True 16, Stringopt True (Some ''a'')]"
proof -
  let ?xs = "[Shorts [0, 0] NoValue, LongEq 1 ''0x10'', Shorts [0] (Next 2 ''a'')]"
  have ok: "options_ok (options example_shell)"
    by (auto simp: options_ok_def example_shell_def option_defs less_Suc_eq numeral_3_eq_3 numeral_2_eq_2 nth_Cons')
  have items: "list_all (item_ok (options example_shell)) ?xs"
    by (auto simp: example_shell_def option_defs flag_ok_def letter_ok_def long_ok_def no_long_def isdigit_def Let_def
        less_Suc_eq numeral_3_eq_3 numeral_2_eq_2 nth_Cons')
  have "strtol 0 ''0x10'' = (16, [])"
    by (simp add: strtol_def strtol_base_def digits_in_def number_in_def digit_of_def isspace_def Let_def)
  then show ?thesis
    using getargv_options [OF ok items, of "[''-x'']"]
    by (simp add: example_shell_def option_defs assign_def flagopt_assign_def numericopt_assign_def stringopt_assign_def)
qed

text \<open>A single dash is neither an option nor an operand: it is dropped.\<close>

lemma getargv_dash:
  assumes "options_ok ops"
  shows "getargv_loop mode n (''-'' # args) ops = getargv_loop mode n args ops"
proof -
  have "long_scan [] args 0 ops = Ok None"
    using assms by (intro long_scan_none) (auto simp: options_ok_def no_long_def)
  then show ?thesis by (simp add: getopt_arg_def numeric_arg_def starts_number_def)
qed

text \<open>An empty value of a character option is read behind its end.\<close>

lemma charopt_empty: "assign_value (opt_value (charopt_new c longopt help type d)) (Some []) = Undefined"
  by (simp add: option_defs charopt_assign_def)

section \<open>Symbols\<close>

text \<open>
  A symbol that was set is found by \<open>getsym\<close>, and the last value wins, but \<open>is_sym\<close> is false for every symbol, and
  every \<open>setsym\<close> adds an entry.
\<close>

theorem setsym_getsym:
  "getsym env name d (setsym name v syms) = Some v \<and> (other \<noteq> name \<longrightarrow> getsym env other d (setsym name v syms) = getsym env other d syms) \<and>
   \<not> is_sym name (setsym name v syms) \<and> length (setsym name v syms) = Suc (length syms)"
  by (simp add: getsym_def setsym_def is_sym_def)

end
