(* ===== verification/Xml.thy ===== *)
theory Xml
  imports Shell
begin

text \<open>
  The XML parser \<open>XMLParser\<close> of \<open>commoncpp/xml.cpp\<close>.

  The parser reads characters one by one and collects text, tags and entities in one buffer of fixed size. What it finds it
  reports by calls of virtual functions, which are collected in \<open>events\<close>. The buffer is not cleared between uses, so
  its old contents are part of the state. \<open>None\<close> stands for an access outside the buffer or the array of attributes; a result
  of \<open>False\<close> is the return value of a parser that gives up.
\<close>

section \<open>State\<close>

datatype xml_event = StartDocument | EndDocument | Comment cstr | Characters cstr
  | StartElement cstr "cstr list" | EndElement cstr

datatype xml_state = TAG | CDATA | COMMENT | DTD | AMP | NONE | END

record xml =
  ecount :: int
  dcount :: int
  state :: xml_state
  buffer :: "char list"
  bufpos :: nat
  bufsize :: nat
  events :: "xml_event list"

definition isalnum :: "char \<Rightarrow> bool" where
  "isalnum c \<longleftrightarrow> digit_of c < 36"

definition isElement :: "char \<Rightarrow> bool" where
  "isElement c \<longleftrightarrow> isalnum c \<or> c = CHR '':'' \<or> c = CHR ''-'' \<or> c = CHR ''.'' \<or> c = CHR ''_''"

text \<open>The new buffer has arbitrary contents.\<close>

definition XMLParser_new :: "char list \<Rightarrow> xml" where
  "XMLParser_new mem = \<lparr>ecount = 0, dcount = 0, state = NONE, buffer = mem, bufpos = 0, bufsize = length mem, events = []\<rparr>"

definition report :: "xml_event \<Rightarrow> xml \<Rightarrow> xml" where
  "report e x = x\<lparr>events := events x @ [e]\<rparr>"

definition store :: "nat \<Rightarrow> char \<Rightarrow> xml \<Rightarrow> xml option" where
  "store i c x = (if i < length (buffer x) then Some (x\<lparr>buffer := (buffer x)[i := c]\<rparr>) else None)"

text \<open>The string at a position of the buffer, if it ends inside.\<close>

definition string_at :: "char list \<Rightarrow> nat \<Rightarrow> cstr option" where
  "string_at buf i = (if NUL \<in> set (drop i buf) then Some (takeWhile (\<lambda>c. c \<noteq> NUL) (drop i buf)) else None)"

section \<open>Text\<close>

definition putBuffer :: "char \<Rightarrow> xml \<Rightarrow> xml option" where
  "putBuffer c x =
     map_option (\<lambda>x.
       let x = x\<lparr>bufpos := bufpos x + 1\<rparr>
       in if bufpos x \<ge> bufsize x then
            (if ecount x \<noteq> 0 then report (Characters (take (bufpos x) (buffer x))) x else x)\<lparr>bufpos := 0\<rparr>
          else x)
       (store (bufpos x) c x)"

definition clearBuffer :: "xml \<Rightarrow> xml" where
  "clearBuffer x =
     (if bufpos x \<noteq> 0 \<and> ecount x \<noteq> 0 then report (Characters (take (bufpos x) (buffer x))) x else x)\<lparr>bufpos := 0\<rparr>"

section \<open>Tags\<close>

text \<open>The end of an element: it may be the end of the document.\<close>

definition ending :: "xml \<Rightarrow> xml" where
  "ending x = (if ecount x = 0 then report EndDocument (x\<lparr>state := END\<rparr>) else x)"

definition starting :: "xml \<Rightarrow> xml" where
  "starting x = (if ecount x = 0 then report StartDocument x else x)\<lparr>ecount := ecount x + 1\<rparr>"

text \<open>The name of a closing tag; for an empty tag the count wraps and the loop runs on.\<close>

definition parse_close :: "xml \<Rightarrow> (bool \<times> xml) option" where
  "parse_close x =
     (if bufpos x = 0 then if list_all isElement (tl (buffer x)) then None else Some (False, x)
      else if \<not> list_all isElement (tl (take (bufpos x) (buffer x))) then Some (False, x)
      else Option.bind (store (bufpos x) NUL x) (\<lambda>x.
        Option.bind (string_at (buffer x) 1) (\<lambda>name.
          let x = report (EndElement name) (x\<lparr>bufpos := 0, ecount := ecount x - 1\<rparr>)
          in if ecount x < 0 then Some (False, x) else Some (True, ending x))))"

text \<open>The blanks before an attribute are overwritten by terminators.\<close>

function skip_blanks :: "char list \<Rightarrow> nat \<Rightarrow> nat \<Rightarrow> (bool \<times> char list \<times> nat) option" where
  "skip_blanks buf pos len =
     (if len \<ge> length buf then None
      else if isElement (buf ! len) \<or> len \<ge> pos then Some (True, buf, len)
      else if \<not> isspace (buf ! len) then Some (False, buf, len)
      else skip_blanks (buf[len := NUL]) pos (len + 1))"
  by pat_completeness auto
termination
  by (relation "measure (\<lambda>(buf, pos, len). length buf - len)") auto

fun element_end :: "char list \<Rightarrow> nat \<Rightarrow> nat \<Rightarrow> nat" where
  "element_end buf pos len = len + length (takeWhile isElement (drop len (take pos buf)))"

text \<open>
  \<open>strchr\<close> from a position: the position of the character, or that it is not there before the terminator.
\<close>

function find_char :: "char list \<Rightarrow> char \<Rightarrow> nat \<Rightarrow> nat option option" where
  "find_char buf c i =
     (if i \<ge> length buf then None
      else if buf ! i = c then Some (Some i)
      else if buf ! i = NUL then Some None
      else find_char buf c (i + 1))"
  by pat_completeness auto
termination
  by (relation "measure (\<lambda>(buf, c, i). length buf - i)") auto

declare skip_blanks.simps [simp del] find_char.simps [simp del] element_end.simps [simp del]

text \<open>An attribute is a position in the buffer, or the empty string.\<close>

type_synonym attr_ptr = "nat option"

definition put_attr :: "attr_ptr \<Rightarrow> attr_ptr list \<Rightarrow> attr_ptr list option" where
  "put_attr p attrs = (if length attrs < 128 then Some (attrs @ [p]) else None)"

datatype attr_next = Fail | Break | Continue nat

text \<open>What follows the equals sign.\<close>

definition attr_value :: "char list \<Rightarrow> nat \<Rightarrow> nat \<Rightarrow> attr_ptr list \<Rightarrow> (attr_next \<times> char list \<times> attr_ptr list) option" where
  "attr_value buf pos len attrs =
     (if len = pos then map_option (\<lambda>attrs. (Break, buf, attrs)) (put_attr None attrs)
      else if len \<ge> length buf then None
      else if isspace (buf ! len) then map_option (\<lambda>attrs. (Continue len, buf, attrs)) (put_attr None attrs)
      else if buf ! len \<in> {SQ, DQ} then
        Option.bind (find_char buf (buf ! len) (len + 1)) (\<lambda>ep.
          case ep of
            None \<Rightarrow> Some (Fail, buf, attrs)
          | Some ep \<Rightarrow> map_option (\<lambda>attrs. (Continue (ep + 1), buf[ep := NUL], attrs)) (put_attr (Some (len + 1)) attrs))
      else if \<not> isElement (buf ! len) then Some (Fail, buf, attrs)
      else Option.bind (put_attr (Some 0) attrs) (\<lambda>attrs.
        let len = element_end buf pos len
        in if len = pos then (if len < length buf then Some (Break, buf[len := NUL], attrs) else None)
           else Some (Continue len, buf, attrs)))"

definition attr_step :: "char list \<Rightarrow> nat \<Rightarrow> nat \<Rightarrow> attr_ptr list \<Rightarrow> (attr_next \<times> char list \<times> attr_ptr list) option" where
  "attr_step buf pos len attrs =
     Option.bind (skip_blanks buf pos len) (\<lambda>(ok, buf, len).
       if \<not> ok then Some (Fail, buf, attrs)
       else if len = pos then Some (Break, buf, attrs)
       else Option.bind (put_attr (Some len) attrs) (\<lambda>attrs.
         let len = element_end buf pos len
         in if len = pos then Some (Fail, buf, attrs)
            else if len \<ge> length buf then None
            else if buf ! len \<noteq> CHR ''='' then Some (Fail, buf, attrs)
            else attr_value (buf[len := NUL]) pos (len + 1) attrs))"

lemma skip_blanks_grows: "skip_blanks buf pos len = Some (ok, buf', len') \<Longrightarrow> len \<le> len' \<and> length buf' = length buf"
proof (induction buf pos len rule: skip_blanks.induct)
  case (1 buf pos len)
  show ?case using 1(2) by (subst (asm) skip_blanks.simps) (use 1(1) in \<open>auto split: if_splits\<close>)
qed

lemma find_char_bounds: "find_char buf c i = Some (Some j) \<Longrightarrow> i \<le> j \<and> j < length buf"
proof (induction buf c i rule: find_char.induct)
  case (1 buf c i)
  show ?case using 1(2) by (subst (asm) find_char.simps) (use 1(1) in \<open>auto split: if_splits\<close>)
qed

lemma element_end_grows: "len \<le> element_end buf pos len"
  by (simp add: element_end.simps)


lemma attr_value_grows:
  "attr_value buf pos len attrs = Some (Continue len', buf', attrs') \<Longrightarrow> len \<le> len' \<and> length buf' = length buf"
  using find_char_bounds element_end_grows
  by (auto simp: attr_value_def Let_def split: if_splits option.splits bind_splits) (fastforce dest: find_char_bounds)+

lemma attr_step_grows:
  assumes "attr_step buf pos len attrs = Some (Continue len', buf', attrs')"
  shows "len < len' \<and> len < length buf \<and> length buf' = length buf"
proof -
  obtain ok b l where skip: "skip_blanks buf pos len = Some (ok, b, l)"
    using assms by (cases "skip_blanks buf pos len") (auto simp: attr_step_def)
  obtain a where "attr_value (b[element_end b pos l := NUL]) pos (element_end b pos l + 1) a = Some (Continue len', buf', attrs')"
    using assms skip by (auto simp: attr_step_def Let_def split: if_splits bind_splits)
  then have "element_end b pos l + 1 \<le> len'" "length buf' = length b" using attr_value_grows by fastforce+
  moreover have "l \<le> element_end b pos l" by (rule element_end_grows)
  moreover have "len \<le> l" "length b = length buf" "len < length buf"
    using skip_blanks_grows [OF skip] skip by (auto simp: skip_blanks.simps [of buf pos len] split: if_splits)
  ultimately show ?thesis by linarith
qed

function attr_loop :: "char list \<Rightarrow> nat \<Rightarrow> nat \<Rightarrow> attr_ptr list \<Rightarrow> (bool \<times> char list \<times> attr_ptr list) option" where
  "attr_loop buf pos len attrs =
     (case attr_step buf pos len attrs of
        None \<Rightarrow> None
      | Some (Fail, buf, attrs) \<Rightarrow> Some (False, buf, attrs)
      | Some (Break, buf, attrs) \<Rightarrow> Some (True, buf, attrs)
      | Some (Continue len, buf, attrs) \<Rightarrow> attr_loop buf pos len attrs)"
  by pat_completeness auto
termination
  by (relation "measure (\<lambda>(buf, pos, len, attrs). length buf - len)") (auto dest!: attr_step_grows)

declare attr_loop.simps [simp del]

definition attr_text :: "char list \<Rightarrow> attr_ptr \<Rightarrow> cstr option" where
  "attr_text buf p = (case p of None \<Rightarrow> Some [] | Some i \<Rightarrow> string_at buf i)"

fun attr_texts :: "char list \<Rightarrow> attr_ptr list \<Rightarrow> cstr list option" where
  "attr_texts buf [] = Some []"
| "attr_texts buf (p # ps) = Option.bind (attr_text buf p) (\<lambda>s. map_option ((#) s) (attr_texts buf ps))"

text \<open>The call of \<open>startElement\<close>, and of \<open>endElement\<close> for an empty element.\<close>

definition element_found :: "bool \<Rightarrow> attr_ptr list \<Rightarrow> xml \<Rightarrow> (bool \<times> xml) option" where
  "element_found endtag attrs x =
     Option.bind (string_at (buffer x) 0) (\<lambda>name.
       Option.bind (attr_texts (buffer x) attrs) (\<lambda>texts.
         let x = report (StartElement name texts) x;
             x = (if endtag then ending (report (EndElement name) (x\<lparr>ecount := ecount x - 1\<rparr>)) else x)
         in Some (True, x\<lparr>bufpos := 0\<rparr>)))"

definition parse_open :: "xml \<Rightarrow> (bool \<times> xml) option" where
  "parse_open x =
     (if bufpos x = 0 then None
      else
        let endtag = (buffer x ! (bufpos x - 1) = CHR ''/'');
            x = (if endtag then x\<lparr>bufpos := bufpos x - 1\<rparr> else x);
            len = element_end (buffer x) (bufpos x) 0;
            x' = starting x
        in if len = bufpos x then Option.bind (store (bufpos x) NUL x') (element_found endtag [])
           else Option.bind (attr_loop (buffer x) (bufpos x) len []) (\<lambda>(ok, buf, attrs).
             if \<not> ok then Some (False, x'\<lparr>buffer := buf\<rparr>)
             else if length attrs + 2 > 128 then None
             else element_found endtag attrs (x'\<lparr>buffer := buf\<rparr>)))"

definition parseTag :: "xml \<Rightarrow> (bool \<times> xml) option" where
  "parseTag x =
     (if buffer x = [] then None
      else
        let c = hd (buffer x)
        in if c = CHR ''/'' then parse_close x
           else if c = CHR ''!'' then Some (True, x\<lparr>bufpos := 0\<rparr>)
           else if c = CHR ''?'' then Some (True, x\<lparr>bufpos := 0\<rparr>)
           else if \<not> isElement c then Some (False, x)
           else parse_open x)"

section \<open>Characters\<close>

definition entity :: "cstr \<Rightarrow> char option" where
  "entity name =
     (if name \<noteq> [] \<and> hd name = CHR ''#'' then Some (char_of (nat (fst (strtol 10 (tl name)) mod 256)))
      else if name = ''amp'' then Some (CHR ''&'')
      else if name = ''lt'' then Some (CHR ''<'')
      else if name = ''gt'' then Some (CHR ''>'')
      else if name = ''apos'' then Some (CHR ''`'')
      else if name = ''quot'' then Some DQ
      else None)"

definition step_amp :: "char \<Rightarrow> xml \<Rightarrow> (bool \<times> xml) option" where
  "step_amp c x =
     (if bufpos x = 0 \<and> c = CHR ''#'' \<or> isElement c then
        map_option (\<lambda>x. (True, x\<lparr>bufpos := bufpos x + 1\<rparr>)) (store (bufpos x) c x)
      else if c \<noteq> CHR '';'' then Some (False, x)
      else Option.bind (store (bufpos x) NUL x) (\<lambda>x.
        Option.bind (string_at (buffer x) 0) (\<lambda>name.
          case entity name of
            None \<Rightarrow> Some (False, x)
          | Some cp \<Rightarrow> Some (True, report (Characters [cp]) (x\<lparr>bufpos := 0, state := NONE\<rparr>)))))"

text \<open>\<open>strncmp\<close> with a text; it reads up to the first difference.\<close>

definition has_prefix :: "cstr \<Rightarrow> char list \<Rightarrow> bool option" where
  "has_prefix s buf =
     (if take (length s) buf = s then Some True
      else if length buf < length s \<and> take (length buf) s = buf then None else Some False)"

definition step_tag :: "char \<Rightarrow> xml \<Rightarrow> (bool \<times> xml) option" where
  "step_tag c x =
     (if c = CHR ''>'' then parseTag (x\<lparr>state := NONE\<rparr>)
      else if c = CHR ''['' \<and> bufpos x = 7 \<and> take 7 (buffer x) = ''![CDATA'' then Some (True, x\<lparr>state := CDATA\<rparr>)
      else if c = CHR ''-'' \<and> bufpos x = 2 \<and> take 2 (buffer x) = ''!-'' then Some (True, x\<lparr>state := COMMENT, bufpos := 0\<rparr>)
      else if c = CHR ''['' then
        Option.bind (has_prefix ''!DOCTYPE '' (buffer x)) (\<lambda>dtd.
          if dtd then Some (True, x\<lparr>state := DTD, bufpos := 0\<rparr>) else map_option (Pair True) (putBuffer c x))
      else map_option (Pair True) (putBuffer c x))"

definition step_comment :: "char \<Rightarrow> xml \<Rightarrow> (bool \<times> xml) option" where
  "step_comment c x =
     (if c = CHR ''>'' \<and> bufpos x \<ge> 2 \<and> take 2 (drop (bufpos x - 2) (buffer x)) = ''--'' then
        let n = bufpos x - 2
        in Some (True, (if n \<noteq> 0 then report (Comment (take n (buffer x))) x else x)\<lparr>bufpos := 0, state := NONE\<rparr>)
      else map_option (\<lambda>x.
        let x = x\<lparr>bufpos := bufpos x + 1\<rparr>
        in (True, if bufpos x = bufsize x then (report (Comment (take (bufpos x) (buffer x))) x)\<lparr>bufpos := 0\<rparr> else x))
        (store (bufpos x) c x))"

text \<open>The end of a section is compared as a string, which has to be terminated in the buffer.\<close>

definition step_cdata :: "char \<Rightarrow> xml \<Rightarrow> (bool \<times> xml) option" where
  "step_cdata c x =
     map_option (\<lambda>x.
       (True, if bufpos x > 2 \<and> take 4 (drop (bufpos x - 3) (buffer x)) = '']]>'' @ [NUL]
              then clearBuffer (x\<lparr>bufpos := bufpos x - 3, state := NONE\<rparr>) else x))
       (putBuffer c x)"

definition step_dtd :: "char \<Rightarrow> xml \<Rightarrow> xml" where
  "step_dtd c x =
     (if c = CHR ''<'' then x\<lparr>dcount := dcount x + 1\<rparr>
      else if c = CHR ''>'' \<and> dcount x \<noteq> 0 then x\<lparr>dcount := dcount x - 1\<rparr>
      else if c = CHR ''>'' then x\<lparr>state := NONE\<rparr> else x)"

definition step_none :: "char \<Rightarrow> xml \<Rightarrow> xml option" where
  "step_none c x =
     (if c = CHR ''<'' then Some ((clearBuffer x)\<lparr>state := TAG\<rparr>)
      else if ecount x \<noteq> 0 \<and> c = CHR ''&'' then Some ((clearBuffer x)\<lparr>state := AMP\<rparr>)
      else if ecount x \<noteq> 0 then putBuffer c x else Some x)"

text \<open>One round of the loops.\<close>

definition xml_step :: "char \<Rightarrow> xml \<Rightarrow> (bool \<times> xml) option" where
  "xml_step c x =
     (case state x of
        AMP \<Rightarrow> step_amp c x
      | TAG \<Rightarrow> step_tag c x
      | COMMENT \<Rightarrow> step_comment c x
      | CDATA \<Rightarrow> step_cdata c x
      | DTD \<Rightarrow> Some (True, step_dtd c x)
      | NONE \<Rightarrow> map_option (Pair True) (step_none c x)
      | END \<Rightarrow> map_option (Pair True) (step_none c x))"

text \<open>Parsing a file or a text ends with the document.\<close>

fun xml_loop :: "cstr \<Rightarrow> xml \<Rightarrow> (bool \<times> xml) option" where
  "xml_loop [] x = Some (False, x)"
| "xml_loop (c # cs) x =
     Option.bind (xml_step c x) (\<lambda>(ok, x).
       if \<not> ok then Some (False, x) else if state x = END then Some (True, x) else xml_loop cs x)"

definition XMLParser_parse :: "cstr \<Rightarrow> xml \<Rightarrow> (bool \<times> xml) option" where
  "XMLParser_parse text_in x = xml_loop text_in (x\<lparr>state := NONE, bufpos := 0, ecount := 0, dcount := 0\<rparr>)"

text \<open>The same for a file, given by the characters up to its end.\<close>

definition XMLParser_parse_file :: "char list \<Rightarrow> xml \<Rightarrow> (bool \<times> xml) option" where
  "XMLParser_parse_file contents x = xml_loop contents (x\<lparr>state := NONE, bufpos := 0, ecount := 0, dcount := 0\<rparr>)"

text \<open>Pieces of a document.\<close>

fun partial_loop :: "cstr \<Rightarrow> xml \<Rightarrow> (bool \<times> xml) option" where
  "partial_loop [] x = Some (True, x)"
| "partial_loop (c # cs) x =
     Option.bind (xml_step c x) (\<lambda>(ok, x). if \<not> ok then Some (False, x) else partial_loop cs x)"

definition XMLParser_partial :: "cstr \<Rightarrow> xml \<Rightarrow> (bool \<times> xml) option" where
  "XMLParser_partial data x = partial_loop data (if state x = END then x\<lparr>state := NONE\<rparr> else x)"


section \<open>Documents\<close>

datatype xnode = Text cstr | Elem cstr "(cstr \<times> cstr) list" "xnode list"

definition escape :: "char \<Rightarrow> cstr" where
  "escape c = (if c = CHR ''&'' then ''&amp;'' else if c = CHR ''<'' then ''&lt;'' else if c = CHR ''>'' then ''&gt;'' else [c])"

fun attr_source :: "cstr \<times> cstr \<Rightarrow> cstr" where
  "attr_source (n, v) = CHR '' '' # n @ CHR ''='' # DQ # v @ [DQ]"

definition open_tag :: "cstr \<Rightarrow> (cstr \<times> cstr) list \<Rightarrow> cstr" where
  "open_tag n as = n @ concat (map attr_source as)"

fun source :: "xnode \<Rightarrow> cstr" where
  "source (Text s) = concat (map escape s)"
| "source (Elem n as ns) =
     CHR ''<'' # open_tag n as @ CHR ''>'' # concat (map source ns) @ ''</'' @ n @ ''>''"

text \<open>What the callbacks are to see: texts character by character, and the other events.\<close>

fun meaning :: "xnode \<Rightarrow> (char + xml_event) list" where
  "meaning (Text s) = map Inl s"
| "meaning (Elem n as ns) =
     Inr (StartElement n (concat (map (\<lambda>(n, v). [n, v]) as))) # concat (map meaning ns) @ [Inr (EndElement n)]"

fun flat_event :: "xml_event \<Rightarrow> (char + xml_event) list" where
  "flat_event (Characters s) = map Inl s"
| "flat_event e = [Inr e]"

definition flat :: "xml_event list \<Rightarrow> (char + xml_event) list" where
  "flat es = concat (map flat_event es)"

definition name_ok :: "cstr \<Rightarrow> bool" where
  "name_ok n \<longleftrightarrow> n \<noteq> [] \<and> list_all isElement n"

definition value_ok :: "cstr \<Rightarrow> bool" where
  "value_ok v \<longleftrightarrow> DQ \<notin> set v \<and> CHR ''>'' \<notin> set v \<and> NUL \<notin> set v"

text \<open>Tags have to fit into the buffer of the parser, and attributes into its array.\<close>

fun node_ok :: "nat \<Rightarrow> xnode \<Rightarrow> bool" where
  "node_ok sz (Text s) = (NUL \<notin> set s)"
| "node_ok sz (Elem n as ns) =
     (name_ok n \<and> list_all (\<lambda>(n, v). name_ok n \<and> value_ok v) as \<and> length as \<le> 63 \<and>
      length (open_tag n as) < sz \<and> length n + 1 < sz \<and> list_all (node_ok sz) ns)"

definition view :: "xml \<Rightarrow> (char + xml_event) list" where
  "view x = flat (events x) @ map Inl (take (bufpos x) (buffer x))"

definition ready :: "nat \<Rightarrow> xml \<Rightarrow> bool" where
  "ready sz x \<longleftrightarrow> state x = NONE \<and> 0 < ecount x \<and> bufpos x < sz \<and> bufsize x = sz \<and> length (buffer x) = sz"

lemma flat_simps [simp]: "flat [] = []" "flat (es @ fs) = flat es @ flat fs" "flat (e # es) = flat_event e @ flat es"
  by (simp_all add: flat_def)

lemma isElement_not:
  assumes "isElement c"
  shows "c \<noteq> NUL" "c \<noteq> CHR ''/''" "c \<noteq> CHR ''!''" "c \<noteq> CHR ''?''" "c \<noteq> CHR ''>''" "c \<noteq> CHR ''[''" "c \<noteq> CHR ''=''"
    "c \<noteq> CHR '' ''" "c \<noteq> DQ" "c \<noteq> SQ" "\<not> isspace c" "c \<noteq> CHR '';''"
proof -
  have n: "\<not> isElement NUL" "\<not> isElement (CHR ''/'')" "\<not> isElement (CHR ''!'')" "\<not> isElement (CHR ''?'')" "\<not> isElement (CHR ''>'')"
    "\<not> isElement (CHR ''['')" "\<not> isElement (CHR ''='')" "\<not> isElement (CHR '' '')" "\<not> isElement DQ" "\<not> isElement SQ"
    "\<not> isElement (CHR '';'')"
    by (simp_all add: isElement_def isalnum_def digit_of_def)
  then show "c \<noteq> NUL" "c \<noteq> CHR ''/''" "c \<noteq> CHR ''!''" "c \<noteq> CHR ''?''" "c \<noteq> CHR ''>''" "c \<noteq> CHR ''[''" "c \<noteq> CHR ''=''"
    "c \<noteq> CHR '' ''" "c \<noteq> DQ" "c \<noteq> SQ" "c \<noteq> CHR '';''" using assms by metis+
  show "\<not> isspace c" using assms
    by (auto simp: isElement_def isspace_def isalnum_def digit_of_def Let_def split: if_splits)
qed

text \<open>Text is collected, and reported when the buffer is full.\<close>

lemma putBuffer_ready:
  assumes "ready sz x"
  obtains y where "putBuffer c x = Some y" "ready sz y" "view y = view x @ [Inl c]" "ecount y = ecount x"
proof -
  let ?b = "(buffer x)[bufpos x := c]"
  have x: "bufpos x < length (buffer x)" "length (buffer x) = sz" "bufsize x = sz" "ecount x \<noteq> 0"
    using assms by (auto simp: ready_def)
  have t: "take (Suc (bufpos x)) ?b = take (bufpos x) (buffer x) @ [c]"
    using x(1) by (simp add: take_Suc_conv_app_nth)
  show thesis
  proof (cases "bufpos x + 1 \<ge> sz")
    case True
    then show thesis
      using x t assms that [of "x\<lparr>buffer := ?b, bufpos := 0, events := events x @ [Characters (take (Suc (bufpos x)) ?b)]\<rparr>"]
      by (simp add: putBuffer_def store_def Let_def report_def ready_def view_def)
  next
    case False
    then show thesis
      using x t assms that [of "x\<lparr>buffer := ?b, bufpos := bufpos x + 1\<rparr>"]
      by (simp add: putBuffer_def store_def Let_def ready_def view_def)
  qed
qed

lemma clearBuffer_view: "ecount x \<noteq> 0 \<Longrightarrow> flat (events (clearBuffer x)) = view x"
  by (simp add: clearBuffer_def view_def report_def)

lemma clearBuffer_fields [simp]:
  "bufpos (clearBuffer x) = 0" "buffer (clearBuffer x) = buffer x" "bufsize (clearBuffer x) = bufsize x"
  "ecount (clearBuffer x) = ecount x" "state (clearBuffer x) = state x"
  by (simp_all add: clearBuffer_def report_def)


lemma loop_plain:
  assumes "ready sz x" "c \<noteq> CHR ''<''" "c \<noteq> CHR ''&''"
  obtains y where "xml_loop (c # cs) x = xml_loop cs y" "ready sz y" "view y = view x @ [Inl c]" "ecount y = ecount x"
proof -
  obtain y where y: "putBuffer c x = Some y" "ready sz y" "view y = view x @ [Inl c]" "ecount y = ecount x"
    using putBuffer_ready [OF assms(1)] .
  then show thesis using that [of y] assms by (simp add: ready_def xml_step_def step_none_def)
qed

text \<open>The name of an entity is collected in the buffer.\<close>

lemma loop_amp_name:
  assumes "state x = AMP" "list_all isElement s" "bufpos x + length s \<le> length (buffer x)"
  shows "xml_loop (s @ cs) x = xml_loop cs (x\<lparr>buffer := take (bufpos x) (buffer x) @ s @ drop (bufpos x + length s) (buffer x),
    bufpos := bufpos x + length s\<rparr>)"
  using assms
proof (induction s arbitrary: x)
  case (Cons c s)
  let ?y = "x\<lparr>buffer := (buffer x)[bufpos x := c], bufpos := bufpos x + 1\<rparr>"
  have "xml_loop ((c # s) @ cs) x = xml_loop (s @ cs) ?y"
    using Cons.prems by (simp add: xml_step_def step_amp_def store_def)
  also have "\<dots> = xml_loop cs (?y\<lparr>buffer := take (bufpos ?y) (buffer ?y) @ s @ drop (bufpos ?y + length s) (buffer ?y),
      bufpos := bufpos ?y + length s\<rparr>)"
    using Cons.prems by (intro Cons.IH) auto
  also have "take (bufpos ?y) (buffer ?y) = take (bufpos x) (buffer x) @ [c]"
    using Cons.prems by (simp add: take_Suc_conv_app_nth)
  finally show ?case using Cons.prems by simp
qed simp

lemma string_at_mid: "NUL \<notin> set s \<Longrightarrow> string_at (pre @ s @ NUL # post) (length pre) = Some s"
  by (auto simp: string_at_def takeWhile_tail)

lemma string_at_begin: "NUL \<notin> set s \<Longrightarrow> string_at (s @ NUL # post) 0 = Some s"
  using string_at_mid [of s "[]"] by simp

lemma isElement_no_nul: "list_all isElement s \<Longrightarrow> NUL \<notin> set s"
  using isElement_not(1) by (auto simp: list_all_iff)

lemma loop_entity:
  assumes "ready sz x" "list_all isElement s" "length s < sz" "entity s = Some c" 
  obtains y where "xml_loop (CHR ''&'' # s @ CHR '';'' # cs) x = xml_loop cs y" "ready sz y" "view y = view x @ [Inl c]"
    "ecount y = ecount x"
proof -
  define a where "a = (clearBuffer x)\<lparr>state := AMP\<rparr>"
  define b where "b = a\<lparr>buffer := s @ drop (length s) (buffer x), bufpos := length s\<rparr>"
  have x: "ecount x \<noteq> 0" "length (buffer x) = sz" "state x = NONE" "bufsize x = sz" using assms(1) by (auto simp: ready_def)
  have a: "buffer a = buffer x" "bufpos a = 0" "state a = AMP" "ecount a = ecount x" by (simp_all add: a_def)
  have d: "drop (length s) (buffer x) = buffer x ! length s # drop (Suc (length s)) (buffer x)"
    using x assms(3) by (simp add: Cons_nth_drop_Suc)
  have "xml_loop (CHR ''&'' # s @ CHR '';'' # cs) x = xml_loop (s @ CHR '';'' # cs) a"
    using x by (simp add: xml_step_def step_none_def a_def)
  also have "\<dots> = xml_loop (CHR '';'' # cs) b"
    using loop_amp_name [of a s "CHR '';'' # cs"] a x assms by (simp add: b_def)
  also have "\<dots> = xml_loop cs (report (Characters [c]) (b\<lparr>buffer := s @ NUL # drop (Suc (length s)) (buffer x), bufpos := 0, state := NONE\<rparr>))"
  proof -
    have "\<not> isElement (CHR '';'')" using isElement_not(12) by blast
    moreover have "(s @ drop (length s) (buffer x))[length s := NUL] = s @ NUL # drop (Suc (length s)) (buffer x)"
      by (simp add: d)
    ultimately show ?thesis
      using x a d assms(3,4) string_at_begin [OF isElement_no_nul [OF assms(2)]]
      by (simp add: xml_step_def step_amp_def b_def store_def report_def)
  qed
  finally have loop: "xml_loop (CHR ''&'' # s @ CHR '';'' # cs) x = xml_loop cs (report (Characters [c])
      (b\<lparr>buffer := s @ NUL # drop (Suc (length s)) (buffer x), bufpos := 0, state := NONE\<rparr>))" .
  show thesis
    by (rule that [OF loop]) (use x clearBuffer_view [OF x(1)] assms(1,3) d in \<open>auto simp: ready_def view_def b_def a_def report_def\<close>)
qed

lemma loop_escape:
  assumes "ready sz x" "4 \<le> sz"
  obtains y where "xml_loop (escape c @ cs) x = xml_loop cs y" "ready sz y" "view y = view x @ [Inl c]" "ecount y = ecount x"
proof -
  have el: "list_all isElement ''amp''" "list_all isElement ''lt''" "list_all isElement ''gt''"
    by (simp_all add: isElement_def isalnum_def digit_of_def)
  have en: "entity ''amp'' = Some (CHR ''&'')" "entity ''lt'' = Some (CHR ''<'')" "entity ''gt'' = Some (CHR ''>'')"
    by (simp_all add: entity_def)
  consider "c = CHR ''&''" | "c = CHR ''<''" | "c = CHR ''>''" | "c \<notin> {CHR ''&'', CHR ''<'', CHR ''>''}" by blast
  then show thesis
  proof cases
    case 1
    then show thesis using loop_entity [OF assms(1) el(1) _ en(1), where cs = cs and thesis = thesis] that assms(2) by (simp add: escape_def)
  next
    case 2
    then show thesis using loop_entity [OF assms(1) el(2) _ en(2), where cs = cs and thesis = thesis] that assms(2) by (simp add: escape_def)
  next
    case 3
    then show thesis using loop_entity [OF assms(1) el(3) _ en(3), where cs = cs and thesis = thesis] that assms(2) by (simp add: escape_def)
  next
    case 4
    then show thesis using loop_plain [OF assms(1), where c = c and cs = cs and thesis = thesis] that by (simp add: escape_def)
  qed
qed

lemma loop_text:
  assumes "ready sz x" "4 \<le> sz"
  shows "\<exists>y. xml_loop (concat (map escape s) @ cs) x = xml_loop cs y \<and> ready sz y \<and> view y = view x @ map Inl s \<and> ecount y = ecount x"
  using assms
proof (induction s arbitrary: x)
  case (Cons c s)
  obtain y where y: "xml_loop (escape c @ concat (map escape s) @ cs) x = xml_loop (concat (map escape s) @ cs) y" "ready sz y"
    "view y = view x @ [Inl c]" "ecount y = ecount x"
    using loop_escape [OF Cons.prems] .
  then show ?case using Cons.IH [of y] Cons.prems(2) by fastforce
qed auto


lemma hd_of_take: "take k xs = c # s \<Longrightarrow> hd xs = c"
  by (cases xs; cases k) auto

lemma has_prefix_first: "buf \<noteq> [] \<Longrightarrow> hd buf \<noteq> c \<Longrightarrow> has_prefix (c # s) buf = Some False"
  by (cases buf) (auto simp: has_prefix_def)

text \<open>The text of a tag is collected in the buffer.\<close>

lemma loop_tag_text:
  assumes "state x = TAG" "CHR ''>'' \<notin> set s" "bufpos x + length s < bufsize x" "length (buffer x) = bufsize x"
    and "hd (take (bufpos x) (buffer x) @ s) \<notin> {CHR ''!'', CHR ''[''}"
  shows "xml_loop (s @ cs) x = xml_loop cs (x\<lparr>buffer := take (bufpos x) (buffer x) @ s @ drop (bufpos x + length s) (buffer x),
    bufpos := bufpos x + length s\<rparr>)"
  using assms
proof (induction s arbitrary: x)
  case (Cons c s)
  let ?y = "x\<lparr>buffer := (buffer x)[bufpos x := c], bufpos := bufpos x + 1\<rparr>"
  have first: "hd (buffer x) \<noteq> CHR ''!''" "hd (buffer x) \<noteq> CHR ''[''" if "bufpos x \<noteq> 0"
    using Cons.prems(3-5) that by (cases "buffer x"; cases "bufpos x"; simp)+
  have put: "putBuffer c x = Some ?y" using Cons.prems by (simp add: putBuffer_def store_def)
  have "step_tag c x = map_option (Pair True) (putBuffer c x)"
  proof -
    have "c \<noteq> CHR ''['' \<or> bufpos x \<noteq> 0" using Cons.prems(5) by (cases "bufpos x") auto
    moreover have "take 7 (buffer x) \<noteq> ''![CDATA''" "take 2 (buffer x) \<noteq> ''!-''" "has_prefix ''!DOCTYPE '' (buffer x) = Some False"
      if "bufpos x \<noteq> 0"
      using first(1) [OF that] Cons.prems(3,4) hd_of_take [of 7 "buffer x"] hd_of_take [of 2 "buffer x"]
        has_prefix_first [of "buffer x" "CHR ''!''" "''DOCTYPE ''"] by force+
    ultimately show ?thesis using Cons.prems(2) by (auto simp: step_tag_def)
  qed
  then have "xml_loop ((c # s) @ cs) x = xml_loop (s @ cs) ?y"
    using Cons.prems(1) by (simp add: xml_step_def put)
  also have "\<dots> = xml_loop cs (?y\<lparr>buffer := take (bufpos ?y) (buffer ?y) @ s @ drop (bufpos ?y + length s) (buffer ?y),
      bufpos := bufpos ?y + length s\<rparr>)"
  proof (rule Cons.IH)
    have "take (bufpos ?y) (buffer ?y) = take (bufpos x) (buffer x) @ [c]"
      using Cons.prems by (simp add: take_Suc_conv_app_nth)
    then show "hd (take (bufpos ?y) (buffer ?y) @ s) \<notin> {CHR ''!'', CHR ''[''}" using Cons.prems(5) by simp
  qed (use Cons.prems in auto)
  also have "take (bufpos ?y) (buffer ?y) = take (bufpos x) (buffer x) @ [c]"
    using Cons.prems by (simp add: take_Suc_conv_app_nth)
  finally show ?case using Cons.prems by simp
qed simp

lemma loop_tag:
  assumes "state x = NONE" "bufsize x = sz" "length (buffer x) = sz"
    and "s \<noteq> []" "hd s \<notin> {CHR ''!'', CHR ''[''}" "CHR ''>'' \<notin> set s" "length s < sz"
  shows "xml_loop (CHR ''<'' # s @ CHR ''>'' # cs) x =
    Option.bind (parseTag ((clearBuffer x)\<lparr>buffer := s @ drop (length s) (buffer x), bufpos := length s, state := NONE\<rparr>))
      (\<lambda>(ok, x). if \<not> ok then Some (False, x) else if state x = END then Some (True, x) else xml_loop cs x)"
proof -
  let ?y = "(clearBuffer x)\<lparr>state := TAG\<rparr>"
  have "xml_loop (CHR ''<'' # s @ CHR ''>'' # cs) x = xml_loop (s @ CHR ''>'' # cs) ?y"
    using assms by (simp add: xml_step_def step_none_def)
  then show ?thesis using loop_tag_text [of ?y s "CHR ''>'' # cs"] assms by (simp add: xml_step_def step_tag_def)
qed

lemma takeWhile_elements: "list_all isElement n \<Longrightarrow> takeWhile isElement n = n"
  by (simp add: takeWhile_eq_all_conv list_all_iff)

lemma element_end_mid:
  assumes "list_all isElement n" "\<not> isElement c" "length pre + length n < pos"
  shows "element_end (pre @ n @ c # post) pos (length pre) = length pre + length n"
proof -
  have "drop (length pre) (take pos (pre @ n @ c # post)) = n @ c # take (pos - length pre - length n - 1) post"
    using assms(3) by (simp add: take_Cons')
  then show ?thesis using assms by (simp add: element_end.simps list_all_iff takeWhile_tail)
qed

lemma element_end_name: "list_all isElement n \<Longrightarrow> element_end (n @ post) (length n) 0 = length n"
  by (simp add: element_end.simps takeWhile_elements)

text \<open>An opening tag without attributes.\<close>

lemma list_all_last: "list_all P xs \<Longrightarrow> xs \<noteq> [] \<Longrightarrow> P (xs ! (length xs - 1))"
  by (simp add: list_all_length)

lemma parseTag_plain:
  assumes "buffer x = n @ d # post" "bufpos x = length n" "name_ok n"
  shows "parseTag x = Some (True, report (StartElement n []) ((starting x)\<lparr>buffer := n @ NUL # post, bufpos := 0\<rparr>))"
proof -
  have n: "n \<noteq> []" "list_all isElement n" using assms(3) by (auto simp: name_ok_def)
  then have "isElement (hd n)" "isElement (n ! (length n - 1))"
    using list_all_last [of isElement n] by (auto simp: list_all_iff)
  note first = isElement_not [OF this(1)] and last = isElement_not [OF this(2)]
  have "store (length n) NUL (starting x) = Some ((starting x)\<lparr>buffer := n @ NUL # post\<rparr>)"
    using assms(1) by (simp add: store_def starting_def report_def)
  then have "parse_open x = Some (True, report (StartElement n []) ((starting x)\<lparr>buffer := n @ NUL # post, bufpos := 0\<rparr>))"
    using n last assms(1,2) string_at_begin [OF isElement_no_nul [OF n(2)]] element_end_name [OF n(2)]
    by (simp add: parse_open_def Let_def nth_append element_found_def report_def)
  then show ?thesis using n first assms(1) \<open>isElement (hd n)\<close> by (simp add: parseTag_def Let_def)
qed

text \<open>A closing tag.\<close>

lemma parseTag_close:
  assumes "buffer x = CHR ''/'' # n @ d # post" "bufpos x = length n + 1" "name_ok n" "0 < ecount x"
  shows "parseTag x = Some (True, ending (report (EndElement n)
    (x\<lparr>buffer := CHR ''/'' # n @ NUL # post, bufpos := 0, ecount := ecount x - 1\<rparr>)))"
proof -
  have n: "list_all isElement n" using assms(3) by (auto simp: name_ok_def)
  have "string_at (CHR ''/'' # n @ NUL # post) (Suc 0) = Some n"
    using string_at_mid [OF isElement_no_nul [OF n], of "[CHR ''/'']"] by simp
  then show ?thesis using assms n by (simp add: parseTag_def Let_def parse_close_def store_def report_def)
qed


text \<open>Attributes: the blank, the equals sign and the closing quote are overwritten.\<close>

fun attr_cut :: "cstr \<times> cstr \<Rightarrow> cstr" where
  "attr_cut (n, v) = NUL # n @ NUL # DQ # v @ [NUL]"

fun attr_ptrs :: "nat \<Rightarrow> (cstr \<times> cstr) list \<Rightarrow> attr_ptr list" where
  "attr_ptrs len [] = []"
| "attr_ptrs len ((n, v) # as) = Some (len + 1) # Some (len + length n + 3) # attr_ptrs (len + length (attr_source (n, v))) as"

lemma skip_blanks_one:
  assumes "n \<noteq> []" "list_all isElement n" "length pre < pos"
  shows "skip_blanks (pre @ CHR '' '' # n @ post) pos (length pre) = Some (True, pre @ NUL # n @ post, length pre + 1)"
proof -
  obtain c n' where n: "n = c # n'" "isElement c" using assms(1,2) by (cases n) auto
  have "\<not> isElement (CHR '' '')" "isspace (CHR '' '')" using isElement_not(8) by (auto simp: isspace_def)
  then show ?thesis
    using n assms(3)
    by (subst skip_blanks.simps, subst skip_blanks.simps) (simp add: nth_append)
qed

lemma find_char_mid:
  assumes "c \<notin> set v" "NUL \<notin> set v"
  shows "find_char (pre @ v @ c # post) c (length pre) = Some (Some (length pre + length v))"
  using assms
proof (induction v arbitrary: pre)
  case Nil
  show ?case by (subst find_char.simps) (simp add: nth_append)
next
  case (Cons d v)
  then show ?case using Cons.IH [of "pre @ [d]"] by (subst find_char.simps) (auto simp: nth_append)
qed

lemma attr_step_one:
  assumes "name_ok n" "value_ok v" "length (pre @ attr_source (n, v)) \<le> pos" "length attrs + 2 \<le> 128"
  shows "attr_step (pre @ attr_source (n, v) @ post) pos (length pre) attrs =
    Some (Continue (length (pre @ attr_source (n, v))), pre @ attr_cut (n, v) @ post, attrs @ attr_ptrs (length pre) [(n, v)])"
proof -
  have n: "n \<noteq> []" "list_all isElement n" and v: "DQ \<notin> set v" "NUL \<notin> set v"
    using assms by (auto simp: name_ok_def value_ok_def)
  have el: "\<not> isElement (CHR ''='')" "\<not> isspace DQ" using isElement_not(7) by (auto simp: isspace_def)
  let ?b = "pre @ NUL # n @ CHR ''='' # DQ # v @ DQ # post"
  let ?b' = "pre @ NUL # n @ NUL # DQ # v @ DQ # post"
  let ?l = "length pre + 1 + length n"
  have skip: "skip_blanks (pre @ attr_source (n, v) @ post) pos (length pre) = Some (True, ?b, length pre + 1)"
    using skip_blanks_one [OF n, of pre pos "CHR ''='' # DQ # v @ DQ # post"] assms(3) by simp
  have ee: "element_end ?b pos (length pre + 1) = ?l"
    using element_end_mid [OF n(2) el(1), of "pre @ [NUL]" pos "DQ # v @ DQ # post"] assms(3) by simp
  have nth: "?b ! ?l = CHR ''=''" "?b[?l := NUL] = ?b'" "?b' ! (?l + 1) = DQ"
    by (simp_all add: nth_append list_update_append)
  have f: "find_char ?b' DQ (?l + 2) = Some (Some (?l + 2 + length v))"
    using find_char_mid [OF v, of "pre @ NUL # n @ [NUL, DQ]" post] by simp
  have cut: "?b'[?l + 2 + length v := NUL] = pre @ attr_cut (n, v) @ post"
    by (simp add: list_update_append)
  have "attr_value ?b' pos (?l + 1) (attrs @ [Some (length pre + 1)]) =
      Some (Continue (?l + 3 + length v), pre @ attr_cut (n, v) @ post, attrs @ [Some (length pre + 1), Some (?l + 2)])"
    using f cut nth(3) el(2) assms(3,4) by (simp add: attr_value_def put_attr_def)
  then show ?thesis
    using skip ee nth(1,2) assms(3,4) by (simp add: attr_step_def put_attr_def Let_def)
qed

lemma attr_loop_all:
  assumes "list_all (\<lambda>(n, v). name_ok n \<and> value_ok v) as" "length attrs + 2 * length as \<le> 126"
    and "pos = length (pre @ concat (map attr_source as))" "post \<noteq> []"
  shows "attr_loop (pre @ concat (map attr_source as) @ post) pos (length pre) attrs =
    Some (True, pre @ concat (map attr_cut as) @ post, attrs @ attr_ptrs (length pre) as)"
  using assms
proof (induction as arbitrary: pre attrs)
  case Nil
  have "skip_blanks (pre @ post) (length pre) (length pre) = Some (True, pre @ post, length pre)"
    using Nil(4) by (subst skip_blanks.simps) (simp add: neq_Nil_conv)
  then show ?case using Nil by (subst attr_loop.simps) (simp add: attr_step_def)
next
  case (Cons a as)
  obtain n v where a: "a = (n, v)" by (cases a)
  let ?pre = "pre @ attr_cut (n, v)"
  have "attr_step (pre @ attr_source (n, v) @ concat (map attr_source as) @ post) pos (length pre) attrs =
      Some (Continue (length ?pre), ?pre @ concat (map attr_source as) @ post, attrs @ attr_ptrs (length pre) [(n, v)])"
    using attr_step_one [of n v pre pos attrs "concat (map attr_source as) @ post"] Cons.prems a by simp
  moreover have "attr_loop (?pre @ concat (map attr_source as) @ post) pos (length ?pre) (attrs @ attr_ptrs (length pre) [(n, v)]) =
      Some (True, ?pre @ concat (map attr_cut as) @ post, (attrs @ attr_ptrs (length pre) [(n, v)]) @ attr_ptrs (length ?pre) as)"
    by (rule Cons.IH) (use Cons.prems a in auto)
  ultimately show ?case using a by (subst attr_loop.simps) simp
qed


lemma attr_ptrs_length: "length (attr_ptrs len as) = 2 * length as"
  by (induction len as rule: attr_ptrs.induct) auto

lemma attr_texts_all:
  assumes "list_all (\<lambda>(n, v). name_ok n \<and> value_ok v) as"
  shows "attr_texts (pre @ concat (map attr_cut as) @ post) (attr_ptrs (length pre) as) = Some (concat (map (\<lambda>(n, v). [n, v]) as))"
  using assms
proof (induction as arbitrary: pre)
  case (Cons a as)
  obtain n v where a: "a = (n, v)" by (cases a)
  let ?post = "concat (map attr_cut as) @ post"
  have ok: "NUL \<notin> set n" "NUL \<notin> set v"
    using Cons.prems a isElement_no_nul by (auto simp: name_ok_def value_ok_def)
  have "string_at (pre @ NUL # n @ NUL # DQ # v @ NUL # ?post) (length pre + 1) = Some n"
    using string_at_mid [OF ok(1), of "pre @ [NUL]" "DQ # v @ NUL # ?post"] by simp
  moreover have "string_at (pre @ NUL # n @ NUL # DQ # v @ NUL # ?post) (length pre + length n + 3) = Some v"
    using string_at_mid [OF ok(2), of "pre @ NUL # n @ [NUL, DQ]" ?post] by (simp add: numeral_3_eq_3)
  moreover have "attr_texts ((pre @ attr_cut (n, v)) @ ?post) (attr_ptrs (length (pre @ attr_cut (n, v))) as) =
      Some (concat (map (\<lambda>(n, v). [n, v]) as))"
    using Cons.IH [of "pre @ attr_cut (n, v)"] Cons.prems by simp
  ultimately show ?case using a by (simp add: attr_text_def)
qed simp

lemma attr_source_no_gt: "list_all (\<lambda>(n, v). name_ok n \<and> value_ok v) as \<Longrightarrow> CHR ''>'' \<notin> set (concat (map attr_source as))"
  using isElement_not(5) by (fastforce simp: list_all_iff name_ok_def value_ok_def)

text \<open>An opening tag.\<close>

lemma parseTag_open:
  assumes "buffer x = open_tag n as @ post" "bufpos x = length (open_tag n as)" "post \<noteq> []" "name_ok n"
    and "list_all (\<lambda>(n, v). name_ok n \<and> value_ok v) as" "length as \<le> 63"
  obtains buf where "parseTag x = Some (True, report (StartElement n (concat (map (\<lambda>(n, v). [n, v]) as)))
      ((starting x)\<lparr>buffer := buf, bufpos := 0\<rparr>))" "length buf = length (buffer x)"
proof (cases "as = []")
  case True
  obtain d p where "post = d # p" using assms(3) by (cases post) auto
  then show thesis using parseTag_plain [of x n d p] that [of "n @ NUL # p"] assms True by (simp add: open_tag_def)
next
  case False
  let ?a = "concat (map attr_source as)" and ?b = "n @ concat (map attr_cut as) @ post"
  have n: "n \<noteq> []" "list_all isElement n" using assms(4) by (auto simp: name_ok_def)
  then have "isElement (hd n)" by (auto simp: list_all_iff)
  note first = isElement_not [OF this]
  obtain m v r where as: "as = (m, v) # r" using False by (cases as) auto
  obtain ys m' v' where snoc: "as = ys @ [(m', v')]" using False by (metis old.prod.exhaust rev_exhaust)
  have last: "(n @ ?a @ post) ! (length n + length ?a - 1) \<noteq> CHR ''/''"
    by (simp add: snoc nth_append)
  have "element_end (n @ ?a @ post) (length n + length ?a) 0 = length n"
    using element_end_mid [OF n(2), of "CHR '' ''" "[]" "length n + length ?a"] isElement_not(8) by (auto simp: as)
  moreover have "attr_loop (n @ ?a @ post) (length n + length ?a) (length n) [] = Some (True, ?b, attr_ptrs (length n) as)"
    using attr_loop_all [OF assms(5), of "[]" _ n post] assms(3,6) by simp
  moreover have "string_at ?b 0 = Some n"
    using string_at_begin [OF isElement_no_nul [OF n(2)]] by (simp add: as)
  moreover have "attr_texts ?b (attr_ptrs (length n) as) = Some (concat (map (\<lambda>(n, v). [n, v]) as))"
    using attr_texts_all [OF assms(5)] .
  moreover have "\<not> (\<forall>a \<in> set as. attr_source a = [])" by (simp add: as)
  ultimately have "parse_open x = Some (True, report (StartElement n (concat (map (\<lambda>(n, v). [n, v]) as)))
      ((starting x)\<lparr>buffer := ?b, bufpos := 0\<rparr>))"
    using n last assms(1,2,6)
    by (auto simp: parse_open_def Let_def open_tag_def element_found_def report_def attr_ptrs_length starting_def)
  then have "parseTag x = Some (True, report (StartElement n (concat (map (\<lambda>(n, v). [n, v]) as)))
      ((starting x)\<lparr>buffer := ?b, bufpos := 0\<rparr>))"
    using n first assms(1) \<open>isElement (hd n)\<close> by (simp add: parseTag_def Let_def open_tag_def)
  moreover have "length (concat (map attr_cut as)) = length ?a" by (induction as) auto
  ultimately show thesis using that [of ?b] assms(1) by (simp add: open_tag_def)
qed


lemma open_tag_ok:
  assumes "name_ok n" "list_all (\<lambda>(n, v). name_ok n \<and> value_ok v) as"
  shows "open_tag n as \<noteq> []" "hd (open_tag n as) \<notin> {CHR ''!'', CHR ''[''}" "CHR ''>'' \<notin> set (open_tag n as)"
proof -
  have n: "isElement (hd n)" "n \<noteq> []" "list_all isElement n" using assms(1) by (auto simp: name_ok_def list_all_iff)
  show "open_tag n as \<noteq> []" using n(2) by (simp add: open_tag_def)
  show "hd (open_tag n as) \<notin> {CHR ''!'', CHR ''[''}" using n(2) isElement_not(3,6) [OF n(1)] by (simp add: open_tag_def)
  have "CHR ''>'' \<notin> set n" using n(3) isElement_not(5) unfolding list_all_iff by blast
  then show "CHR ''>'' \<notin> set (open_tag n as)" using attr_source_no_gt [OF assms(2)] unfolding open_tag_def set_append by blast
qed

text \<open>An opening tag in a document, or the first one.\<close>

lemma loop_open:
  assumes "state x = NONE" "bufsize x = sz" "length (buffer x) = sz" "0 \<le> ecount x"
    and "name_ok n" "list_all (\<lambda>(n, v). name_ok n \<and> value_ok v) as" "length as \<le> 63" "length (open_tag n as) < sz"
  obtains y where "xml_loop (CHR ''<'' # open_tag n as @ CHR ''>'' # cs) x = xml_loop cs y" "ready sz y" "ecount y = ecount x + 1"
    "view y = flat (events (clearBuffer x)) @ (if ecount x = 0 then [Inr StartDocument] else []) @
      [Inr (StartElement n (concat (map (\<lambda>(n, v). [n, v]) as)))]"
proof -
  let ?t = "open_tag n as"
  let ?x = "(clearBuffer x)\<lparr>buffer := ?t @ drop (length ?t) (buffer x), bufpos := length ?t, state := NONE\<rparr>"
  obtain buf where p: "parseTag ?x = Some (True, report (StartElement n (concat (map (\<lambda>(n, v). [n, v]) as)))
      ((starting ?x)\<lparr>buffer := buf, bufpos := 0\<rparr>))" "length buf = length (buffer ?x)"
    using parseTag_open [of ?x n as "drop (length ?t) (buffer x)"] assms by auto
  let ?y = "report (StartElement n (concat (map (\<lambda>(n, v). [n, v]) as))) ((starting ?x)\<lparr>buffer := buf, bufpos := 0\<rparr>)"
  have "xml_loop (CHR ''<'' # ?t @ CHR ''>'' # cs) x = xml_loop cs ?y"
    using loop_tag [OF assms(1-3) open_tag_ok [OF assms(5,6)] assms(8)] p(1) by (simp add: report_def starting_def)
  moreover have "ready sz ?y"
    using assms p(2) by (auto simp: ready_def report_def starting_def)
  moreover have "view ?y = flat (events (clearBuffer x)) @ (if ecount x = 0 then [Inr StartDocument] else []) @
      [Inr (StartElement n (concat (map (\<lambda>(n, v). [n, v]) as)))]"
    by (simp add: view_def report_def starting_def)
  ultimately show thesis using that by (simp add: report_def starting_def)
qed

text \<open>A closing tag.\<close>

lemma loop_close:
  assumes "ready sz x" "name_ok n" "length n + 1 < sz"
  obtains y where
    "xml_loop (''</'' @ n @ CHR ''>'' # cs) x = (if ecount x = 1 then Some (True, y) else xml_loop cs y)"
    "ecount y = ecount x - 1" "1 < ecount x \<Longrightarrow> ready sz y"
    "view y = view x @ [Inr (EndElement n)] @ (if ecount x = 1 then [Inr EndDocument] else [])" "bufpos y = 0"
proof -
  let ?t = "CHR ''/'' # n"
  let ?x = "(clearBuffer x)\<lparr>buffer := ?t @ drop (length ?t) (buffer x), bufpos := length ?t, state := NONE\<rparr>"
  have x: "state x = NONE" "0 < ecount x" "bufsize x = sz" "length (buffer x) = sz" using assms(1) by (auto simp: ready_def)
  have d: "drop (length ?t) (buffer x) = buffer x ! length ?t # drop (Suc (length ?t)) (buffer x)"
    using x assms(3) by (simp add: Cons_nth_drop_Suc)
  let ?y = "ending (report (EndElement n) (?x\<lparr>buffer := ?t @ NUL # drop (Suc (length ?t)) (buffer x), bufpos := 0, ecount := ecount x - 1\<rparr>))"
  have p: "parseTag ?x = Some (True, ?y)"
    using parseTag_close [of ?x n "buffer x ! length ?t" "drop (Suc (length ?t)) (buffer x)"] assms(2) x(2) d by simp
  have "CHR ''>'' \<notin> set n" using assms(2) isElement_not(5) by (auto simp: name_ok_def list_all_iff)
  then have "xml_loop (''</'' @ n @ CHR ''>'' # cs) x = (if ecount x = 1 then Some (True, ?y) else xml_loop cs ?y)"
    using loop_tag [of x sz ?t cs] x assms(3) p by (simp add: ending_def report_def)
  moreover have "1 < ecount x \<Longrightarrow> ready sz ?y" using x assms(3) by (auto simp: ready_def ending_def report_def)
  moreover have "view ?y = view x @ [Inr (EndElement n)] @ (if ecount x = 1 then [Inr EndDocument] else [])"
    using clearBuffer_view [of x] x(2) by (simp add: view_def ending_def report_def)
  ultimately show thesis using that [of ?y] by (simp add: ending_def report_def)
qed


lemma loop_nodes:
  assumes "\<And>m x cs. m \<in> set ns \<Longrightarrow> ready sz x \<Longrightarrow>
      \<exists>y. xml_loop (source m @ cs) x = xml_loop cs y \<and> ready sz y \<and> view y = view x @ meaning m \<and> ecount y = ecount x"
    and "ready sz x"
  shows "\<exists>y. xml_loop (concat (map source ns) @ cs) x = xml_loop cs y \<and> ready sz y \<and> view y = view x @ concat (map meaning ns) \<and>
    ecount y = ecount x"
  using assms
proof (induction ns arbitrary: x)
  case (Cons m ns)
  obtain y where y: "xml_loop (source m @ concat (map source ns) @ cs) x = xml_loop (concat (map source ns) @ cs) y" "ready sz y"
    "view y = view x @ meaning m" "ecount y = ecount x"
    using Cons.prems by (meson list.set_intros(1))
  moreover obtain z where "xml_loop (concat (map source ns) @ cs) y = xml_loop cs z" "ready sz z"
    "view z = view y @ concat (map meaning ns)" "ecount z = ecount y"
    using Cons.IH [OF _ y(2)] Cons.prems(1) by (meson list.set_intros(2))
  ultimately show ?case by (intro exI [of _ z]) simp
qed auto

lemma loop_node:
  "node_ok sz m \<Longrightarrow> 4 \<le> sz \<Longrightarrow> ready sz x \<Longrightarrow>
     \<exists>y. xml_loop (source m @ cs) x = xml_loop cs y \<and> ready sz y \<and> view y = view x @ meaning m \<and> ecount y = ecount x"
proof (induction m arbitrary: x cs)
  case (Text s)
  then show ?case using loop_text by simp
next
  case (Elem n as ns)
  let ?cs = "concat (map source ns) @ ''</'' @ n @ CHR ''>'' # cs"
  have x: "state x = NONE" "bufsize x = sz" "length (buffer x) = sz" "0 < ecount x" using Elem.prems(3) by (auto simp: ready_def)
  have el: "name_ok n" "list_all (\<lambda>(n, v). name_ok n \<and> value_ok v) as" "length as \<le> 63" "length (open_tag n as) < sz"
    "length n + 1 < sz" "list_all (node_ok sz) ns"
    using Elem.prems(1) by auto
  obtain y where y: "xml_loop (CHR ''<'' # open_tag n as @ CHR ''>'' # ?cs) x = xml_loop ?cs y" "ready sz y" "ecount y = ecount x + 1"
    "view y = flat (events (clearBuffer x)) @ (if ecount x = 0 then [Inr StartDocument] else []) @
      [Inr (StartElement n (concat (map (\<lambda>(n, v). [n, v]) as)))]"
    using loop_open [OF x(1-3) less_imp_le [OF x(4)] el(1-4)] .
  obtain z where z: "xml_loop ?cs y = xml_loop (''</'' @ n @ CHR ''>'' # cs) z" "ready sz z"
    "view z = view y @ concat (map meaning ns)" "ecount z = ecount y"
    using loop_nodes [of ns sz y "''</'' @ n @ CHR ''>'' # cs"] Elem.IH Elem.prems(1,2) y(2) by (auto simp: list_all_iff)
  obtain w where w: "xml_loop (''</'' @ n @ CHR ''>'' # cs) z = (if ecount z = 1 then Some (True, w) else xml_loop cs w)"
    "ecount w = ecount z - 1" "1 < ecount z \<Longrightarrow> ready sz w"
    "view w = view z @ [Inr (EndElement n)] @ (if ecount z = 1 then [Inr EndDocument] else [])"
    by (rule loop_close [OF z(2) el(1,5), where cs = cs]) blast
  have "ecount z = ecount x + 1" using y(3) z(4) by simp
  then show ?case
    using x(4) y z w clearBuffer_view [of x] by (intro exI [of _ w]) (simp add: split_def)
qed

text \<open>
  C21: A document of elements, escaped text and attributes in double quotes is read as it was written, when every name consists of
  element characters, attribute values hold neither \<open>>\<close> nor a double quote, no element has more than 63 attributes, the tags are
  shorter than the buffer, and nothing holds NUL (\<open>node_ok\<close>): \<open>parse\<close> succeeds and the callbacks see the begin of the document, every element with its name and attributes, all text with its escaped
  characters, every end tag, and the end of the document, in order. The text may come in several pieces, whatever
  the buffer held before.
\<close>

theorem XMLParser_parse_document:
  assumes "node_ok (length mem) (Elem n as ns)" "4 \<le> length mem"
  shows "\<exists>x. XMLParser_parse (source (Elem n as ns)) (XMLParser_new mem) = Some (True, x) \<and>
    flat (events x) = Inr StartDocument # meaning (Elem n as ns) @ [Inr EndDocument]"
proof -
  let ?x = "XMLParser_new mem" and ?sz = "length mem"
  let ?cs = "concat (map source ns) @ ''</'' @ n @ CHR ''>'' # []"
  have el: "name_ok n" "list_all (\<lambda>(n, v). name_ok n \<and> value_ok v) as" "length as \<le> 63" "length (open_tag n as) < ?sz"
    "length n + 1 < ?sz" "list_all (node_ok ?sz) ns"
    using assms(1) by auto
  obtain y where y: "xml_loop (CHR ''<'' # open_tag n as @ CHR ''>'' # ?cs) ?x = xml_loop ?cs y" "ready ?sz y" "ecount y = 1"
    "view y = [Inr StartDocument, Inr (StartElement n (concat (map (\<lambda>(n, v). [n, v]) as)))]"
    using loop_open [of ?x ?sz, OF _ _ _ _ el(1-4), where cs = ?cs] by (auto simp: XMLParser_new_def clearBuffer_def)
  obtain z where z: "xml_loop ?cs y = xml_loop (''</'' @ n @ CHR ''>'' # []) z" "ready ?sz z"
    "view z = view y @ concat (map meaning ns)" "ecount z = ecount y"
    using loop_nodes [of ns ?sz y "''</'' @ n @ CHR ''>'' # []"] loop_node assms y(2) by (auto simp: list_all_iff)
  obtain w where w: "xml_loop (''</'' @ n @ CHR ''>'' # []) z = (if ecount z = 1 then Some (True, w) else xml_loop [] w)"
    "view w = view z @ [Inr (EndElement n)] @ (if ecount z = 1 then [Inr EndDocument] else [])" "bufpos w = 0"
    by (rule loop_close [OF z(2) el(1,5), where cs = "[]"]) blast
  have "XMLParser_parse (source (Elem n as ns)) ?x = Some (True, w)"
    using y z w(1) by (simp add: XMLParser_parse_def XMLParser_new_def)
  moreover have "flat (events w) = Inr StartDocument # meaning (Elem n as ns) @ [Inr EndDocument]"
    using w(2,3) y z by (simp add: view_def split_def)
  ultimately show ?thesis by blast
qed


theorem XMLParser_parse_document_witness:
  "\<exists>x. XMLParser_parse ''<a k=\"v\">x&lt;y<b></b></a>'' (XMLParser_new (replicate 16 NUL)) = Some (True, x) \<and>
    flat (events x) = [Inr StartDocument, Inr (StartElement ''a'' [''k'', ''v'']), Inl (CHR ''x''), Inl (CHR ''<''), Inl (CHR ''y''),
      Inr (StartElement ''b'' []), Inr (EndElement ''b''), Inr (EndElement ''a''), Inr EndDocument]"
proof -
  have "node_ok (length (replicate 16 NUL)) (Elem ''a'' [(''k'', ''v'')] [Text ''x<y'', Elem ''b'' [] []])"
    by (simp add: name_ok_def value_ok_def open_tag_def isElement_def isalnum_def digit_of_def)
  from XMLParser_parse_document [OF this] show ?thesis by (simp add: open_tag_def escape_def)
qed

section \<open>Defects\<close>

text \<open>
  The name of an entity is stored without a check of the size of the buffer: in an element, an ampersand that is followed by more
  letters than the buffer has places makes the parser write behind it.
\<close>

theorem XMLParser_entity_overflow:
  assumes "name_ok n" "length n < length mem" "list_all isElement s" "length mem < length s"
  shows "XMLParser_parse (CHR ''<'' # n @ ''>&'' @ s) (XMLParser_new mem) = None"
proof -
  let ?x = "XMLParser_new mem" and ?sz = "length mem"
  obtain y where y: "xml_loop (CHR ''<'' # open_tag n [] @ CHR ''>'' # CHR ''&'' # s) ?x = xml_loop (CHR ''&'' # s) y" "ready ?sz y"
    using loop_open [of ?x ?sz, OF _ _ _ _ assms(1), of "[]", where cs = "CHR ''&'' # s"] assms(2)
    by (auto simp: XMLParser_new_def open_tag_def)
  define a where "a = (clearBuffer y)\<lparr>state := AMP\<rparr>"
  have "s = take ?sz s @ s ! ?sz # drop (Suc ?sz) s" using assms(4) by (simp add: id_take_nth_drop)
  then obtain t c r where s: "s = t @ c # r" "length t = ?sz" using assms(4) by (metis length_take min_absorb2 less_imp_le)
  then have el: "list_all isElement t" "isElement c" using assms(3) by simp_all
  define b where "b = a\<lparr>buffer := t, bufpos := ?sz\<rparr>"
  have "xml_loop (CHR ''&'' # s) y = xml_loop s a"
    using y(2) by (simp add: ready_def xml_step_def step_none_def a_def)
  also have "\<dots> = xml_loop (c # r) b"
    using loop_amp_name [of a t "c # r"] y(2) s el(1) by (simp add: ready_def a_def b_def)
  also have "\<dots> = None" using s(2) el(2) by (simp add: xml_step_def step_amp_def store_def b_def a_def)
  finally show ?thesis using y(1) by (simp add: XMLParser_parse_def XMLParser_new_def open_tag_def)
qed

theorem XMLParser_entity_overflow_witness:
  "XMLParser_parse (''<a>&'' @ replicate 9 (CHR ''x'')) (XMLParser_new (replicate 8 NUL)) = None"
proof -
  have "name_ok ''a''" "list_all isElement (replicate 9 (CHR ''x''))"
    by (simp_all add: name_ok_def list_all_iff isElement_def isalnum_def digit_of_def)
  from XMLParser_entity_overflow [OF this(1) _ this(2), of "replicate 8 NUL"] show ?thesis by (simp only: length_replicate) simp
qed

text \<open>The entity of the apostrophe is read as a grave accent.\<close>

lemma entity_apos: "entity ''apos'' = Some (CHR ''`'')"
  by (simp add: entity_def)

text \<open>A character data section is reported together with its opening.\<close>

lemma cdata_opening:
  "map_option (\<lambda>(ok, x). (ok, events x)) (XMLParser_parse ''<a><![CDATA[hey]]>t</a>'' (XMLParser_new (replicate 20 NUL))) =
   Some (True, [StartDocument, StartElement ''a'' [], Characters ''![CDATAhey'', Characters ''t'', EndElement ''a'', EndDocument])"
  by code_simp

text \<open>The value of an attribute without quotes is the name of the element.\<close>

lemma unquoted_value:
  "map_option (\<lambda>(ok, x). (ok, events x)) (XMLParser_parse ''<a x=foo y=\"1\"/>'' (XMLParser_new (replicate 20 NUL))) =
   Some (True, [StartDocument, StartElement ''a'' [''x'', ''a'', ''y'', ''1''], EndElement ''a'', EndDocument])"
  by code_simp

end
