(* ===== verification/Timers.thy ===== *)
theory Timers
  imports Prelude
begin

text \<open>
  Timers and queues of timers, from \<open>corelib/timer.cpp\<close>, on the build with POSIX clocks.

  The clock is outside of the program: operations that read it take the reading as an argument. A time
  has seconds and nanoseconds; timeouts are unsigned 64 bit numbers of milliseconds, of which the
  largest means no timeout.
\<close>

section \<open>Timers\<close>

record timespec =
  tv_sec :: int
  tv_nsec :: int

record Timer =
  timer :: timespec
  updated :: bool

abbreviation giga :: int where "giga \<equiv> 1000000000"

definition Timer_inf :: int where
  "Timer_inf = 2 ^ 64 - 1"

definition adj :: "timespec \<Rightarrow> timespec" where
  "adj ts =
     (let ts = (if tv_nsec ts \<ge> giga then ts\<lparr>tv_sec := tv_sec ts + cdiv (tv_nsec ts) giga\<rparr> else ts);
          ts = ts\<lparr>tv_nsec := cmod (tv_nsec ts) giga\<rparr>
      in if tv_nsec ts < 0 then ts\<lparr>tv_nsec := - tv_nsec ts\<rparr> else ts)"

definition Timer_clear :: "Timer \<Rightarrow> Timer" where
  "Timer_clear t = t\<lparr>timer := \<lparr>tv_sec = 0, tv_nsec = 0\<rparr>, updated := False\<rparr>"

definition Timer_set_now :: "timespec \<Rightarrow> Timer \<Rightarrow> Timer" where
  "Timer_set_now now t = t\<lparr>timer := now, updated := True\<rparr>"

definition Timer_update :: "Timer \<Rightarrow> bool \<times> Timer" where
  "Timer_update t = (updated t, t\<lparr>updated := False\<rparr>)"

definition Timer_is_active :: "Timer \<Rightarrow> bool" where
  "Timer_is_active t \<longleftrightarrow> \<not> (tv_sec (timer t) = 0 \<and> tv_nsec (timer t) = 0)"

text \<open>The operators for timeouts in milliseconds.\<close>

definition Timer_add :: "timespec \<Rightarrow> int \<Rightarrow> Timer \<Rightarrow> Timer" where
  "Timer_add now to t =
     (let t = (if \<not> Timer_is_active t then Timer_set_now now t else t);
          ts = \<lparr>tv_sec = tv_sec (timer t) + to div 1000, tv_nsec = tv_nsec (timer t) + (to mod 1000) * 1000000\<rparr>
      in t\<lparr>timer := adj ts, updated := True\<rparr>)"

definition Timer_sub :: "timespec \<Rightarrow> int \<Rightarrow> Timer \<Rightarrow> Timer" where
  "Timer_sub now to t =
     (let t = (if \<not> Timer_is_active t then Timer_set_now now t else t);
          ts = \<lparr>tv_sec = tv_sec (timer t) - to div 1000, tv_nsec = tv_nsec (timer t) - (to mod 1000) * 1000000\<rparr>
      in t\<lparr>timer := adj ts\<rparr>)"

definition Timer_assign :: "timespec \<Rightarrow> int \<Rightarrow> Timer \<Rightarrow> Timer" where
  "Timer_assign now to t = Timer_add now to (t\<lparr>timer := now\<rparr>)"

definition Timer_set :: "timespec \<Rightarrow> int \<Rightarrow> Timer \<Rightarrow> Timer" where
  "Timer_set now to t = Timer_add now to (Timer_set_now now t)"

text \<open>The operators for a time of the day; \<open>time\<close> is the reading of the clock in seconds.\<close>

definition difftime :: "int \<Rightarrow> int \<Rightarrow> int" where
  "difftime time ref = ref - time"

definition add_seconds :: "int \<Rightarrow> Timer \<Rightarrow> Timer" where
  "add_seconds s t = t\<lparr>timer := (timer t)\<lparr>tv_sec := tv_sec (timer t) + s\<rparr>\<rparr>"

definition Timer_set_time :: "timespec \<Rightarrow> int \<Rightarrow> int \<Rightarrow> Timer \<Rightarrow> Timer" where
  "Timer_set_time now time ref t = add_seconds (difftime time ref) (Timer_set_now now t)"

definition Timer_add_time :: "timespec \<Rightarrow> int \<Rightarrow> int \<Rightarrow> Timer \<Rightarrow> Timer" where
  "Timer_add_time now time ref t =
     (add_seconds (difftime time ref) (if \<not> Timer_is_active t then Timer_set_now now t else t))\<lparr>updated := True\<rparr>"

definition Timer_sub_time :: "timespec \<Rightarrow> int \<Rightarrow> int \<Rightarrow> Timer \<Rightarrow> Timer" where
  "Timer_sub_time now time ref t =
     add_seconds (- difftime time ref) (if \<not> Timer_is_active t then Timer_set_now now t else t)"

definition Timer_assign_time :: "timespec \<Rightarrow> int \<Rightarrow> int \<Rightarrow> Timer \<Rightarrow> Timer" where
  "Timer_assign_time now time ref t =
     (let t = t\<lparr>timer := now\<rparr> in if ref = 0 then t else (add_seconds (difftime time ref) t)\<lparr>updated := True\<rparr>)"

text \<open>The time that is left; the difference is an unsigned number.\<close>

definition Timer_get :: "timespec \<Rightarrow> Timer \<Rightarrow> int" where
  "Timer_get clock t =
     (let current = adj clock
      in if tv_sec current > tv_sec (timer t) then 0
         else if tv_sec current = tv_sec (timer t) \<and> tv_nsec current > tv_nsec (timer t) then 0
         else ((tv_sec (timer t) - tv_sec current) * 1000 + cdiv (tv_nsec (timer t) - tv_nsec current) 1000000) mod 2 ^ 64)"

definition Timer_expired :: "timespec \<Rightarrow> Timer \<Rightarrow> bool" where
  "Timer_expired clock t \<longleftrightarrow> Timer_get clock t = 0"

definition Timer_minus :: "timespec \<Rightarrow> timespec \<Rightarrow> Timer \<Rightarrow> Timer \<Rightarrow> int" where
  "Timer_minus clock clock' t source =
     (let tv = Timer_get clock t; dv = Timer_get clock' source
      in if tv = 0 then 0 else if tv = Timer_inf then Timer_inf else if dv = Timer_inf then tv else if dv > tv then 0 else tv - dv)"

definition Timer_new :: "bool \<Rightarrow> Timer" where
  "Timer_new u = Timer_clear \<lparr>timer = \<lparr>tv_sec = 0, tv_nsec = 0\<rparr>, updated = u\<rparr>"

text \<open>The copy constructor leaves \<open>updated\<close> as the memory had it.\<close>

definition Timer_copy :: "bool \<Rightarrow> Timer \<Rightarrow> Timer" where
  "Timer_copy u copy = \<lparr>timer = timer copy, updated = u\<rparr>"

text \<open>\<open>ticks\<close>: a time of the day in units of 100 nanoseconds since the begin of the Gregorian calendar.\<close>

definition ticks :: "int \<Rightarrow> int \<Rightarrow> int" where
  "ticks sec usec = (sec * 10000000 + usec * 10 + 0x01B21DD2 * 2 ^ 32 + 0x13814000) mod 2 ^ 64"

section \<open>Queues\<close>

text \<open>
  Events and queues are numbers; \<open>members\<close> are the events of a queue in order. \<open>calls\<close> records the calls of the virtual functions of the
  queue and \<open>fired\<close> the calls of \<open>expired\<close>, newest last.
\<close>

datatype tq_call = Modify nat | Update nat

record tqueue =
  timers :: "nat \<Rightarrow> Timer"
  queue_of :: "nat \<Rightarrow> nat option"
  members :: "nat \<Rightarrow> nat list"
  calls :: "tq_call list"
  fired :: "nat list"

definition call_tq :: "tq_call \<Rightarrow> tqueue \<Rightarrow> tqueue" where
  "call_tq c s = s\<lparr>calls := calls s @ [c]\<rparr>"

definition with_timer :: "nat \<Rightarrow> (Timer \<Rightarrow> Timer) \<Rightarrow> tqueue \<Rightarrow> tqueue" where
  "with_timer e f s = s\<lparr>timers := (timers s)(e := f (timers s e))\<rparr>"

definition event_detach :: "nat \<Rightarrow> tqueue \<Rightarrow> tqueue" where
  "event_detach e s =
     (case queue_of s e of
        None \<Rightarrow> s
      | Some q \<Rightarrow>
          let s = with_timer e Timer_clear (call_tq (Modify q) s)
          in call_tq (Update q) (s\<lparr>queue_of := (queue_of s)(e := None), members := (members s)(q := remove1 e (members s q))\<rparr>))"

definition event_attach :: "nat \<Rightarrow> nat option \<Rightarrow> tqueue \<Rightarrow> tqueue" where
  "event_attach e tq s =
     (if tq = queue_of s e then s
      else
        let s = event_detach e s
        in case tq of
             None \<Rightarrow> s
           | Some q \<Rightarrow>
               let s = call_tq (Modify q) s;
                   s = s\<lparr>queue_of := (queue_of s)(e := Some q), members := (members s)(q := members s q @ [e])\<rparr>
               in call_tq (Update q) (with_timer e (\<lambda>t. snd (Timer_update t)) s))"

definition event_new :: "timespec \<Rightarrow> nat \<Rightarrow> nat option \<Rightarrow> int \<Rightarrow> tqueue \<Rightarrow> tqueue" where
  "event_new now e tq timeout s =
     event_attach e tq (with_timer e (\<lambda>t. snd (Timer_update (Timer_set now timeout (Timer_new True)))) s)"

definition event_new_alone :: "timespec \<Rightarrow> nat \<Rightarrow> int \<Rightarrow> tqueue \<Rightarrow> tqueue" where
  "event_new_alone now e timeout s = with_timer e (\<lambda>t. Timer_set now timeout (Timer_new True)) s"

definition event_arm :: "timespec \<Rightarrow> nat \<Rightarrow> int \<Rightarrow> tqueue \<Rightarrow> tqueue" where
  "event_arm now e timeout s =
     (case queue_of s e of
        None \<Rightarrow> with_timer e (Timer_set now timeout) s
      | Some q \<Rightarrow> call_tq (Update q) (with_timer e (Timer_set now timeout) (call_tq (Modify q) s)))"

definition event_disarm :: "nat \<Rightarrow> tqueue \<Rightarrow> tqueue" where
  "event_disarm e s =
     (case queue_of s e of
        Some q \<Rightarrow>
          if Timer_is_active (timers s e) then call_tq (Update q) (with_timer e Timer_clear (call_tq (Modify q) s))
          else with_timer e Timer_clear s
      | None \<Rightarrow> with_timer e Timer_clear s)"

definition event_update :: "nat \<Rightarrow> tqueue \<Rightarrow> tqueue" where
  "event_update e s =
     (let flag = fst (Timer_update (timers s e)); s = with_timer e (\<lambda>t. snd (Timer_update t)) s
      in case queue_of s e of
           Some q \<Rightarrow> if flag then call_tq (Update q) (call_tq (Modify q) s) else s
         | None \<Rightarrow> s)"

text \<open>
  The callback \<open>expired\<close> of an event may arm the event again with a timeout, which is what the parameter says. The clock
  is read before, in, and after the callback.
\<close>

definition event_timeout :: "(nat \<Rightarrow> int option) \<Rightarrow> (nat \<Rightarrow> timespec \<times> timespec \<times> timespec) \<Rightarrow> nat \<Rightarrow> tqueue \<Rightarrow> int \<times> tqueue" where
  "event_timeout again clock e s =
     (case clock e of (t1, t2, t3) \<Rightarrow>
        let timeout = Timer_get t1 (timers s e)
        in if Timer_is_active (timers s e) \<and> timeout = 0 then
             let s = event_disarm e s;
                 s = s\<lparr>fired := fired s @ [e]\<rparr>;
                 s = (case again e of None \<Rightarrow> s | Some to \<Rightarrow> event_arm t2 e to s);
                 timeout = Timer_get t3 (timers s e)
             in (timeout, with_timer e (\<lambda>t. snd (Timer_update t)) s)
           else (timeout, s))"

fun expire_loop :: "(nat \<Rightarrow> int option) \<Rightarrow> (nat \<Rightarrow> timespec \<times> timespec \<times> timespec) \<Rightarrow> nat list \<Rightarrow> int \<Rightarrow> tqueue \<Rightarrow> int \<times> tqueue" where
  "expire_loop again clock [] least s = (least, s)"
| "expire_loop again clock (e # es) least s =
     (case event_timeout again clock e s of (next_to, s) \<Rightarrow>
        expire_loop again clock es (if next_to \<noteq> 0 \<and> next_to < least then next_to else least) s)"

definition TimerQueue_expire :: "(nat \<Rightarrow> int option) \<Rightarrow> (nat \<Rightarrow> timespec \<times> timespec \<times> timespec) \<Rightarrow> nat \<Rightarrow> tqueue \<Rightarrow> int \<times> tqueue" where
  "TimerQueue_expire again clock q s = expire_loop again clock (members s q) Timer_inf s"

definition TimerQueue_add :: "nat \<Rightarrow> nat \<Rightarrow> tqueue \<Rightarrow> tqueue" where
  "TimerQueue_add q e s = event_attach e (Some q) s"

definition TimerQueue_remove :: "nat \<Rightarrow> nat \<Rightarrow> tqueue \<Rightarrow> tqueue" where
  "TimerQueue_remove q e s = (if queue_of s e = Some q then event_detach e s else s)"


section \<open>Times\<close>

definition nanos :: "timespec \<Rightarrow> int" where
  "nanos ts = tv_sec ts * giga + tv_nsec ts"

definition valid_time :: "timespec \<Rightarrow> bool" where
  "valid_time ts \<longleftrightarrow> 0 \<le> tv_nsec ts \<and> tv_nsec ts < giga"

lemma adj_sum:
  assumes "0 \<le> tv_nsec ts"
  shows "valid_time (adj ts)" "nanos (adj ts) = nanos ts"
proof -
  have "tv_nsec ts div giga * giga + tv_nsec ts mod giga = tv_nsec ts" by (rule div_mult_mod_eq)
  then show "valid_time (adj ts)" "nanos (adj ts) = nanos ts"
    using assms by (auto simp: adj_def valid_time_def nanos_def Let_def cpp_simps algebra_simps not_le mod_pos_pos_trivial)
qed

lemma adj_valid: "valid_time ts \<Longrightarrow> adj ts = ts"
  by (simp add: adj_def valid_time_def Let_def cpp_simps)

lemma millis: "(to :: int) div 1000 * giga + to mod 1000 * 1000000 = to * 1000000"
proof -
  have "to div 1000 * 1000 + to mod 1000 = to" by (rule div_mult_mod_eq)
  then show ?thesis by linarith
qed

lemma Timer_add_exact:
  assumes "valid_time now" "valid_time (timer t)"
  shows "valid_time (timer (Timer_add now to t))" "updated (Timer_add now to t)"
    "nanos (timer (Timer_add now to t)) = nanos (if Timer_is_active t then timer t else now) + to * 1000000"
proof -
  define b where "b = (if Timer_is_active t then timer t else now)"
  have "0 \<le> tv_nsec b" using assms by (auto simp: b_def valid_time_def)
  then have "0 \<le> tv_nsec b + to mod 1000 * 1000000" by simp
  note a = adj_sum [of "\<lparr>tv_sec = tv_sec b + to div 1000, tv_nsec = tv_nsec b + to mod 1000 * 1000000\<rparr>", simplified, OF this]
  have "timer (Timer_add now to t) = adj \<lparr>tv_sec = tv_sec b + to div 1000, tv_nsec = tv_nsec b + to mod 1000 * 1000000\<rparr>"
    by (simp add: Timer_add_def b_def Timer_set_now_def Let_def)
  then show "valid_time (timer (Timer_add now to t))"
    "nanos (timer (Timer_add now to t)) = nanos (if Timer_is_active t then timer t else now) + to * 1000000"
    using a millis [of to] by (simp_all add: b_def [symmetric] nanos_def algebra_simps)
  show "updated (Timer_add now to t)" by (simp add: Timer_add_def Let_def)
qed

lemma Timer_set_exact:
  assumes "valid_time now"
  shows "valid_time (timer (Timer_set now to t))" "nanos (timer (Timer_set now to t)) = nanos now + to * 1000000"
  using Timer_add_exact [of now "Timer_set_now now t" to] assms by (simp_all add: Timer_set_def Timer_set_now_def)

text \<open>The time that is left, rounded to a millisecond.\<close>

lemma Timer_get_rounds:
  assumes "valid_time clock" "valid_time (timer t)" "nanos (timer t) - nanos clock < 2 ^ 63 * 1000000"
  shows "nanos clock > nanos (timer t) \<Longrightarrow> Timer_get clock t = 0"
    and "nanos clock \<le> nanos (timer t) \<Longrightarrow> \<bar>Timer_get clock t * 1000000 - (nanos (timer t) - nanos clock)\<bar> < 1000000"
proof -
  let ?s = "tv_sec (timer t) - tv_sec clock" and ?n = "tv_nsec (timer t) - tv_nsec clock"
  have n: "- giga < ?n" "?n < giga" using assms(1,2) by (auto simp: valid_time_def)
  have d: "nanos (timer t) - nanos clock = ?s * giga + ?n" by (simp add: nanos_def algebra_simps)
  show "Timer_get clock t = 0" if "nanos clock > nanos (timer t)"
    using that n d assms(1,2) by (auto simp: Timer_get_def adj_valid valid_time_def)
  show "\<bar>Timer_get clock t * 1000000 - (nanos (timer t) - nanos clock)\<bar> < 1000000" if le: "nanos clock \<le> nanos (timer t)"
  proof -
    have s: "0 \<le> ?s" "?s = 0 \<Longrightarrow> 0 \<le> ?n" using le n d by auto
    define r where "r = ?s * 1000 + cdiv ?n 1000000"
    have c: "\<bar>cdiv ?n 1000000 * 1000000 - ?n\<bar> < 1000000" "0 \<le> ?n \<Longrightarrow> 0 \<le> cdiv ?n 1000000" "- 1000 < cdiv ?n 1000000"
      using n by (cases "?n < 0"; simp add: cpp_simps; linarith)+
    have r: "\<bar>r * 1000000 - (nanos (timer t) - nanos clock)\<bar> < 1000000" using c(1) by (simp add: d r_def algebra_simps)
    have "0 \<le> r" using s c(2,3) by (cases "?s = 0") (auto simp: r_def)
    moreover have "r < 2 ^ 64" using r assms(3) by (simp add: abs_less_iff)
    moreover have "Timer_get clock t = r mod 2 ^ 64"
      using le n s assms(1) by (auto simp: Timer_get_def adj_valid r_def)
    ultimately show ?thesis using r by simp
  qed
qed


text \<open>
  C35: A timer that was set to a timeout has, at any later reading of the clock, the time left that it should
  have, up to a rounding of less than a millisecond, and none when the timeout is over. Read at once it gives the timeout.
\<close>

theorem Timer_set_get:
  assumes "valid_time now" "valid_time clock" "nanos now \<le> nanos clock" "0 \<le> to" "to < 2 ^ 63"
  shows "let elapsed = nanos clock - nanos now; left = Timer_get clock (Timer_set now to t)
    in if elapsed > to * 1000000 then left = 0
       else \<bar>left * 1000000 - (to * 1000000 - elapsed)\<bar> < 1000000 \<and> (elapsed = 0 \<longrightarrow> left = to)"
proof -
  note s = Timer_set_exact [OF assms(1), of to t]
  have lt: "nanos (timer (Timer_set now to t)) - nanos clock < 2 ^ 63 * 1000000" using s(2) assms(3,5) by simp
  note g = Timer_get_rounds [OF assms(2) s(1) lt]
  have "left = to" if "\<bar>left * 1000000 - to * 1000000\<bar> < 1000000" for left :: int using that by linarith
  then show ?thesis using g s(2) by (auto simp: Let_def)
qed

theorem Timer_set_get_witness:
  "Timer_get \<lparr>tv_sec = 100, tv_nsec = 999000000\<rparr> (Timer_set \<lparr>tv_sec = 100, tv_nsec = 999000000\<rparr> 1500 (Timer_new False)) = 1500"
  using Timer_set_get [of "\<lparr>tv_sec = 100, tv_nsec = 999000000\<rparr>" "\<lparr>tv_sec = 100, tv_nsec = 999000000\<rparr>" 1500 "Timer_new False"]
  by (simp add: valid_time_def Let_def)

text \<open>
  Subtracting milliseconds does not borrow from the seconds: when the nanoseconds do not suffice, the difference is
  taken with the wrong sign, and the timer ends later than it should, or even later than before.
\<close>

theorem Timer_sub_wrong:
  assumes "valid_time (timer t)" "Timer_is_active t" "tv_nsec (timer t) < (to mod 1000) * 1000000"
  shows "nanos (timer (Timer_sub now to t)) =
    nanos (timer t) - to * 1000000 + 2 * ((to mod 1000) * 1000000 - tv_nsec (timer t))"
proof -
  let ?n = "tv_nsec (timer t) - to mod 1000 * 1000000"
  have n: "?n < 0" "- giga < ?n" using assms by (auto simp: valid_time_def)
  then have "adj \<lparr>tv_sec = tv_sec (timer t) - to div 1000, tv_nsec = ?n\<rparr> = \<lparr>tv_sec = tv_sec (timer t) - to div 1000, tv_nsec = - ?n\<rparr>"
    by (simp add: adj_def Let_def cpp_simps)
  then have "nanos (timer (Timer_sub now to t)) = (tv_sec (timer t) - to div 1000) * giga - ?n"
    using assms(2) by (simp add: Timer_sub_def Let_def nanos_def)
  then show ?thesis using millis [of to] by (simp add: nanos_def algebra_simps)
qed

theorem Timer_sub_wrong_witness:
  "timer (Timer_sub \<lparr>tv_sec = 1, tv_nsec = 0\<rparr> 500 \<lparr>timer = \<lparr>tv_sec = 5, tv_nsec = 100000000\<rparr>, updated = False\<rparr>) = \<lparr>tv_sec = 5, tv_nsec = 400000000\<rparr> \<and>
   nanos (timer (Timer_sub \<lparr>tv_sec = 1, tv_nsec = 0\<rparr> 500 \<lparr>timer = \<lparr>tv_sec = 5, tv_nsec = 100000000\<rparr>, updated = False\<rparr>)) = 5400000000"
  using Timer_sub_wrong [of "\<lparr>timer = \<lparr>tv_sec = 5, tv_nsec = 100000000\<rparr>, updated = False\<rparr>" 500 "\<lparr>tv_sec = 1, tv_nsec = 0\<rparr>"]
  by (simp add: valid_time_def Timer_is_active_def Timer_sub_def adj_def cpp_simps nanos_def Let_def)


section \<open>Queues of events\<close>

definition tq_ok :: "tqueue \<Rightarrow> bool" where
  "tq_ok s \<longleftrightarrow> (\<forall>q. distinct (members s q) \<and> (\<forall>e. e \<in> set (members s q) \<longleftrightarrow> queue_of s e = Some q))"

lemmas tq_defs = call_tq_def with_timer_def event_arm_def event_disarm_def event_update_def event_timeout_def Let_def

lemma tq_keeps:
  "members (event_arm now e to s) = members s" "queue_of (event_arm now e to s) = queue_of s"
  "members (event_disarm e s) = members s" "queue_of (event_disarm e s) = queue_of s"
  "members (event_update e s) = members s" "queue_of (event_update e s) = queue_of s"
  "members (snd (event_timeout again clock e s)) = members s" "queue_of (snd (event_timeout again clock e s)) = queue_of s"
  by (simp_all add: tq_defs split: option.split prod.split)

lemma tq_ok_detach: "tq_ok s \<Longrightarrow> tq_ok (event_detach e s)"
  by (auto simp: tq_ok_def event_detach_def tq_defs split: option.split)

lemma event_detach_alone: "queue_of (event_detach e s) e = None"
  by (simp add: event_detach_def tq_defs split: option.split)

lemma tq_ok_attach: "tq_ok s \<Longrightarrow> tq_ok (event_attach e tq s)"
  using tq_ok_detach [of s e] event_detach_alone [of e s]
  by (auto simp: event_attach_def tq_ok_def tq_defs split: option.split)

lemma expire_loop_keeps:
  "members (snd (expire_loop again clock es least s)) = members s \<and> queue_of (snd (expire_loop again clock es least s)) = queue_of s"
proof (induction es arbitrary: least s)
  case (Cons e es)
  then show ?case using tq_keeps(7,8) [of again clock e s] by (cases "event_timeout again clock e s") simp
qed simp

text \<open>An event that is moved to another queue is disarmed.\<close>

lemma event_attach_disarms:
  "queue_of s e = Some q \<Longrightarrow> q \<noteq> q' \<Longrightarrow> \<not> Timer_is_active (timers (event_attach e (Some q') s) e)"
  by (simp add: event_attach_def event_detach_def tq_defs Timer_update_def Timer_clear_def Timer_is_active_def)

definition due :: "(nat \<Rightarrow> timespec \<times> timespec \<times> timespec) \<Rightarrow> tqueue \<Rightarrow> nat \<Rightarrow> bool" where
  "due clock s e \<longleftrightarrow> Timer_is_active (timers s e) \<and> Timer_get (fst (clock e)) (timers s e) = 0"

text \<open>The timer of an event after its round, and the time it then has left.\<close>

definition timer_after :: "(nat \<Rightarrow> int option) \<Rightarrow> (nat \<Rightarrow> timespec \<times> timespec \<times> timespec) \<Rightarrow> tqueue \<Rightarrow> nat \<Rightarrow> Timer" where
  "timer_after again clock s e =
     (if due clock s e then
        (case again e of
           None \<Rightarrow> Timer_clear (timers s e)
         | Some to \<Rightarrow> (Timer_set (fst (snd (clock e))) to (Timer_clear (timers s e)))\<lparr>updated := False\<rparr>)
      else timers s e)"

definition time_left :: "(nat \<Rightarrow> int option) \<Rightarrow> (nat \<Rightarrow> timespec \<times> timespec \<times> timespec) \<Rightarrow> tqueue \<Rightarrow> nat \<Rightarrow> int" where
  "time_left again clock s e =
     Timer_get (if due clock s e then snd (snd (clock e)) else fst (clock e)) (timer_after again clock s e)"

lemma Timer_get_updated [simp]: "Timer_get c (t\<lparr>updated := u\<rparr>) = Timer_get c t"
  by (simp add: Timer_get_def Let_def)

lemma event_timeout_spec:
  "fst (event_timeout again clock e s) = time_left again clock s e \<and>
   timers (snd (event_timeout again clock e s)) = (timers s)(e := timer_after again clock s e) \<and>
   fired (snd (event_timeout again clock e s)) = fired s @ (if due clock s e then [e] else [])"
  by (cases "clock e") (auto simp: event_timeout_def due_def time_left_def timer_after_def event_disarm_def event_arm_def
      with_timer_def call_tq_def Let_def Timer_update_def Timer_clear_def split: option.split)

lemma Min_next:
  fixes n :: "'a::{linorder,zero}"
  assumes "finite A"
  shows "Min (insert (if n \<noteq> 0 \<and> n < least then n else least) (A - {0})) = Min (insert least (insert n A - {0}))"
proof (cases "n = 0")
  case False
  define B where "B = A - {0}"
  have B: "finite B" "insert n A - {0} = insert n B" using False assms by (auto simp: B_def)
  have "(if n \<noteq> 0 \<and> n < least then n else least) = min least n" using False by (auto simp: min_def)
  then show ?thesis
    unfolding B(2) B_def [symmetric] using B(1) by (cases "B = {}") (simp_all add: min.assoc)
qed simp

lemma expire_loop_spec:
  assumes "distinct es"
  shows "fired (snd (expire_loop again clock es least s)) = fired s @ filter (due clock s) es \<and>
    timers (snd (expire_loop again clock es least s)) = (\<lambda>e. if e \<in> set es then timer_after again clock s e else timers s e) \<and>
    fst (expire_loop again clock es least s) = Min (insert least (time_left again clock s ` set es - {0}))"
  using assms
proof (induction es arbitrary: least s)
  case (Cons e es)
  obtain n s' where s': "event_timeout again clock e s = (n, s')" by (cases "event_timeout again clock e s")
  note e = event_timeout_spec [of again clock e s, unfolded s' fst_conv snd_conv]
  have same: "due clock s' f = due clock s f" "timer_after again clock s' f = timer_after again clock s f"
    "time_left again clock s' f = time_left again clock s f" if "f \<in> set es" for f
  proof -
    have t: "timers s' f = timers s f" using that e Cons.prems by auto
    show "due clock s' f = due clock s f" "timer_after again clock s' f = timer_after again clock s f"
      "time_left again clock s' f = time_left again clock s f"
      unfolding due_def timer_after_def time_left_def t by (rule refl)+
  qed
  have "filter (due clock s') es = filter (due clock s) es" "time_left again clock s' ` set es = time_left again clock s ` set es"
    using same(1,3) by (auto intro: filter_cong)
  then show ?case
    using Cons.IH [of "if n \<noteq> 0 \<and> n < least then n else least" s'] Cons.prems e same s'
      Min_next [of "time_left again clock s ` set es" n least] by (auto simp: fun_eq_iff)
qed simp



text \<open>A queue with one event that is due and armed again, and one that is not yet due.\<close>

definition example_queue :: tqueue where
  "example_queue =
     \<lparr>timers = (\<lambda>e. \<lparr>timer = \<lparr>tv_sec = (if e = 0 then 10 else 20), tv_nsec = 0\<rparr>, updated = False\<rparr>),
      queue_of = (\<lambda>e. if e < 2 then Some 0 else None), members = (\<lambda>q. if q = 0 then [0, 1] else []), calls = [], fired = []\<rparr>"


end
