(* ===== verification/MapRef.thy ===== *)
theory MapRef
  imports Linked "HOL-Library.Word"
begin

unbundle bit_operations_syntax

text \<open>
  Maps and lists of shared objects, from \<open>corelib/mapref.cpp\<close>: \<open>MapRef\<close> with its nodes \<open>Index\<close>, the table \<open>Map\<close> and the
  iterator \<open>Instance\<close>, and the templates \<open>mapref\<close> and \<open>listref\<close> of \<open>mapref.h\<close> on top of them.

  Nodes are linked objects in the store of \<open>Linked\<close>, and the operations on them are the ones of that theory. A node is
  its number in the order of allocation by the pool of the map, which never gives memory back. Keys and
  values are objects with a reference count; \<open>refs\<close> counts the references of the map to an object. The lock of a map is
  the one of \<open>CondLock\<close>; here an operation is what happens under it, and it is recorded in \<open>readers\<close> and \<open>writer\<close>.
\<close>

section \<open>State\<close>

record mapref =
  links :: heap
  roots :: "ptr list"
  mfree :: ptr
  mlast :: ptr
  mcount :: nat
  malloc :: nat
  key_of :: "addr \<Rightarrow> nat option"
  value_of :: "addr \<Rightarrow> nat option"
  refs :: "nat \<Rightarrow> int"
  held :: nat
  readers :: nat
  writer :: bool

definition retain_obj :: "nat option \<Rightarrow> mapref \<Rightarrow> mapref" where
  "retain_obj obj m = (case obj of None \<Rightarrow> m | Some a \<Rightarrow> m\<lparr>refs := (refs m)(a := refs m a + 1)\<rparr>)"

definition release_obj :: "nat option \<Rightarrow> mapref \<Rightarrow> mapref" where
  "release_obj obj m = (case obj of None \<Rightarrow> m | Some a \<Rightarrow> m\<lparr>refs := (refs m)(a := refs m a - 1)\<rparr>)"

definition Map_new :: "nat \<Rightarrow> mapref" where
  "Map_new indexes =
     \<lparr>links = empty_heap, roots = replicate indexes None, mfree = None, mlast = None, mcount = 0, malloc = 0,
      key_of = \<lambda>_. None, value_of = \<lambda>_. None, refs = \<lambda>_. 0, held = 1, readers = 0, writer = False\<rparr>"

definition MapRef_create :: "nat \<Rightarrow> mapref option" where
  "MapRef_create indexes = (if indexes = 0 then None else Some (Map_new indexes))"

section \<open>Nodes\<close>

text \<open>The memory of a node: a free one, or a new one.\<close>

definition take_node :: "mapref \<Rightarrow> addr \<times> mapref" where
  "take_node m =
     (case mfree m of
        Some p \<Rightarrow> (p, m\<lparr>mfree := Next (links m) p\<rparr>)
      | None \<Rightarrow> (malloc m, m\<lparr>malloc := malloc m + 1\<rparr>))"

definition Index_new :: "addr \<Rightarrow> mapref \<Rightarrow> mapref" where
  "Index_new p m =
     m\<lparr>links := LinkedObject_new (links m) p, key_of := (key_of m)(p := None), value_of := (value_of m)(p := None)\<rparr>"

definition Index_new_root :: "addr \<Rightarrow> nat \<Rightarrow> mapref \<Rightarrow> mapref" where
  "Index_new_root p i m =
     (case LinkedObject_new_root (links m) p (roots m ! i) of (h, root) \<Rightarrow>
        m\<lparr>links := h, roots := (roots m)[i := root], key_of := (key_of m)(p := None), value_of := (value_of m)(p := None)\<rparr>)"

definition Map_create :: "nat \<Rightarrow> mapref \<Rightarrow> addr \<times> mapref" where
  "Map_create key m =
     (case take_node m of (p, m) \<Rightarrow> (p, Index_new_root p (key mod length (roots m)) (m\<lparr>mcount := mcount m + 1\<rparr>)))"

definition set_next :: "addr \<Rightarrow> ptr \<Rightarrow> mapref \<Rightarrow> mapref" where
  "set_next a q m = m\<lparr>links := (links m)\<lparr>Next := (Next (links m))(a := q)\<rparr>\<rparr>"

definition Map_append :: "mapref \<Rightarrow> addr \<times> mapref" where
  "Map_append m =
     (case take_node m of (p, m) \<Rightarrow>
        let m = Index_new p (m\<lparr>mcount := mcount m + 1\<rparr>);
            m = (case mlast m of Some lp \<Rightarrow> set_next lp (Some p) m | None \<Rightarrow> m\<lparr>roots := (roots m)[0 := Some p]\<rparr>)
        in (p, set_next p None (m\<lparr>mlast := Some p\<rparr>)))"

text \<open>The search for the node before the last one.\<close>

partial_function (option) last_scan :: "heap \<Rightarrow> addr \<Rightarrow> ptr \<Rightarrow> ptr option" where
  "last_scan h index node =
     (case node of
        None \<Rightarrow> Some None
      | Some n \<Rightarrow> if Next h n \<noteq> Some index then last_scan h index (Next h n) else Some (Some n))"

definition Map_remove :: "ptr \<Rightarrow> nat \<Rightarrow> mapref \<Rightarrow> mapref option" where
  "Map_remove index key m =
     (case index of
        None \<Rightarrow> Some m
      | Some n \<Rightarrow>
          let m = release_obj (value_of m n) (release_obj (key_of m n) m);
              i = key mod length (roots m);
              root = roots m ! i;
              m = m\<lparr>mcount := mcount m - 1\<rparr>
          in Option.bind
               (if mlast m = Some n then (if root = Some n then Some None else last_scan (links m) n root) else Some (mlast m))
               (\<lambda>l. Option.bind (LinkedObject_delist (links m) n root) (\<lambda>(h, root).
                  case LinkedObject_enlist h n (mfree m) of (h, fr) \<Rightarrow>
                    Some (m\<lparr>mlast := l, links := h, roots := (roots m)[i := root], mfree := fr\<rparr>))))"

partial_function (option) release_chain :: "ptr \<Rightarrow> mapref \<Rightarrow> mapref option" where
  "release_chain node m =
     (case node of
        None \<Rightarrow> Some m
      | Some n \<Rightarrow> release_chain (Next (links m) n) (release_obj (value_of m n) (release_obj (key_of m n) m)))"

fun release_roots :: "ptr list \<Rightarrow> mapref \<Rightarrow> mapref option" where
  "release_roots [] m = Some m"
| "release_roots (r # rs) m = Option.bind (release_chain r m) (release_roots rs)"

definition Map_dealloc :: "mapref \<Rightarrow> mapref option" where
  "Map_dealloc m =
     (if roots m = [] then Some m
      else map_option (\<lambda>m. m\<lparr>roots := [], mfree := None, mlast := None\<rparr>) (release_roots (roots m) m))"

section \<open>Entries\<close>

definition set_entry :: "addr \<Rightarrow> nat option \<Rightarrow> nat option \<Rightarrow> mapref \<Rightarrow> mapref" where
  "set_entry p k v m = retain_obj v (retain_obj k (m\<lparr>key_of := (key_of m)(p := k), value_of := (value_of m)(p := v)\<rparr>))"

definition MapRef_add :: "nat \<Rightarrow> nat option \<Rightarrow> nat option \<Rightarrow> mapref \<Rightarrow> mapref" where
  "MapRef_add keypath k v m =
     (if roots m = [] then m else case Map_create keypath m of (p, m) \<Rightarrow> set_entry p k v m)"

definition MapRef_append :: "nat option \<Rightarrow> mapref \<Rightarrow> mapref" where
  "MapRef_append v m =
     (if roots m = [] then m
      else case Map_append (m\<lparr>writer := True\<rparr>) of (p, m) \<Rightarrow> (set_entry p None v m)\<lparr>writer := False\<rparr>)"

definition MapRef_update :: "ptr \<Rightarrow> nat option \<Rightarrow> mapref \<Rightarrow> mapref" where
  "MapRef_update ind v m =
     (case ind of
        None \<Rightarrow> m
      | Some n \<Rightarrow> retain_obj v ((release_obj (value_of m n) m)\<lparr>value_of := (value_of m)(n := v)\<rparr>))"

definition MapRef_access :: "nat \<Rightarrow> mapref \<Rightarrow> ptr \<times> mapref" where
  "MapRef_access key m =
     (if roots m = [] then (None, m)
      else (roots m ! (key mod length (roots m)), m\<lparr>held := held m + 1, readers := readers m + 1\<rparr>))"

definition MapRef_modify :: "nat \<Rightarrow> mapref \<Rightarrow> ptr \<times> mapref" where
  "MapRef_modify key m =
     (if roots m = [] then (None, m)
      else (roots m ! (key mod length (roots m)), m\<lparr>held := held m + 1, writer := True\<rparr>))"

definition MapRef_commit :: "mapref \<Rightarrow> mapref" where
  "MapRef_commit m = (if roots m = [] then m else m\<lparr>writer := False, held := held m - 1\<rparr>)"

definition MapRef_release :: "mapref \<Rightarrow> mapref" where
  "MapRef_release m = (if roots m = [] then m else m\<lparr>readers := readers m - 1, held := held m - 1\<rparr>)"

text \<open>The hash of a key, on 64 bit words.\<close>

fun MapRef_index :: "64 word \<Rightarrow> 8 word list \<Rightarrow> 64 word" where
  "MapRef_index key [] = key"
| "MapRef_index key (b # bs) = MapRef_index (key XOR (push_bit 3 key XOR ucast b)) bs"

section \<open>Iteration\<close>

record mapinst =
  inst_index :: ptr
  inst_path :: nat

fun next_root :: "ptr list \<Rightarrow> nat \<Rightarrow> ptr \<times> nat" where
  "next_root [] p = (None, p)"
| "next_root (r # rs) p = (if r \<noteq> None then (r, p) else next_root rs (p + 1))"

definition Instance_next :: "mapref \<Rightarrow> mapinst \<Rightarrow> bool \<times> mapinst" where
  "Instance_next m i =
     (let ind = (case inst_index i of None \<Rightarrow> None | Some n \<Rightarrow> Next (links m) n)
      in if ind \<noteq> None then (True, i\<lparr>inst_index := ind\<rparr>)
         else if inst_path i + 1 < length (roots m) then
           (case next_root (drop (inst_path i + 1) (roots m)) (inst_path i + 1) of (r, p) \<Rightarrow>
              (r \<noteq> None, \<lparr>inst_index = r, inst_path = p\<rparr>))
         else (False, i\<lparr>inst_index := None, inst_path := inst_path i + 1\<rparr>))"

definition Instance_rewind :: "mapref \<Rightarrow> mapinst" where
  "Instance_rewind m =
     (let i = \<lparr>inst_index = roots m ! 0, inst_path = 0\<rparr>
      in if inst_index i = None then snd (Instance_next m i) else i)"

definition Instance_eol :: "mapref \<Rightarrow> mapinst \<Rightarrow> bool" where
  "Instance_eol m i \<longleftrightarrow> inst_path i \<ge> length (roots m)"

definition Instance_top :: "mapref \<Rightarrow> mapinst \<Rightarrow> bool" where
  "Instance_top m i \<longleftrightarrow> inst_path i = 0 \<and> inst_index i = roots m ! 0"

definition Instance_key :: "mapref \<Rightarrow> mapinst \<Rightarrow> nat option" where
  "Instance_key m i = (case inst_index i of None \<Rightarrow> None | Some n \<Rightarrow> key_of m n)"

definition Instance_value :: "mapref \<Rightarrow> mapinst \<Rightarrow> nat option" where
  "Instance_value m i = (case inst_index i of None \<Rightarrow> None | Some n \<Rightarrow> value_of m n)"

text \<open>An iterator holds the map and a share of its lock while it lives.\<close>

definition Instance_open :: "mapref \<Rightarrow> mapinst \<times> mapref" where
  "Instance_open m = (Instance_rewind m, m\<lparr>held := held m + 1, readers := readers m + 1\<rparr>)"

definition Instance_copy :: "mapinst \<Rightarrow> mapref \<Rightarrow> mapinst \<times> mapref" where
  "Instance_copy copy m = (copy, m\<lparr>held := held m + 1, readers := readers m + 1\<rparr>)"

definition Instance_drop :: "mapref \<Rightarrow> mapinst \<times> mapref" where
  "Instance_drop m = (\<lparr>inst_index = None, inst_path = 0\<rparr>, m\<lparr>readers := readers m - 1, held := held m - 1\<rparr>)"

definition MapRef_count :: "mapref \<Rightarrow> nat" where
  "MapRef_count m = mcount m"

definition MapRef_used :: "mapref \<Rightarrow> nat" where
  "MapRef_used m = malloc m"

text \<open>A walk over a map: the entries at which the iterator stops, for a number of rounds.\<close>

fun walk_map :: "nat \<Rightarrow> mapref \<Rightarrow> mapinst \<Rightarrow> (nat option \<times> nat option) list" where
  "walk_map 0 m i = []"
| "walk_map (Suc k) m i =
     (if inst_index i = None then []
      else (Instance_key m i, Instance_value m i) # walk_map k m (snd (Instance_next m i)))"

section \<open>Maps and lists of typed references\<close>

text \<open>
  The templates \<open>mapref\<close> and \<open>listref\<close> of \<open>mapref.h\<close> on references to texts: \<open>tx\<close> is the text of an object,
  which no operation changes.
\<close>

definition typeref_eq :: "(nat \<Rightarrow> 8 word list) \<Rightarrow> nat option \<Rightarrow> nat option \<Rightarrow> bool" where
  "typeref_eq tx x y = (case x of None \<Rightarrow> False | Some a \<Rightarrow> (case y of None \<Rightarrow> False | Some b \<Rightarrow> tx a = tx b))"

definition mapkeypath :: "(nat \<Rightarrow> 8 word list) \<Rightarrow> nat option \<Rightarrow> nat" where
  "mapkeypath tx obj = unat (MapRef_index 1 (case obj of None \<Rightarrow> [] | Some a \<Rightarrow> tx a))"

partial_function (option) find_node :: "(nat \<Rightarrow> 8 word list) \<Rightarrow> heap \<Rightarrow> (addr \<Rightarrow> nat option) \<Rightarrow> nat option \<Rightarrow> ptr \<Rightarrow> ptr option" where
  "find_node tx h member key ip =
     (case ip of
        None \<Rightarrow> Some None
      | Some n \<Rightarrow> if typeref_eq tx (member n) key then Some (Some n) else find_node tx h member key (Next h n))"

definition mapref_value :: "(nat \<Rightarrow> 8 word list) \<Rightarrow> nat option \<Rightarrow> nat option \<Rightarrow> mapref \<Rightarrow> mapref option" where
  "mapref_value tx key val m =
     (let p = mapkeypath tx key
      in case MapRef_modify p m of (ip, m) \<Rightarrow>
           map_option (\<lambda>n. MapRef_commit (case n of Some x \<Rightarrow> MapRef_update (Some x) val m | None \<Rightarrow> MapRef_add p key val m))
             (find_node tx (links m) (key_of m) key ip))"

definition mapref_erase :: "(nat \<Rightarrow> 8 word list) \<Rightarrow> nat option \<Rightarrow> mapref \<Rightarrow> (bool \<times> mapref) option" where
  "mapref_erase tx key m =
     (let p = mapkeypath tx key
      in case MapRef_modify p m of (ip, m) \<Rightarrow>
           Option.bind (find_node tx (links m) (key_of m) key ip) (\<lambda>n.
             case n of
               Some x \<Rightarrow> map_option (\<lambda>m. (True, MapRef_commit m)) (Map_remove (Some x) p m)
             | None \<Rightarrow> Some (False, MapRef_commit m)))"

definition mapref_at :: "(nat \<Rightarrow> 8 word list) \<Rightarrow> nat option \<Rightarrow> mapref \<Rightarrow> (nat option \<times> mapref) option" where
  "mapref_at tx key m =
     (case MapRef_access (mapkeypath tx key) m of (ip, m) \<Rightarrow>
        map_option (\<lambda>n. (case n of Some x \<Rightarrow> value_of m x | None \<Rightarrow> None, MapRef_release m))
          (find_node tx (links m) (key_of m) key ip))"

definition listref_new :: mapref where
  "listref_new = Map_new 1"

definition listref_erase :: "(nat \<Rightarrow> 8 word list) \<Rightarrow> nat option \<Rightarrow> mapref \<Rightarrow> (bool \<times> mapref) option" where
  "listref_erase tx val m =
     (case MapRef_modify 0 m of (ip, m) \<Rightarrow>
        Option.bind (find_node tx (links m) (value_of m) val ip) (\<lambda>n.
          case n of
            Some x \<Rightarrow> map_option (\<lambda>m. (True, MapRef_commit m)) (Map_remove (Some x) 0 m)
          | None \<Rightarrow> Some (False, MapRef_commit m)))"

text \<open>In \<open>at\<close> and \<open>take\<close> the value \<open>None\<close> is the access through a null pointer behind the end of the list.\<close>

definition listref_at :: "nat \<Rightarrow> mapref \<Rightarrow> (nat option \<times> mapref) option" where
  "listref_at offset m =
     (case MapRef_access 0 m of (ip, m) \<Rightarrow>
        map_option (\<lambda>n. (value_of m n, MapRef_release m)) (LinkedObject_getIndexed (links m) ip offset))"

definition listref_take :: "nat \<Rightarrow> mapref \<Rightarrow> (nat option \<times> mapref) option" where
  "listref_take offset m =
     (case MapRef_modify 0 m of (ip, m) \<Rightarrow>
        Option.bind (LinkedObject_getIndexed (links m) ip offset) (\<lambda>n.
          map_option (\<lambda>m'. (value_of m n, MapRef_commit m'))
            (if value_of m n \<noteq> None then Map_remove (Some n) 0 m else Some m)))"

section \<open>Shape of the table\<close>

definition map_shape :: "(addr \<Rightarrow> ptr) \<Rightarrow> ptr list \<Rightarrow> ptr \<Rightarrow> addr list list \<Rightarrow> addr list \<Rightarrow> bool" where
  "map_shape nxt rs fr bs fs \<longleftrightarrow>
     list_all2 (chain nxt) rs bs \<and> chain nxt fr fs \<and> distinct (concat bs @ fs)"

lemma concat_upd:
  assumes "i < length bs"
  obtains us vs where "concat bs = us @ bs ! i @ vs" and "\<And>b. concat (bs[i := b]) = us @ b @ vs"
proof
  show "concat bs = concat (take i bs) @ bs ! i @ concat (drop (Suc i) bs)"
    using id_take_nth_drop [OF assms] by (metis concat.simps(2) concat_append)
  show "\<And>b. concat (bs[i := b]) = concat (take i bs) @ b @ concat (drop (Suc i) bs)"
    using assms by (simp add: upd_conv_take_nth_drop)
qed

lemma shape_chain: "map_shape nxt rs fr bs fs \<Longrightarrow> i < length rs \<Longrightarrow> chain nxt (rs ! i) (bs ! i)"
  by (simp add: map_shape_def list_all2_conv_all_nth)

lemma map_shape_length: "map_shape nxt rs fr bs fs \<Longrightarrow> length bs = length rs"
  by (simp add: map_shape_def list_all2_conv_all_nth)

lemma shape_set: "i < length bs \<Longrightarrow> set (bs ! i) \<subseteq> set (concat bs)"
  using nth_mem by fastforce

lemma shape_disjoint:
  assumes "map_shape nxt rs fr bs fs" and "i < length bs" and "j < length bs" and "x \<in> set (bs ! i)" and "x \<in> set (bs ! j)"
  shows "i = j"
proof (rule ccontr)
  assume "i \<noteq> j"
  obtain us vs where "concat bs = us @ bs ! i @ vs" and u: "\<And>b. concat (bs[i := b]) = us @ b @ vs"
    using concat_upd [OF assms(2)] by blast
  moreover have "x \<in> set (concat (bs[i := []]))"
    using assms(3,5) \<open>i \<noteq> j\<close> by (auto simp: in_set_conv_nth [of _ "bs[i := []]"] intro!: bexI [of _ "bs ! j"] exI [of _ j])
  ultimately show False using assms(1,4) by (auto simp: map_shape_def)
qed

text \<open>A change of the links that leaves the other buckets and the free list alone.\<close>

lemma shape_upd:
  assumes s: "map_shape nxt rs fr bs fs" and i: "i < length rs"
    and c: "chain nxt' r b"
    and same: "\<And>a. a \<in> set (concat bs @ fs) \<Longrightarrow> a \<notin> set (bs ! i) \<Longrightarrow> nxt' a = nxt a"
    and fr: "chain nxt' fr' fs'" and b: "set b \<union> set fs' \<subseteq> insert p (set (bs ! i) \<union> set fs)" "set b \<inter> set fs' = {}"
      "p \<notin> set (concat bs @ fs) \<or> p \<in> set (bs ! i)"
  shows "map_shape nxt' (rs[i := r]) fr' (bs[i := b]) fs'"
proof -
  have len: "length bs = length rs" using map_shape_length [OF s] .
  obtain us vs where u: "concat bs = us @ bs ! i @ vs" "\<And>b. concat (bs[i := b]) = us @ b @ vs"
    using concat_upd [of i bs] i len by auto
  have "chain nxt' (rs[i := r] ! j) (bs[i := b] ! j)" if "j < length rs" for j
  proof (cases "j = i")
    case False
    have "nxt' a = nxt a" if "a \<in> set (bs ! j)" for a
      using same [of a] that shape_disjoint [OF s, of i j a] shape_set [of j bs] False \<open>j < length rs\<close> i len by auto
    from path_cong_links [of "bs ! j" nxt' nxt, OF this] show ?thesis using False shape_chain [OF s \<open>j < length rs\<close>] by simp
  qed (use c i len in simp)
  moreover have "distinct (concat (bs[i := b]) @ fs')"
    using s b chain_distinct [OF c] chain_distinct [OF fr] unfolding map_shape_def u by auto
  ultimately show ?thesis using fr len by (simp add: map_shape_def list_all2_conv_all_nth)
qed

lemma shape_push:
  assumes s: "map_shape nxt rs fr bs fs" and "i < length rs" and "p \<notin> set (concat bs @ fs)"
  shows "map_shape (nxt(p := rs ! i)) (rs[i := Some p]) fr (bs[i := p # bs ! i]) fs"
proof (rule shape_upd [OF s assms(2), where p = p])
  have "p \<notin> set (bs ! i)" using assms map_shape_length [OF s] shape_set [of i bs] by auto
  then show "chain (nxt(p := rs ! i)) (Some p) (p # bs ! i)" using shape_chain [OF s assms(2)] by simp
  show "set (p # bs ! i) \<inter> set fs = {}"
    using assms map_shape_length [OF s] shape_set [of i bs] by (auto simp: map_shape_def)
qed (use assms in \<open>auto simp: map_shape_def\<close>)

lemma shape_extend:
  assumes s: "map_shape nxt rs fr bs fs" and i: "i < length rs" and p: "p \<notin> set (concat bs @ fs)" and ne: "bs ! i \<noteq> []"
  shows "map_shape (nxt(last (bs ! i) := Some p, p := None)) rs fr (bs[i := bs ! i @ [p]]) fs"
proof -
  have sub: "set (bs ! i) \<subseteq> set (concat bs)" using shape_set [of i bs] i map_shape_length [OF s] by simp
  with p have fresh: "p \<notin> set (bs ! i)" by auto
  then have lp: "last (bs ! i) \<noteq> p" using ne last_in_set by metis
  have "chain (nxt(p := None)) (rs ! i) (bs ! i)" using shape_chain [OF s i] fresh by simp
  from chain_extend [OF this ne fresh] have c: "chain (nxt(last (bs ! i) := Some p, p := None)) (rs ! i) (bs ! i @ [p])"
    using lp by (simp add: fun_upd_twist)
  have l: "last (bs ! i) \<in> set (bs ! i)" using ne by simp
  then have "last (bs ! i) \<notin> set fs" using sub s by (auto simp: map_shape_def)
  then have f: "chain (nxt(last (bs ! i) := Some p, p := None)) fr fs" using s p by (simp add: map_shape_def)
  have "map_shape (nxt(last (bs ! i) := Some p, p := None)) (rs[i := rs ! i]) fr (bs[i := bs ! i @ [p]]) fs"
    by (rule shape_upd [OF s i c _ f, where p = p]) (use p l sub s in \<open>auto simp: map_shape_def\<close>)
  then show ?thesis by simp
qed

lemma shape_delist:
  assumes s: "map_shape (Next h) rs fr bs fs" and i: "i < length rs" and x: "x \<in> set (bs ! i)"
  obtains h' r' where "LinkedObject_delist h x (rs ! i) = Some (h', r')"
    and "map_shape ((Next h')(x := fr)) (rs[i := r']) (Some x) (bs[i := remove1 x (bs ! i)]) (x # fs)"
proof -
  obtain us vs where b: "bs ! i = us @ x # vs" and xu: "x \<notin> set us" using split_list_first [OF x] by blast
  have c: "path (Next h) (rs ! i) us (Some x)" "chain (Next h) (Next h x) vs" "x \<notin> set vs"
    using shape_chain [OF s i] b chain_distinct [OF shape_chain [OF s i]] by (auto simp: path_append)
  have rm: "remove1 x (bs ! i) = us @ vs" using b xu by (simp add: remove1_append)
  have sub: "set (bs ! i) \<subseteq> set (concat bs)" using shape_set [of i bs] i map_shape_length [OF s] by simp
  have dis: "set (bs ! i) \<inter> set fs = {}" using s sub by (auto simp: map_shape_def)
  obtain h' r' where hr: "(h', r') = (if us = [] then (h, Next h x) else (h\<lparr>Next := (Next h)(last us := Next h x)\<rparr>, rs ! i))"
    by (metis surj_pair)
  have d: "LinkedObject_delist h x (rs ! i) = Some (h', r')"
    using delist_scan_found [OF c(1) xu, of None] hr by (auto simp: LinkedObject_delist_def split: if_splits)
  have "map_shape ((Next h')(x := fr)) (rs[i := r']) (Some x) (bs[i := us @ vs]) (x # fs)"
  proof (rule shape_upd [OF s i, where p = x])
    have "chain (Next h') r' (us @ vs)"
    proof (cases us rule: rev_cases)
      case (snoc us' u)
      then show ?thesis using shape_chain [OF s i] b hr chain_bypass [of "Next h" "rs ! i" us' u x vs] by simp
    qed (use hr c in simp)
    then show "chain ((Next h')(x := fr)) r' (us @ vs)" using xu c(3) by simp
    show "((Next h')(x := fr)) a = Next h a" if "a \<notin> set (bs ! i)" for a
      using that hr b by (cases "us = []") (auto dest: last_in_set)
    have "last us \<notin> set fs" if "us \<noteq> []" using dis b that by (metis IntI Un_iff empty_iff last_in_set set_append)
    then have "chain (Next h') fr fs" using s hr by (cases "us = []") (auto simp: map_shape_def)
    moreover have "x \<notin> set fs" using dis x by blast
    ultimately show "chain ((Next h')(x := fr)) (Some x) (x # fs)" by simp
  qed (use b dis xu c(3) x in auto)
  with d rm that show ?thesis by metis
qed

lemma last_scan_found:
  "path (Next h) p (us @ [u]) (Some x) \<Longrightarrow> x \<notin> set (us @ [u]) \<Longrightarrow> last_scan h x p = Some (Some u)"
proof (induction us arbitrary: p)
  case (Cons a us)
  then have "Next h a \<noteq> Some x" by (cases us) auto
  with Cons show ?case by (simp add: last_scan.simps [of h x "Some a"])
qed (simp add: last_scan.simps [of h x "Some u"] path_append)

section \<open>Invariant\<close>

text \<open>How often an object is a key or a value of the nodes of a list.\<close>

definition occurs :: "mapref \<Rightarrow> nat \<Rightarrow> addr list \<Rightarrow> nat" where
  "occurs m a xs = count_list (map (key_of m) xs) (Some a) + count_list (map (value_of m) xs) (Some a)"

definition map_inv :: "mapref \<Rightarrow> addr list list \<Rightarrow> addr list \<Rightarrow> bool" where
  "map_inv m bs fs \<longleftrightarrow>
     roots m \<noteq> [] \<and> map_shape (Next (links m)) (roots m) (mfree m) bs fs \<and>
     (\<forall>a\<in>set (concat bs @ fs). a < malloc m) \<and> mcount m = length (concat bs) \<and>
     (\<forall>a. refs m a = int (occurs m a (concat bs))) \<and>
     (\<forall>x. mlast m = Some x \<longrightarrow> bs ! 0 \<noteq> [] \<and> x = last (bs ! 0))"

lemma occurs_append [simp]: "occurs m a (xs @ ys) = occurs m a xs + occurs m a ys"
  by (simp add: occurs_def)

lemma occurs_Cons:
  "occurs m a (x # xs) = (if key_of m x = Some a then 1 else 0) + (if value_of m x = Some a then 1 else 0) + occurs m a xs"
  by (simp add: occurs_def)

lemma occurs_cong:
  "(\<And>x. x \<in> set xs \<Longrightarrow> key_of m' x = key_of m x \<and> value_of m' x = value_of m x) \<Longrightarrow> occurs m' a xs = occurs m a xs"
  by (simp add: occurs_def cong: map_cong)

lemma refs_retain_obj: "refs (retain_obj obj m) a = refs m a + (if obj = Some a then 1 else 0)"
  by (cases obj) (auto simp: retain_obj_def)

lemma refs_release_obj: "refs (release_obj obj m) a = refs m a - (if obj = Some a then 1 else 0)"
  by (cases obj) (auto simp: release_obj_def)

lemma retain_same [simp]:
  "links (retain_obj obj m) = links m" "roots (retain_obj obj m) = roots m" "mfree (retain_obj obj m) = mfree m"
  "mlast (retain_obj obj m) = mlast m" "mcount (retain_obj obj m) = mcount m" "malloc (retain_obj obj m) = malloc m"
  "key_of (retain_obj obj m) = key_of m" "value_of (retain_obj obj m) = value_of m"
  by (simp_all add: retain_obj_def split: option.split)

lemma release_same [simp]:
  "links (release_obj obj m) = links m" "roots (release_obj obj m) = roots m" "mfree (release_obj obj m) = mfree m"
  "mlast (release_obj obj m) = mlast m" "mcount (release_obj obj m) = mcount m" "malloc (release_obj obj m) = malloc m"
  "key_of (release_obj obj m) = key_of m" "value_of (release_obj obj m) = value_of m"
  by (simp_all add: release_obj_def split: option.split)

lemma map_inv_new: "0 < n \<Longrightarrow> map_inv (Map_new n) (replicate n []) []"
  by (simp add: map_inv_def Map_new_def map_shape_def empty_heap_def list_all2_conv_all_nth occurs_def)

lemma map_inv_shape:
  "map_inv m bs fs \<Longrightarrow> map_shape (Next (links m)) (roots m) (mfree m) bs fs \<and> length bs = length (roots m) \<and> roots m \<noteq> []"
  using map_shape_length by (auto simp: map_inv_def)

lemma take_node_inv:
  assumes "map_inv m bs fs" and "take_node m = (p, m1)"
  obtains fs1 where "map_inv m1 bs fs1" and "p \<notin> set (concat bs @ fs1)" and "p < malloc m1"
    and "roots m1 = roots m" and "mlast m1 = mlast m" and "key_of m1 = key_of m" and "value_of m1 = value_of m"
proof (cases "mfree m")
  case None
  then have "fs = []" using assms(1) by (auto simp: map_inv_def map_shape_def)
  show ?thesis
    by (rule that [of fs])
      (use assms None in \<open>auto simp: map_inv_def take_node_def occurs_def less_Suc_eq\<close>)
next
  case (Some q)
  then obtain fs1 where fs: "fs = q # fs1" "chain (Next (links m)) (Next (links m) q) fs1"
    using assms(1) by (auto simp: map_inv_def map_shape_def chain_Some)
  show ?thesis
    by (rule that [of fs1])
      (use assms Some fs in \<open>auto simp: map_inv_def take_node_def occurs_def map_shape_def\<close>)
qed

lemma take_node_writer: "take_node (m\<lparr>writer := w\<rparr>) = (fst (take_node m), (snd (take_node m))\<lparr>writer := w\<rparr>)"
  by (simp add: take_node_def split: option.split)

text \<open>A new node in bucket \<open>i\<close>, in front or at the end.\<close>

lemma map_inv_insert:
  assumes inv: "map_inv m bs fs" and i: "i < length bs" and p: "p \<notin> set (concat bs @ fs)" "p < malloc m"
    and b: "b = us @ p # vs" "bs ! i = us @ vs"
    and s: "map_shape (Next (links m')) (roots m') (mfree m') (bs[i := b]) fs" and ne: "roots m' \<noteq> []"
    and same: "malloc m' = malloc m" "mcount m' = mcount m + 1"
    and e: "key_of m' = (key_of m)(p := k)" "value_of m' = (value_of m)(p := v)"
    and r: "\<And>a. refs m' a = refs m a + (if k = Some a then 1 else 0) + (if v = Some a then 1 else 0)"
    and l: "\<And>x. mlast m' = Some x \<Longrightarrow> bs[i := b] ! 0 \<noteq> [] \<and> x = last (bs[i := b] ! 0)"
  shows "map_inv m' (bs[i := b]) fs"
proof -
  obtain cs ds where c: "concat bs = cs @ bs ! i @ ds" "\<And>b. concat (bs[i := b]) = cs @ b @ ds"
    using concat_upd [OF i] by blast
  have o: "occurs m' a xs = occurs m a xs" if "p \<notin> set xs" for a xs
    using e that by (intro occurs_cong) auto
  have "refs m' a = int (occurs m' a (concat (bs[i := b])))" for a
    using inv r [of a] p o e unfolding c b map_inv_def by (simp add: occurs_Cons)
  then show ?thesis using inv s ne p same l unfolding map_inv_def c b by auto
qed

definition entry :: "mapref \<Rightarrow> addr \<Rightarrow> nat option \<times> nat option" where
  "entry m x = (key_of m x, value_of m x)"

lemma entries_insert:
  assumes "i < length bs" and "p \<notin> set (concat bs)" and "bs ! i = us @ vs"
    and "key_of m' = (key_of m)(p := k)" and "value_of m' = (value_of m)(p := v)"
  shows "map (map (entry m')) (bs[i := us @ p # vs]) = (map (map (entry m)) bs)[i := map (entry m) us @ (k, v) # map (entry m) vs]"
proof -
  have e: "map (entry m') xs = map (entry m) xs" if "p \<notin> set xs" for xs
    using assms(4,5) that by (auto simp: entry_def)
  have f: "p \<notin> set xs" if "xs \<in> set bs" for xs using assms(2) that by auto
  have "map (map (entry m')) bs = map (map (entry m)) bs" using e f by auto
  moreover have "p \<notin> set us" "p \<notin> set vs" using f [OF nth_mem [OF assms(1)]] assms(3) by auto
  moreover have "entry m' p = (k, v)" using assms(4,5) by (simp add: entry_def)
  ultimately show ?thesis by (simp only: map_update list.map map_append e not_False_eq_True)
qed

section \<open>Operations on the invariant\<close>

lemma MapRef_add_inv:
  assumes inv: "map_inv m bs fs" and i: "i = key mod length (roots m)"
  obtains bs' fs' where "map_inv (MapRef_add key k v m) bs' fs'"
    and "map (map (entry (MapRef_add key k v m))) bs' = (map (map (entry m)) bs)[i := (k, v) # map (map (entry m)) bs ! i]"
    and "mlast (MapRef_add key k v m) = mlast m"
proof -
  obtain p m1 where t: "take_node m = (p, m1)" by (cases "take_node m")
  obtain fs1 where n: "map_inv m1 bs fs1" "p \<notin> set (concat bs @ fs1)" "p < malloc m1" "roots m1 = roots m"
      "mlast m1 = mlast m" "key_of m1 = key_of m" "value_of m1 = value_of m"
    using take_node_inv [OF inv t] by metis
  have s: "map_shape (Next (links m1)) (roots m) (mfree m1) bs fs1" "length bs = length (roots m)" "roots m \<noteq> []"
    using map_inv_shape [OF n(1)] n(4) by auto
  then have ib: "i < length bs" using i by simp
  let ?m = "MapRef_add key k v m"
  have d: "?m = set_entry p k v (Index_new_root p i (m1\<lparr>mcount := mcount m1 + 1\<rparr>))"
    using s(3) n(4) i t by (simp add: MapRef_add_def Map_create_def)
  have f: "links ?m = (links m1)\<lparr>Next := (Next (links m1))(p := roots m ! i)\<rparr>" "roots ?m = (roots m)[i := Some p]"
      "mfree ?m = mfree m1" "mlast ?m = mlast m1" "malloc ?m = malloc m1" "mcount ?m = mcount m1 + 1"
      "key_of ?m = (key_of m1)(p := k)" "value_of ?m = (value_of m1)(p := v)"
    unfolding d by (simp_all add: set_entry_def Index_new_root_def LinkedObject_new_root_def LinkedObject_enlist_def n(4))
  have "map_inv ?m (bs[i := p # bs ! i]) fs1"
  proof (rule map_inv_insert [OF n(1) ib n(2,3), where us = "[]" and vs = "bs ! i"])
    show "map_shape (Next (links ?m)) (roots ?m) (mfree ?m) (bs[i := p # bs ! i]) fs1"
      using shape_push [OF s(1) _ n(2)] ib s(2) f by simp
    show "refs ?m a = refs m1 a + (if k = Some a then 1 else 0) + (if v = Some a then 1 else 0)" for a
      unfolding d by (simp add: set_entry_def refs_retain_obj Index_new_root_def LinkedObject_new_root_def LinkedObject_enlist_def)
    show "mlast ?m = Some x \<Longrightarrow> bs[i := p # bs ! i] ! 0 \<noteq> [] \<and> x = last (bs[i := p # bs ! i] ! 0)" for x
      using n(1) ib f(4) by (cases "i = 0") (auto simp: map_inv_def)
  qed (use f s(3) in auto)
  moreover have "map (map (entry ?m)) (bs[i := [] @ p # bs ! i]) = (map (map (entry m1)) bs)[i := map (entry m1) [] @ (k, v) # map (entry m1) (bs ! i)]"
    using entries_insert [OF ib, of p "[]" "bs ! i" ?m m1 k v] n(2) f by simp
  moreover have "entry m1 = entry m" using n(6,7) by (simp add: entry_def fun_eq_iff)
  ultimately show ?thesis using that ib f(4) n(5) by simp
qed

lemma MapRef_append_inv:
  assumes inv: "map_inv m bs fs" and l: "mlast m \<noteq> None \<or> bs ! 0 = []"
  obtains bs' fs' where "map_inv (MapRef_append v m) bs' fs'"
    and "map (map (entry (MapRef_append v m))) bs' = (map (map (entry m)) bs)[0 := map (map (entry m)) bs ! 0 @ [(None, v)]]"
    and "mlast (MapRef_append v m) \<noteq> None"
proof -
  obtain p m1 where t: "take_node m = (p, m1)" by (cases "take_node m")
  obtain fs1 where n: "map_inv m1 bs fs1" "p \<notin> set (concat bs @ fs1)" "p < malloc m1" "roots m1 = roots m"
      "mlast m1 = mlast m" "key_of m1 = key_of m" "value_of m1 = value_of m"
    using take_node_inv [OF inv t] by metis
  have s: "map_shape (Next (links m1)) (roots m) (mfree m1) bs fs1" "length bs = length (roots m)" "roots m \<noteq> []"
    using map_inv_shape [OF n(1)] n(4) by auto
  then have ib: "0 < length bs" by simp
  let ?m = "MapRef_append v m"
  let ?nx = "Next (links m1)"
  have lp: "x = last (bs ! 0) \<and> bs ! 0 \<noteq> [] \<and> x \<noteq> p" if "mlast m = Some x" for x
  proof -
    have x: "x = last (bs ! 0)" "bs ! 0 \<noteq> []" using n(1,5) that by (auto simp: map_inv_def)
    then have "x \<in> set (concat bs)" using shape_set [OF ib] last_in_set by blast
    with x n(2) show ?thesis by auto
  qed
  have f: "Next (links ?m) = (case mlast m of Some x \<Rightarrow> ?nx(x := Some p, p := None) | None \<Rightarrow> ?nx(p := None))"
      "roots ?m = (case mlast m of Some x \<Rightarrow> roots m | None \<Rightarrow> (roots m)[0 := Some p])"
      "mfree ?m = mfree m1" "mlast ?m = Some p" "malloc ?m = malloc m1" "mcount ?m = mcount m1 + 1"
      "key_of ?m = (key_of m1)(p := None)" "value_of ?m = (value_of m1)(p := v)"
      "\<And>a. refs ?m a = refs m1 a + (if v = Some a then 1 else 0)"
    using s(3) n(4,5) t
    by (auto simp: take_node_writer MapRef_append_def Map_append_def set_entry_def Index_new_def LinkedObject_new_def set_next_def Let_def
        refs_retain_obj fun_eq_iff split: option.split)
  have "map_inv ?m (bs[0 := bs ! 0 @ [p]]) fs1"
  proof (rule map_inv_insert [OF n(1) ib n(2,3), where us = "bs ! 0" and vs = "[]"])
    show "map_shape (Next (links ?m)) (roots ?m) (mfree ?m) (bs[0 := bs ! 0 @ [p]]) fs1"
    proof (cases "mlast m")
      case None
      then have "bs ! 0 = []" "roots m ! 0 = None" using l shape_chain [OF s(1), of 0] ib s(2) by auto
      then show ?thesis using shape_push [OF s(1) _ n(2), of 0] ib s(2) f None by simp
    next
      case (Some x)
      then show ?thesis using shape_extend [OF s(1) _ n(2), of 0] lp [OF Some] ib s(2) f by simp
    qed
  qed (use f s(3) ib in \<open>auto split: option.split\<close>)
  moreover have "map (map (entry ?m)) (bs[0 := bs ! 0 @ p # []]) = (map (map (entry m1)) bs)[0 := map (entry m1) (bs ! 0) @ (None, v) # map (entry m1) []]"
    using entries_insert [OF ib, of p "bs ! 0" "[]" ?m m1 None v] n(2) f by simp
  moreover have "entry m1 = entry m" using n(6,7) by (simp add: entry_def fun_eq_iff)
  ultimately show ?thesis using that ib f(4) by simp
qed

lemma remove1_nth: "distinct xs \<Longrightarrow> n < length xs \<Longrightarrow> remove1 (xs ! n) xs = take n xs @ drop (Suc n) xs"
proof -
  assume d: "distinct xs" and n: "n < length xs"
  have "xs ! n \<notin> set (take n xs)" using d n by (auto simp: in_set_conv_nth nth_eq_iff_index_eq)
  then show ?thesis using id_take_nth_drop [OF n] by (metis remove1.simps(2) remove1_append)
qed

lemma occurs_remove1:
  "x \<in> set xs \<Longrightarrow> occurs m a xs =
     occurs m a (remove1 x xs) + (if key_of m x = Some a then 1 else 0) + (if value_of m x = Some a then 1 else 0)"
  by (induction xs) (auto simp: occurs_Cons)

text \<open>The new last node of a bucket whose last node is removed.\<close>

lemma last_removed:
  assumes c: "chain (Next h) r b" and "b \<noteq> []" and x: "x = last b"
  shows "(if r = Some x then Some None else last_scan h x r) =
    Some (if remove1 x b = [] then None else Some (last (remove1 x b)))"
proof -
  obtain us where b: "b = us @ [x]" using assms(2) x append_butlast_last_id by metis
  then have xu: "x \<notin> set us" using chain_distinct [OF c] by simp
  then have rm: "remove1 x b = us" using b by (simp add: remove1_append)
  show ?thesis
  proof (cases us rule: rev_cases)
    case Nil
    with b c rm show ?thesis by simp
  next
    case (snoc vs u)
    then have "path (Next h) r (vs @ [u]) (Some x)" "r \<noteq> Some x" using c b xu by (auto simp: path_append) (cases vs; auto)
    then show ?thesis using last_scan_found [of h r vs u x] snoc xu rm by simp
  qed
qed

lemma last_remove1: "distinct xs \<Longrightarrow> xs \<noteq> [] \<Longrightarrow> x \<noteq> last xs \<Longrightarrow> remove1 x xs \<noteq> [] \<and> last (remove1 x xs) = last xs"
  by (cases xs rule: rev_cases) (auto simp: remove1_append)

lemma Map_remove_inv:
  assumes inv: "map_inv m bs fs" and i: "i = key mod length (roots m)" and x: "x \<in> set (bs ! i)"
  obtains m' where "Map_remove (Some x) key m = Some m'" and "map_inv m' (bs[i := remove1 x (bs ! i)]) (x # fs)"
    and "key_of m' = key_of m" and "value_of m' = value_of m"
    and "mlast m' \<noteq> None \<longleftrightarrow> mlast m \<noteq> None \<and> bs[i := remove1 x (bs ! i)] ! 0 \<noteq> []"
proof -
  have s: "map_shape (Next (links m)) (roots m) (mfree m) bs fs" "length bs = length (roots m)" "roots m \<noteq> []"
    using map_inv_shape [OF inv] by auto
  then have ir: "i < length (roots m)" using i by simp
  have c: "chain (Next (links m)) (roots m ! i) (bs ! i)" by (rule shape_chain [OF s(1) ir])
  obtain h' r' where d: "LinkedObject_delist (links m) x (roots m ! i) = Some (h', r')"
      "map_shape ((Next h')(x := mfree m)) ((roots m)[i := r']) (Some x) (bs[i := remove1 x (bs ! i)]) (x # fs)"
    using shape_delist [OF s(1) ir x] by metis
  define l where "l = (if mlast m = Some x then (if remove1 x (bs ! i) = [] then None else Some (last (remove1 x (bs ! i)))) else mlast m)"
  have i0: "i = 0 \<and> bs ! 0 \<noteq> [] \<and> x = last (bs ! 0)" if "mlast m = Some x"
  proof -
    have "bs ! 0 \<noteq> []" "x = last (bs ! 0)" using inv that by (auto simp: map_inv_def)
    moreover from this have "i = 0" using shape_disjoint [OF s(1), of i 0 x] x ir s(2) s(3) by auto
    ultimately show ?thesis by simp
  qed
  define m' where "m' = (release_obj (value_of m x) (release_obj (key_of m x) m))\<lparr>mcount := mcount m - 1, mlast := l,
      links := h'\<lparr>Next := (Next h')(x := mfree m)\<rparr>, roots := (roots m)[i := r'], mfree := Some x\<rparr>"
  have "(if mlast m = Some x then (if roots m ! i = Some x then Some None else last_scan (links m) x (roots m ! i)) else Some (mlast m)) = Some l"
    using last_removed [OF c] i0 by (auto simp: l_def)
  then have r: "Map_remove (Some x) key m = Some m'"
    using d(1) i by (auto simp: Map_remove_def Let_def LinkedObject_enlist_def m'_def split: if_splits)
  obtain cs ds where k: "concat bs = cs @ bs ! i @ ds" "\<And>b. concat (bs[i := b]) = cs @ b @ ds"
    using concat_upd [of i bs] ir s(2) by auto
  have f: "key_of m' = key_of m" "value_of m' = value_of m" "mlast m' = l" "malloc m' = malloc m" by (simp_all add: m'_def)
  have o: "occurs m' a ys = occurs m a ys" for a ys by (simp add: occurs_def f)
  have lst: "mlast m' = Some z \<Longrightarrow> bs[i := remove1 x (bs ! i)] ! 0 \<noteq> [] \<and> z = last (bs[i := remove1 x (bs ! i)] ! 0)" for z
    using inv i0 ir s(2) last_remove1 [OF chain_distinct [OF c], of x] unfolding f l_def
    by (cases "i = 0"; cases "mlast m = Some x") (auto simp: map_inv_def split: if_splits)
  have "map_inv m' (bs[i := remove1 x (bs ! i)]) (x # fs)"
    unfolding map_inv_def
  proof (intro conjI allI impI)
    show "map_shape (Next (links m')) (roots m') (mfree m') (bs[i := remove1 x (bs ! i)]) (x # fs)"
      using d(2) by (simp add: m'_def)
    show "refs m' a = int (occurs m' a (concat (bs[i := remove1 x (bs ! i)])))" for a
      using inv occurs_remove1 [OF x, of m a] unfolding o k map_inv_def by (simp add: m'_def refs_release_obj)
    show "mcount m' = length (concat (bs[i := remove1 x (bs ! i)]))"
    proof -
      have "length (bs ! i) = Suc (length (remove1 x (bs ! i)))"
        using x length_pos_if_in_set [OF x] length_remove1 [of x "bs ! i"] by arith
      then show ?thesis using inv unfolding k map_inv_def by (simp add: m'_def)
    qed
    show "\<forall>a\<in>set (concat (bs[i := remove1 x (bs ! i)]) @ x # fs). a < malloc m'"
      using inv x set_remove1_subset [of x "bs ! i"] unfolding k map_inv_def f by auto
  qed (use s(3) lst in \<open>auto simp: m'_def\<close>)
  moreover have "mlast m' \<noteq> None \<longleftrightarrow> mlast m \<noteq> None \<and> bs[i := remove1 x (bs ! i)] ! 0 \<noteq> []"
  proof
    show "mlast m \<noteq> None \<and> bs[i := remove1 x (bs ! i)] ! 0 \<noteq> []" if "mlast m' \<noteq> None"
      using that lst by (auto simp: f l_def split: if_splits)
    show "mlast m' \<noteq> None" if "mlast m \<noteq> None \<and> bs[i := remove1 x (bs ! i)] ! 0 \<noteq> []"
      unfolding f using that i0 ir s(2) by (cases "mlast m = Some x") (simp_all add: l_def)
  qed
  ultimately show ?thesis using that r f by blast
qed

lemma MapRef_update_inv:
  assumes inv: "map_inv m bs fs" and x: "x \<in> set (concat bs)"
  shows "map_inv (MapRef_update (Some x) v m) bs fs"
proof -
  let ?m = "MapRef_update (Some x) v m"
  obtain us ws where c: "concat bs = us @ x # ws" using split_list [OF x] by blast
  have "distinct (concat bs)" using inv by (simp add: map_inv_def map_shape_def)
  then have "x \<notin> set us" "x \<notin> set ws" unfolding c by auto
  then have o: "occurs ?m a us = occurs m a us" "occurs ?m a ws = occurs m a ws" for a
    by (auto intro!: occurs_cong simp: MapRef_update_def)
  have "refs ?m a = int (occurs ?m a (concat bs))" for a
    using inv o [of a] unfolding map_inv_def c by (simp add: occurs_Cons MapRef_update_def refs_retain_obj refs_release_obj)
  then show ?thesis using inv by (simp add: map_inv_def MapRef_update_def)
qed

section \<open>Refinement\<close>

text \<open>
  What a map is: the entries of every bucket in order, and whether the last node of the first bucket is known, as it must be for
  a list. A node is found as the member \<open>n\<close> of the chain that \<open>access\<close> and \<open>modify\<close> return for a key.
\<close>

type_synonym map_entries = "(nat option \<times> nat option) list list"

definition map_rep :: "mapref \<Rightarrow> bool \<Rightarrow> map_entries \<Rightarrow> bool" where
  "map_rep m f es \<longleftrightarrow> (\<exists>bs fs. map_inv m bs fs \<and> es = map (map (entry m)) bs \<and> f = (mlast m \<noteq> None))"

datatype mapcmd =
    MapAdd nat "nat option" "nat option"
  | MapAppend "nat option"
  | MapRemove nat nat
  | MapUpdate nat nat "nat option"

definition map_node :: "mapref \<Rightarrow> nat \<Rightarrow> nat \<Rightarrow> ptr" where
  "map_node m key n = LinkedObject_getIndexed (links m) (fst (MapRef_access key m)) n"

fun map_exec :: "mapref \<Rightarrow> mapcmd \<Rightarrow> mapref option" where
  "map_exec m (MapAdd key k v) = Some (MapRef_add key k v m)"
| "map_exec m (MapAppend v) = Some (MapRef_append v m)"
| "map_exec m (MapRemove key n) = Map_remove (map_node m key n) key m"
| "map_exec m (MapUpdate key n v) = Some (MapRef_update (map_node m key n) v m)"

fun map_spec :: "bool \<times> map_entries \<Rightarrow> mapcmd \<Rightarrow> bool \<times> map_entries" where
  "map_spec (f, es) (MapAdd key k v) =
     (let i = key mod length es in (f, es[i := (k, v) # es ! i]))"
| "map_spec (f, es) (MapAppend v) = (True, es[0 := es ! 0 @ [(None, v)]])"
| "map_spec (f, es) (MapRemove key n) =
     (let i = key mod length es; es' = es[i := take n (es ! i) @ drop (Suc n) (es ! i)] in (f \<and> es' ! 0 \<noteq> [], es'))"
| "map_spec (f, es) (MapUpdate key n v) =
     (let i = key mod length es in (f, es[i := (es ! i)[n := (fst (es ! i ! n), v)]]))"

fun map_pre :: "bool \<times> map_entries \<Rightarrow> mapcmd \<Rightarrow> bool" where
  "map_pre (f, es) (MapAppend v) \<longleftrightarrow> f \<or> es ! 0 = []"
| "map_pre (f, es) c \<longleftrightarrow> True"

fun map_run :: "mapref \<Rightarrow> mapcmd list \<Rightarrow> mapref option" where
  "map_run m [] = Some m"
| "map_run m (c # cs) = Option.bind (map_exec m c) (\<lambda>m. map_run m cs)"

fun map_pre_run :: "bool \<times> map_entries \<Rightarrow> mapcmd list \<Rightarrow> bool" where
  "map_pre_run s [] \<longleftrightarrow> True"
| "map_pre_run s (c # cs) \<longleftrightarrow> map_pre s c \<and> map_pre_run (map_spec s c) cs"

lemma map_node_inv:
  assumes "map_inv m bs fs" and "i = key mod length (roots m)"
  shows "map_node m key n = (if n < length (bs ! i) then Some (bs ! i ! n) else None)"
proof -
  have s: "map_shape (Next (links m)) (roots m) (mfree m) bs fs" "roots m \<noteq> []" using map_inv_shape [OF assms(1)] by auto
  then have "chain (Next (links m)) (roots m ! i) (bs ! i)" using shape_chain [OF s(1), of i] assms(2) by simp
  from getIndexed_chain [OF this, of n] show ?thesis using s(2) assms(2) by (simp add: map_node_def MapRef_access_def)
qed

lemma map_rep_remove:
  assumes "map_rep m f es" and i: "i = key mod length es"
  shows "\<exists>m'. map_exec m (MapRemove key n) = Some m' \<and>
    map_rep m' (fst (map_spec (f, es) (MapRemove key n))) (snd (map_spec (f, es) (MapRemove key n)))"
proof -
  obtain bs fs where r: "map_inv m bs fs" "es = map (map (entry m)) bs" "f = (mlast m \<noteq> None)"
    using assms(1) by (auto simp: map_rep_def)
  have s: "map_shape (Next (links m)) (roots m) (mfree m) bs fs" "length bs = length (roots m)" "roots m \<noteq> []"
    using map_inv_shape [OF r(1)] by auto
  then have i': "i = key mod length (roots m)" and ib: "i < length bs" using i r(2) by auto
  note node = map_node_inv [OF r(1) i', of n]
  have ei: "es ! i = map (entry m) (bs ! i)" using r(2) ib by simp
  have le: "length es = length (roots m)" using r(2) s(2) by simp
  show ?thesis
  proof (cases "n < length (bs ! i)")
    case False
    then have "es[i := take n (es ! i) @ drop (Suc n) (es ! i)] = es" using ei list_update_id [of es i] by simp
    then have "map_spec (f, es) (MapRemove key n) = (f \<and> es ! 0 \<noteq> [], es)" using i by (simp add: Let_def)
    moreover have "es ! 0 = map (entry m) (bs ! 0)" using r(2) ib by (metis gr_implies_not0 length_greater_0_conv list.size(3) nth_map)
    then have "(f \<and> es ! 0 \<noteq> []) = f" using r(1,3) by (auto simp: map_inv_def)
    ultimately show ?thesis using node False assms(1) by (simp add: Map_remove_def)
  next
    case True
    let ?b = "remove1 (bs ! i ! n) (bs ! i)"
    obtain m' where m': "Map_remove (Some (bs ! i ! n)) key m = Some m'" "map_inv m' (bs[i := ?b]) (bs ! i ! n # fs)"
        "key_of m' = key_of m" "value_of m' = value_of m" "mlast m' \<noteq> None \<longleftrightarrow> mlast m \<noteq> None \<and> bs[i := ?b] ! 0 \<noteq> []"
      using Map_remove_inv [OF r(1) i' nth_mem [OF True]] by metis
    have e: "entry m' = entry m" using m' by (simp add: entry_def fun_eq_iff)
    have b: "?b = take n (bs ! i) @ drop (Suc n) (bs ! i)"
      using remove1_nth [OF _ True] chain_distinct [OF shape_chain [OF s(1)]] ib s(2) by simp
    have "es[i := take n (es ! i) @ drop (Suc n) (es ! i)] = map (map (entry m')) (bs[i := ?b])"
      unfolding e b ei unfolding r(2) by (simp add: map_update take_map drop_map)
    moreover have "map (map (entry m')) (bs[i := ?b]) ! 0 \<noteq> [] \<longleftrightarrow> bs[i := ?b] ! 0 \<noteq> []"
      using ib by (subst nth_map) auto
    ultimately show ?thesis using m' node True r(3) le i' by (auto simp: Let_def map_rep_def)
  qed
qed

lemma map_rep_update:
  assumes "map_rep m f es" and i: "i = key mod length es"
  shows "map_rep (MapRef_update (map_node m key n) v m) f (es[i := (es ! i)[n := (fst (es ! i ! n), v)]])"
proof -
  obtain bs fs where r: "map_inv m bs fs" "es = map (map (entry m)) bs" "f = (mlast m \<noteq> None)"
    using assms(1) by (auto simp: map_rep_def)
  have s: "map_shape (Next (links m)) (roots m) (mfree m) bs fs" "length bs = length (roots m)" "roots m \<noteq> []"
    using map_inv_shape [OF r(1)] by auto
  then have i': "i = key mod length (roots m)" and ib: "i < length bs" using i r(2) by auto
  have ei: "es ! i = map (entry m) (bs ! i)" using r(2) ib by simp
  show ?thesis
  proof (cases "n < length (bs ! i)")
    case False
    then have "(es ! i)[n := (fst (es ! i ! n), v)] = es ! i" using ei by (intro list_update_beyond) simp
    then show ?thesis using map_node_inv [OF r(1) i', of n] False assms(1) by (simp add: MapRef_update_def)
  next
    case True
    let ?x = "bs ! i ! n" and ?m = "MapRef_update (Some (bs ! i ! n)) v m"
    have x: "?x \<in> set (bs ! i)" using True by simp
    have "map_inv ?m bs fs" using MapRef_update_inv [OF r(1)] x shape_set [OF ib] by blast
    moreover have "es[i := (es ! i)[n := (fst (es ! i ! n), v)]] = map (map (entry ?m)) bs"
    proof (intro nth_equalityI)
      fix j k
      assume j: "j < length (es[i := (es ! i)[n := (fst (es ! i ! n), v)]])"
        and k: "k < length (es[i := (es ! i)[n := (fst (es ! i ! n), v)]] ! j)"
      have "entry ?m y = (if y = ?x then (key_of m ?x, v) else entry m y)" for y
        by (simp add: entry_def MapRef_update_def)
      moreover have "bs ! j ! k = ?x \<longleftrightarrow> j = i \<and> k = n" if "k < length (bs ! j)"
        using shape_disjoint [OF s(1), of i j ?x] x j r(2) ib that chain_distinct [OF shape_chain [OF s(1), of i]] s(2) True
        by (metis length_map nth_eq_iff_index_eq length_list_update nth_mem)
      ultimately show "es[i := (es ! i)[n := (fst (es ! i ! n), v)]] ! j ! k = map (map (entry ?m)) bs ! j ! k"
        using j k r(2) ei True ib by (cases "j = i"; cases "k = n") (auto simp: entry_def)
    next
      show "length (es[i := (es ! i)[n := (fst (es ! i ! n), v)]] ! j) = length (map (map (entry ?m)) bs ! j)"
        if "j < length (es[i := (es ! i)[n := (fst (es ! i ! n), v)]])" for j
        using that r(2) by (cases "j = i") auto
    qed (use r(2) in simp)
    moreover have "mlast ?m = mlast m" by (simp add: MapRef_update_def)
    ultimately show ?thesis using map_node_inv [OF r(1) i', of n] True r(3) by (auto simp: map_rep_def)
  qed
qed

lemma map_exec_simulates:
  assumes r: "map_rep m f es" and p: "map_pre (f, es) c"
  shows "\<exists>m'. map_exec m c = Some m' \<and> map_rep m' (fst (map_spec (f, es) c)) (snd (map_spec (f, es) c))"
proof -
  obtain bs fs where i: "map_inv m bs fs" "es = map (map (entry m)) bs" "f = (mlast m \<noteq> None)"
    using r by (auto simp: map_rep_def)
  have s: "length bs = length (roots m)" "roots m \<noteq> []" using map_inv_shape [OF i(1)] by auto
  show ?thesis
  proof (cases c)
    case (MapAdd key k v)
    show ?thesis
      by (rule MapRef_add_inv [OF i(1) refl, of key k v]) (use MapAdd i s in \<open>auto simp: map_rep_def Let_def\<close>)
  next
    case (MapAppend v)
    have l: "mlast m \<noteq> None \<or> bs ! 0 = []" using p MapAppend i s by auto
    show ?thesis
      by (rule MapRef_append_inv [OF i(1) l, of v]) (use MapAppend i(2) in \<open>auto simp: map_rep_def\<close>)
  next
    case (MapRemove key n)
    then show ?thesis using map_rep_remove [OF r refl] by blast
  next
    case (MapUpdate key n v)
    then show ?thesis using map_rep_update [OF r refl] by (simp add: Let_def)
  qed
qed

text \<open>
  C18: Every sequence of \<open>add\<close>, \<open>append\<close>, \<open>remove\<close> and \<open>update\<close> on a \<open>MapRef\<close> in which \<open>append\<close> is only called while the
  first bucket is empty or ends with the node last appended, and entries that exist are removed and updated, ends and does to its
  buckets what the same operations do to lists of keys and values: \<open>add\<close> puts an entry in front of the bucket of its key, \<open>append\<close> at
  the end of the first bucket, \<open>remove\<close> takes out one entry and \<open>update\<close> changes its value. The count is the number of
  entries, and the map holds exactly one reference for every place an object has as a key or as a value.
  An \<open>append\<close> after an \<open>add\<close> into the first bucket is excluded: it loses entries (\<open>MapRef_append_loses\<close>).
\<close>

theorem MapRef_refines_buckets:
  assumes "map_rep m f es" and "map_pre_run (f, es) cs"
  shows "\<exists>m'. map_run m cs = Some m' \<and>
    map_rep m' (fst (foldl map_spec (f, es) cs)) (snd (foldl map_spec (f, es) cs)) \<and>
    mcount m' = length (concat (snd (foldl map_spec (f, es) cs))) \<and>
    (\<forall>a. refs m' a = int (count_list (map fst (concat (snd (foldl map_spec (f, es) cs)))) (Some a) +
       count_list (map snd (concat (snd (foldl map_spec (f, es) cs)))) (Some a)))"
  using assms
proof (induction cs arbitrary: m f es)
  case Nil
  then obtain bs fs where i: "map_inv m bs fs" "es = map (map (entry m)) bs" by (auto simp: map_rep_def)
  have "map fst (concat es) = map (key_of m) (concat bs)" "map snd (concat es) = map (value_of m) (concat bs)"
    unfolding i(2) map_concat by (simp_all add: entry_def comp_def map_concat)
  moreover have "length (concat es) = length (concat bs)" unfolding i(2) by (simp add: length_concat comp_def)
  ultimately show ?case using i(1) Nil by (simp add: map_inv_def occurs_def)
next
  case (Cons c cs)
  obtain m1 where m1: "map_exec m c = Some m1" "map_rep m1 (fst (map_spec (f, es) c)) (snd (map_spec (f, es) c))"
    using map_exec_simulates [OF Cons.prems(1)] Cons.prems(2) by auto
  from Cons.IH [OF m1(2)] Cons.prems(2) m1(1) show ?case by simp
qed

lemma map_rep_new: "0 < n \<Longrightarrow> map_rep (Map_new n) False (replicate n [])"
  using map_inv_new [of n] by (auto simp: map_rep_def Map_new_def intro!: exI [of _ "replicate n []"])

theorem MapRef_refines_buckets_witness:
  "\<exists>m'. map_run (Map_new 2) [MapAppend (Some 7), MapAdd 3 (Some 1) (Some 7), MapAdd 1 (Some 2) None, MapUpdate 1 1 (Some 8),
      MapAppend (Some 9), MapRemove 0 0] = Some m' \<and>
     map_rep m' True [[(None, Some 9)], [(Some 2, None), (Some 1, Some 8)]] \<and> mcount m' = 3 \<and> refs m' 7 = 0 \<and> refs m' 8 = 1"
proof -
  let ?cs = "[MapAppend (Some 7), MapAdd 3 (Some 1) (Some 7), MapAdd 1 (Some 2) None, MapUpdate 1 1 (Some 8),
      MapAppend (Some 9), MapRemove 0 0]"
  have r: "map_rep (Map_new 2) False [[], []]" using map_rep_new [of 2] by (simp add: numeral_2_eq_2)
  have p: "map_pre_run (False, [[], []]) ?cs" by code_simp
  have f: "foldl map_spec (False, [[], []]) ?cs = (True, [[(None, Some 9)], [(Some 2, None), (Some 1, Some 8)]])"
    by code_simp
  show ?thesis using MapRef_refines_buckets [OF r p] unfolding f by auto
qed

section \<open>Iteration and deallocation\<close>

lemma next_root_spec:
  assumes "list_all2 (chain nxt) rs bs" and "next_root rs p = (r, q)"
  shows "case r of None \<Rightarrow> concat bs = [] \<and> q = p + length rs
    | Some x \<Rightarrow> \<exists>k < length rs. q = p + k \<and> r = rs ! k \<and> concat bs = concat (drop k bs)"
  using assms
proof (induction rs arbitrary: bs p)
  case (Cons r' rs)
  then obtain b bs' where b: "bs = b # bs'" "chain nxt r' b" "list_all2 (chain nxt) rs bs'"
    by (auto simp: list_all2_Cons1)
  show ?case
  proof (cases r')
    case None
    then have "next_root rs (p + 1) = (r, q)" "b = []" using Cons.prems(2) b(2) by auto
    with Cons.IH [OF b(3) this(1)] b(1) show ?thesis
      by (cases r) (force intro: exI [of _ "Suc k" for k])+
  next
    case (Some x)
    then show ?thesis using Cons.prems(2) b by (auto intro!: exI [of _ 0])
  qed
qed simp

text \<open>The nodes that are left for an iterator: the rest of its chain and the buckets behind it.\<close>

definition inst_left :: "mapref \<Rightarrow> addr list list \<Rightarrow> mapinst \<Rightarrow> addr list \<Rightarrow> bool" where
  "inst_left m bs i xs \<longleftrightarrow>
     (if inst_index i = None then xs = [] \<and> Instance_eol m i
      else \<exists>ys. chain (Next (links m)) (inst_index i) ys \<and> xs = ys @ concat (drop (Suc (inst_path i)) bs))"

lemma Instance_next_left:
  assumes s: "list_all2 (chain (Next (links m))) (roots m) bs"
    and c: "chain (Next (links m)) (inst_index i) ys" and y: "length ys \<le> 1"
  shows "inst_left m bs (snd (Instance_next m i)) (concat (drop (Suc (inst_path i)) bs))"
proof -
  have ind: "(case inst_index i of None \<Rightarrow> None | Some n \<Rightarrow> Next (links m) n) = None"
    using c y by (cases ys) auto
  have len: "length bs = length (roots m)" using s by (simp add: list_all2_lengthD)
  show ?thesis
  proof (cases "inst_path i + 1 < length (roots m)")
    case False
    then show ?thesis using ind len by (simp add: Instance_next_def inst_left_def Instance_eol_def)
  next
    case True
    obtain r q where r: "next_root (drop (Suc (inst_path i)) (roots m)) (Suc (inst_path i)) = (r, q)" by fastforce
    have s': "list_all2 (chain (Next (links m))) (drop (Suc (inst_path i)) (roots m)) (drop (Suc (inst_path i)) bs)"
      using s by (simp add: list_all2_dropI)
    note n = next_root_spec [OF s' r]
    show ?thesis
    proof (cases r)
      case None
      then show ?thesis using True ind r n by (simp add: Instance_next_def inst_left_def Instance_eol_def)
    next
      case (Some x)
      then obtain k where k: "k < length (roots m) - Suc (inst_path i)" "q = Suc (inst_path i) + k" "r = roots m ! q"
          "concat (drop (Suc (inst_path i)) bs) = concat (drop q bs)"
        using n by (auto simp: add.commute)
      have q: "q < length bs" using k len by simp
      then have "chain (Next (links m)) r (bs ! q)" using s k(3) len by (simp add: list_all2_conv_all_nth)
      moreover have "concat (drop q bs) = bs ! q @ concat (drop (Suc q) bs)"
        using Cons_nth_drop_Suc [OF q] by (metis concat.simps(2))
      ultimately show ?thesis using True ind r k(4) Some by (auto simp: Instance_next_def inst_left_def)
    qed
  qed
qed

lemma inst_left_step:
  assumes s: "list_all2 (chain (Next (links m))) (roots m) bs" and l: "inst_left m bs i xs" and n: "inst_index i = Some n"
  shows "xs \<noteq> [] \<and> hd xs = n \<and> inst_left m bs (snd (Instance_next m i)) (tl xs)"
proof -
  obtain zs where z: "chain (Next (links m)) (Next (links m) n) zs" "xs = n # zs @ concat (drop (Suc (inst_path i)) bs)"
    using l n by (auto simp: inst_left_def chain_Some)
  show ?thesis
  proof (cases "Next (links m) n")
    case None
    then show ?thesis using z n Instance_next_left [OF s, of i "[n]"] by simp
  next
    case (Some y)
    then show ?thesis using z n by (auto simp: inst_left_def Instance_next_def)
  qed
qed

lemma walk_map_left:
  "list_all2 (chain (Next (links m))) (roots m) bs \<Longrightarrow> inst_left m bs i xs \<Longrightarrow> length xs \<le> k \<Longrightarrow>
     walk_map k m i = map (entry m) xs"
proof (induction k arbitrary: i xs)
  case 0
  then show ?case by simp
next
  case (Suc k)
  show ?case
  proof (cases "inst_index i")
    case None
    then show ?thesis using Suc.prems by (simp add: inst_left_def)
  next
    case (Some n)
    note st = inst_left_step [OF Suc.prems(1,2) Some]
    then obtain ys where y: "xs = n # ys" by (cases xs) auto
    then have "walk_map k m (snd (Instance_next m i)) = map (entry m) ys"
      using Suc.IH [OF Suc.prems(1)] st Suc.prems(3) by simp
    then show ?thesis using Some y by (simp add: entry_def Instance_key_def Instance_value_def)
  qed
qed

lemma Instance_eol_left:
  "list_all2 (chain (Next (links m))) (roots m) bs \<Longrightarrow> inst_left m bs i xs \<Longrightarrow>
     Instance_eol m (((\<lambda>i. snd (Instance_next m i)) ^^ length xs) i)"
proof (induction xs arbitrary: i)
  case Nil
  then show ?case using inst_left_step [OF Nil] by (cases "inst_index i") (auto simp: inst_left_def)
next
  case (Cons x xs)
  then obtain n where n: "inst_index i = Some n" by (auto simp: inst_left_def split: if_splits)
  from inst_left_step [OF Cons.prems n] have "inst_left m bs (snd (Instance_next m i)) xs" by simp
  from Cons.IH [OF Cons.prems(1) this] show ?case by (simp only: list.size add_Suc_right add_0_right funpow_Suc_right comp_def)
qed

lemma Instance_rewind_left:
  assumes s: "list_all2 (chain (Next (links m))) (roots m) bs" and "roots m \<noteq> []"
  shows "inst_left m bs (Instance_rewind m) (concat bs)"
proof -
  obtain b bs' where b: "bs = b # bs'" "chain (Next (links m)) (roots m ! 0) b"
    using assms by (cases "roots m") (auto simp: list_all2_Cons1)
  show ?thesis
  proof (cases "roots m ! 0")
    case None
    then show ?thesis using b Instance_next_left [OF s, of "\<lparr>inst_index = None, inst_path = 0\<rparr>" "[]"]
      by (simp add: Instance_rewind_def)
  next
    case (Some x)
    then show ?thesis using b by (auto simp: Instance_rewind_def inst_left_def)
  qed
qed

lemma release_chain_refs:
  "chain (Next (links m)) p xs \<Longrightarrow>
     \<exists>m'. release_chain p m = Some m' \<and> links m' = links m \<and> key_of m' = key_of m \<and> value_of m' = value_of m \<and>
       (\<forall>a. refs m' a = refs m a - int (occurs m a xs))"
proof (induction xs arbitrary: p m)
  case Nil
  then show ?case by (simp add: release_chain.simps [of None] occurs_def)
next
  case (Cons x xs)
  let ?m = "release_obj (value_of m x) (release_obj (key_of m x) m)"
  from Cons.prems have p: "p = Some x" "chain (Next (links ?m)) (Next (links m) x) xs" by auto
  have o: "occurs ?m a xs = occurs m a xs" for a by (rule occurs_cong) simp
  from Cons.IH [OF p(2)] show ?case
    unfolding p(1) by (auto simp: release_chain.simps [of "Some x"] refs_release_obj occurs_Cons o)
qed

lemma release_roots_refs:
  "list_all2 (chain (Next (links m))) rs bs \<Longrightarrow>
     \<exists>m'. release_roots rs m = Some m' \<and> (\<forall>a. refs m' a = refs m a - int (occurs m a (concat bs)))"
proof (induction rs arbitrary: bs m)
  case Nil
  then show ?case by (simp add: occurs_def)
next
  case (Cons r rs)
  then obtain b bs' where b: "bs = b # bs'" "chain (Next (links m)) r b" "list_all2 (chain (Next (links m))) rs bs'"
    by (auto simp: list_all2_Cons1)
  obtain m1 where m1: "release_chain r m = Some m1" "links m1 = links m" "key_of m1 = key_of m" "value_of m1 = value_of m"
      "\<And>a. refs m1 a = refs m a - int (occurs m a b)"
    using release_chain_refs [OF b(2)] by blast
  have o: "occurs m1 a xs = occurs m a xs" for a xs by (rule occurs_cong) (simp add: m1)
  from Cons.IH [of m1 bs'] b(1,3) m1 show ?case by (auto simp: o)
qed

text \<open>
  C36: An iterator that is rewound and moved with \<open>next\<close> visits every entry of a map exactly once, bucket by bucket, and is then
  at its end. When the map is deallocated, every reference to a key or a value is given back: none is left, and none is given
  back twice.
\<close>

theorem MapRef_iterates:
  assumes "map_rep m f es" and "length (concat es) \<le> k"
  shows "walk_map k m (Instance_rewind m) = concat es \<and>
    Instance_eol m (((\<lambda>i. snd (Instance_next m i)) ^^ length (concat es)) (Instance_rewind m)) \<and>
    (\<exists>m'. Map_dealloc m = Some m' \<and> roots m' = [] \<and> (\<forall>a. refs m' a = 0))"
proof -
  obtain bs fs where i: "map_inv m bs fs" "es = map (map (entry m)) bs" using assms(1) by (auto simp: map_rep_def)
  then have s: "list_all2 (chain (Next (links m))) (roots m) bs" "roots m \<noteq> []"
    by (auto simp: map_inv_def map_shape_def)
  have e: "concat es = map (entry m) (concat bs)" unfolding i(2) by (simp add: map_concat)
  then have w: "walk_map k m (Instance_rewind m) = concat es"
      "Instance_eol m (((\<lambda>i. snd (Instance_next m i)) ^^ length (concat es)) (Instance_rewind m))"
    using walk_map_left [OF s(1) Instance_rewind_left [OF s]] Instance_eol_left [OF s(1) Instance_rewind_left [OF s]] assms(2)
    by simp_all
  obtain m' where "release_roots (roots m) m = Some m'" "\<And>a. refs m' a = refs m a - int (occurs m a (concat bs))"
    using release_roots_refs [OF s(1)] by blast
  then show ?thesis using w i(1) s(2) by (simp add: Map_dealloc_def map_inv_def)
qed

theorem MapRef_iterates_witness:
  "walk_map 5 (MapRef_add 1 (Some 1) (Some 7) (MapRef_append (Some 4) (Map_new 2)))
     (Instance_rewind (MapRef_add 1 (Some 1) (Some 7) (MapRef_append (Some 4) (Map_new 2)))) = [(None, Some 4), (Some 1, Some 7)]"
proof -
  have r: "map_rep (Map_new 2) False [[], []]" using map_rep_new [of 2] by (simp add: numeral_2_eq_2)
  have "map_rep (MapRef_append (Some 4) (Map_new 2)) True [[(None, Some 4)], []]"
    using map_exec_simulates [OF r, of "MapAppend (Some 4)"] by simp
  from map_exec_simulates [OF this, of "MapAdd 1 (Some 1) (Some 7)"]
  have "map_rep (MapRef_add 1 (Some 1) (Some 7) (MapRef_append (Some 4) (Map_new 2))) True [[(None, Some 4)], [(Some 1, Some 7)]]"
    by (simp add: Let_def)
  from MapRef_iterates [OF this, of 5] show ?thesis by simp
qed

text \<open>
  \<open>append\<close> after \<open>add\<close> into the first bucket stores the new node over the head of the bucket: the entries in it are
  counted and their objects are retained, but neither an iterator nor \<open>dealloc\<close> finds them.
\<close>

lemma MapRef_append_loses:
  "let m = MapRef_append (Some 9) (MapRef_add 0 (Some 1) (Some 2) (Map_new 2))
   in walk_map 5 m (Instance_rewind m) = [(None, Some 9)] \<and> mcount m = 2 \<and>
      map_option (\<lambda>m'. (refs m' 1, refs m' 2, refs m' 9)) (Map_dealloc m) = Some (1, 1, 0)"
proof -
  let ?m = "MapRef_append (Some 9) (MapRef_add 0 (Some 1) (Some 2) (Map_new 2))"
  have two: "replicate 2 None = [None, None]" by (simp add: numeral_2_eq_2)
  have f: "Next (links ?m) = (\<lambda>_. None)" "roots ?m = [Some 1, None]" "mcount ?m = 2" "key_of ?m 1 = None" "value_of ?m 1 = Some 9"
      "refs ?m 1 = 1" "refs ?m 2 = 1" "refs ?m 9 = 1"
    by (simp_all add: MapRef_append_def MapRef_add_def Map_new_def Map_append_def Map_create_def take_node_def Index_new_def
        Index_new_root_def LinkedObject_new_def LinkedObject_new_root_def LinkedObject_enlist_def set_next_def set_entry_def
        refs_retain_obj empty_heap_def two Let_def fun_eq_iff)
  have "walk_map 5 ?m (Instance_rewind ?m) = [(None, Some 9)]"
    using f by (simp add: Instance_rewind_def Instance_next_def Instance_key_def Instance_value_def eval_nat_numeral)
  moreover have "map_option (\<lambda>m'. (refs m' 1, refs m' 2, refs m' 9)) (Map_dealloc ?m) = Some (1, 1, 0)"
    using f by (simp add: Map_dealloc_def release_chain.simps refs_release_obj)
  ultimately show ?thesis using f(3) by (simp add: Let_def)
qed

section \<open>Typed maps\<close>

abbreviation locking :: "nat \<Rightarrow> nat \<Rightarrow> bool \<Rightarrow> mapref \<Rightarrow> mapref" where
  "locking n r w m \<equiv> m\<lparr>held := n, readers := r, writer := w\<rparr>"

lemma map_rep_locking [simp]:
  "map_rep (m\<lparr>held := n\<rparr>) f es = map_rep m f es" "map_rep (m\<lparr>readers := n\<rparr>) f es = map_rep m f es"
  "map_rep (m\<lparr>writer := w\<rparr>) f es = map_rep m f es"
  by (simp_all add: map_rep_def map_inv_def occurs_def entry_def [abs_def])

lemma find_node_chain:
  "chain (Next h) ip xs \<Longrightarrow> find_node tx h member key ip = Some (find (\<lambda>x. typeref_eq tx (member x) key) xs)"
proof (induction xs arbitrary: ip)
  case Nil
  then show ?case by (simp add: find_node.simps)
next
  case (Cons x xs)
  then show ?case using find_node.simps [of "tx" h member key "Some x"] by simp
qed

text \<open>A scan of the bucket of a key stops at the first entry that fits.\<close>

lemma find_node_rep:
  assumes "map_rep m f es" and i: "i = p mod length es"
    and mem: "member = key_of m \<and> sel = fst \<or> member = value_of m \<and> sel = snd"
  obtains (absent) "find_node tx (links m) member key (roots m ! i) = Some None"
      "\<And>e. e \<in> set (es ! i) \<Longrightarrow> \<not> typeref_eq tx (sel e) key"
    | (found) n where "find_node tx (links m) member key (roots m ! i) = Some (map_node m p n)" "n < length (es ! i)"
      "typeref_eq tx (sel (es ! i ! n)) key" "\<And>j. j < n \<Longrightarrow> \<not> typeref_eq tx (sel (es ! i ! j)) key"
      "map_node m p n \<noteq> None" "value_of m (the (map_node m p n)) = snd (es ! i ! n)"
proof -
  obtain bs fs where r: "map_inv m bs fs" "es = map (map (entry m)) bs" using assms(1) by (auto simp: map_rep_def)
  have s: "map_shape (Next (links m)) (roots m) (mfree m) bs fs" "length bs = length (roots m)" "roots m \<noteq> []"
    using map_inv_shape [OF r(1)] by auto
  then have i': "i = p mod length (roots m)" and ib: "i < length bs" using i r(2) by auto
  have ei: "es ! i = map (entry m) (bs ! i)" using r(2) ib by simp
  have sel: "sel (entry m x) = member x" for x using mem by (auto simp: entry_def)
  have fn: "find_node tx (links m) member key (roots m ! i) = Some (find (\<lambda>x. typeref_eq tx (member x) key) (bs ! i))"
    using find_node_chain [OF shape_chain [OF s(1)]] ib s(2) by simp
  show ?thesis
  proof (cases "find (\<lambda>x. typeref_eq tx (member x) key) (bs ! i)")
    case None
    show ?thesis
    proof (rule absent)
      show "\<not> typeref_eq tx (sel e) key" if e: "e \<in> set (es ! i)" for e
      proof -
        obtain x where "x \<in> set (bs ! i)" "e = entry m x" using e ei by auto
        then show ?thesis using None sel by (simp add: find_None_iff)
      qed
    qed (use fn None in simp)
  next
    case (Some x)
    then obtain n where n: "n < length (bs ! i)" "x = bs ! i ! n" "typeref_eq tx (member x) key"
        "\<And>j. j < n \<Longrightarrow> \<not> typeref_eq tx (member (bs ! i ! j)) key"
      by (auto simp: find_Some_iff)
    show ?thesis
      by (rule found [of n])
        (use Some n fn ei sel map_node_inv [OF r(1) i', of n] in \<open>auto simp: entry_def\<close>)
  qed
qed

definition entry_text :: "(nat \<Rightarrow> 8 word list) \<Rightarrow> nat option \<times> nat option \<Rightarrow> 8 word list \<times> nat option" where
  "entry_text tx e = (tx (the (fst e)), snd e)"

definition dict_wf :: "(nat \<Rightarrow> 8 word list) \<Rightarrow> map_entries \<Rightarrow> bool" where
  "dict_wf tx es \<longleftrightarrow> es \<noteq> [] \<and>
     (\<forall>i < length es. distinct (map (fst \<circ> entry_text tx) (es ! i)) \<and>
        (\<forall>e\<in>set (es ! i). fst e \<noteq> None \<and> mapkeypath tx (fst e) mod length es = i))"

definition dict_of :: "(nat \<Rightarrow> 8 word list) \<Rightarrow> map_entries \<Rightarrow> 8 word list \<Rightarrow> nat option option" where
  "dict_of tx es t = map_of (map (entry_text tx) (es ! (unat (MapRef_index 1 t) mod length es))) t"

definition dict_rep :: "(nat \<Rightarrow> 8 word list) \<Rightarrow> mapref \<Rightarrow> (8 word list \<Rightarrow> nat option option) \<Rightarrow> bool" where
  "dict_rep tx m d \<longleftrightarrow> (\<exists>f es. map_rep m f es \<and> dict_wf tx es \<and> d = dict_of tx es)"

lemma dict_of_upd:
  assumes "i = mapkeypath tx (Some a) mod length es" and "i < length es"
    and "map_of (map (entry_text tx) b) = (map_of (map (entry_text tx) (es ! i)))(tx a := v)"
  shows "dict_of tx (es[i := b]) = (dict_of tx es)(tx a := v)"
  using assms by (auto simp: dict_of_def mapkeypath_def fun_eq_iff nth_list_update)

lemma dict_wf_upd:
  assumes "dict_wf tx es" and "i < length es" and "distinct (map (fst \<circ> entry_text tx) b)"
    and "\<And>e. e \<in> set b \<Longrightarrow> fst e \<noteq> None \<and> mapkeypath tx (fst e) mod length es = i"
  shows "dict_wf tx (es[i := b])"
  using assms by (auto simp: dict_wf_def nth_list_update)

lemma fst_neq_nth: "distinct (map fst (p # ps)) \<Longrightarrow> k < length ps \<Longrightarrow> fst p \<noteq> fst (ps ! k)"
  by (metis distinct.simps(2) length_map list.simps(9) nth_map nth_mem)

lemma map_of_update_nth:
  "distinct (map fst ps) \<Longrightarrow> n < length ps \<Longrightarrow> map_of (ps[n := (fst (ps ! n), v)]) = (map_of ps)(fst (ps ! n) := Some v)"
proof (induction ps arbitrary: n)
  case (Cons p ps)
  then show ?case using fst_neq_nth [of p ps "n - 1"] by (cases n) (auto simp: fun_eq_iff)
qed simp

lemma map_of_remove_nth:
  "distinct (map fst ps) \<Longrightarrow> n < length ps \<Longrightarrow> map_of (take n ps @ drop (Suc n) ps) = (map_of ps)(fst (ps ! n) := None)"
proof (induction ps arbitrary: n)
  case (Cons p ps)
  show ?case
  proof (cases n)
    case 0
    then show ?thesis using Cons.prems by (auto simp: fun_eq_iff map_of_eq_None_iff)
  next
    case (Suc k)
    then have "fst p \<noteq> fst (ps ! k)" using Cons.prems fst_neq_nth [of p ps k] by simp
    then show ?thesis using Cons Suc by (auto simp: fun_eq_iff)
  qed
qed simp

lemma modify_rep:
  "map_rep m f es \<Longrightarrow> MapRef_modify p m = (roots m ! (p mod length es), locking (held m + 1) (readers m) True m)"
  "map_rep m f es \<Longrightarrow> MapRef_access p m = (roots m ! (p mod length es), locking (held m + 1) (readers m + 1) (writer m) m)"
  using map_inv_shape by (auto simp: map_rep_def MapRef_modify_def MapRef_access_def)

lemma commit_rep: "map_rep m f es \<Longrightarrow> map_rep (MapRef_commit m) f es" "map_rep m f es \<Longrightarrow> map_rep (MapRef_release m) f es"
  by (simp_all add: MapRef_commit_def MapRef_release_def)

lemma dict_bucket:
  assumes "dict_wf tx es" and "i = mapkeypath tx (Some a) mod length es"
  shows "i < length es" "distinct (map fst (map (entry_text tx) (es ! i)))"
    "\<And>e. e \<in> set (es ! i) \<Longrightarrow> fst e \<noteq> None \<and> mapkeypath tx (fst e) mod length es = i"
    "dict_of tx es (tx a) = map_of (map (entry_text tx) (es ! i)) (tx a)"
proof -
  show i: "i < length es" using assms by (simp add: dict_wf_def)
  show "distinct (map fst (map (entry_text tx) (es ! i)))" using assms(1) i by (simp add: dict_wf_def)
  show "\<And>e. e \<in> set (es ! i) \<Longrightarrow> fst e \<noteq> None \<and> mapkeypath tx (fst e) mod length es = i"
    using assms(1) i unfolding dict_wf_def by blast
  show "dict_of tx es (tx a) = map_of (map (entry_text tx) (es ! i)) (tx a)"
    using assms(2) by (simp add: dict_of_def mapkeypath_def)
qed

lemma dict_repI:
  "map_rep m f es \<Longrightarrow> dict_wf tx es \<Longrightarrow> dict_of tx es = d \<Longrightarrow> dict_rep tx (MapRef_commit m) d \<and> dict_rep tx (MapRef_release m) d"
  unfolding dict_rep_def using commit_rep by blast

lemma typeref_eq_text: "typeref_eq tx k (Some a) \<longleftrightarrow> k \<noteq> None \<and> tx (the k) = tx a"
  by (cases k) (auto simp: typeref_eq_def)

lemma dict_absent:
  assumes "dict_wf tx es" and "i = mapkeypath tx (Some a) mod length es"
    and "\<And>e. e \<in> set (es ! i) \<Longrightarrow> \<not> typeref_eq tx (fst e) (Some a)"
  shows "tx a \<notin> fst ` set (map (entry_text tx) (es ! i))"
  using dict_bucket(3) [OF assms(1,2)] assms(3) by (fastforce simp: typeref_eq_text entry_text_def)

lemma dict_found:
  assumes "dict_wf tx es" and "i = mapkeypath tx (Some a) mod length es" and n: "n < length (es ! i)"
    and "typeref_eq tx (fst (es ! i ! n)) (Some a)"
  shows "fst (map (entry_text tx) (es ! i) ! n) = tx a" "dict_of tx es (tx a) = Some (snd (es ! i ! n))"
proof -
  show k: "fst (map (entry_text tx) (es ! i) ! n) = tx a"
    using assms(3,4) by (simp add: typeref_eq_text entry_text_def)
  have "(tx a, snd (es ! i ! n)) \<in> set (map (entry_text tx) (es ! i))"
    using k n nth_mem [of n "map (entry_text tx) (es ! i)"] by (simp add: entry_text_def)
  then show "dict_of tx es (tx a) = Some (snd (es ! i ! n))"
    using dict_bucket [OF assms(1,2)] by (metis map_of_is_SomeI)
qed

lemma mapref_value_dict:
  assumes "dict_rep tx m d"
  shows "\<exists>m'. mapref_value tx (Some a) v m = Some m' \<and> dict_rep tx m' (d(tx a := Some v))"
proof -
  obtain f es where r: "map_rep m f es" "dict_wf tx es" "d = dict_of tx es" using assms by (auto simp: dict_rep_def)
  define p i where "p = mapkeypath tx (Some a)" and i: "i = mapkeypath tx (Some a) mod length es"
  let ?m = "locking (held m + 1) (readers m) True m" and ?ps = "map (entry_text tx) (es ! i)"
  note b = dict_bucket [OF r(2) i]
  have rm: "map_rep ?m f es" using r(1) by simp
  have md: "MapRef_modify p m = (roots ?m ! i, ?m)" using modify_rep(1) [OF r(1), of p] i p_def by simp
  have k: "key_of ?m = key_of ?m \<and> fst = fst \<or> key_of ?m = value_of ?m \<and> fst = snd" by simp
  show ?thesis
  proof (cases rule: find_node_rep [OF rm i k, of tx "Some a", case_names absent found])
    case absent
    have u: "tx a \<notin> fst ` set ?ps" using dict_absent [OF r(2) i] absent(2) by blast
    have "map_rep (MapRef_add p (Some a) v ?m) f (es[i := (Some a, v) # es ! i])"
      using map_exec_simulates [OF rm, of "MapAdd p (Some a) v"] i p_def by (simp add: Let_def)
    moreover have "dict_wf tx (es[i := (Some a, v) # es ! i])"
    proof (rule dict_wf_upd [OF r(2) b(1)])
      show "distinct (map (fst \<circ> entry_text tx) ((Some a, v) # es ! i))"
        using u b(2) by (simp add: entry_text_def [of tx "(Some a, v)"] image_image)
      show "fst e \<noteq> None \<and> mapkeypath tx (fst e) mod length es = i" if "e \<in> set ((Some a, v) # es ! i)" for e
        using that b(3) [of e] i by (cases "e = (Some a, v)") simp_all
    qed
    moreover have "dict_of tx (es[i := (Some a, v) # es ! i]) = d(tx a := Some v)"
      unfolding r(3) by (rule dict_of_upd [OF i b(1)]) (simp add: entry_text_def)
    ultimately show ?thesis
      using md absent(1) dict_repI p_def by (simp add: mapref_value_def Let_def)
  next
    case (found n)
    let ?b = "(es ! i)[n := (fst (es ! i ! n), v)]"
    have e: "map (entry_text tx) ?b = ?ps[n := (fst (?ps ! n), v)]"
      using found(2) by (simp add: map_update entry_text_def)
    have "map_rep (MapRef_update (map_node ?m p n) v ?m) f (es[i := ?b])"
      using map_rep_update [OF rm, of i p n v] i p_def by simp
    moreover have "dict_of tx (es[i := ?b]) = d(tx a := Some v)"
      unfolding r(3) by (rule dict_of_upd [OF i b(1)])
        (use e map_of_update_nth [OF b(2), of n v] found(2) dict_found(1) [OF r(2) i found(2,3)] in simp)
    moreover have "map (fst \<circ> entry_text tx) ?b = map (fst \<circ> entry_text tx) (es ! i)"
      using found(2) by (intro nth_equalityI) (auto simp: nth_list_update entry_text_def)
    then have "dict_wf tx (es[i := ?b])"
    proof (intro dict_wf_upd [OF r(2) b(1)])
      show "fst e \<noteq> None \<and> mapkeypath tx (fst e) mod length es = i" if e: "e \<in> set ?b" for e
      proof (cases "e \<in> set (es ! i)")
        case False
        then have "fst e = fst (es ! i ! n)" using e set_update_subset_insert [of "es ! i" n "(fst (es ! i ! n), v)"] by auto
        then show ?thesis using b(3) [OF nth_mem [OF found(2)]] by simp
      qed (use b(3) in simp)
    qed (use b(2) in \<open>simp add: comp_def\<close>)
    ultimately show ?thesis
      using md found(1,5) dict_repI p_def by (auto simp: mapref_value_def Let_def)
  qed
qed

lemma mapref_erase_dict:
  assumes "dict_rep tx m d"
  shows "\<exists>m'. mapref_erase tx (Some a) m = Some (d (tx a) \<noteq> None, m') \<and> dict_rep tx m' (d(tx a := None))"
proof -
  obtain f es where r: "map_rep m f es" "dict_wf tx es" "d = dict_of tx es" using assms by (auto simp: dict_rep_def)
  define p i where "p = mapkeypath tx (Some a)" and i: "i = mapkeypath tx (Some a) mod length es"
  let ?m = "locking (held m + 1) (readers m) True m" and ?ps = "map (entry_text tx) (es ! i)"
  note b = dict_bucket [OF r(2) i]
  have rm: "map_rep ?m f es" using r(1) by simp
  have md: "MapRef_modify p m = (roots ?m ! i, ?m)" using modify_rep(1) [OF r(1), of p] i p_def by simp
  have k: "key_of ?m = key_of ?m \<and> fst = fst \<or> key_of ?m = value_of ?m \<and> fst = snd" by simp
  show ?thesis
  proof (cases rule: find_node_rep [OF rm i k, of tx "Some a", case_names absent found])
    case absent
    have "tx a \<notin> fst ` set ?ps" using dict_absent [OF r(2) i] absent(2) by blast
    then have "d (tx a) = None" unfolding r(3) b(4) by (simp only: map_of_eq_None_iff not_False_eq_True)
    moreover from this have "d(tx a := None) = d" by auto
    ultimately show ?thesis using md absent(1) commit_rep(1) [OF rm] p_def r by (auto simp: mapref_erase_def dict_rep_def Let_def)
  next
    case (found n)
    let ?b = "take n (es ! i) @ drop (Suc n) (es ! i)"
    obtain m' where m': "Map_remove (map_node ?m p n) p ?m = Some m'"
        "map_rep m' (f \<and> es[i := ?b] ! 0 \<noteq> []) (es[i := ?b])"
      using map_exec_simulates [OF rm, of "MapRemove p n"] i p_def by (auto simp: Let_def)
    have e: "map (entry_text tx) ?b = take n ?ps @ drop (Suc n) ?ps" by (simp add: take_map drop_map)
    have "dict_of tx (es[i := ?b]) = d(tx a := None)"
      unfolding r(3) by (rule dict_of_upd [OF i b(1)])
        (use e map_of_remove_nth [OF b(2), of n] found(2) dict_found(1) [OF r(2) i found(2,3)] in simp)
    moreover have "dict_wf tx (es[i := ?b])"
    proof (rule dict_wf_upd [OF r(2) b(1)])
      have "distinct (map (fst \<circ> entry_text tx) (take n (es ! i) @ es ! i ! n # drop (Suc n) (es ! i)))"
        using b(2) found(2) by (simp add: id_take_nth_drop [symmetric])
      then show "distinct (map (fst \<circ> entry_text tx) ?b)" by auto
    qed (use b(3) in \<open>auto dest: in_set_takeD in_set_dropD\<close>)
    moreover have "d (tx a) \<noteq> None" using dict_found(2) [OF r(2) i found(2,3)] r(3) by simp
    ultimately show ?thesis
      using md found(1,5) m'(1) dict_repI [OF m'(2)] p_def by (auto simp: mapref_erase_def Let_def)
  qed
qed

lemma mapref_at_dict:
  assumes "dict_rep tx m d"
  shows "\<exists>m'. mapref_at tx (Some a) m = Some (case d (tx a) of None \<Rightarrow> None | Some v \<Rightarrow> v, m') \<and> dict_rep tx m' d"
proof -
  obtain f es where r: "map_rep m f es" "dict_wf tx es" "d = dict_of tx es" using assms by (auto simp: dict_rep_def)
  define p i where "p = mapkeypath tx (Some a)" and i: "i = mapkeypath tx (Some a) mod length es"
  let ?m = "locking (held m + 1) (readers m + 1) (writer m) m" and ?ps = "map (entry_text tx) (es ! i)"
  note b = dict_bucket [OF r(2) i]
  have rm: "map_rep ?m f es" using r(1) by simp
  have md: "MapRef_access p m = (roots ?m ! i, ?m)" using modify_rep(2) [OF r(1), of p] i p_def by simp
  have k: "key_of ?m = key_of ?m \<and> fst = fst \<or> key_of ?m = value_of ?m \<and> fst = snd" by simp
  show ?thesis
  proof (cases rule: find_node_rep [OF rm i k, of tx "Some a", case_names absent found])
    case absent
    have "tx a \<notin> fst ` set ?ps" using dict_absent [OF r(2) i] absent(2) by blast
    then have "d (tx a) = None" unfolding r(3) b(4) by (simp only: map_of_eq_None_iff not_False_eq_True)
    then show ?thesis using md absent(1) commit_rep(2) [OF rm] p_def r by (auto simp: mapref_at_def dict_rep_def)
  next
    case (found n)
    then show ?thesis using md commit_rep(2) [OF rm] p_def r dict_found(2) [OF r(2) i found(2,3)]
      by (auto simp: mapref_at_def dict_rep_def)
  qed
qed

text \<open>
  C17: A \<open>mapref\<close> with texts as keys is a map from texts to values, whatever the hash of the texts: setting a value overrides the value of
  that text and of no other, \<open>erase\<close> removes it and tells whether there was one, \<open>at\<close> returns the value, and a null
  reference for a text without one. All of them return.
\<close>

theorem mapref_refines_map:
  assumes "dict_rep tx m d"
  shows "(\<exists>m'. mapref_value tx (Some a) v m = Some m' \<and> dict_rep tx m' (d(tx a := Some v))) \<and>
    (\<exists>m'. mapref_erase tx (Some a) m = Some (d (tx a) \<noteq> None, m') \<and> dict_rep tx m' (d(tx a := None))) \<and>
    (\<exists>m'. mapref_at tx (Some a) m = Some (case d (tx a) of None \<Rightarrow> None | Some v \<Rightarrow> v, m') \<and> dict_rep tx m' d)"
  using mapref_value_dict [OF assms] mapref_erase_dict [OF assms] mapref_at_dict [OF assms] by blast

lemma dict_rep_new: "0 < n \<Longrightarrow> dict_rep tx (Map_new n) (\<lambda>_. None)"
  using map_rep_new [of n]
  by (auto simp: dict_rep_def dict_wf_def dict_of_def fun_eq_iff intro!: exI [of _ False] exI [of _ "replicate n []"])

theorem mapref_refines_map_witness:
  "\<exists>m1. mapref_value (\<lambda>a. [word_of_nat a]) (Some 7) (Some 9) (Map_new 37) = Some m1 \<and>
     dict_rep (\<lambda>a. [word_of_nat a]) m1 [[7] \<mapsto> Some 9]"
  using mapref_refines_map [OF dict_rep_new, of 37 "\<lambda>a. [word_of_nat a]" 7 "Some 9"] by simp

section \<open>Typed lists\<close>

text \<open>A list of values is a map with one bucket and without keys, in which every node came by \<open>append\<close>.\<close>

definition list_rep :: "mapref \<Rightarrow> nat option list \<Rightarrow> bool" where
  "list_rep m vs \<longleftrightarrow> map_rep m (vs \<noteq> []) [map (Pair None) vs]"

lemma list_rep_new: "list_rep listref_new []"
  using map_rep_new [of 1] by (simp add: list_rep_def listref_new_def)

lemma list_rep_lock: "list_rep m vs \<Longrightarrow> list_rep (MapRef_commit m) vs \<and> list_rep (MapRef_release m) vs"
  using commit_rep by (simp add: list_rep_def)

lemma list_rep_append: "list_rep m vs \<Longrightarrow> list_rep (MapRef_append v m) (vs @ [v])"
  using map_exec_simulates [of m "vs \<noteq> []" "[map (Pair None) vs]" "MapAppend v"] by (simp add: list_rep_def)

lemma list_rep_node:
  assumes "list_rep m vs"
  shows "case map_node m 0 n of None \<Rightarrow> length vs \<le> n | Some x \<Rightarrow> n < length vs \<and> value_of m x = vs ! n"
proof -
  obtain bs fs where r: "map_inv m bs fs" "[map (Pair None) vs] = map (map (entry m)) bs"
    using assms unfolding list_rep_def map_rep_def by (elim exE conjE)
  then obtain b where b: "bs = [b]" by (cases bs) auto
  then have "map snd (map (Pair None :: _ \<Rightarrow> nat option \<times> _) vs) = map snd (map (entry m) b)" using r(2) by simp
  then have v: "vs = map (value_of m) b" by (simp add: entry_def comp_def)
  have "length (roots m) = 1" using map_inv_shape [OF r(1)] b by simp
  then have "map_node m 0 n = (if n < length b then Some (b ! n) else None)" using map_node_inv [OF r(1), of 0 0 n] b by simp
  then show ?thesis using v by simp
qed

lemma list_rep_remove:
  assumes "list_rep m vs" and "n < length vs"
  shows "\<exists>m'. Map_remove (map_node m 0 n) 0 m = Some m' \<and> list_rep m' (take n vs @ drop (Suc n) vs)"
proof -
  have "(vs \<noteq> [] \<and> take n vs @ drop (Suc n) vs \<noteq> []) = (take n vs @ drop (Suc n) vs \<noteq> [])" using assms(2) by auto
  then show ?thesis
    using map_exec_simulates [of m "vs \<noteq> []" "[map (Pair None) vs]" "MapRemove 0 n"] assms
    by (simp add: list_rep_def Let_def take_map drop_map del: append_is_Nil_conv) (auto simp flip: map_append)
qed

lemma list_modify:
  assumes "list_rep m vs"
  shows "MapRef_modify 0 m = (roots m ! 0, locking (held m + 1) (readers m) True m)"
    "MapRef_access 0 m = (roots m ! 0, locking (held m + 1) (readers m + 1) (writer m) m)"
    "list_rep (locking (held m + 1) (readers m) True m) vs" "list_rep (locking (held m + 1) (readers m + 1) (writer m) m) vs"
    "LinkedObject_getIndexed (links m) (roots m ! 0) n = map_node m 0 n"
  using modify_rep [of m _ _ 0] assms by (auto simp: list_rep_def map_node_def)

lemma listref_at_list:
  assumes "list_rep m vs"
  shows "if n < length vs then \<exists>m'. listref_at n m = Some (vs ! n, m') \<and> list_rep m' vs else listref_at n m = None"
proof -
  note md = list_modify [OF assms]
  have "listref_at n m = map_option (\<lambda>x. (value_of m x, MapRef_release (locking (held m + 1) (readers m + 1) (writer m) m))) (map_node m 0 n)"
    unfolding listref_at_def md(2) by (simp add: md(5))
  then show ?thesis using list_rep_node [OF assms, of n] list_rep_lock [OF md(4)] by (cases "map_node m 0 n") auto
qed

lemma listref_take_list:
  assumes "list_rep m vs"
  shows "if n < length vs
    then \<exists>m'. listref_take n m = Some (vs ! n, m') \<and> list_rep m' (if vs ! n = None then vs else take n vs @ drop (Suc n) vs)
    else listref_take n m = None"
proof -
  note md = list_modify [OF assms]
  let ?m = "locking (held m + 1) (readers m) True m"
  have "listref_take n m = Option.bind (map_node m 0 n) (\<lambda>x. map_option (\<lambda>m'. (value_of m x, MapRef_commit m'))
      (if value_of m x \<noteq> None then Map_remove (Some x) 0 ?m else Some ?m))"
    unfolding listref_take_def md(1) by (simp add: md(5) cong: if_cong)
  moreover have "map_node ?m 0 n = map_node m 0 n" by (simp add: map_node_def MapRef_access_def)
  then have "\<exists>m'. Map_remove (map_node m 0 n) 0 ?m = Some m' \<and> list_rep (MapRef_commit m') (take n vs @ drop (Suc n) vs)" if "n < length vs"
    using list_rep_remove [OF md(3) that] list_rep_lock by fastforce
  moreover have "list_rep (MapRef_commit ?m) vs" using list_rep_lock [OF md(3)] by blast
  ultimately show ?thesis using list_rep_node [OF assms, of n]
    by (cases "map_node m 0 n"; cases "vs ! n") auto
qed

text \<open>
  C37: A \<open>listref\<close> is a list of values: \<open>append\<close> adds at its end, \<open>erase\<close> removes the first value with the text of its argument
  and tells whether there was one, \<open>at\<close> and \<open>take\<close> give the value at an offset, and \<open>take\<close> removes it. For an offset at or
  behind the end, \<open>at\<close> and \<open>take\<close> follow a null pointer.
\<close>

theorem listref_refines_list:
  assumes "list_rep m vs"
  shows "list_rep (MapRef_append v m) (vs @ [v]) \<and>
    (if n < length vs
     then (\<exists>m'. listref_at n m = Some (vs ! n, m') \<and> list_rep m' vs) \<and>
       (\<exists>m'. listref_take n m = Some (vs ! n, m') \<and>
          list_rep m' (if vs ! n = None then vs else take n vs @ drop (Suc n) vs))
     else listref_at n m = None \<and> listref_take n m = None) \<and>
    (\<exists>m'. case List.extract (\<lambda>v. typeref_eq tx v (Some a)) vs of
       None \<Rightarrow> listref_erase tx (Some a) m = Some (False, m') \<and> list_rep m' vs
     | Some (us, _, ws) \<Rightarrow> listref_erase tx (Some a) m = Some (True, m') \<and> list_rep m' (us @ ws))"
proof (intro conjI)
  note md = list_modify [OF assms]
  show "list_rep (MapRef_append v m) (vs @ [v])" by (rule list_rep_append [OF assms])
  show "if n < length vs
     then (\<exists>m'. listref_at n m = Some (vs ! n, m') \<and> list_rep m' vs) \<and>
       (\<exists>m'. listref_take n m = Some (vs ! n, m') \<and> list_rep m' (if vs ! n = None then vs else take n vs @ drop (Suc n) vs))
     else listref_at n m = None \<and> listref_take n m = None"
    using listref_at_list [OF assms, of n] listref_take_list [OF assms, of n] by simp
  let ?m = "locking (held m + 1) (readers m) True m" and ?es = "[map (Pair None) vs]"
  have rm: "map_rep ?m (vs \<noteq> []) ?es" using md(3) by (simp add: list_rep_def)
  have k: "value_of ?m = key_of ?m \<and> snd = fst \<or> value_of ?m = value_of ?m \<and> snd = snd" by simp
  show "\<exists>m'. case List.extract (\<lambda>v. typeref_eq tx v (Some a)) vs of
       None \<Rightarrow> listref_erase tx (Some a) m = Some (False, m') \<and> list_rep m' vs
     | Some (us, _, ws) \<Rightarrow> listref_erase tx (Some a) m = Some (True, m') \<and> list_rep m' (us @ ws)"
  proof (cases rule: find_node_rep [OF rm _ k, of 0 0 tx "Some a", case_names len absent found])
    case absent
    then have "List.extract (\<lambda>v. typeref_eq tx v (Some a)) vs = None"
      using absent(2) [of "(None, v)" for v] by (fastforce simp: extract_None_iff)
    then show ?thesis using absent(1) md(1) list_rep_lock [OF md(3)] by (auto simp: listref_erase_def)
  next
    case (found n)
    have n: "n < length vs" using found(2) by simp
    have "takeWhile (Not \<circ> (\<lambda>v. typeref_eq tx v (Some a))) vs = take n vs"
      using found(2,3,4) by (intro takeWhile_eq_take_P_nth) auto
    moreover from this have "dropWhile (Not \<circ> (\<lambda>v. typeref_eq tx v (Some a))) vs = vs ! n # drop (Suc n) vs"
      using n by (metis append_eq_append_conv append_take_drop_id takeWhile_dropWhile_id Cons_nth_drop_Suc)
    ultimately have "List.extract (\<lambda>v. typeref_eq tx v (Some a)) vs = Some (take n vs, vs ! n, drop (Suc n) vs)"
      by (simp add: List.extract_def)
    then show ?thesis
      using found(1,5) md(1) list_rep_remove [OF md(3) n] list_rep_lock by (auto simp: listref_erase_def)
  qed simp
qed

theorem listref_refines_list_witness:
  "list_rep (MapRef_append (Some 5) (MapRef_append (Some 4) listref_new)) [Some 4, Some 5] \<and>
   listref_at 2 (MapRef_append (Some 5) (MapRef_append (Some 4) listref_new)) = None"
proof -
  have l: "list_rep (MapRef_append (Some 4) listref_new) [Some 4]"
    using listref_refines_list [OF list_rep_new, of "Some 4"] by simp
  then have l2: "list_rep (MapRef_append (Some 5) (MapRef_append (Some 4) listref_new)) [Some 4, Some 5]"
    using listref_refines_list [OF l, of "Some 5"] by simp
  then show ?thesis using listref_refines_list [OF l2, of None 2] by simp
qed

end
