(* ===== verification/MapTable.thy ===== *)
theory MapTable
  imports MapRef Buffer
begin

text \<open>
  The table of named objects of \<open>commoncpp/map.cpp\<close>: \<open>MapTable\<close>, \<open>MapObject\<close> and \<open>MapIndex\<close>.

  The objects are in one store and belong to one table or to none (\<open>attached\<close> is the member \<open>table\<close>). The array of the table has
  one slot more than its range, for the list of free objects. The mutex of the table makes every operation one step. Chains of objects
  are handled by the lemmas on tables of chains of \<open>MapRef\<close>.
\<close>

section \<open>State and operations\<close>

record maptable =
  nextObject :: "addr \<Rightarrow> ptr"
  idObject :: "addr \<Rightarrow> cstr"
  attached :: "addr \<Rightarrow> bool"
  slots :: "ptr list"
  range_of :: nat
  objects :: "32 word"

definition MapTable_new :: "nat \<Rightarrow> (addr \<Rightarrow> cstr) \<Rightarrow> maptable" where
  "MapTable_new n ids =
     \<lparr>nextObject = \<lambda>_. None, idObject = ids, attached = \<lambda>_. False, slots = replicate (n + 1) None, range_of = n, objects = 0\<rparr>"

fun id_hash :: "32 word \<Rightarrow> cstr \<Rightarrow> 32 word" where
  "id_hash key [] = key"
| "id_hash key (c # s) = id_hash (push_bit 1 key XOR (of_char c AND 0x1f)) s"

definition getIndex :: "maptable \<Rightarrow> cstr \<Rightarrow> nat" where
  "getIndex t s = unat (id_hash 0 s) mod range_of t"

definition stricmp_equal :: "cstr \<Rightarrow> cstr \<Rightarrow> bool" where
  "stricmp_equal x y \<longleftrightarrow> map to_lower x = map to_lower y"

partial_function (option) object_scan :: "maptable \<Rightarrow> cstr \<Rightarrow> ptr \<Rightarrow> ptr option" where
  "object_scan t s obj =
     (case obj of
        None \<Rightarrow> Some None
      | Some x \<Rightarrow> if stricmp_equal (idObject t x) s then Some (Some x) else object_scan t s (nextObject t x))"

definition getObject :: "maptable \<Rightarrow> cstr \<Rightarrow> ptr option" where
  "getObject t s = object_scan t s (slots t ! getIndex t s)"

function slot_from :: "maptable \<Rightarrow> nat \<Rightarrow> ptr" where
  "slot_from t i = (if i < range_of t then (case slots t ! i of None \<Rightarrow> slot_from t (i + 1) | Some x \<Rightarrow> Some x) else None)"
  by pat_completeness auto
termination
  by (relation "measure (\<lambda>(t, i). range_of t - i)") auto

declare slot_from.simps [simp del]

definition getFirst :: "maptable \<Rightarrow> ptr" where
  "getFirst t = (case slots t ! 0 of Some x \<Rightarrow> Some x | None \<Rightarrow> slot_from t 0)"

definition MapIndex_next :: "maptable \<Rightarrow> ptr \<Rightarrow> ptr" where
  "MapIndex_next t this =
     (case this of
        None \<Rightarrow> None
      | Some x \<Rightarrow>
          if nextObject t x \<noteq> None then nextObject t x
          else if attached t x then slot_from t (getIndex t (idObject t x) + 1)
          else Some x)"

fun slot_before :: "maptable \<Rightarrow> nat \<Rightarrow> ptr" where
  "slot_before t 0 = None"
| "slot_before t (Suc i) = (case slots t ! i of None \<Rightarrow> slot_before t i | Some x \<Rightarrow> Some x)"

partial_function (option) last_of :: "maptable \<Rightarrow> addr \<Rightarrow> addr option" where
  "last_of t x = (case nextObject t x of None \<Rightarrow> Some x | Some y \<Rightarrow> last_of t y)"

definition getLast :: "maptable \<Rightarrow> ptr option" where
  "getLast t = (case slot_before t (range_of t) of None \<Rightarrow> Some None | Some x \<Rightarrow> map_option Some (last_of t x))"

definition getFree :: "maptable \<Rightarrow> ptr \<times> maptable" where
  "getFree t =
     (case slots t ! range_of t of
        None \<Rightarrow> (None, t)
      | Some x \<Rightarrow> (Some x, t\<lparr>slots := (slots t)[range_of t := nextObject t x]\<rparr>))"

partial_function (option) detach_scan :: "maptable \<Rightarrow> addr \<Rightarrow> ptr \<Rightarrow> ptr \<Rightarrow> (ptr \<times> ptr) option" where
  "detach_scan t this prev node =
     (case node of
        None \<Rightarrow> Some (prev, None)
      | Some n \<Rightarrow> if n \<noteq> this then detach_scan t this node (nextObject t n) else Some (prev, node))"

definition MapObject_detach :: "addr \<Rightarrow> maptable \<Rightarrow> maptable option" where
  "MapObject_detach this t =
     (if \<not> attached t this then Some t
      else let idx = getIndex t (idObject t this)
           in map_option
                (\<lambda>(prev, node).
                   let t = (if node \<noteq> None \<and> prev = None then t\<lparr>slots := (slots t)[idx := nextObject t this]\<rparr>
                            else if node \<noteq> None then t\<lparr>nextObject := (nextObject t)(the prev := nextObject t this)\<rparr>
                            else t)
                   in t\<lparr>objects := objects t - 1, attached := (attached t)(this := False)\<rparr>)
                (detach_scan t this None (slots t ! idx)))"

definition addFree :: "addr \<Rightarrow> maptable \<Rightarrow> maptable option" where
  "addFree obj t =
     map_option (\<lambda>t. t\<lparr>nextObject := (nextObject t)(obj := slots t ! range_of t), slots := (slots t)[range_of t := Some obj]\<rparr>)
       (MapObject_detach obj t)"

definition addObject :: "addr \<Rightarrow> maptable \<Rightarrow> maptable option" where
  "addObject obj t =
     (let idx = getIndex t (idObject t obj)
      in if attached t obj then Some t
         else map_option
           (\<lambda>t. t\<lparr>nextObject := (nextObject t)(obj := slots t ! idx), slots := (slots t)[idx := Some obj],
                  attached := (attached t)(obj := True), objects := objects t + 1\<rparr>)
           (MapObject_detach obj t))"

definition MapTable_remove :: "addr \<Rightarrow> maptable \<Rightarrow> maptable option" where
  "MapTable_remove obj t = (if attached t obj then MapObject_detach obj t else Some t)"

text \<open>The objects at which an index stops, for a number of rounds.\<close>

fun walk_table :: "nat \<Rightarrow> maptable \<Rightarrow> ptr \<Rightarrow> addr list" where
  "walk_table 0 t p = []"
| "walk_table (Suc k) t p = (case p of None \<Rightarrow> [] | Some x \<Rightarrow> x # walk_table k t (MapIndex_next t p))"

section \<open>Names without regard to case\<close>

lemma of_char_low: "(of_char c :: 32 word) AND 0x1f = of_nat (of_char c mod 32)"
proof -
  have "(of_char c :: 32 word) AND 0x1f = take_bit 5 (of_nat (of_char c))"
    by (simp add: take_bit_eq_mask mask_eq_exp_minus_1 of_nat_of_char)
  also have "\<dots> = of_nat (take_bit 5 (of_char c))" by (simp add: take_bit_of_nat)
  finally show ?thesis by (simp add: take_bit_eq_mod)
qed

lemma low_to_lower: "(of_char (to_lower c) :: nat) mod 32 = of_char c mod 32"
proof (cases "65 \<le> (of_char c :: nat) \<and> (of_char c :: nat) \<le> 90")
  case True
  then have "(of_char (to_lower c) :: nat) = of_char c + 32" by (simp add: to_lower_def)
  then show ?thesis by simp
qed (simp add: to_lower_def)

lemma id_hash_lower: "id_hash k (map to_lower s) = id_hash k s"
  by (induction s arbitrary: k) (simp_all add: of_char_low low_to_lower)

lemma getIndex_case: "stricmp_equal a b \<Longrightarrow> getIndex t a = getIndex t b"
  by (metis getIndex_def id_hash_lower stricmp_equal_def)

section \<open>The table as buckets\<close>

definition table_rep :: "maptable \<Rightarrow> addr list list \<Rightarrow> addr list \<Rightarrow> bool" where
  "table_rep t bs fs \<longleftrightarrow>
     0 < range_of t \<and> length (slots t) = range_of t + 1 \<and>
     map_shape (nextObject t) (take (range_of t) (slots t)) (slots t ! range_of t) bs fs \<and>
     (\<forall>i < range_of t. \<forall>x\<in>set (bs ! i). getIndex t (idObject t x) = i) \<and>
     (\<forall>x. attached t x \<longleftrightarrow> x \<in> set (concat bs)) \<and> objects t = of_nat (length (concat bs))"

lemma table_rep_new: "0 < n \<Longrightarrow> table_rep (MapTable_new n ids) (replicate n []) []"
  by (simp add: table_rep_def MapTable_new_def map_shape_def list_all2_conv_all_nth nth_append flip: replicate_append_same)

lemma table_rep_facts:
  assumes "table_rep t bs fs"
  shows "length bs = range_of t" "getIndex t s < range_of t" "i < range_of t \<Longrightarrow> chain (nextObject t) (slots t ! i) (bs ! i)"
    "distinct (concat bs @ fs)" "chain (nextObject t) (slots t ! range_of t) fs"
proof -
  have m: "map_shape (nextObject t) (take (range_of t) (slots t)) (slots t ! range_of t) bs fs" "0 < range_of t"
      "length (slots t) = range_of t + 1"
    using assms by (auto simp: table_rep_def)
  show "length bs = range_of t" using map_shape_length [OF m(1)] m(3) by simp
  show "getIndex t s < range_of t" using m(2) by (simp add: getIndex_def)
  show "chain (nextObject t) (slots t ! i) (bs ! i)" if "i < range_of t"
    using shape_chain [OF m(1), of i] that m(3) by simp
  show "distinct (concat bs @ fs)" "chain (nextObject t) (slots t ! range_of t) fs" using m(1) by (auto simp: map_shape_def)
qed

lemma member_bucket:
  assumes "table_rep t bs fs" and "x \<in> set (concat bs)"
  shows "x \<in> set (bs ! getIndex t (idObject t x))"
proof -
  obtain b where b: "b \<in> set bs" "x \<in> set b" using assms(2) by auto
  then obtain i where i: "i < length bs" "x \<in> set (bs ! i)" by (auto simp: in_set_conv_nth)
  then have "getIndex t (idObject t x) = i" using assms(1) table_rep_facts(1) [OF assms(1)] by (simp add: table_rep_def)
  with i show ?thesis by simp
qed

lemma object_scan_chain:
  "chain (nextObject t) p xs \<Longrightarrow> object_scan t s p = Some (find (\<lambda>x. stricmp_equal (idObject t x) s) xs)"
proof (induction xs arbitrary: p)
  case Nil
  then show ?case by (simp add: object_scan.simps)
next
  case (Cons x xs)
  then show ?case using object_scan.simps [of t s "Some x"] by simp
qed

lemma getObject_find:
  "table_rep t bs fs \<Longrightarrow> getObject t s = Some (find (\<lambda>x. stricmp_equal (idObject t x) s) (bs ! getIndex t s))"
  using object_scan_chain table_rep_facts(2,3) by (simp add: getObject_def)

lemma getObject_members:
  assumes "table_rep t bs fs"
  shows "\<exists>p. getObject t s = Some p \<and>
    (case p of None \<Rightarrow> \<forall>x\<in>set (concat bs). \<not> stricmp_equal (idObject t x) s
     | Some x \<Rightarrow> x \<in> set (concat bs) \<and> stricmp_equal (idObject t x) s)"
proof (cases "find (\<lambda>x. stricmp_equal (idObject t x) s) (bs ! getIndex t s)")
  case None
  have "\<not> stricmp_equal (idObject t x) s" if "x \<in> set (concat bs)" for x
    using member_bucket [OF assms that] getIndex_case [of "idObject t x" s t] None by (auto simp: find_None_iff)
  then show ?thesis using None getObject_find [OF assms] by simp
next
  case (Some x)
  then have "x \<in> set (bs ! getIndex t s)" "stricmp_equal (idObject t x) s" by (auto simp: find_Some_iff)
  then show ?thesis using Some getObject_find [OF assms] shape_set [of "getIndex t s" bs] table_rep_facts(1,2) [OF assms] by auto
qed

text \<open>Taking an object out of its chain.\<close>

lemma detach_scan_found:
  "path (nextObject t) p us (Some x) \<Longrightarrow> x \<notin> set us \<Longrightarrow>
     detach_scan t x prev p = Some (if us = [] then prev else Some (last us), Some x)"
proof (induction us arbitrary: p prev)
  case Nil
  then show ?case by (simp add: detach_scan.simps)
next
  case (Cons u us)
  then show ?case using detach_scan.simps [of t x prev "Some u"] by auto
qed

lemma shape_bypass:
  assumes s: "map_shape nxt rs fr bs fs" and i: "i < length rs" and b: "bs ! i = us @ x # vs"
  shows "map_shape (if us = [] then nxt else nxt(last us := nxt x)) (rs[i := if us = [] then nxt x else rs ! i]) fr (bs[i := us @ vs]) fs"
proof -
  have c: "chain nxt (rs ! i) (us @ x # vs)" using shape_chain [OF s i] b by simp
  have sub: "set (bs ! i) \<subseteq> set (concat bs)" using shape_set [of i bs] i map_shape_length [OF s] by simp
  have dis: "set (bs ! i) \<inter> set fs = {}" using s sub by (auto simp: map_shape_def)
  have l: "us \<noteq> [] \<Longrightarrow> last us \<in> set (bs ! i)" using b by simp
  show ?thesis
  proof (rule shape_upd [OF s i, where p = x])
    show "chain (if us = [] then nxt else nxt(last us := nxt x)) (if us = [] then nxt x else rs ! i) (us @ vs)"
      using c chain_bypass [of nxt "rs ! i" "butlast us" "last us" x vs] by (cases us rule: rev_cases) auto
    show "(if us = [] then nxt else nxt(last us := nxt x)) a = nxt a" if "a \<notin> set (bs ! i)" for a
      using that l by auto
    have "last us \<notin> set fs" if "us \<noteq> []" using dis l [OF that] by blast
    then show "chain (if us = [] then nxt else nxt(last us := nxt x)) fr fs" using s by (auto simp: map_shape_def)
  qed (use b dis in auto)
qed

section \<open>Operations on the buckets\<close>

lemma detach_rep:
  assumes r: "table_rep t bs fs" and x: "x \<in> set (concat bs)"
  shows "\<exists>t' bs'. MapObject_detach x t = Some t' \<and> table_rep t' bs' fs \<and> concat bs' = remove1 x (concat bs) \<and>
    idObject t' = idObject t \<and> range_of t' = range_of t"
proof -
  define i where "i = getIndex t (idObject t x)"
  have ir: "i < range_of t" using table_rep_facts(2) [OF r] i_def by simp
  have m: "map_shape (nextObject t) (take (range_of t) (slots t)) (slots t ! range_of t) bs fs" "length (slots t) = range_of t + 1"
    using r by (auto simp: table_rep_def)
  have at: "attached t x" using r x by (simp add: table_rep_def)
  obtain us vs where b: "bs ! i = us @ x # vs" and xu: "x \<notin> set us"
    using split_list_first [OF member_bucket [OF r x]] i_def by blast
  have p: "path (nextObject t) (slots t ! i) us (Some x)"
    using table_rep_facts(3) [OF r ir] b by (auto simp: path_append)
  define t' where "t' = t\<lparr>nextObject := (if us = [] then nextObject t else (nextObject t)(last us := nextObject t x)),
      slots := (slots t)[i := if us = [] then nextObject t x else slots t ! i],
      objects := objects t - 1, attached := (attached t)(x := False)\<rparr>"
  have d: "MapObject_detach x t = Some t'"
    using detach_scan_found [OF p xu, of None] at by (auto simp: MapObject_detach_def Let_def t'_def i_def)
  obtain cs ds where k: "concat bs = cs @ bs ! i @ ds" "\<And>b. concat (bs[i := b]) = cs @ b @ ds"
    using concat_upd [of i bs] ir table_rep_facts(1) [OF r] by auto
  have dis: "distinct (cs @ us @ x # vs @ ds)" using table_rep_facts(4) [OF r] unfolding k(1) b by auto
  have "table_rep t' (bs[i := us @ vs]) fs"
    unfolding table_rep_def
  proof (intro conjI allI impI ballI)
    have "map_shape (nextObject t') ((take (range_of t) (slots t))[i := if us = [] then nextObject t x else take (range_of t) (slots t) ! i])
        (slots t ! range_of t) (bs[i := us @ vs]) fs"
      using shape_bypass [OF m(1) _ b] ir m(2) by (simp add: t'_def)
    then show "map_shape (nextObject t') (take (range_of t') (slots t')) (slots t' ! range_of t') (bs[i := us @ vs]) fs"
      using ir m(2) list_update_id [of "take (range_of t) (slots t)" i]
      by (cases "us = []") (simp_all add: t'_def take_update_swap)
    show "getIndex t' (idObject t' y) = j" if "j < range_of t'" and "y \<in> set (bs[i := us @ vs] ! j)" for j y
    proof -
      have "y \<in> set (bs ! j)" using that b table_rep_facts(1) [OF r] by (cases "j = i") (auto simp: t'_def)
      then show ?thesis using r that by (simp add: table_rep_def t'_def getIndex_def)
    qed
    show "attached t' y \<longleftrightarrow> y \<in> set (concat (bs[i := us @ vs]))" for y
      using r dis unfolding k(2) table_rep_def k(1) b by (auto simp: t'_def)
    show "objects t' = of_nat (length (concat (bs[i := us @ vs])))"
      using r unfolding k(2) table_rep_def k(1) b by (simp add: t'_def)
  qed (use r in \<open>auto simp: table_rep_def t'_def\<close>)
  moreover have "concat (bs[i := us @ vs]) = remove1 x (concat bs)"
    using dis unfolding k(2) k(1) b by (simp add: remove1_append)
  ultimately show ?thesis using d by (auto simp: t'_def)
qed

lemma addObject_rep:
  assumes r: "table_rep t bs fs" and x: "x \<notin> set (concat bs @ fs)"
  shows "\<exists>t' bs'. addObject x t = Some t' \<and> table_rep t' bs' fs \<and> set (concat bs') = insert x (set (concat bs)) \<and>
    (\<forall>s. getObject t' s = (if stricmp_equal (idObject t x) s then Some (Some x) else getObject t s))"
proof -
  define i where "i = getIndex t (idObject t x)"
  have ir: "i < range_of t" using table_rep_facts(2) [OF r] i_def by simp
  have m: "map_shape (nextObject t) (take (range_of t) (slots t)) (slots t ! range_of t) bs fs" "length (slots t) = range_of t + 1"
    using r by (auto simp: table_rep_def)
  have at: "\<not> attached t x" using r x by (simp add: table_rep_def)
  define t' where "t' = t\<lparr>nextObject := (nextObject t)(x := slots t ! i), slots := (slots t)[i := Some x],
      attached := (attached t)(x := True), objects := objects t + 1\<rparr>"
  have d: "addObject x t = Some t'" using at by (simp add: addObject_def MapObject_detach_def Let_def t'_def i_def)
  obtain cs ds where k: "concat bs = cs @ bs ! i @ ds" "\<And>b. concat (bs[i := b]) = cs @ b @ ds"
    using concat_upd [of i bs] ir table_rep_facts(1) [OF r] by auto
  have rep: "table_rep t' (bs[i := x # bs ! i]) fs"
    unfolding table_rep_def
  proof (intro conjI allI impI ballI)
    have "map_shape (nextObject t') ((take (range_of t) (slots t))[i := Some x]) (slots t ! range_of t) (bs[i := x # bs ! i]) fs"
      using shape_push [OF m(1) _ x, of i] ir m(2) by (simp add: t'_def)
    then show "map_shape (nextObject t') (take (range_of t') (slots t')) (slots t' ! range_of t') (bs[i := x # bs ! i]) fs"
      using ir m(2) by (simp add: t'_def take_update_swap)
    show "getIndex t' (idObject t' y) = j" if "j < range_of t'" and "y \<in> set (bs[i := x # bs ! i] ! j)" for j y
    proof -
      have "y \<in> set (bs ! j) \<or> y = x \<and> j = i" using that table_rep_facts(1) [OF r] by (cases "j = i") (auto simp: t'_def)
      then show ?thesis using r that i_def by (auto simp: table_rep_def t'_def getIndex_def)
    qed
    show "attached t' y \<longleftrightarrow> y \<in> set (concat (bs[i := x # bs ! i]))" for y
      using r unfolding k(2) table_rep_def k(1) by (auto simp: t'_def)
    show "objects t' = of_nat (length (concat (bs[i := x # bs ! i])))"
      using r unfolding k(2) table_rep_def k(1) by (simp add: t'_def)
  qed (use r in \<open>auto simp: table_rep_def t'_def\<close>)
  have "getObject t' s = (if stricmp_equal (idObject t x) s then Some (Some x) else getObject t s)" for s
  proof -
    have g: "getIndex t' s = getIndex t s" and id: "idObject t' = idObject t" by (simp_all add: t'_def getIndex_def)
    show ?thesis
    proof (cases "getIndex t s = i")
      case True
      then show ?thesis using getObject_find [OF rep, of s] getObject_find [OF r, of s] g id ir table_rep_facts(1) [OF r] by simp
    next
      case False
      then have "\<not> stricmp_equal (idObject t x) s" using getIndex_case i_def by metis
      then show ?thesis using False getObject_find [OF rep, of s] getObject_find [OF r, of s] g id by simp
    qed
  qed
  moreover have "set (concat (bs[i := x # bs ! i])) = insert x (set (concat bs))" unfolding k(2) k(1) by auto
  ultimately show ?thesis using d rep by blast
qed

lemma free_rep:
  assumes r: "table_rep t bs fs" and x: "x \<notin> set fs"
  shows "\<exists>t' bs'. addFree x t = Some t' \<and> table_rep t' bs' (x # fs) \<and> concat bs' = remove1 x (concat bs)"
proof -
  obtain t1 bs1 where d: "MapObject_detach x t = Some t1" "table_rep t1 bs1 fs" "concat bs1 = remove1 x (concat bs)"
  proof (cases "x \<in> set (concat bs)")
    case True
    then show ?thesis using detach_rep [OF r True] that by blast
  next
    case False
    then have "MapObject_detach x t = Some t" using r by (simp add: table_rep_def MapObject_detach_def)
    then show ?thesis using that r False by (metis remove1_idem)
  qed
  have xb: "x \<notin> set (concat bs1)" using d(3) table_rep_facts(4) [OF r] by (simp add: set_remove1_eq del: set_concat)
  define t' where "t' = t1\<lparr>nextObject := (nextObject t1)(x := slots t1 ! range_of t1), slots := (slots t1)[range_of t1 := Some x]\<rparr>"
  have xj: "x \<notin> set (bs1 ! j)" if "j < length bs1" for j using xb that shape_set [of j bs1] by blast
  have m: "list_all2 (chain (nextObject t1)) (take (range_of t1) (slots t1)) bs1" "length (slots t1) = range_of t1 + 1"
      "chain (nextObject t1) (slots t1 ! range_of t1) fs" "distinct (concat bs1 @ fs)"
    using d(2) by (auto simp: table_rep_def map_shape_def)
  have "map_shape (nextObject t') (take (range_of t1) (slots t1)) (Some x) bs1 (x # fs)"
    using m xj xb x by (auto simp: map_shape_def t'_def list_all2_conv_all_nth)
  then have "table_rep t' bs1 (x # fs)" using d(2) m(2) by (auto simp: table_rep_def t'_def getIndex_def)
  moreover have "addFree x t = Some t'" using d(1) by (simp add: addFree_def t'_def)
  ultimately show ?thesis using d(3) by blast
qed

lemma getFree_rep:
  assumes r: "table_rep t bs fs"
  shows "case fs of [] \<Rightarrow> getFree t = (None, t) | x # fs' \<Rightarrow> \<exists>t'. getFree t = (Some x, t') \<and> table_rep t' bs fs'"
proof (cases fs)
  case Nil
  then show ?thesis using table_rep_facts(5) [OF r] by (simp add: getFree_def)
next
  case (Cons x fs')
  then have "slots t ! range_of t = Some x" "chain (nextObject t) (nextObject t x) fs'" using table_rep_facts(5) [OF r] by auto
  then show ?thesis using r Cons by (auto simp: getFree_def table_rep_def map_shape_def getIndex_def)
qed

section \<open>Iteration\<close>

lemma slot_from_spec:
  assumes r: "table_rep t bs fs" and "i \<le> range_of t"
  shows "case slot_from t i of None \<Rightarrow> concat (drop i bs) = []
    | Some x \<Rightarrow> \<exists>j < range_of t. slots t ! j = Some x \<and> concat (drop i bs) = concat (drop j bs)"
  using assms(2)
proof (induction "range_of t - i" arbitrary: i)
  case 0
  then show ?case using table_rep_facts(1) [OF r] slot_from.simps [of t i] by simp
next
  case (Suc n)
  then have i: "i < range_of t" by simp
  have d: "concat (drop i bs) = bs ! i @ concat (drop (Suc i) bs)"
    using Cons_nth_drop_Suc [of i bs] i table_rep_facts(1) [OF r] by (metis concat.simps(2))
  show ?case
  proof (cases "slots t ! i")
    case None
    then have "bs ! i = []" using table_rep_facts(3) [OF r i] by simp
    then have e: "concat (drop i bs) = concat (drop (Suc i) bs)" using d by simp
    have "n = range_of t - Suc i" "Suc i \<le> range_of t" using Suc.hyps(2) i by auto
    from Suc.hyps(1) [OF this] show ?thesis using i None slot_from.simps [of t i] unfolding e by simp
  next
    case (Some x)
    then show ?thesis using i slot_from.simps [of t i] by auto
  qed
qed

lemma walk_table_rest:
  assumes r: "table_rep t bs fs"
  shows "length xs \<le> k \<Longrightarrow>
     (case p of None \<Rightarrow> xs = []
      | Some x \<Rightarrow> \<exists>j ys. j < range_of t \<and> chain (nextObject t) p ys \<and> set ys \<subseteq> set (bs ! j) \<and> xs = ys @ concat (drop (Suc j) bs)) \<Longrightarrow>
     walk_table k t p = xs"
proof (induction k arbitrary: p xs)
  case 0
  then show ?case by simp
next
  case (Suc k)
  show ?case
  proof (cases p)
    case None
    then show ?thesis using Suc.prems by simp
  next
    case (Some x)
    then obtain j zs where j: "j < range_of t" "chain (nextObject t) (nextObject t x) zs" "x \<in> set (bs ! j)" "set zs \<subseteq> set (bs ! j)"
        "xs = x # zs @ concat (drop (Suc j) bs)"
      using Suc.prems(2) by (auto simp: chain_Some)
    have gi: "getIndex t (idObject t x) = j" using r j(1,3) by (simp add: table_rep_def)
    have at: "attached t x"
    proof -
      have "x \<in> set (concat bs)" using j(1,3) shape_set [of j bs] unfolding table_rep_facts(1) [OF r] by blast
      then show ?thesis using r by (simp add: table_rep_def)
    qed
    have "walk_table k t (MapIndex_next t p) = zs @ concat (drop (Suc j) bs)"
    proof (rule Suc.IH)
      show "length (zs @ concat (drop (Suc j) bs)) \<le> k" using Suc.prems(1) j(5) by simp
      show "case MapIndex_next t p of None \<Rightarrow> zs @ concat (drop (Suc j) bs) = []
        | Some y \<Rightarrow> \<exists>i ys. i < range_of t \<and> chain (nextObject t) (MapIndex_next t p) ys \<and> set ys \<subseteq> set (bs ! i) \<and>
            zs @ concat (drop (Suc j) bs) = ys @ concat (drop (Suc i) bs)"
      proof (cases "nextObject t x")
        case (Some y)
        then show ?thesis using \<open>p = Some x\<close> j by (auto simp: MapIndex_next_def)
      next
        case None
        have n: "MapIndex_next t p = slot_from t (Suc j)" using None \<open>p = Some x\<close> at gi by (simp add: MapIndex_next_def)
        have z: "zs = []" using j(2) None by simp
        show ?thesis
        proof (cases "slot_from t (Suc j)")
          case None
          then show ?thesis using slot_from_spec [OF r, of "Suc j"] j(1) n z by simp
        next
          case (Some y)
          then obtain i where i: "i < range_of t" "slots t ! i = Some y" "concat (drop (Suc j) bs) = concat (drop i bs)"
            using slot_from_spec [OF r, of "Suc j"] j(1) by auto
          have "concat (drop i bs) = bs ! i @ concat (drop (Suc i) bs)"
            using Cons_nth_drop_Suc [of i bs] i(1) table_rep_facts(1) [OF r] by (metis concat.simps(2))
          then show ?thesis using i n z Some table_rep_facts(3) [OF r i(1)] by auto
        qed
      qed
    qed
    then show ?thesis using Some j(5) by simp
  qed
qed

lemma walk_table_all:
  assumes r: "table_rep t bs fs" and k: "length (concat bs) \<le> k"
  shows "walk_table k t (getFirst t) = concat bs"
proof (rule walk_table_rest [OF r k])
  have n: "0 < range_of t" using r by (simp add: table_rep_def)
  have f: "getFirst t = slot_from t 0"
    using n slot_from.simps [of t 0] by (auto simp: getFirst_def split: option.split)
  show "case getFirst t of None \<Rightarrow> concat bs = []
    | Some x \<Rightarrow> \<exists>j ys. j < range_of t \<and> chain (nextObject t) (getFirst t) ys \<and> set ys \<subseteq> set (bs ! j) \<and> concat bs = ys @ concat (drop (Suc j) bs)"
  proof (cases "getFirst t")
    case None
    then show ?thesis using slot_from_spec [OF r, of 0] f by simp
  next
    case (Some y)
    then obtain i where i: "i < range_of t" "slots t ! i = Some y" "concat bs = concat (drop i bs)"
      using slot_from_spec [OF r, of 0] f by auto
    have "concat (drop i bs) = bs ! i @ concat (drop (Suc i) bs)"
      using Cons_nth_drop_Suc [of i bs] i(1) table_rep_facts(1) [OF r] by (metis concat.simps(2))
    then show ?thesis using i Some table_rep_facts(3) [OF r i(1)] by auto
  qed
qed

text \<open>
  C40: A \<open>MapTable\<close> is a set of objects that are found by their names without regard to case: \<open>getObject\<close> finds a member with the name if and
  only if there is one, an object that is added is found under its name from then on and no other lookup changes,
  \<open>detach\<close> and \<open>addFree\<close> take exactly that object out, \<open>getFree\<close> hands out the free objects last in first out, and an index
  that starts at \<open>getFirst\<close> visits every member once.
\<close>

theorem MapTable_refines_set:
  assumes "table_rep t bs fs"
  shows "(\<exists>p. getObject t s = Some p \<and>
      (case p of None \<Rightarrow> \<forall>x\<in>set (concat bs). \<not> stricmp_equal (idObject t x) s
       | Some x \<Rightarrow> x \<in> set (concat bs) \<and> stricmp_equal (idObject t x) s)) \<and>
    (x \<notin> set (concat bs @ fs) \<longrightarrow>
       (\<exists>t' bs'. addObject x t = Some t' \<and> table_rep t' bs' fs \<and> set (concat bs') = insert x (set (concat bs)) \<and>
          (\<forall>s. getObject t' s = (if stricmp_equal (idObject t x) s then Some (Some x) else getObject t s)))) \<and>
    (x \<in> set (concat bs) \<longrightarrow> (\<exists>t' bs'. MapObject_detach x t = Some t' \<and> table_rep t' bs' fs \<and> concat bs' = remove1 x (concat bs))) \<and>
    (x \<notin> set fs \<longrightarrow> (\<exists>t' bs'. addFree x t = Some t' \<and> table_rep t' bs' (x # fs) \<and> concat bs' = remove1 x (concat bs))) \<and>
    (case fs of [] \<Rightarrow> getFree t = (None, t) | y # fs' \<Rightarrow> \<exists>t'. getFree t = (Some y, t') \<and> table_rep t' bs fs') \<and>
    walk_table (length (concat bs)) t (getFirst t) = concat bs"
proof -
  note r = assms
  have d: "x \<in> set (concat bs) \<longrightarrow> (\<exists>t' bs'. MapObject_detach x t = Some t' \<and> table_rep t' bs' fs \<and> concat bs' = remove1 x (concat bs))"
    using detach_rep [OF r] by blast
  show ?thesis using getObject_members [OF r, of s] addObject_rep [OF r, of x] d free_rep [OF r, of x] getFree_rep [OF r]
      walk_table_all [OF r order_refl] by (intro conjI) (assumption | blast)+
qed

theorem MapTable_refines_set_witness:
  "\<exists>t'. addObject 3 (MapTable_new 5 (\<lambda>a. ''Key'')) = Some t' \<and> getObject t' ''kEY'' = Some (Some 3) \<and>
     getObject t' ''other'' = getObject (MapTable_new 5 (\<lambda>a. ''Key'')) ''other''"
proof -
  let ?t = "MapTable_new 5 (\<lambda>a. ''Key'')"
  have "table_rep ?t (replicate 5 []) []" by (rule table_rep_new) simp
  from MapTable_refines_set [OF this, of "''x''" 3]
  obtain t' where "addObject 3 ?t = Some t'"
      "\<forall>s. getObject t' s = (if stricmp_equal (idObject ?t 3) s then Some (Some 3) else getObject ?t s)"
    by auto
  moreover have "stricmp_equal ''Key'' ''kEY''" "\<not> stricmp_equal ''Key'' ''other''" by code_simp+
  ultimately show ?thesis by (simp add: MapTable_new_def)
qed

end
