(* ===== verification/ChainList.thy ===== *)
theory ChainList
  imports Prelude
begin

text \<open>
  The chains of \<open>commoncpp/linked.cpp\<close>: \<open>LinkedSingle\<close> and \<open>LinkedDouble\<close>, whose objects have no root and are reached from any
  member. The lock of a chain is empty in these classes. A loop over links is a partial function, \<open>None\<close> when it does not end.
\<close>

section \<open>Operations\<close>

record dlinks =
  nextOf :: "addr \<Rightarrow> ptr"
  prevOf :: "addr \<Rightarrow> ptr"

partial_function (option) single_last :: "dlinks \<Rightarrow> addr \<Rightarrow> addr option" where
  "single_last h obj = (case nextOf h obj of None \<Rightarrow> Some obj | Some n \<Rightarrow> single_last h n)"

definition LinkedSingle_insert :: "addr \<Rightarrow> addr \<Rightarrow> dlinks \<Rightarrow> dlinks" where
  "LinkedSingle_insert this obj h =
     (let h = h\<lparr>nextOf := (nextOf h)(obj := nextOf h this)\<rparr> in h\<lparr>nextOf := (nextOf h)(this := Some obj)\<rparr>)"

partial_function (option) firstObject :: "dlinks \<Rightarrow> addr \<Rightarrow> addr option" where
  "firstObject h node = (case prevOf h node of None \<Rightarrow> Some node | Some p \<Rightarrow> firstObject h p)"

partial_function (option) lastObject :: "dlinks \<Rightarrow> addr \<Rightarrow> addr option" where
  "lastObject h node = (case nextOf h node of None \<Rightarrow> Some node | Some n \<Rightarrow> lastObject h n)"

definition set_nextOf :: "ptr \<Rightarrow> ptr \<Rightarrow> dlinks \<Rightarrow> dlinks" where
  "set_nextOf p q h = (case p of None \<Rightarrow> h | Some x \<Rightarrow> h\<lparr>nextOf := (nextOf h)(x := q)\<rparr>)"

definition set_prevOf :: "ptr \<Rightarrow> ptr \<Rightarrow> dlinks \<Rightarrow> dlinks" where
  "set_prevOf p q h = (case p of None \<Rightarrow> h | Some x \<Rightarrow> h\<lparr>prevOf := (prevOf h)(x := q)\<rparr>)"

definition LinkedDouble_detach :: "addr \<Rightarrow> dlinks \<Rightarrow> dlinks" where
  "LinkedDouble_detach this h =
     (let h = set_nextOf (prevOf h this) (nextOf h this) h;
          h = set_prevOf (nextOf h this) (prevOf h this) h
      in h\<lparr>prevOf := (prevOf h)(this := None), nextOf := (nextOf h)(this := None)\<rparr>)"

datatype insert_mode = modeAtFirst | modeAtLast | modeBefore | modeAfter

definition LinkedDouble_insert :: "addr \<Rightarrow> addr \<Rightarrow> insert_mode \<Rightarrow> dlinks \<Rightarrow> dlinks option" where
  "LinkedDouble_insert this obj position h =
     (let h = LinkedDouble_detach obj h
      in case position of
           modeAtFirst \<Rightarrow>
             map_option (\<lambda>node. set_prevOf (Some node) (Some obj) (set_nextOf (Some obj) (Some node) h)) (firstObject h this)
         | modeBefore \<Rightarrow>
             (let h = set_nextOf (Some obj) (Some this) h;
                  h = set_prevOf (Some obj) (prevOf h this) h;
                  h = set_prevOf (Some this) (Some obj) h
              in Some (set_nextOf (prevOf h obj) (Some obj) h))
         | modeAfter \<Rightarrow>
             (let h = set_nextOf (Some obj) (nextOf h this) h;
                  h = set_prevOf (Some obj) (Some this) h;
                  h = set_nextOf (Some this) (Some obj) h
              in Some (set_prevOf (nextOf h obj) (Some obj) h))
         | modeAtLast \<Rightarrow>
             map_option
               (\<lambda>node.
                  let h = set_nextOf (Some obj) (nextOf h node) h;
                      h = set_prevOf (Some obj) (Some node) h;
                      h = set_nextOf (Some node) (Some obj) h
                  in set_prevOf (nextOf h obj) (Some obj) h)
               (lastObject h this))"

section \<open>Chains in both directions\<close>

text \<open>The objects of a list, with the links behind and in front of them.\<close>

fun dseg :: "dlinks \<Rightarrow> ptr \<Rightarrow> addr list \<Rightarrow> ptr \<Rightarrow> bool" where
  "dseg h q [] n \<longleftrightarrow> True"
| "dseg h q (x # xs) n \<longleftrightarrow>
     prevOf h x = q \<and> nextOf h x = (case xs of [] \<Rightarrow> n | y # _ \<Rightarrow> Some y) \<and> dseg h (Some x) xs n"

definition dchain :: "dlinks \<Rightarrow> addr list \<Rightarrow> bool" where
  "dchain h xs \<longleftrightarrow> dseg h None xs None \<and> distinct xs"

definition alone :: "dlinks \<Rightarrow> addr \<Rightarrow> bool" where
  "alone h x \<longleftrightarrow> nextOf h x = None \<and> prevOf h x = None"

lemma dseg_append:
  "dseg h q (xs @ ys) n \<longleftrightarrow>
     dseg h q xs (case ys of [] \<Rightarrow> n | y # _ \<Rightarrow> Some y) \<and> dseg h (if xs = [] then q else Some (last xs)) ys n"
  by (induction xs arbitrary: q) (auto split: list.split)

lemma dseg_cong:
  "(\<And>x. x \<in> set xs \<Longrightarrow> nextOf g x = nextOf h x \<and> prevOf g x = prevOf h x) \<Longrightarrow> dseg g q xs n = dseg h q xs n"
  by (induction xs arbitrary: q) (auto split: list.split)

lemma set_links [simp]:
  "nextOf (set_nextOf p q h) = (case p of None \<Rightarrow> nextOf h | Some x \<Rightarrow> (nextOf h)(x := q))" "prevOf (set_nextOf p q h) = prevOf h"
  "prevOf (set_prevOf p q h) = (case p of None \<Rightarrow> prevOf h | Some x \<Rightarrow> (prevOf h)(x := q))" "nextOf (set_prevOf p q h) = nextOf h"
  by (simp_all add: set_nextOf_def set_prevOf_def split: option.split)

lemma detach_links:
  "prevOf h x \<noteq> Some x \<Longrightarrow>
     nextOf (LinkedDouble_detach x h) =
       (case prevOf h x of None \<Rightarrow> nextOf h | Some p \<Rightarrow> (nextOf h)(p := nextOf h x))(x := None) \<and>
     prevOf (LinkedDouble_detach x h) =
       (case nextOf h x of None \<Rightarrow> prevOf h | Some n \<Rightarrow> (prevOf h)(n := prevOf h x))(x := None)"
  by (auto simp: LinkedDouble_detach_def Let_def fun_eq_iff split: option.split)

lemma dchain_detach:
  assumes "dchain h (us @ x # vs)"
  shows "dchain (LinkedDouble_detach x h) (us @ vs) \<and> alone (LinkedDouble_detach x h) x"
proof -
  let ?g = "LinkedDouble_detach x h"
  have s: "dseg h None us (Some x)" "prevOf h x = (if us = [] then None else Some (last us))"
      "nextOf h x = (case vs of [] \<Rightarrow> None | y # _ \<Rightarrow> Some y)" "dseg h (Some x) vs None" and d: "distinct (us @ x # vs)"
    using assms by (auto simp: dchain_def dseg_append)
  have l: "last us \<noteq> x \<and> last us \<notin> set vs" if "us \<noteq> []" using d that by (cases us rule: rev_cases) auto
  then have "prevOf h x \<noteq> Some x" using s(2) by auto
  note g = detach_links [OF this]
  have u: "dseg ?g None us (case vs of [] \<Rightarrow> None | y # _ \<Rightarrow> Some y)"
  proof (cases us rule: rev_cases)
    case (snoc us' u)
    have "dseg ?g None us' (Some u) = dseg h None us' (Some u)"
      using g s(2,3) d snoc by (intro dseg_cong) (auto split: list.splits)
    then show ?thesis using g s d snoc by (auto simp: dseg_append split: list.splits)
  qed simp
  have v: "dseg ?g (if us = [] then None else Some (last us)) vs None"
  proof (cases vs)
    case (Cons v vs')
    have "dseg ?g (Some v) vs' None = dseg h (Some v) vs' None"
      using g s(2,3) d Cons l by (intro dseg_cong) (auto split: option.splits if_splits)
    then show ?thesis using g s d Cons l by (auto split: if_splits)
  qed simp
  show ?thesis using u v d g by (auto simp: dchain_def dseg_append alone_def)
qed

definition fst_of :: "addr list \<Rightarrow> ptr" where
  "fst_of xs = (case xs of [] \<Rightarrow> None | x # _ \<Rightarrow> Some x)"

definition lst_of :: "addr list \<Rightarrow> ptr" where
  "lst_of xs = (if xs = [] then None else Some (last xs))"

lemma dchain_parts:
  "dchain h (us @ vs) \<longleftrightarrow> dseg h None us (fst_of vs) \<and> dseg h (lst_of us) vs None \<and> distinct (us @ vs)"
  by (auto simp: dchain_def dseg_append fst_of_def lst_of_def)

text \<open>A new object between two parts of a chain.\<close>

lemma dchain_link:
  assumes c: "dchain h (us @ vs)" and x: "x \<notin> set (us @ vs)"
    and n: "nextOf g = (case lst_of us of None \<Rightarrow> nextOf h | Some u \<Rightarrow> (nextOf h)(u := Some x))(x := fst_of vs)"
    and p: "prevOf g = (case fst_of vs of None \<Rightarrow> prevOf h | Some v \<Rightarrow> (prevOf h)(v := Some x))(x := lst_of us)"
  shows "dchain g (us @ x # vs)"
proof -
  have s: "dseg h None us (fst_of vs)" "dseg h (lst_of us) vs None" and d: "distinct (us @ vs)"
    using c by (auto simp: dchain_parts)
  have u: "dseg g None us (Some x)"
  proof (cases us rule: rev_cases)
    case (snoc us' u)
    have "dseg g None us' (Some u) = dseg h None us' (Some u)"
      using n p d snoc x by (intro dseg_cong) (auto simp: lst_of_def fst_of_def split: list.splits)
    then show ?thesis using s(1) n p d snoc x by (auto simp: dseg_append lst_of_def fst_of_def split: list.splits)
  qed simp
  have l: "last us \<notin> set vs" if "us \<noteq> []" using d that by (cases us rule: rev_cases) auto
  have v: "dseg g (Some x) vs None"
  proof (cases vs)
    case (Cons v vs')
    have "dseg g (Some v) vs' None = dseg h (Some v) vs' None"
      using n p d Cons l x by (intro dseg_cong) (auto simp: lst_of_def fst_of_def)
    then show ?thesis using s(2) n p d Cons l x by (auto simp: lst_of_def fst_of_def)
  qed simp
  have "prevOf g x = lst_of us" "nextOf g x = fst_of vs" using n p by auto
  then show ?thesis using u v d x by (auto simp: dchain_parts [of g us "x # vs"] lst_of_def fst_of_def split: list.split)
qed

lemma firstObject_chain: "dseg h None (us @ [x]) n \<Longrightarrow> firstObject h x = Some (hd (us @ [x]))"
proof (induction us arbitrary: x n rule: rev_induct)
  case Nil
  then show ?case by (simp add: firstObject.simps)
next
  case (snoc u us)
  then have "prevOf h x = Some u" "dseg h None (us @ [u]) (Some x)" by (auto simp: dseg_append)
  then show ?case using snoc.IH firstObject.simps [of h x] by (cases us) auto
qed

lemma lastObject_chain: "dseg h q (x # vs) None \<Longrightarrow> lastObject h x = Some (last (x # vs))"
proof (induction vs arbitrary: x q)
  case Nil
  then show ?case by (simp add: lastObject.simps)
next
  case (Cons v vs)
  then have "nextOf h x = Some v" "dseg h (Some x) (v # vs) None" by auto
  then show ?case using Cons.IH [of "Some x" v] lastObject.simps [of h x] by simp
qed

lemma chain_ends:
  assumes "dchain h (us @ this # vs)"
  shows "firstObject h this = Some (hd (us @ this # vs))" "lastObject h this = Some (last (this # vs))"
proof -
  have "dseg h None (us @ [this]) (fst_of vs)" "dseg h (lst_of us) (this # vs) None"
    using assms dchain_parts [of h "us @ [this]" vs] dchain_parts [of h us "this # vs"] by auto
  then show "firstObject h this = Some (hd (us @ this # vs))" "lastObject h this = Some (last (this # vs))"
    using firstObject_chain lastObject_chain by (fastforce simp: hd_append)+
qed

section \<open>Refinement of lists\<close>

fun list_insert :: "addr list \<Rightarrow> addr \<Rightarrow> addr list \<Rightarrow> addr \<Rightarrow> insert_mode \<Rightarrow> addr list" where
  "list_insert us this vs obj modeAtFirst = obj # us @ this # vs"
| "list_insert us this vs obj modeAtLast = us @ this # vs @ [obj]"
| "list_insert us this vs obj modeBefore = us @ obj # this # vs"
| "list_insert us this vs obj modeAfter = us @ this # obj # vs"

lemma detach_alone: "alone h x \<Longrightarrow> LinkedDouble_detach x h = h"
  by (cases h) (auto simp: alone_def LinkedDouble_detach_def set_nextOf_def set_prevOf_def fun_eq_iff)

lemma insert_alone:
  assumes c: "dchain h (us @ this # vs)" and x: "obj \<notin> set (us @ this # vs)" and a: "alone h obj"
  shows "\<exists>g. LinkedDouble_insert this obj position h = Some g \<and> dchain g (list_insert us this vs obj position)"
proof -
  have lp: "prevOf h this = lst_of us" "nextOf h this = fst_of vs"
    using c by (auto simp: dchain_def dseg_append lst_of_def fst_of_def split: list.split)
  have ends: "firstObject h this = Some (hd (us @ this # vs))" "lastObject h this = Some (last (this # vs))"
    using chain_ends [OF c] .
  have nl: "nextOf h (last (this # vs)) = None"
    using c by (cases vs rule: rev_cases) (auto simp: dchain_def dseg_append)
  have o: "obj \<noteq> this" "obj \<noteq> last (this # vs)" "obj \<noteq> hd (us @ this # vs)"
    using x by (auto simp: last_in_set) (metis hd_in_set append_is_Nil_conv list.distinct(1) Un_iff list.set_intros set_append set_ConsD)+
  note defs = LinkedDouble_insert_def detach_alone [OF a] Let_def lp ends
  show ?thesis
  proof (cases position)
    case modeAtFirst
    have fh: "fst_of (us @ this # vs) = Some (hd (us @ this # vs))" by (cases us) (simp_all add: fst_of_def)
    have "dchain g ([] @ obj # us @ this # vs)"
      if g: "g = set_prevOf (Some (hd (us @ this # vs))) (Some obj) (set_nextOf (Some obj) (Some (hd (us @ this # vs))) h)" for g
    proof (rule dchain_link)
      show "dchain h ([] @ us @ this # vs)" using c by simp
    qed (use x o a in \<open>auto simp: g alone_def lst_of_def fh fun_eq_iff simp del: hd_append\<close>)
    then show ?thesis using modeAtFirst by (simp add: defs)
  next
    case modeBefore
    have "dchain g (us @ obj # this # vs)"
      if "nextOf g = (case lst_of us of None \<Rightarrow> nextOf h | Some u \<Rightarrow> (nextOf h)(u := Some obj))(obj := Some this)"
        "prevOf g = ((prevOf h)(this := Some obj))(obj := lst_of us)" for g
      by (rule dchain_link [OF c x]) (use that in \<open>simp_all add: fst_of_def\<close>)
    moreover have "obj \<noteq> last us" if "us \<noteq> []" using x that by (cases us rule: rev_cases) auto
    ultimately show ?thesis using modeBefore o x by (cases "us = []") (auto simp: defs lst_of_def fun_eq_iff)
  next
    case modeAfter
    have "dchain g ((us @ [this]) @ obj # vs)"
      if "nextOf g = ((nextOf h)(this := Some obj))(obj := fst_of vs)"
        "prevOf g = (case fst_of vs of None \<Rightarrow> prevOf h | Some v \<Rightarrow> (prevOf h)(v := Some obj))(obj := Some this)" for g
      by (rule dchain_link) (use that c x in \<open>simp_all add: lst_of_def\<close>)
    then show ?thesis using modeAfter o x by (auto simp: defs fst_of_def fun_eq_iff split: list.split)
  next
    case modeAtLast
    have "dchain g ((us @ this # vs) @ obj # [])"
      if "nextOf g = ((nextOf h)(last (this # vs) := Some obj))(obj := None)" "prevOf g = (prevOf h)(obj := Some (last (this # vs)))" for g
      by (rule dchain_link) (use that c x in \<open>simp_all add: lst_of_def fst_of_def\<close>)
    then show ?thesis using modeAtLast o x nl by (auto simp: defs fun_eq_iff)
  qed
qed

text \<open>Detaching an object first: it may come from the same chain.\<close>

lemma dchain_remove:
  assumes c: "dchain h xs" and "obj \<in> set xs \<or> alone h obj"
  shows "dchain (LinkedDouble_detach obj h) (remove1 obj xs) \<and> alone (LinkedDouble_detach obj h) obj"
proof (cases "obj \<in> set xs")
  case True
  then obtain us vs where x: "xs = us @ obj # vs" "obj \<notin> set us" using split_list_first by metis
  then show ?thesis using dchain_detach [of h us obj vs] c by (simp add: remove1_append)
next
  case False
  then show ?thesis using assms by (simp add: detach_alone remove1_idem)
qed

text \<open>
  C39: On the chain of an object, \<open>insert\<close> of an object that is alone or anywhere in the same chain moves it in front of the chain, behind it, or
  directly before or behind the object it is called on, and \<open>detach\<close> takes an object out and leaves it alone; the links are right in
  both directions, and \<open>getFirst\<close> and \<open>getLast\<close> reach the ends from every member.
\<close>

theorem LinkedDouble_refines_list:
  assumes "dchain h xs" and "this \<in> set xs" and "obj \<noteq> this" and "obj \<in> set xs \<or> alone h obj"
  shows "(\<exists>g us vs. LinkedDouble_insert this obj position h = Some g \<and> remove1 obj xs = us @ this # vs \<and>
      dchain g (list_insert us this vs obj position)) \<and>
    dchain (LinkedDouble_detach obj h) (remove1 obj xs) \<and> alone (LinkedDouble_detach obj h) obj \<and>
    firstObject h this = Some (hd xs) \<and> lastObject h this = Some (last xs)"
proof -
  note r = dchain_remove [OF assms(1,4)]
  have "this \<in> set (remove1 obj xs)" using assms(2,3) by (simp add: in_set_remove1)
  then obtain us vs where u: "remove1 obj xs = us @ this # vs" by (meson split_list)
  have d: "distinct xs" using assms(1) by (simp add: dchain_def)
  then have n: "obj \<notin> set (us @ this # vs)" unfolding u [symmetric] by simp
  have "LinkedDouble_insert this obj position h = LinkedDouble_insert this obj position (LinkedDouble_detach obj h)"
    using detach_alone r by (simp add: LinkedDouble_insert_def)
  then have i: "\<exists>g. LinkedDouble_insert this obj position h = Some g \<and> dchain g (list_insert us this vs obj position)"
    using insert_alone [OF _ n, of "LinkedDouble_detach obj h" position] r u by auto
  obtain ps qs where p: "xs = ps @ this # qs" using assms(2) by (meson split_list)
  then have "firstObject h this = Some (hd xs)" "lastObject h this = Some (last xs)"
    using chain_ends [of h ps this qs] assms(1) by auto
  then show ?thesis using i u r by blast
qed

definition pair_chain :: dlinks where
  "pair_chain = \<lparr>nextOf = (\<lambda>_. None)(1 := Some 2, 2 := Some 3), prevOf = (\<lambda>_. None)(2 := Some 1, 3 := Some 2)\<rparr>"

theorem LinkedDouble_refines_list_witness:
  "\<exists>g. LinkedDouble_insert 1 3 modeAtFirst pair_chain = Some g \<and> dchain g [3, 1, 2]"
proof -
  have c: "dchain pair_chain [1, 2, 3]" by (simp add: dchain_def pair_chain_def)
  obtain g us vs where g: "LinkedDouble_insert 1 3 modeAtFirst pair_chain = Some g" "[1, 2] = us @ 1 # vs"
      "dchain g (list_insert us 1 vs 3 modeAtFirst)"
    using LinkedDouble_refines_list [OF c, of 1 3 modeAtFirst] by auto
  then show ?thesis by simp
qed

text \<open>In a single chain, \<open>insert\<close> puts the object behind the one it is called on, and \<open>getLast\<close> reaches the end.\<close>

lemma LinkedSingle_insert_chain:
  assumes "chain (nextOf h) p (us @ this # vs)" and "obj \<notin> set (us @ this # vs)"
  shows "chain (nextOf (LinkedSingle_insert this obj h)) p (us @ this # obj # vs)"
  using assms chain_distinct [OF assms(1)] by (auto simp: LinkedSingle_insert_def Let_def path_append)

lemma single_last_chain: "chain (nextOf h) (Some x) xs \<Longrightarrow> single_last h x = Some (last xs)"
proof (induction xs arbitrary: x)
  case (Cons y xs)
  then show ?case using single_last.simps [of h x] by (cases xs) auto
qed simp

end
