(* ===== verification/Tokenizer.thy ===== *)
theory Tokenizer
  imports Prelude
begin

text \<open>
  The string tokenizer of \<open>commoncpp/tokenizer.cpp\<close> and \<open>tokenizer.h\<close>.

  A pointer into the string is its offset from the begin of the string, an integer, since an iterator starts one place before the
  string. A string is the list of its characters in front of the terminator, and the terminator is the character at the
  offset of its length. The exception of the iterator is \<open>Inl NoSuchElementException\<close>.
\<close>

section \<open>The tokenizer and its iterator\<close>

datatype tokenizer_error = NoSuchElementException

record tokenizer =
  str :: "string option"
  delim :: string
  skipAll :: bool
  trim :: bool
  itEnd :: int

record tokiter =
  start :: int
  tokEnd :: "int option"
  endp :: int
  token :: "string option"

definition SPACE :: string where
  "SPACE = [CHR '' '', CHR 0x09, CHR 0x0a, CHR 0x0d, CHR 0x0c, CHR 0x0b]"

definition StringTokenizer_new :: "string option \<Rightarrow> string \<Rightarrow> bool \<Rightarrow> bool \<Rightarrow> tokenizer" where
  "StringTokenizer_new s d sk tr =
     \<lparr>str = s, delim = d, skipAll = sk, trim = tr, itEnd = (case s of None \<Rightarrow> 0 | Some x \<Rightarrow> int (length x) + 1)\<rparr>"

definition StringTokenizer_words :: "string option \<Rightarrow> tokenizer" where
  "StringTokenizer_words s = StringTokenizer_new s SPACE False True"

definition setDelimiters :: "string \<Rightarrow> tokenizer \<Rightarrow> tokenizer" where
  "setDelimiters d t = t\<lparr>delim := d\<rparr>"

text \<open>The character at a place of the string, and the search of a character with \<open>strchr\<close>, which finds the terminator.\<close>

definition char_at :: "tokenizer \<Rightarrow> int \<Rightarrow> char" where
  "char_at t e = (case str t of None \<Rightarrow> CHR 0x00 | Some s \<Rightarrow> if 0 \<le> e \<and> e < int (length s) then s ! nat e else CHR 0x00)"

definition strchr :: "string \<Rightarrow> char \<Rightarrow> bool" where
  "strchr s c \<longleftrightarrow> c = CHR 0x00 \<or> c \<in> set s"

function scan_token :: "tokenizer \<Rightarrow> int \<Rightarrow> int" where
  "scan_token t e = (if char_at t e \<noteq> CHR 0x00 \<and> \<not> strchr (delim t) (char_at t e) then scan_token t (e + 1) else e)"
  by pat_completeness auto
termination
  by (relation "measure (\<lambda>(t, e). nat (int (length (case str t of None \<Rightarrow> [] | Some s \<Rightarrow> s)) - e))")
    (auto simp: char_at_def split: option.splits if_splits)

function scan_delims :: "tokenizer \<Rightarrow> int \<Rightarrow> int" where
  "scan_delims t e = (if char_at t (e + 1) \<noteq> CHR 0x00 \<and> strchr (delim t) (char_at t (e + 1)) then scan_delims t (e + 1) else e)"
  by pat_completeness auto
termination
  by (relation "measure (\<lambda>(t, e). nat (int (length (case str t of None \<Rightarrow> [] | Some s \<Rightarrow> s)) - e))")
    (auto simp: char_at_def split: option.splits if_splits)

function trim_start :: "tokenizer \<Rightarrow> int \<Rightarrow> int \<Rightarrow> int" where
  "trim_start t e s = (if e > s \<and> strchr SPACE (char_at t s) then trim_start t e (s + 1) else s)"
  by pat_completeness auto
termination
  by (relation "measure (\<lambda>(t, e, s). nat (e - s))") auto

function trim_end :: "tokenizer \<Rightarrow> int \<Rightarrow> int \<Rightarrow> int" where
  "trim_end t s e = (if e > s \<and> strchr SPACE (char_at t (e - 1)) then trim_end t s (e - 1) else e)"
  by pat_completeness auto
termination
  by (relation "measure (\<lambda>(t, s, e). nat (e - s))") auto

declare scan_token.simps [simp del] scan_delims.simps [simp del] trim_start.simps [simp del] trim_end.simps [simp del]

definition tok_next :: "tokenizer \<Rightarrow> tokiter \<Rightarrow> tokenizer_error + tokiter" where
  "tok_next t i =
     (if endp i = itEnd t then Inl NoSuchElementException
      else let i = i\<lparr>token := None, start := endp i + 1, endp := endp i + 1\<rparr>
           in if endp i = itEnd t then Inr i
              else let e = scan_token t (endp i)
                   in Inr (i\<lparr>tokEnd := Some e,
                        endp := (if char_at t e \<noteq> CHR 0x00 \<and> skipAll t then scan_delims t e else e)\<rparr>))"

text \<open>The copy of a token that \<open>newString\<close> makes: at most \<open>n\<close> characters from a place, up to the terminator.\<close>

definition newString :: "tokenizer \<Rightarrow> int \<Rightarrow> int \<Rightarrow> string" where
  "newString t s n = takeWhile (\<lambda>c. c \<noteq> CHR 0x00) (map (\<lambda>k. char_at t (s + int k)) [0..<nat n])"

definition tok_deref :: "tokenizer \<Rightarrow> tokiter \<Rightarrow> tokenizer_error + (string \<times> tokiter)" where
  "tok_deref t i =
     (if endp i = itEnd t then Inl NoSuchElementException
      else case token i of
        Some w \<Rightarrow> Inr (w, i)
      | None \<Rightarrow>
          let e = (case tokEnd i of None \<Rightarrow> 0 | Some e \<Rightarrow> e);
              s = (if trim t then trim_start t e (start i) else start i);
              e = (if trim t then trim_end t s e else e);
              w = newString t s (if s > e then 0 else e - s)
          in Inr (w, i\<lparr>start := s, token := Some w\<rparr>))"

definition tok_begin :: "tokenizer \<Rightarrow> tokenizer_error + tokiter" where
  "tok_begin t = tok_next t \<lparr>start = 0, tokEnd = None, endp = -1, token = None\<rparr>"

definition nextDelimiter :: "tokenizer \<Rightarrow> tokiter \<Rightarrow> char" where
  "nextDelimiter t i = (case tokEnd i of None \<Rightarrow> CHR 0x00 | Some e \<Rightarrow> char_at t e)"

definition tok_at_end :: "tokenizer \<Rightarrow> tokiter \<Rightarrow> bool" where
  "tok_at_end t i \<longleftrightarrow> endp i = itEnd t"

definition tok_copy :: "tokiter \<Rightarrow> tokiter" where
  "tok_copy i = i\<lparr>token := None\<rparr>"

text \<open>The loop of a client: all tokens with the delimiters behind them, from an iterator to the end.\<close>

partial_function (option) tok_all :: "tokenizer \<Rightarrow> tokiter \<Rightarrow> (tokenizer_error + (string \<times> char) list) option" where
  "tok_all t i =
     (if tok_at_end t i then Some (Inr [])
      else case tok_deref t i of
        Inl e \<Rightarrow> Some (Inl e)
      | Inr (w, i) \<Rightarrow>
          (case tok_next t i of
             Inl e \<Rightarrow> Some (Inl e)
           | Inr j \<Rightarrow> Option.bind (tok_all t j) (\<lambda>r. Some (map_sum id ((#) (w, nextDelimiter t i)) r))))"

definition StringTokenizer_tokens :: "tokenizer \<Rightarrow> (tokenizer_error + (string \<times> char) list) option" where
  "StringTokenizer_tokens t = (case tok_begin t of Inl e \<Rightarrow> Some (Inl e) | Inr i \<Rightarrow> tok_all t i)"

section \<open>Tokens of a text\<close>

text \<open>
  The reference: a text is cut at every character that is a delimiter, or at every group of them, and a piece is stripped of white space.
\<close>

function split_tokens :: "bool \<Rightarrow> string \<Rightarrow> string \<Rightarrow> (string \<times> char) list" where
  "split_tokens sk d s =
     (case dropWhile (\<lambda>c. c \<notin> set d) s of
        [] \<Rightarrow> [(s, CHR 0x00)]
      | c # r \<Rightarrow> (takeWhile (\<lambda>c. c \<notin> set d) s, c) # split_tokens sk d (if sk then dropWhile (\<lambda>c. c \<in> set d) r else r))"
  by pat_completeness auto
termination
proof (relation "measure (\<lambda>(sk, d, s). length s)")
  fix sk d s and c :: char and r
  assume "dropWhile (\<lambda>c. c \<notin> set d) s = c # r"
  then have "length r < length s" using length_dropWhile_le [of "\<lambda>c. c \<notin> set d" s] by simp
  then show "((sk, d, if sk then dropWhile (\<lambda>c. c \<in> set d) r else r), sk, d, s) \<in> measure (\<lambda>(sk, d, s). length s)"
    using length_dropWhile_le [of "\<lambda>c. c \<in> set d" r] by auto
qed simp

declare split_tokens.simps [simp del]

definition strip_space :: "string \<Rightarrow> string" where
  "strip_space w = rev (dropWhile (\<lambda>c. c \<in> set SPACE) (rev (dropWhile (\<lambda>c. c \<in> set SPACE) w)))"

lemma char_at_end: "str t = Some u \<Longrightarrow> char_at t (int (length u)) = CHR 0x00"
  by (simp add: char_at_def)

lemma char_at_mid: "str t = Some (u @ c # v) \<Longrightarrow> char_at t (int (length u)) = c"
  by (simp add: char_at_def)

lemma scan_token_end:
  "str t = Some (u @ r) \<Longrightarrow> CHR 0x00 \<notin> set r \<Longrightarrow>
     scan_token t (int (length u)) = int (length u + length (takeWhile (\<lambda>c. c \<notin> set (delim t)) r))"
proof (induction r arbitrary: u)
  case Nil
  then show ?case using char_at_end [of t u] scan_token.simps [of t "int (length u)"] by simp
next
  case (Cons c r)
  then have "c \<notin> set (delim t) \<Longrightarrow> scan_token t (int (length (u @ [c]))) = int (length (u @ [c]) + length (takeWhile (\<lambda>c. c \<notin> set (delim t)) r))"
    by (intro Cons.IH) auto
  then show ?case using Cons.prems char_at_mid [of t u c r] scan_token.simps [of t "int (length u)"]
    by (auto simp: strchr_def add.commute)
qed

lemma scan_delims_end:
  "str t = Some (u @ c # r) \<Longrightarrow> CHR 0x00 \<notin> set r \<Longrightarrow>
     scan_delims t (int (length u)) = int (length u + length (takeWhile (\<lambda>c. c \<in> set (delim t)) r))"
proof (induction r arbitrary: u c)
  case Nil
  then show ?case using char_at_end [of t "u @ [c]"] scan_delims.simps [of t "int (length u)"] by (simp add: add.commute)
next
  case (Cons b r)
  then have "scan_delims t (int (length (u @ [c]))) = int (length (u @ [c]) + length (takeWhile (\<lambda>c. c \<in> set (delim t)) r))"
    by (intro Cons.IH) auto
  then show ?case using Cons.prems char_at_mid [of t "u @ [c]" b r] scan_delims.simps [of t "int (length u)"]
    by (auto simp: strchr_def add.commute)
qed

lemma trim_start_eq:
  "str t = Some (u @ w @ v) \<Longrightarrow> CHR 0x00 \<notin> set w \<Longrightarrow>
     trim_start t (int (length u + length w)) (int (length u)) = int (length u + length (takeWhile (\<lambda>c. c \<in> set SPACE) w))"
proof (induction w arbitrary: u)
  case Nil
  then show ?case by (simp add: trim_start.simps)
next
  case (Cons c w)
  then have "trim_start t (int (length (u @ [c]) + length w)) (int (length (u @ [c]))) =
      int (length (u @ [c]) + length (takeWhile (\<lambda>c. c \<in> set SPACE) w))"
    by (intro Cons.IH) auto
  then show ?case using Cons.prems char_at_mid [of t u c "w @ v"] trim_start.simps [of t "int (length u + length (c # w))" "int (length u)"]
    by (auto simp: strchr_def add.commute)
qed

lemma trim_end_eq:
  "str t = Some (u @ w @ v) \<Longrightarrow> CHR 0x00 \<notin> set w \<Longrightarrow>
     trim_end t (int (length u)) (int (length u + length w)) = int (length u + length (dropWhile (\<lambda>c. c \<in> set SPACE) (rev w)))"
proof (induction w arbitrary: v rule: rev_induct)
  case Nil
  then show ?case by (simp add: trim_end.simps)
next
  case (snoc c w)
  then have "trim_end t (int (length u)) (int (length u + length w)) = int (length u + length (dropWhile (\<lambda>c. c \<in> set SPACE) (rev w)))"
    by (intro snoc.IH [of "c # v"]) auto
  then show ?case using snoc.prems char_at_mid [of t "u @ w" c v] trim_end.simps [of t "int (length u)" "int (length u + length (w @ [c]))"]
    by (auto simp: strchr_def)
qed

lemma newString_eq:
  assumes "str t = Some (u @ w @ v)" and "CHR 0x00 \<notin> set w"
  shows "newString t (int (length u)) (int (length w)) = w"
proof -
  have "char_at t (int (length u + k)) = w ! k" if "k < length w" for k
    using assms(1) that by (simp add: char_at_def nth_append del: of_nat_add)
  then have "map (\<lambda>k. char_at t (int (length u) + int k)) [0..<length w] = w"
    by (intro nth_equalityI) simp_all
  moreover have "takeWhile (\<lambda>c. c \<noteq> CHR 0x00) w = w" using assms(2) unfolding takeWhile_eq_all_conv by blast
  ultimately show ?thesis by (simp add: newString_def)
qed

section \<open>The tokens an iterator sees\<close>

lemma tok_deref_eq:
  assumes s: "str t = Some (u @ w @ v)" and nz: "CHR 0x00 \<notin> set w"
    and i: "start i = int (length u)" "tokEnd i = Some (int (length u + length w))" "token i = None" "endp i \<noteq> itEnd t"
  shows "\<exists>i'. tok_deref t i = Inr (if trim t then strip_space w else w, i') \<and> endp i' = endp i \<and> tokEnd i' = tokEnd i"
proof (cases "trim t")
  case False
  then show ?thesis using newString_eq [OF s nz] i by (simp add: tok_deref_def Let_def)
next
  case True
  let ?a = "takeWhile (\<lambda>c. c \<in> set SPACE) w" and ?r = "dropWhile (\<lambda>c. c \<in> set SPACE) w"
  let ?b = "takeWhile (\<lambda>c. c \<in> set SPACE) (rev ?r)"
  have w: "w = ?a @ ?r" and r: "?r = strip_space w @ rev ?b"
    by (simp_all add: strip_space_def flip: rev_append)
  have n: "CHR 0x00 \<notin> set ?r" using nz by (auto dest: set_dropWhileD)
  then have n': "CHR 0x00 \<notin> set (strip_space w)" using r by (metis Un_iff set_append)
  have sr: "str t = Some ((u @ ?a) @ ?r @ v)" using s w by simp
  then have ss: "str t = Some ((u @ ?a) @ strip_space w @ rev ?b @ v)" using r by simp
  have l: "length u + length w = length (u @ ?a) + length ?r" using w by (metis add.assoc length_append)
  have e: "trim_end t (int (length (u @ ?a))) (int (length u + length w)) = int (length (u @ ?a) + length (strip_space w))"
    using trim_end_eq [OF sr n] unfolding l by (simp add: strip_space_def)
  show ?thesis
    using trim_start_eq [OF s nz] e newString_eq [OF ss n'] i True by (simp add: tok_deref_def Let_def)
qed

text \<open>An iterator in front of the rest of the text that is still to be cut.\<close>

lemma tok_all_rest:
  assumes "str t = Some (u @ r)" and "CHR 0x00 \<notin> set r" and "itEnd t = int (length (u @ r)) + 1"
    and "tok_next t i = Inr j" and "endp i = int (length u) - 1"
  shows "tok_all t j = Some (Inr (map (\<lambda>(w, c). (if trim t then strip_space w else w, c)) (split_tokens (skipAll t) (delim t) r)))"
  using assms
proof (induction "skipAll t" "delim t" r arbitrary: u i j rule: split_tokens.induct)
  case (1 r)
  let ?w = "takeWhile (\<lambda>c. c \<notin> set (delim t)) r" and ?f = "\<lambda>(w, c). (if trim t then strip_space w else w, c)"
  have sc: "scan_token t (int (length u)) = int (length u + length ?w)" by (rule scan_token_end [OF "1.prems"(1,2)])
  show ?case
  proof (cases "dropWhile (\<lambda>c. c \<notin> set (delim t)) r")
    case Nil
    then have w: "?w = r" by (metis append_Nil2 takeWhile_dropWhile_id)
    have ce: "char_at t (int (length u + length r)) = CHR 0x00" using char_at_end [of t "u @ r"] "1.prems"(1) by simp
    have j: "start j = int (length u)" "tokEnd j = Some (int (length u + length r))" "token j = None" "endp j = int (length u + length r)"
      using "1.prems"(3,4,5) sc w ce by (auto simp: tok_next_def Let_def)
    obtain k where k: "tok_deref t j = Inr (if trim t then strip_space r else r, k)" "endp k = endp j" "tokEnd k = tokEnd j"
      using tok_deref_eq [of t u r "[]" j] "1.prems"(1,2,3) j by auto
    have "tok_next t k = Inr (k\<lparr>token := None, start := endp k + 1, endp := endp k + 1\<rparr>)"
      using k j "1.prems"(3) by (simp add: tok_next_def Let_def)
    moreover have "tok_all t (k\<lparr>token := None, start := endp k + 1, endp := endp k + 1\<rparr>) = Some (Inr [])"
      using k j "1.prems"(3) by (simp add: tok_all.simps tok_at_end_def)
    moreover have "nextDelimiter t k = CHR 0x00" using k(3) j(2) ce by (simp add: nextDelimiter_def)
    moreover have "split_tokens (skipAll t) (delim t) r = [(r, CHR 0x00)]"
      by (subst split_tokens.simps) (simp only: Nil list.case)
    ultimately show ?thesis using k j "1.prems"(3) tok_all.simps [of t j] by (simp add: tok_at_end_def)
  next
    case (Cons c q)
    have r: "r = ?w @ c # q" using Cons by (metis takeWhile_dropWhile_id)
    have cd: "c \<in> set (delim t)" using Cons by (metis dropWhile_eq_Cons_conv)
    have cz: "c \<noteq> CHR 0x00" "CHR 0x00 \<notin> set ?w" "CHR 0x00 \<notin> set q" using "1.prems"(2) r by (metis Un_iff list.set_intros set_append)+
    let ?g = "takeWhile (\<lambda>c. c \<in> set (delim t)) q" and ?q = "if skipAll t then dropWhile (\<lambda>c. c \<in> set (delim t)) q else q"
    let ?n = "if skipAll t then ?g else []"
    have st: "str t = Some ((u @ ?w) @ c # q)" using "1.prems"(1) r by simp
    have ce: "char_at t (int (length u + length ?w)) = c" using char_at_mid [OF st] by simp
    have sd: "scan_delims t (int (length u + length ?w)) = int (length u + length ?w + length ?g)"
      using scan_delims_end [OF st cz(3)] by simp
    have "length r = length ?w + Suc (length q)" using arg_cong [OF r, of length] by simp
    moreover have "length ?n \<le> length q" by (simp add: length_takeWhile_le)
    ultimately have le: "int (length u + length ?w + length ?n) < int (length (u @ r))" by simp
    have j: "start j = int (length u)" "tokEnd j = Some (int (length u + length ?w))" "token j = None"
        "endp j = int (length u + length ?w + length ?n)"
      using "1.prems"(3,4,5) sc ce cz(1) sd by (auto simp: tok_next_def Let_def)
    obtain k where k: "tok_deref t j = Inr (if trim t then strip_space ?w else ?w, k)" "endp k = endp j" "tokEnd k = tokEnd j"
      using tok_deref_eq [of t u ?w "c # q" j] st cz(2) "1.prems"(3) j le by auto
    have nd: "nextDelimiter t k = c" using k(3) j(2) ce by (simp add: nextDelimiter_def)
    obtain l where l: "tok_next t k = Inr l" using k(2) j(4) le "1.prems"(3) by (auto simp: tok_next_def Let_def)
    have sq: "u @ r = (u @ ?w @ c # ?n) @ ?q" using r by simp
    have "tok_all t l = Some (Inr (map ?f (split_tokens (skipAll t) (delim t) ?q)))"
    proof (rule "1.hyps" [OF Cons _ _ _ l])
      show "str t = Some ((u @ ?w @ c # ?n) @ ?q)" using "1.prems"(1) sq by metis
      show "CHR 0x00 \<notin> set ?q" using cz(3) by (auto dest: set_dropWhileD)
      show "itEnd t = int (length ((u @ ?w @ c # ?n) @ ?q)) + 1" using "1.prems"(3) sq by metis
      show "endp k = int (length (u @ ?w @ c # ?n)) - 1" using k(2) j(4) by simp
    qed
    moreover have "split_tokens (skipAll t) (delim t) r = (?w, c) # split_tokens (skipAll t) (delim t) ?q"
      by (subst split_tokens.simps) (simp only: Cons list.case)
    moreover have "\<not> tok_at_end t j" using j(4) le "1.prems"(3) by (simp add: tok_at_end_def)
    ultimately show ?thesis using k(1) l nd tok_all.simps [of t j] by simp
  qed
qed

lemma StringTokenizer_tokens_eq:
  assumes "CHR 0x00 \<notin> set s"
  shows "StringTokenizer_tokens (StringTokenizer_new (Some s) d sk tr) =
    Some (Inr (map (\<lambda>(w, c). (if tr then strip_space w else w, c)) (split_tokens sk d s)))"
proof -
  let ?t = "StringTokenizer_new (Some s) d sk tr" and ?i = "\<lparr>start = 0, tokEnd = None, endp = -1, token = None\<rparr>"
  have t: "str ?t = Some ([] @ s)" "itEnd ?t = int (length ([] @ s)) + 1" "delim ?t = d" "skipAll ?t = sk" "trim ?t = tr"
    by (simp_all add: StringTokenizer_new_def)
  obtain j where j: "tok_next ?t ?i = Inr j" using t by (auto simp: tok_next_def Let_def)
  have "tok_all ?t j = Some (Inr (map (\<lambda>(w, c). (if trim ?t then strip_space w else w, c)) (split_tokens (skipAll ?t) (delim ?t) s)))"
    by (rule tok_all_rest [OF t(1) assms t(2) j]) simp
  then show ?thesis using j t by (simp add: StringTokenizer_tokens_def tok_begin_def)
qed

text \<open>
  The iterators of a tokenizer see exactly the pieces of the text between its delimiters, each with the delimiter behind it, stripped of
  white space when the tokenizer trims: the loop from \<open>begin\<close> to \<open>end\<close> ends for every text, and throws nothing.
\<close>

theorem StringTokenizer_splits:
  "CHR 0x00 \<notin> set s \<Longrightarrow>
     StringTokenizer_tokens (StringTokenizer_new (Some s) d sk tr) =
       Some (Inr (map (\<lambda>(w, c). (if tr then strip_space w else w, c)) (split_tokens sk d s))) \<and>
     StringTokenizer_tokens (StringTokenizer_new None d sk tr) = Some (Inr [])"
  using StringTokenizer_tokens_eq
  by (simp add: StringTokenizer_tokens_def tok_begin_def tok_next_def Let_def StringTokenizer_new_def tok_all.simps tok_at_end_def)

theorem StringTokenizer_splits_witness:
  "StringTokenizer_tokens (StringTokenizer_new (Some ''a, b;;c'') '',;'' False True) =
     Some (Inr [(''a'', CHR '',''), (''b'', CHR '';''), ('''', CHR '';''), (''c'', CHR 0x00)])"
  using StringTokenizer_splits [of "''a, b;;c''" "'',;''" False True]
  by (simp add: split_tokens.simps strip_space_def SPACE_def)

text \<open>
  Words with delimiters between them, and what is to be read back: each word, trimmed if asked, with the first delimiter behind it.
  A group of delimiters counts as one only if the tokenizer skips them. There is no empty word where the documentation promises that
  none is seen: when delimiters are skipped, or when words are trimmed and white space is a delimiter.
\<close>

fun glue :: "string \<Rightarrow> (string \<times> string) list \<Rightarrow> string" where
  "glue w [] = w"
| "glue w ((g, v) # gs) = w @ g @ glue v gs"

fun glued :: "string \<Rightarrow> (string \<times> string) list \<Rightarrow> (string \<times> char) list" where
  "glued w [] = [(w, CHR 0x00)]"
| "glued w ((g, v) # gs) = (w, hd g) # glued v gs"

definition word_ok :: "bool \<Rightarrow> bool \<Rightarrow> string \<Rightarrow> string \<Rightarrow> bool" where
  "word_ok sk tr d w \<longleftrightarrow>
     set w \<inter> set d = {} \<and> CHR 0x00 \<notin> set w \<and> (sk \<or> tr \<and> set d \<inter> set SPACE \<noteq> {} \<longrightarrow> w \<noteq> [])"

fun glue_ok :: "bool \<Rightarrow> bool \<Rightarrow> string \<Rightarrow> string \<Rightarrow> (string \<times> string) list \<Rightarrow> bool" where
  "glue_ok sk tr d w [] \<longleftrightarrow> word_ok sk tr d w"
| "glue_ok sk tr d w ((g, v) # gs) \<longleftrightarrow>
     word_ok sk tr d w \<and> CHR 0x00 \<notin> set g \<and> g \<noteq> [] \<and> set g \<subseteq> set d \<and> (sk \<or> length g = 1) \<and> glue_ok sk tr d v gs"

lemma glue_nul: "glue_ok sk tr d w gs \<Longrightarrow> CHR 0x00 \<notin> set (glue w gs)"
  by (induction gs arbitrary: w) (auto simp: word_ok_def)

lemma glue_word: "glue_ok sk tr d w gs \<Longrightarrow> word_ok sk tr d w"
  by (cases gs) auto

lemma glue_head: "glue_ok sk tr d w gs \<Longrightarrow> w \<noteq> [] \<Longrightarrow> glue w gs \<noteq> [] \<and> hd (glue w gs) \<notin> set d"
  by (cases gs; cases w) (auto simp: word_ok_def)

lemma split_glue: "glue_ok sk tr d w gs \<Longrightarrow> split_tokens sk d (glue w gs) = glued w gs"
proof (induction gs arbitrary: w)
  case Nil
  then have e: "dropWhile (\<lambda>c. c \<notin> set d) w = []" by (auto simp: word_ok_def)
  show ?case by (subst split_tokens.simps) (simp only: glue.simps glued.simps e list.case)
next
  case (Cons p gs)
  obtain g v where p: "p = (g, v)" by (cases p)
  obtain c g' where g: "g = c # g'" "c \<in> set d" "set g' \<subseteq> set d" using Cons.prems p by (cases g) auto
  have w: "\<And>x. x \<in> set w \<Longrightarrow> x \<notin> set d" using Cons.prems p by (auto simp: word_ok_def)
  have d: "dropWhile (\<lambda>c. c \<notin> set d) (w @ c # g' @ glue v gs) = c # g' @ glue v gs"
      "takeWhile (\<lambda>c. c \<notin> set d) (w @ c # g' @ glue v gs) = w"
    using w g(2) by (simp_all add: dropWhile_append2 takeWhile_append2)
  have "(if sk then dropWhile (\<lambda>c. c \<in> set d) (g' @ glue v gs) else g' @ glue v gs) = glue v gs"
  proof (cases sk)
    case True
    then have "v \<noteq> []" using glue_word [of sk tr d v gs] Cons.prems p by (auto simp: word_ok_def)
    then have "dropWhile (\<lambda>c. c \<in> set d) (glue v gs) = glue v gs"
      using glue_head [of sk tr d v gs] Cons.prems p by (cases "glue v gs") auto
    then show ?thesis using True g(3) by (simp add: dropWhile_append2 subset_iff)
  qed (use Cons.prems p g in simp)
  moreover have "split_tokens sk d (glue w (p # gs)) =
      (w, c) # split_tokens sk d (if sk then dropWhile (\<lambda>c. c \<in> set d) (g' @ glue v gs) else g' @ glue v gs)"
    unfolding p g(1) glue.simps append_Cons by (subst split_tokens.simps) (simp only: d list.case)
  ultimately show ?case using Cons p g(1) by simp
qed

text \<open>
  C38: Words that are written with single delimiters between them, or with groups of delimiters when the tokenizer skips them, are read
  back in order by the loop from \<open>begin\<close> to \<open>end\<close>, which ends and throws nothing: each word, without the white space around it when
  the tokenizer trims, and with it the first delimiter behind it, NUL behind the last. Words hold no delimiter and no NUL, and are
  not empty when the tokenizer skips delimiters, or trims and has white space among them.
\<close>

theorem StringTokenizer_words_back:
  assumes "glue_ok sk tr d w gs"
  shows "StringTokenizer_tokens (StringTokenizer_new (Some (glue w gs)) d sk tr) =
    Some (Inr (map (\<lambda>(w, c). (if tr then strip_space w else w, c)) (glued w gs)))"
  using StringTokenizer_tokens_eq [OF glue_nul [OF assms]] split_glue [OF assms] by simp

theorem StringTokenizer_words_back_witness:
  "StringTokenizer_tokens (StringTokenizer_new (Some ''one,; two;three'') '',;'' True True) =
     Some (Inr [(''one'', CHR '',''), (''two'', CHR '';''), (''three'', CHR 0x00)])"
  using StringTokenizer_words_back [of True True "'',;''" "''one''" "[('',;'', '' two''), ('';'', ''three'')]"]
  by (simp add: word_ok_def strip_space_def SPACE_def)

text \<open>Unlike \<open>strtok\<close>, a tokenizer that skips delimiters sees an empty token before a leading and behind a trailing delimiter.\<close>

lemma StringTokenizer_edges:
  "StringTokenizer_tokens (StringTokenizer_new (Some '' a '') '' '' True False) =
     Some (Inr [('''', CHR '' ''), (''a'', CHR '' ''), ('''', CHR 0x00)])"
  by (simp add: StringTokenizer_tokens_eq split_tokens.simps)

text \<open>With white space as delimiters and trimming, two blanks in a row still give an empty token.\<close>

lemma StringTokenizer_space_empty:
  "StringTokenizer_tokens (StringTokenizer_words (Some ''a  b'')) = Some (Inr [(''a'', CHR '' ''), ('''', CHR '' ''), (''b'', CHR 0x00)])"
  by (simp add: StringTokenizer_words_def StringTokenizer_tokens_eq split_tokens.simps strip_space_def SPACE_def)

end
