(* ===== verification/Counters.thy ===== *)
theory Counters
  imports Prelude
begin

text \<open>
  Counters of \<open>corelib/counter.cpp\<close>, and the shared reference \<open>SharedRef\<close> of \<open>corelib/shared.cpp\<close>. Counters are 32 bit words. For a
  shared reference the state has the references of its clients too, as a list of pointers, and the counters of the objects.
\<close>

section \<open>Counters\<close>

record counter =
  cycle :: "32 word"
  counter_value :: "32 word"

definition counter_new :: counter where
  "counter_new = \<lparr>cycle = 0, counter_value = 0\<rparr>"

definition counter_new_limit :: "32 word \<Rightarrow> counter" where
  "counter_new_limit n = \<lparr>cycle = n, counter_value = 0\<rparr>"

definition counter_assign :: "32 word \<Rightarrow> counter \<Rightarrow> counter" where
  "counter_assign v c = (if cycle c = 0 \<or> v < cycle c then c\<lparr>counter_value := v\<rparr> else c)"

definition counter_get :: "counter \<Rightarrow> 32 word \<times> counter" where
  "counter_get c =
     (let v = counter_value c; c = c\<lparr>counter_value := counter_value c + 1\<rparr>
      in (v, if cycle c \<noteq> 0 \<and> cycle c \<le> counter_value c then c\<lparr>counter_value := 0\<rparr> else c))"

definition toggle_get :: "bool \<Rightarrow> bool \<times> bool" where
  "toggle_get v = (v, if v then False else True)"

text \<open>A sequence over an array: the byte offset of the member from the begin of the array.\<close>

definition SeqCounter_get :: "64 word \<Rightarrow> counter \<Rightarrow> 64 word \<times> counter" where
  "SeqCounter_get offset c = (case counter_get c of (pos, c) \<Rightarrow> (ucast pos * offset, c))"

definition SeqCounter_at :: "64 word \<Rightarrow> 32 word \<Rightarrow> counter \<Rightarrow> 64 word option" where
  "SeqCounter_at offset pos c = (if cycle c \<le> pos then None else Some (ucast pos * offset))"

fun counter_gets :: "nat \<Rightarrow> counter \<Rightarrow> 32 word list" where
  "counter_gets 0 c = []"
| "counter_gets (Suc k) c = (case counter_get c of (v, c) \<Rightarrow> v # counter_gets k c)"

definition counter_ok :: "counter \<Rightarrow> bool" where
  "counter_ok c \<longleftrightarrow> cycle c = 0 \<or> counter_value c < cycle c"

definition period :: "counter \<Rightarrow> nat" where
  "period c = (if cycle c = 0 then 2 ^ 32 else unat (cycle c))"

lemma counter_ok_new: "counter_ok counter_new" "0 < n \<Longrightarrow> counter_ok (counter_new_limit n)"
  by (auto simp: counter_ok_def counter_new_def counter_new_limit_def word_gt_0)

lemma counter_ok_assign: "counter_ok c \<Longrightarrow> counter_ok (counter_assign v c) \<and> cycle (counter_assign v c) = cycle c"
  by (auto simp: counter_ok_def counter_assign_def)

lemma period_pos: "0 < period c"
  by (auto simp: period_def unat_gt_0)

lemma value_less_period: "counter_ok c \<Longrightarrow> unat (counter_value c) < period c"
  using unsigned_less [of "counter_value c", where ?'a = nat] by (auto simp: counter_ok_def period_def word_less_nat_alt)

lemma counter_get_next:
  assumes "counter_ok c"
  shows "fst (counter_get c) = counter_value c" "counter_ok (snd (counter_get c))" "cycle (snd (counter_get c)) = cycle c"
    "unat (counter_value (snd (counter_get c))) = (unat (counter_value c) + 1) mod period c"
proof -
  let ?v = "counter_value c"
  show "fst (counter_get c) = ?v" "cycle (snd (counter_get c)) = cycle c" by (simp_all add: counter_get_def Let_def)
  show ok: "counter_ok (snd (counter_get c))" by (auto simp: counter_get_def Let_def counter_ok_def word_gt_0)
  show "unat (counter_value (snd (counter_get c))) = (unat ?v + 1) mod period c"
  proof (cases "cycle c = 0")
    case True
    then show ?thesis by (simp add: counter_get_def Let_def period_def unat_word_ariths)
  next
    case False
    then have l: "unat ?v < unat (cycle c)" using assms by (simp add: counter_ok_def word_less_nat_alt)
    then have "unat (?v + 1) = unat ?v + 1"
      using unsigned_less [of "cycle c", where ?'a = nat] by (simp add: unat_word_ariths)
    moreover have "(unat ?v + 1) mod unat (cycle c) = (if unat (cycle c) \<le> unat ?v + 1 then 0 else unat ?v + 1)"
      using l by (cases "unat (cycle c) = unat ?v + 1") auto
    ultimately show ?thesis using False by (simp add: counter_get_def Let_def period_def word_le_nat_alt)
  qed
qed

text \<open>A counter with a limit counts from its value up to the limit and starts again at 0; one without a limit uses all values of its type.\<close>

lemma counter_gets_mod:
  "counter_ok c \<Longrightarrow> map unat (counter_gets k c) = map (\<lambda>i. (unat (counter_value c) + i) mod period c) [0..<k]"
proof (induction k arbitrary: c)
  case (Suc k)
  obtain v c' where g: "counter_get c = (v, c')" by (cases "counter_get c")
  have n: "v = counter_value c" "counter_ok c'" "cycle c' = cycle c" "unat (counter_value c') = (unat (counter_value c) + 1) mod period c"
    using counter_get_next [OF Suc.prems] g by auto
  have p: "period c' = period c" using n(3) by (simp add: period_def)
  have "map unat (counter_gets k c') = map (\<lambda>i. (unat (counter_value c) + Suc i) mod period c) [0..<k]"
    using Suc.IH [OF n(2)] n(4) p by (simp add: mod_simps)
  then show ?case
    using g n(1) value_less_period [OF Suc.prems] by (simp add: upt_conv_Cons map_Suc_upt [symmetric] comp_def del: upt_Suc)
qed simp

lemma SeqCounter_inside:
  assumes "counter_ok c" and "cycle c \<noteq> 0" and "0 < offset" and "unat (cycle c) * unat offset < 2 ^ 64"
  shows "unat (fst (SeqCounter_get offset c)) + unat offset \<le> unat (cycle c) * unat offset"
proof -
  have l: "unat (counter_value c) < unat (cycle c)" using assms(1,2) by (simp add: counter_ok_def word_less_nat_alt)
  then have le: "unat (counter_value c) * unat offset + unat offset \<le> unat (cycle c) * unat offset"
    by (metis Suc_leI add.commute mult_Suc mult_le_mono1)
  have "unat (ucast (counter_value c) * offset :: 64 word) = unat (counter_value c) * unat offset"
  proof -
    have "unat (ucast (counter_value c) :: 64 word) = unat (counter_value c)"
      using unsigned_less [of "counter_value c", where ?'a = nat] by (simp add: unsigned_ucast_eq take_bit_nat_eq_self)
    then show ?thesis using le assms(4) by (simp add: unat_word_ariths)
  qed
  moreover have "fst (SeqCounter_get offset c) = ucast (counter_value c) * offset"
    using counter_get_next(1) [OF assms(1)] by (cases "counter_get c") (simp add: SeqCounter_get_def)
  ultimately show ?thesis using le by simp
qed

section \<open>Shared references\<close>

record sharedref =
  shared_ref :: ptr
  clients :: "ptr list"
  counts :: "addr \<Rightarrow> int"

definition ref_retain :: "ptr \<Rightarrow> sharedref \<Rightarrow> sharedref" where
  "ref_retain p s = (case p of None \<Rightarrow> s | Some a \<Rightarrow> s\<lparr>counts := (counts s)(a := counts s a + 1)\<rparr>)"

definition ref_release :: "ptr \<Rightarrow> sharedref \<Rightarrow> sharedref" where
  "ref_release p s = (case p of None \<Rightarrow> s | Some a \<Rightarrow> s\<lparr>counts := (counts s)(a := counts s a - 1)\<rparr>)"

definition SharedRef_get :: "sharedref \<Rightarrow> sharedref" where
  "SharedRef_get s = (ref_retain (shared_ref s) s)\<lparr>clients := clients s @ [shared_ref s]\<rparr>"

definition SharedRef_set :: "nat \<Rightarrow> sharedref \<Rightarrow> sharedref" where
  "SharedRef_set i s =
     (let old = shared_ref s; s = s\<lparr>shared_ref := clients s ! i\<rparr>; s = ref_retain (shared_ref s) s in ref_release old s)"

definition SharedRef_put :: "nat \<Rightarrow> sharedref \<Rightarrow> sharedref" where
  "SharedRef_put i s = s\<lparr>clients := (clients s)[i := shared_ref s]\<rparr>"

definition counts_ok :: "sharedref \<Rightarrow> bool" where
  "counts_ok s \<longleftrightarrow> (\<forall>a. counts s a = int (count_list (shared_ref s # clients s) (Some a)))"

lemma SharedRef_get_counts: "counts_ok s \<Longrightarrow> counts_ok (SharedRef_get s)"
  by (auto simp: counts_ok_def SharedRef_get_def ref_retain_def split: option.split)

lemma SharedRef_set_counts: "counts_ok s \<Longrightarrow> i < length (clients s) \<Longrightarrow> counts_ok (SharedRef_set i s)"
  by (auto simp: counts_ok_def SharedRef_set_def ref_retain_def ref_release_def Let_def split: option.split)

text \<open>\<open>put\<close> copies the pointer without counting it: the object is released once for every pointer, more often than it was retained.\<close>

lemma SharedRef_put_uncounted:
  "counts_ok s \<Longrightarrow> i < length (clients s) \<Longrightarrow> clients s ! i = None \<Longrightarrow> shared_ref s = Some a \<Longrightarrow>
     counts (SharedRef_put i s) a < int (count_list (shared_ref (SharedRef_put i s) # clients (SharedRef_put i s)) (Some a))"
proof -
  assume c: "counts_ok s" "i < length (clients s)" "clients s ! i = None" "shared_ref s = Some a"
  have s: "clients s = take i (clients s) @ None # drop (Suc i) (clients s)" using id_take_nth_drop [OF c(2)] c(3) by simp
  have "count_list (clients s) (Some a) = count_list (take i (clients s) @ None # drop (Suc i) (clients s)) (Some a)"
    using s by (rule arg_cong)
  moreover have "(clients s)[i := Some a] = take i (clients s) @ Some a # drop (Suc i) (clients s)"
    using c(2) by (simp add: upd_conv_take_nth_drop)
  ultimately show ?thesis using c(1,4) by (simp add: SharedRef_put_def counts_ok_def)
qed

end
