(* ===== verification/Spec2Isabelle.thy ===== *)
theory Spec2Isabelle
  imports DLinked Named Utf8 Calendar Access RWLock Semaphore Barrier RecursiveMutex ArrayRef Codec StringRef PagedList Keydata Cidr Reuse CondLock Shell Xml Timers MapRef MapTable ChainList Tokenizer Counters
begin

text \<open>
  Verification of GNU uCommon C++, the core classes under \<open>src/corelib\<close> and \<open>src/inc/ucommon\<close>.

  \<^bold>\<open>The program.\<close> uCommon is a class library. Its lowest layer links objects into lists and hash
  indexes (\<open>linked.cpp\<close>), counts references to shared objects (\<open>object.cpp\<close>, \<open>typeref.cpp\<close>,
  \<open>arrayref.cpp\<close>) and synchronises threads with conditions (\<open>condition.cpp\<close>, \<open>thread.cpp\<close>). On top of
  it stand the strings, which are reference counted objects with a fixed buffer (\<open>string.cpp\<close>),
  text codecs (\<open>unicode.cpp\<close>, the static functions of \<open>string.cpp\<close>), numbers and dates in character
  fields (\<open>numbers.cpp\<close>, \<open>datetime.cpp\<close>), private heaps and pools (\<open>memory.cpp\<close>, \<open>reuse.cpp\<close>) and
  configuration files (\<open>keydata.cpp\<close>). Most of the rest of the repository (sockets, files, serial lines,
  processes, cryptography) wraps operating system services.

  \<^bold>\<open>Theories.\<close>
  \<^item> \<open>Prelude\<close>: pointers as options of addresses, chains of links, counts, reachable states of a step
    relation (a locale with its invariant rule), waking of threads.
  \<^item> \<open>Linked\<close>, \<open>DLinked\<close>, \<open>Named\<close> model \<open>linked.cpp\<close> on an explicit store of links. The index with
    head and tail refines a list; the double linked list refines a list; the hash index refines
    a map from names to objects, with what happens to objects that are replaced.
  \<^item> \<open>TypeRef\<close>, \<open>ArrayRef\<close> model \<open>typeref.cpp\<close> and \<open>arrayref.cpp\<close>: the counter of an object is the
    number of references to it, objects are deallocated once, queues and stacks keep their order.
  \<^item> \<open>Access\<close>, \<open>RWLock\<close>, \<open>Semaphore\<close>, \<open>Barrier\<close>, \<open>RecursiveMutex\<close> model the synchronisation classes
    as step relations. A step is what one thread does between taking and leaving the internal mutex
    of the condition; signals choose any sleeper and threads may wake spuriously. Shown are
    mutual exclusion, the meaning of the counters, and that no wakeup is lost. \<open>Semaphore\<close> and \<open>Barrier\<close> have
    auxiliary fields that only the steps write, which record what was handed out and who left early, so that the
    counters of the classes can be compared with what happened.
  \<^item> \<open>Utf8\<close>, \<open>Codec\<close> model the codecs of \<open>unicode.cpp\<close> and \<open>string.cpp\<close> on words of 8, 16, 24
    and 32 bits: round trips, bounds on what is written, searching, error detection of the checksum.
  \<^item> \<open>Buffer\<close>, \<open>CString\<close>, \<open>StringRef\<close> model \<open>string.cpp\<close> in three layers: functions on terminated
    character arrays, string objects with length and limit, and \<open>String\<close> values that share
    objects. Each layer is shown to refine lists of characters; \<open>StringRef\<close> rests on \<open>CString\<close>
    for the texts and on the reference counts for the sharing.
  \<^item> \<open>Numbers\<close>, \<open>Calendar\<close>, \<open>Doubles\<close> model \<open>numbers.cpp\<close> and \<open>datetime.cpp\<close>: printing and reading
    back numbers, dates and times, and agreement with the Gregorian calendar.

  \<^item> \<open>Pager\<close>, \<open>PagedList\<close> model \<open>memory.cpp\<close>: a pager cuts blocks from pages of memory, and lists of
    texts and objects live in its blocks. For page sizes that are multiples of the pointer size blocks never
    overlap, and the lists refine lists of texts except when memory runs out.
  \<^item> \<open>Keydata\<close> models \<open>keydata.cpp\<close>: sections of keys with values and the files they are saved to and
    loaded from. The sections refine maps, loading ends for every text, and what is saved is loaded back as far as
    the text format can express it.
  \<^item> \<open>Cidr\<close> models the network blocks of \<open>socket.cpp\<close> on bytes; the functions of the system that read
    addresses are parameters.
  \<^item> \<open>Reuse\<close> models the pools of reusable objects of \<open>reuse.cpp\<close> and \<open>CondLock\<close> the lock of
    \<open>condition.cpp\<close> that keeps a context for every thread, both as step relations.
  \<^item> \<open>Shell\<close> models the command line of \<open>shell.cpp\<close>: options with their long and short forms, the
    splitting of a text into arguments, and the symbols of a shell. A command line written for a list of
    options is read as it is meant.
  \<^item> \<open>Xml\<close> models the parser of \<open>commoncpp/xml.cpp\<close> as a state machine on characters with its buffer of
    fixed size and the callbacks it makes. Documents of elements, text and quoted attributes that fit the buffer are
    read as they are written; the other forms have defects, which are stated.
  \<^item> \<open>Timers\<close> models \<open>timer.cpp\<close>: timers on a clock with seconds and nanoseconds, and queues of events,
    whose \<open>expire\<close> calls the events that are due.
  \<^item> \<open>MapRef\<close> models \<open>mapref.cpp\<close> and the templates of \<open>mapref.h\<close> on the links of \<open>Linked\<close>: tables of chains
    of nodes that hold references, with iterators. The table refines lists of entries, \<open>mapref\<close> refines a map from
    texts to values and \<open>listref\<close> a list.
  \<^item> \<open>MapTable\<close>, \<open>ChainList\<close>, \<open>Tokenizer\<close> model \<open>commoncpp/map.cpp\<close>, \<open>linked.cpp\<close> and \<open>tokenizer.cpp\<close>: tables of named
    objects, which refine sets of objects and use the lemmas on tables of chains of \<open>MapRef\<close>, double linked chains without a root,
    which refine lists, and tokenizers, whose loop is shown to read back words written between delimiters.
  \<^item> \<open>Counters\<close> models \<open>counter.cpp\<close>, counters that start again at a limit, and the shared reference of \<open>shared.cpp\<close>.

  \<^bold>\<open>Conventions.\<close> C arrays are lists, and every write states what happens inside the bounds only;
  lemmas show that writes are inside. A \<open>size_t\<close> of 64 bits is a natural number; where a sum or a difference
  takes a size or an offset of the caller it wraps around as in the code (\<open>size_add\<close>, \<open>size_minus\<close> of \<open>Buffer\<close>),
  while sums of the lengths of texts in memory cannot. A pointer is an address option. A function of the source that
  asserts, throws or returns a null pointer has a branch in the model. Loops are structural recursion,
  or recursion with a measure on the remaining text; where a loop follows links in the store it has
  fuel, and a lemma gives enough fuel for every store that satisfies the invariant.

  \<^bold>\<open>Not modelled.\<close> Operating system services (sockets, file system, serial lines, processes, shared
  libraries, memory maps), cryptographic libraries, formatted output and input by \<open>printf\<close> and \<open>scanf\<close>,
  locale dependent comparison, most compatibility classes of \<open>src/commoncpp\<close> (files, sockets, threads,
  logging), and the tools and tests.
\<close>

end
